(* ===== verification/Rust_Base.thy ===== *)
theory Rust_Base
  imports Main "HOL-Library.Char_ord" "HOL-Library.List_Lexorder" "HOL-Library.Sublist"
begin

text \<open>
  The prelude of the development: the fragment of the Rust standard library that the modelled
  code calls, and the lemmas and collections that the component theories share.

  A Rust \<open>String\<close> or \<open>&str\<close> is the list of its UTF-8 bytes, one \<^typ>\<open>char\<close> per byte, so
  \<^term>\<open>length\<close> is \<open>str::len\<close> and every ASCII test of the source reads one element.  Where the
  source iterates over \<open>chars()\<close> the model has code points, \<^typ>\<open>nat list\<close>, and \<open>utf8\<close> is the
  encoding between the two.  \<open>Result<T, E>\<close> is \<open>'e + 'a\<close> with the error on the left.
\<close>

section \<open>Named collections\<close>

named_theorems ascii_simps \<open>the ASCII tests, unfolded on a byte\<close>

type_synonym ('a, 'e) result = "'e + 'a"
type_synonym bytes = string

abbreviation Ok :: "'a \<Rightarrow> ('a, 'e) result" where
  "Ok x \<equiv> Inr x"
abbreviation Err :: "'e \<Rightarrow> ('a, 'e) result" where
  "Err e \<equiv> Inl e"

text \<open>The \<open>?\<close> operator of the source on a \<open>Result\<close>.\<close>

fun and_then :: "('a, 'e) result \<Rightarrow> ('a \<Rightarrow> ('b, 'e) result) \<Rightarrow> ('b, 'e) result" where
  "and_then (Inl e) f = Inl e"
| "and_then (Inr x) f = f x"

lemma and_then_Inr: "and_then r f = Inr y \<longleftrightarrow> (\<exists>x. r = Inr x \<and> f x = Inr y)"
  by (cases r) auto

lemma and_then_Inl: "and_then r f = Inl e \<longleftrightarrow> r = Inl e \<or> (\<exists>x. r = Inr x \<and> f x = Inl e)"
  by (cases r) auto

section \<open>Bytes\<close>

definition code :: "char \<Rightarrow> nat" where
  "code c = of_char c"

definition byte :: "nat \<Rightarrow> char" where
  "byte n = char_of n"

lemma code_less [simp]: "code c < 256"
  by (simp add: code_def)

lemma code_byte [simp]: "n < 256 \<Longrightarrow> code (byte n) = n"
  by (simp add: code_def byte_def)

lemma byte_code [simp]: "byte (code c) = c"
  by (simp add: code_def byte_def)

lemma code_inject [simp]: "code c = code d \<longleftrightarrow> c = d"
  by (metis byte_code)

lemma eq_byte: "n < 256 \<Longrightarrow> c = byte n \<longleftrightarrow> code c = n"
  by (metis byte_code code_byte)

lemma byte_eq: "n < 256 \<Longrightarrow> byte n = c \<longleftrightarrow> code c = n"
  by (metis byte_code code_byte)

definition is_upper :: "char \<Rightarrow> bool" where
  [ascii_simps]: "is_upper c \<longleftrightarrow> 65 \<le> code c \<and> code c \<le> 90"
definition is_lower :: "char \<Rightarrow> bool" where
  [ascii_simps]: "is_lower c \<longleftrightarrow> 97 \<le> code c \<and> code c \<le> 122"
definition is_digit :: "char \<Rightarrow> bool" where
  [ascii_simps]: "is_digit c \<longleftrightarrow> 48 \<le> code c \<and> code c \<le> 57"
definition is_alpha :: "char \<Rightarrow> bool" where
  [ascii_simps]: "is_alpha c \<longleftrightarrow> is_upper c \<or> is_lower c"
definition is_alnum :: "char \<Rightarrow> bool" where
  [ascii_simps]: "is_alnum c \<longleftrightarrow> is_alpha c \<or> is_digit c"
definition is_hexdigit :: "char \<Rightarrow> bool" where
  [ascii_simps]: "is_hexdigit c \<longleftrightarrow> is_digit c \<or> (65 \<le> code c \<and> code c \<le> 70) \<or> (97 \<le> code c \<and> code c \<le> 102)"

text \<open>\<open>u8::is_ascii_whitespace\<close>: space, tab, line feed, form feed, carriage return.\<close>

definition is_space :: "char \<Rightarrow> bool" where
  [ascii_simps]: "is_space c \<longleftrightarrow> code c \<in> {32, 9, 10, 12, 13}"

definition upper :: "char \<Rightarrow> char" where
  "upper c = (if is_lower c then byte (code c - 32) else c)"
definition lower :: "char \<Rightarrow> char" where
  "lower c = (if is_upper c then byte (code c + 32) else c)"
definition ascii_upper :: "string \<Rightarrow> string" where
  "ascii_upper s = map upper s"
definition ascii_lower :: "string \<Rightarrow> string" where
  "ascii_lower s = map lower s"
definition eq_ignore_case :: "string \<Rightarrow> string \<Rightarrow> bool" where
  "eq_ignore_case s t \<longleftrightarrow> ascii_lower s = ascii_lower t"

lemma code_upper: "code (upper c) = (if is_lower c then code c - 32 else code c)"
  using code_less [of c] by (auto simp: upper_def ascii_simps intro!: code_byte)

lemma code_lower: "code (lower c) = (if is_upper c then code c + 32 else code c)"
  by (simp add: lower_def ascii_simps)

text \<open>A byte is a given ASCII character when its code is; the literals the scanners compare with.\<close>

lemma char_eq_code: "c = d \<longleftrightarrow> code c = code d"
  by simp

lemmas eq_char_code =
  char_eq_code [of _ "CHR ''_''"] char_eq_code [of _ "CHR ''.''"] char_eq_code [of _ "CHR '':''"]
  char_eq_code [of _ "CHR ''-''"] char_eq_code [of _ "CHR ''/''"] char_eq_code [of _ "CHR ''%''"]

lemma code_literal:
  "code (CHR ''_'') = 95" "code (CHR ''.'') = 46" "code (CHR '':'') = 58" "code (CHR ''-'') = 45"
  "code (CHR ''/'') = 47" "code (CHR ''%'') = 37"
  by (simp_all add: code_def)

lemma length_ascii_upper [simp]: "length (ascii_upper s) = length s"
  by (simp add: ascii_upper_def)

section \<open>Strings\<close>

fun starts_with :: "string \<Rightarrow> string \<Rightarrow> bool" where
  "starts_with s [] = True"
| "starts_with [] (p # ps) = False"
| "starts_with (c # s) (p # ps) = (c = p \<and> starts_with s ps)"

definition ends_with :: "string \<Rightarrow> string \<Rightarrow> bool" where
  "ends_with s t \<longleftrightarrow> starts_with (rev s) (rev t)"

definition strip_prefix :: "string \<Rightarrow> string \<Rightarrow> string option" where
  "strip_prefix s p = (if starts_with s p then Some (drop (length p) s) else None)"

lemma starts_with_prefix: "starts_with s p \<longleftrightarrow> prefix p s"
  by (induction s p rule: starts_with.induct) auto

lemma starts_with_iff: "starts_with s p \<longleftrightarrow> (\<exists>r. s = p @ r)"
  by (simp add: starts_with_prefix prefix_def)

lemma ends_with_iff: "ends_with s t \<longleftrightarrow> (\<exists>r. s = r @ t)"
  by (simp add: ends_with_def starts_with_prefix suffix_to_prefix [symmetric] suffix_def)

lemma starts_with_append [simp]: "starts_with (p @ r) p"
  by (auto simp: starts_with_iff)

lemma strip_prefix_append [simp]: "strip_prefix (p @ r) p = Some r"
  by (simp add: strip_prefix_def)

lemma strip_prefix_Some: "strip_prefix s p = Some r \<longleftrightarrow> s = p @ r"
  by (auto simp: strip_prefix_def starts_with_iff)

text \<open>Index of the first element that satisfies a predicate (\<open>str::find\<close> with a \<open>char\<close> pattern).\<close>

fun find_index :: "('a \<Rightarrow> bool) \<Rightarrow> 'a list \<Rightarrow> nat option" where
  "find_index P [] = None"
| "find_index P (x # xs) = (if P x then Some 0 else map_option Suc (find_index P xs))"

lemma find_index_None: "find_index P xs = None \<longleftrightarrow> (\<forall>x \<in> set xs. \<not> P x)"
  by (induction xs) auto

lemma find_index_Some:
  "find_index P xs = Some i \<longleftrightarrow> i < length xs \<and> P (xs ! i) \<and> (\<forall>j < i. \<not> P (xs ! j))"
proof (induction xs arbitrary: i)
  case Nil
  then show ?case by simp
next
  case (Cons x xs)
  show ?case
  proof (cases i)
    case 0
    then show ?thesis by auto
  next
    case (Suc k)
    then show ?thesis using Cons.IH [of k] by (auto simp: less_Suc_eq_0_disj)
  qed
qed

text \<open>Byte index of the first occurrence of a substring (\<open>str::find\<close> with a string pattern).\<close>

fun find_sub :: "string \<Rightarrow> string \<Rightarrow> nat option" where
  "find_sub pat [] = (if pat = [] then Some 0 else None)"
| "find_sub pat (c # s) = (if starts_with (c # s) pat then Some 0 else map_option Suc (find_sub pat s))"

definition contains :: "string \<Rightarrow> string \<Rightarrow> bool" where
  "contains s pat \<longleftrightarrow> find_sub pat s \<noteq> None"

lemma find_sub_Some: "find_sub pat s = Some i \<Longrightarrow> i \<le> length s \<and> starts_with (drop i s) pat"
  by (induction pat s arbitrary: i rule: find_sub.induct) (auto split: if_splits)

lemma find_sub_bound: "find_sub pat s = Some i \<Longrightarrow> i + length pat \<le> length s"
  by (drule find_sub_Some) (auto simp: starts_with_iff dest: arg_cong [where f = length])

lemma find_sub_None: "find_sub pat s = None \<Longrightarrow> i \<le> length s \<Longrightarrow> \<not> starts_with (drop i s) pat"
proof (induction pat s arbitrary: i rule: find_sub.induct)
  case (1 pat)
  then show ?case by (cases pat) auto
next
  case (2 pat c s)
  then show ?case by (cases i) (auto split: if_splits)
qed

lemma find_sub_least: "find_sub pat s = Some i \<Longrightarrow> j < i \<Longrightarrow> \<not> starts_with (drop j s) pat"
proof (induction pat s arbitrary: i j rule: find_sub.induct)
  case (1 pat)
  then show ?case by (auto split: if_splits)
next
  case (2 pat c s)
  then show ?case by (cases j) (auto split: if_splits)
qed

lemma contains_iff: "contains s pat \<longleftrightarrow> (\<exists>a b. s = a @ pat @ b)"
proof
  assume "contains s pat"
  then obtain i where i: "find_sub pat s = Some i"
    by (auto simp: contains_def)
  then obtain r where "drop i s = pat @ r"
    using find_sub_Some starts_with_iff by blast
  then have "s = take i s @ pat @ r"
    by (metis append_take_drop_id)
  then show "\<exists>a b. s = a @ pat @ b" by blast
next
  assume "\<exists>a b. s = a @ pat @ b"
  then obtain a b where s: "s = a @ pat @ b" by blast
  then have "starts_with (drop (length a) s) pat" by simp
  then show "contains s pat"
    using find_sub_None [of pat s "length a"] s by (auto simp: contains_def)
qed

text \<open>\<open>split\<close> on one character: always at least one piece.\<close>

fun split_on :: "('a \<Rightarrow> bool) \<Rightarrow> 'a list \<Rightarrow> 'a list list" where
  "split_on P [] = [[]]"
| "split_on P (x # xs) =
     (if P x then [] # split_on P xs
      else (case split_on P xs of [] \<Rightarrow> [[x]] | p # ps \<Rightarrow> (x # p) # ps))"

lemma split_on_nonempty [simp]: "split_on P xs \<noteq> []"
  by (induction xs) (auto split: list.splits)

lemma split_on_none: "\<forall>x \<in> set xs. \<not> P x \<Longrightarrow> split_on P xs = [xs]"
  by (induction xs) auto

lemma split_on_append:
  "P c \<Longrightarrow> split_on P (xs @ c # ys) = split_on P xs @ split_on P ys"
  by (induction xs) (auto split: list.splits)

lemma split_on_snoc: "P c \<Longrightarrow> split_on P (xs @ [c]) = split_on P xs @ [[]]"
  using split_on_append [of P c xs "[]"] by simp

definition split_once :: "char \<Rightarrow> string \<Rightarrow> (string \<times> string) option" where
  "split_once c s = (case find_index (\<lambda>d. d = c) s of None \<Rightarrow> None | Some i \<Rightarrow> Some (take i s, drop (Suc i) s))"

definition rsplit_once :: "char \<Rightarrow> string \<Rightarrow> (string \<times> string) option" where
  "rsplit_once c s = (case split_once c (rev s) of None \<Rightarrow> None | Some (t, h) \<Rightarrow> Some (rev h, rev t))"

text \<open>
  \<open>str::lines\<close>: split at line feeds, without the empty piece after a final line feed, and without
  a carriage return before each line feed.
\<close>

definition strip_cr :: "string \<Rightarrow> string" where
  "strip_cr l = (if l \<noteq> [] \<and> last l = byte 13 then butlast l else l)"

fun lines_of :: "string list \<Rightarrow> string list" where
  "lines_of [] = []"
| "lines_of [l] = (if l = [] then [] else [l])"
| "lines_of (l # m # ls) = strip_cr l # lines_of (m # ls)"

definition str_lines :: "string \<Rightarrow> string list" where
  "str_lines s = lines_of (split_on (\<lambda>c. c = byte 10) s)"

fun join_with :: "string \<Rightarrow> string list \<Rightarrow> string" where
  "join_with sep [] = []"
| "join_with sep [x] = x"
| "join_with sep (x # y # xs) = x @ sep @ join_with sep (y # xs)"

section \<open>Numbers\<close>

text \<open>Decimal digits, as \<open>format!\<close> writes an unsigned integer.\<close>

fun decimal :: "nat \<Rightarrow> string" where
  "decimal n = (if n < 10 then [byte (48 + n)] else decimal (n div 10) @ [byte (48 + n mod 10)])"

declare decimal.simps [simp del]

lemma decimal_digits: "c \<in> set (decimal n) \<Longrightarrow> is_digit c"
proof (induction n rule: decimal.induct)
  case (1 n)
  show ?case
    using 1 by (cases "n < 10") (auto simp: decimal.simps [of n] is_digit_def)
qed

lemma decimal_nonempty [simp]: "decimal n \<noteq> []"
  by (subst decimal.simps) simp

text \<open>\<open>str::parse::<u64>\<close>: an optional plus sign, then digits only, below \<open>2 ^ 64\<close>.\<close>

definition digits_value :: "string \<Rightarrow> nat" where
  "digits_value ds = foldl (\<lambda>n d. 10 * n + (code d - 48)) 0 ds"

definition parse_u64 :: "string \<Rightarrow> nat option" where
  "parse_u64 s =
     (let ds = (case s of c # rest \<Rightarrow> if c = CHR ''+'' then rest else s | [] \<Rightarrow> []) in
      if ds = [] \<or> \<not> list_all is_digit ds \<or> 2 ^ 64 \<le> digits_value ds then None
      else Some (digits_value ds))"

lemma digits_value_snoc: "digits_value (ds @ [d]) = 10 * digits_value ds + (code d - 48)"
  by (simp add: digits_value_def)

lemma digits_value_decimal: "digits_value (decimal n) = n"
proof (induction n rule: decimal.induct)
  case (1 n)
  show ?case
  proof (cases "n < 10")
    case True
    then show ?thesis by (simp add: decimal.simps [of n] digits_value_def)
  next
    case False
    then have "decimal n = decimal (n div 10) @ [byte (48 + n mod 10)]" by (subst decimal.simps) simp
    then show ?thesis using 1 False by (simp add: digits_value_snoc)
  qed
qed

lemma parse_u64_decimal: "n < 2 ^ 64 \<Longrightarrow> parse_u64 (decimal n) = Some n"
proof -
  assume n: "n < 2 ^ 64"
  obtain c cs where c: "decimal n = c # cs" using decimal_nonempty [of n] by (cases "decimal n") auto
  have "list_all is_digit (decimal n)" using decimal_digits by (simp add: list_all_iff)
  moreover from this have "c \<noteq> CHR ''+''" unfolding c by (auto simp: is_digit_def code_def)
  ultimately show ?thesis using n digits_value_decimal [of n] by (simp add: parse_u64_def Let_def c)
qed

lemma parse_u64_bound: "parse_u64 s = Some n \<Longrightarrow> n < 2 ^ 64"
  by (auto simp: parse_u64_def Let_def split: if_splits list.splits)

section \<open>Options\<close>

lemma bind_option_Some: "Option.bind m f = Some y \<longleftrightarrow> (\<exists>x. m = Some x \<and> f x = Some y)"
  by (cases m) auto

section \<open>Sorting\<close>

text \<open>
  \<open>sort_by_key\<close> of the source is stable, as \<^const>\<open>sort_key\<close> is; \<open>dedup\<close> drops an element equal
  to the one before it, which is \<^const>\<open>remdups_adj\<close>.
\<close>

section \<open>Encodings and their readers\<close>

text \<open>
  Several components write a value as text and read it back.  The contract of such a pair is one law,
  on the values the format can carry; that distinct values have distinct texts follows from it.
\<close>

locale codec =
  fixes enc :: "'a \<Rightarrow> 'b"
    and dec :: "'b \<Rightarrow> 'a option"
    and ok :: "'a \<Rightarrow> bool"
  assumes dec_enc: "ok x \<Longrightarrow> dec (enc x) = Some x"
begin

lemma enc_inject: "ok x \<Longrightarrow> ok y \<Longrightarrow> enc x = enc y \<longleftrightarrow> x = y"
  by (metis dec_enc option.inject)

lemma enc_eqD: "enc x = enc y \<Longrightarrow> ok x \<Longrightarrow> ok y \<Longrightarrow> x = y"
  by (simp add: enc_inject)

lemma inj_on_enc: "inj_on enc {x. ok x}"
  by (rule inj_onI) (simp add: enc_inject)

end

text \<open>
  A self-delimiting encoding is read off the front of a longer text.  Texts of such an encoding may
  be concatenated: the sequence is still recovered, so two sequences of the same length with one
  concatenation are equal, and so are two that a common length is written in front of.
\<close>

locale stream_codec =
  fixes put :: "'a \<Rightarrow> 'b list"
    and get :: "'b list \<Rightarrow> ('a \<times> 'b list) option"
    and ok :: "'a \<Rightarrow> bool"
  assumes get_put: "ok x \<Longrightarrow> get (put x @ rest) = Some (x, rest)"
begin

lemma put_append_inject:
  assumes "ok x" "ok y" "put x @ r = put y @ s"
  shows "x = y \<and> r = s"
proof -
  have "Some (x, r) = get (put y @ s)" using get_put [OF assms(1)] assms(3) by metis
  also have "\<dots> = Some (y, s)" using assms(2) by (rule get_put)
  finally show ?thesis by (simp only: option.inject prod.inject)
qed

lemma put_concat_inject:
  assumes "list_all ok xs" "list_all ok ys" "length xs = length ys"
    and "concat (map put xs) @ r = concat (map put ys) @ s"
  shows "xs = ys \<and> r = s"
  using assms(3,1,2,4)
proof (induction xs ys rule: list_induct2)
  case Nil
  then show ?case by simp
next
  case (Cons x xs y ys)
  then have "ok x" "ok y" "put x @ (concat (map put xs) @ r) = put y @ (concat (map put ys) @ s)"
    by simp_all
  then have "x = y \<and> concat (map put xs) @ r = concat (map put ys) @ s"
    by (rule put_append_inject)
  with Cons show ?case by simp
qed

end

sublocale stream_codec \<subseteq> codec put "\<lambda>t. map_option fst (get t)" ok
proof unfold_locales
  fix x
  assume "ok x"
  then have "get (put x @ []) = Some (x, [])" by (rule get_put)
  then show "map_option fst (get (put x)) = Some x" by simp
qed

end
