(* ===== verification/Utf8.thy ===== *)
theory Utf8
  imports Rust_Base
begin

text \<open>
  Unicode scalar values and their UTF-8 form: the relation between the source's \<open>chars()\<close> view of
  a string (code points) and its byte view.  \<open>from_utf8\<close> is \<open>String::from_utf8\<close>, which refuses
  overlong forms, surrogates and truncated sequences.
\<close>

definition scalar :: "nat \<Rightarrow> bool" where
  "scalar n \<longleftrightarrow> n < 1114112 \<and> \<not> (55296 \<le> n \<and> n \<le> 57343)"

definition utf8_char :: "nat \<Rightarrow> string" where
  "utf8_char n =
     (if n < 128 then [byte n]
      else if n < 2048 then [byte (192 + n div 64), byte (128 + n mod 64)]
      else if n < 65536 then [byte (224 + n div 4096), byte (128 + n div 64 mod 64), byte (128 + n mod 64)]
      else [byte (240 + n div 262144), byte (128 + n div 4096 mod 64),
            byte (128 + n div 64 mod 64), byte (128 + n mod 64)])"

definition utf8 :: "nat list \<Rightarrow> string" where
  "utf8 cs = concat (map utf8_char cs)"

text \<open>A continuation byte and its six payload bits.\<close>

definition cont :: "char \<Rightarrow> bool" where
  "cont c \<longleftrightarrow> 128 \<le> code c \<and> code c < 192"

definition low6 :: "char \<Rightarrow> nat" where
  "low6 c = code c - 128"

fun from_utf8 :: "string \<Rightarrow> nat list option" where
  "from_utf8 [] = Some []"
| "from_utf8 (a # s) =
     (if code a < 128 then map_option (Cons (code a)) (from_utf8 s)
      else if 192 \<le> code a \<and> code a < 224 then
        (case s of
           b # t \<Rightarrow>
             (let n = (code a - 192) * 64 + low6 b in
              if cont b \<and> 128 \<le> n then map_option (Cons n) (from_utf8 t) else None)
         | _ \<Rightarrow> None)
      else if 224 \<le> code a \<and> code a < 240 then
        (case s of
           b # c # t \<Rightarrow>
             (let n = (code a - 224) * 4096 + low6 b * 64 + low6 c in
              if cont b \<and> cont c \<and> 2048 \<le> n \<and> scalar n then map_option (Cons n) (from_utf8 t) else None)
         | _ \<Rightarrow> None)
      else if 240 \<le> code a \<and> code a < 248 then
        (case s of
           b # c # d # t \<Rightarrow>
             (let n = (code a - 240) * 262144 + low6 b * 4096 + low6 c * 64 + low6 d in
              if cont b \<and> cont c \<and> cont d \<and> 65536 \<le> n \<and> scalar n
              then map_option (Cons n) (from_utf8 t) else None)
         | _ \<Rightarrow> None)
      else None)"

definition utf8_valid :: "string \<Rightarrow> bool" where
  "utf8_valid s \<longleftrightarrow> from_utf8 s \<noteq> None"

lemma utf8_Nil [simp]: "utf8 [] = []"
  by (simp add: utf8_def)

lemma utf8_Cons [simp]: "utf8 (c # cs) = utf8_char c @ utf8 cs"
  by (simp add: utf8_def)

lemma utf8_append [simp]: "utf8 (cs @ ds) = utf8 cs @ utf8 ds"
  by (simp add: utf8_def)

lemma digits2: "(n::nat) div 64 * 64 + n mod 64 = n"
  by simp

lemma digits3: "(n::nat) div 4096 * 4096 + n div 64 mod 64 * 64 + n mod 64 = n"
proof -
  have "n div 4096 = n div 64 div 64"
    by (simp add: div_mult2_eq)
  then have "n div 4096 * 64 + n div 64 mod 64 = n div 64"
    by simp
  then have "(n div 4096 * 64 + n div 64 mod 64) * 64 + n mod 64 = n"
    by simp
  then show ?thesis by (simp add: algebra_simps)
qed

lemma digits4: "(n::nat) div 262144 * 262144 + n div 4096 mod 64 * 4096 + n div 64 mod 64 * 64 + n mod 64 = n"
proof -
  have "n div 262144 = n div 4096 div 64"
    by (simp add: div_mult2_eq)
  then have "n div 262144 * 64 + n div 4096 mod 64 = n div 4096"
    by simp
  then have "(n div 262144 * 64 + n div 4096 mod 64) * 4096 + n div 64 mod 64 * 64 + n mod 64 = n"
    using digits3 [of n] by simp
  then show ?thesis by (simp add: algebra_simps)
qed

lemma from_utf8_char:
  assumes "scalar n"
  shows "from_utf8 (utf8_char n @ s) = map_option (Cons n) (from_utf8 s)"
proof -
  have n: "n < 1114112" using assms by (simp add: scalar_def)
  consider "n < 128" | "128 \<le> n" "n < 2048" | "2048 \<le> n" "n < 65536" | "65536 \<le> n"
    by linarith
  then show ?thesis
  proof cases
    case 1
    then show ?thesis by (simp add: utf8_char_def)
  next
    case 2
    then have "n div 64 < 32" by simp
    with 2 show ?thesis
      by (simp add: utf8_char_def cont_def low6_def digits2)
  next
    case 3
    then have "n div 4096 < 16" by simp
    with 3 assms show ?thesis
      by (simp add: utf8_char_def cont_def low6_def digits3)
  next
    case 4
    with n have "n div 262144 < 5" by simp
    with 4 assms show ?thesis
      by (simp add: utf8_char_def cont_def low6_def digits4)
  qed
qed

lemma from_utf8_utf8: "\<forall>c \<in> set cs. scalar c \<Longrightarrow> from_utf8 (utf8 cs) = Some cs"
  by (induction cs) (auto simp: from_utf8_char)

lemma utf8_valid_utf8: "\<forall>c \<in> set cs. scalar c \<Longrightarrow> utf8_valid (utf8 cs)"
  by (simp add: utf8_valid_def from_utf8_utf8)

text \<open>ASCII text reads back as itself.\<close>

lemma from_utf8_ascii: "\<forall>c \<in> set s. code c < 128 \<Longrightarrow> from_utf8 s = Some (map code s)"
  by (induction s) auto

lemma utf8_valid_ascii: "\<forall>c \<in> set s. code c < 128 \<Longrightarrow> utf8_valid s"
  by (simp add: utf8_valid_def from_utf8_ascii)

text \<open>\<open>char::is_whitespace\<close> is the Unicode property White_Space.\<close>

definition is_whitespace :: "nat \<Rightarrow> bool" where
  "is_whitespace c \<longleftrightarrow>
     (9 \<le> c \<and> c \<le> 13) \<or> c = 32 \<or> c = 133 \<or> c = 160 \<or> c = 5760 \<or> (8192 \<le> c \<and> c \<le> 8202) \<or>
     c = 8232 \<or> c = 8233 \<or> c = 8239 \<or> c = 8287 \<or> c = 12288"

text \<open>\<open>s.trim().is_empty()\<close>.\<close>

definition is_blank :: "string \<Rightarrow> bool" where
  "is_blank s \<longleftrightarrow> (case from_utf8 s of Some cs \<Rightarrow> list_all is_whitespace cs | None \<Rightarrow> False)"

text \<open>\<open>s.get(..end)\<close>: refused off a character boundary.\<close>

definition get_prefix :: "string \<Rightarrow> nat \<Rightarrow> string option" where
  "get_prefix s e = (if e \<le> length s \<and> (e = length s \<or> \<not> cont (s ! e)) then Some (take e s) else None)"

section \<open>Sizes\<close>

text \<open>The UTF-16 code units of a scalar value, one below U+10000 and a surrogate pair from there.\<close>

definition utf16_units :: "nat \<Rightarrow> nat" where
  "utf16_units n = (if n < 65536 then 1 else 2)"

lemma length_utf8_char: "length (utf8_char n) = (if n < 128 then 1 else if n < 2048 then 2 else if n < 65536 then 3 else 4)"
  by (simp add: utf8_char_def)

lemma utf16_le_utf8_char: "utf16_units n \<le> length (utf8_char n)"
  by (simp add: utf16_units_def length_utf8_char)


section \<open>Cutting at an ASCII byte\<close>

text \<open>
  An ASCII byte never occurs inside a multi-byte sequence, so valid text stays valid when it is cut
  after one: the reason the byte scans of the source may cut where they do.
\<close>

lemma from_utf8_step:
  assumes "from_utf8 (a # s) \<noteq> None"
  obtains u v where "s = u @ v" "\<forall>b \<in> set u. cont b" "from_utf8 v \<noteq> None"
    "\<And>w. from_utf8 w \<noteq> None \<Longrightarrow> from_utf8 (a # u @ w) \<noteq> None"
proof -
  consider (one) "code a < 128" | (two) "192 \<le> code a" "code a < 224"
    | (three) "224 \<le> code a" "code a < 240" | (four) "240 \<le> code a" "code a < 248"
    using assms by (auto split: if_splits)
  then show thesis
  proof cases
    case one
    then show thesis using assms that [of "[]" s] by simp
  next
    case two
    then obtain b t where "s = b # t" using assms by (auto split: list.splits)
    with two show thesis using assms that [of "[b]" t] by (auto simp: Let_def split: if_splits)
  next
    case three
    then obtain b c t where "s = b # c # t" using assms by (auto split: list.splits)
    with three show thesis using assms that [of "[b, c]" t] by (auto simp: Let_def split: if_splits)
  next
    case four
    then obtain b c d t where "s = b # c # d # t" using assms by (auto split: list.splits)
    with four show thesis using assms that [of "[b, c, d]" t] by (auto simp: Let_def split: if_splits)
  qed
qed

lemma append_eq_before:
  "u @ v = x @ c # y \<Longrightarrow> c \<notin> set u \<Longrightarrow> \<exists>z. x = u @ z \<and> v = z @ c # y"
  by (auto simp: append_eq_append_conv2 append_eq_Cons_conv Cons_eq_append_conv)

lemma from_utf8_after_ascii:
  "from_utf8 (x @ c # y) \<noteq> None \<Longrightarrow> code c < 128 \<Longrightarrow> from_utf8 y \<noteq> None"
proof (induction x rule: length_induct)
  case (1 x)
  have "\<not> cont c" using 1(3) by (simp add: cont_def)
  show ?case
  proof (cases x)
    case Nil
    then show ?thesis using 1 by simp
  next
    case (Cons a x1)
    obtain u v where uv: "x1 @ c # y = u @ v" "\<forall>b \<in> set u. cont b" "from_utf8 v \<noteq> None"
      using 1(2) Cons from_utf8_step [of a "x1 @ c # y"] by (metis append_Cons)
    then obtain z where "x1 = u @ z" "v = z @ c # y"
      using append_eq_before [of u v x1 c y] \<open>\<not> cont c\<close> by auto
    moreover from this have "length z < length x" using Cons by simp
    ultimately show ?thesis using 1(1,3) uv(3) by blast
  qed
qed

lemma utf8_valid_after_ascii: "utf8_valid (x @ c # y) \<Longrightarrow> code c < 128 \<Longrightarrow> utf8_valid y"
  using from_utf8_after_ascii by (simp add: utf8_valid_def)

lemma utf8_valid_ascii_append: "\<forall>c \<in> set x. code c < 128 \<Longrightarrow> utf8_valid (x @ y) = utf8_valid y"
  by (induction x) (auto simp: utf8_valid_def)

lemma utf8_valid_prefix:
  "utf8_valid (x @ y) \<Longrightarrow> y = [] \<or> \<not> cont (hd y) \<Longrightarrow> utf8_valid x"
proof (induction "length x" arbitrary: x rule: less_induct)
  case less
  show ?case
  proof (cases x)
    case Nil
    then show ?thesis by (simp add: utf8_valid_def)
  next
    case (Cons a x1)
    then have "from_utf8 (a # (x1 @ y)) \<noteq> None" using less(2) by (simp add: utf8_valid_def)
    then obtain u v where uv: "x1 @ y = u @ v" "\<forall>b \<in> set u. cont b" "from_utf8 v \<noteq> None"
      "\<And>w. from_utf8 w \<noteq> None \<Longrightarrow> from_utf8 (a # u @ w) \<noteq> None"
      using from_utf8_step by metis
    have "\<exists>z. x1 = u @ z \<and> v = z @ y"
    proof -
      obtain z where z: "x1 = u @ z \<and> z @ y = v \<or> x1 @ z = u \<and> y = z @ v"
        using uv(1) by (auto simp: append_eq_append_conv2)
      then consider "x1 = u @ z" "v = z @ y" | "u = x1 @ z" "y = z @ v" "z \<noteq> []" | "z = []" "u = x1" "y = v"
        by (cases z) auto
      then show ?thesis
      proof cases
        case 2
        then have "cont (hd y)" "y \<noteq> []" using uv(2) by (cases z; simp)+
        then show ?thesis using less(3) by blast
      qed auto
    qed
    then obtain z where z: "x1 = u @ z" "v = z @ y" by blast
    then have "utf8_valid z" using less(1) [of z] less(3) uv(3) Cons by (simp add: utf8_valid_def)
    then show ?thesis using uv(4) [of z] z Cons by (simp add: utf8_valid_def)
  qed
qed

lemma utf8_valid_append: "utf8_valid x \<Longrightarrow> utf8_valid y \<Longrightarrow> utf8_valid (x @ y)"
proof (induction "length x" arbitrary: x rule: less_induct)
  case less
  show ?case
  proof (cases x)
    case (Cons a x1)
    then have "from_utf8 (a # x1) \<noteq> None" using less(2) by (simp add: utf8_valid_def)
    then obtain u v where uv: "x1 = u @ v" "from_utf8 v \<noteq> None"
      "\<And>w. from_utf8 w \<noteq> None \<Longrightarrow> from_utf8 (a # u @ w) \<noteq> None"
      using from_utf8_step by metis
    then have "utf8_valid (v @ y)" using less(1) [of v] less(3) Cons by (simp add: utf8_valid_def)
    then show ?thesis using uv(3) [of "v @ y"] uv(1) Cons by (simp add: utf8_valid_def)
  qed (use less in simp)
qed

section \<open>Lossy reading\<close>

text \<open>
  \<open>String::from_utf8_lossy\<close>: valid sequences are kept, and each maximal broken one becomes U+FFFD.
  \<open>second_ok\<close> is the range of the byte after a leading byte (the Unicode table of well-formed
  sequences), narrower after \<open>E0\<close>, \<open>ED\<close>, \<open>F0\<close> and \<open>F4\<close>.
\<close>

definition REPLACEMENT :: string where
  "REPLACEMENT = [byte 239, byte 191, byte 189]"

definition second_ok :: "char \<Rightarrow> char \<Rightarrow> bool" where
  "second_ok a b \<longleftrightarrow> cont b \<and>
     (code a = 224 \<longrightarrow> 160 \<le> code b) \<and> (code a = 237 \<longrightarrow> code b < 160) \<and>
     (code a = 240 \<longrightarrow> 144 \<le> code b) \<and> (code a = 244 \<longrightarrow> code b < 144)"

fun from_utf8_lossy :: "string \<Rightarrow> string" where
  "from_utf8_lossy [] = []"
| "from_utf8_lossy (a # s) =
     (if code a < 128 then a # from_utf8_lossy s
      else if 194 \<le> code a \<and> code a < 224 then
        (case s of
           b # t \<Rightarrow> if cont b then a # b # from_utf8_lossy t else REPLACEMENT @ from_utf8_lossy s
         | [] \<Rightarrow> REPLACEMENT)
      else if 224 \<le> code a \<and> code a < 240 then
        (case s of
           b # c # t \<Rightarrow>
             if second_ok a b then
               (if cont c then a # b # c # from_utf8_lossy t else REPLACEMENT @ from_utf8_lossy (c # t))
             else REPLACEMENT @ from_utf8_lossy s
         | [b] \<Rightarrow> if second_ok a b then REPLACEMENT else REPLACEMENT @ from_utf8_lossy s
         | [] \<Rightarrow> REPLACEMENT)
      else if 240 \<le> code a \<and> code a < 245 then
        (case s of
           b # c # d # t \<Rightarrow>
             if second_ok a b then
               (if cont c then
                  (if cont d then a # b # c # d # from_utf8_lossy t else REPLACEMENT @ from_utf8_lossy (d # t))
                else REPLACEMENT @ from_utf8_lossy (c # d # t))
             else REPLACEMENT @ from_utf8_lossy s
         | [b, c] \<Rightarrow>
             if second_ok a b then
               (if cont c then REPLACEMENT else REPLACEMENT @ from_utf8_lossy [c])
             else REPLACEMENT @ from_utf8_lossy s
         | [b] \<Rightarrow> if second_ok a b then REPLACEMENT else REPLACEMENT @ from_utf8_lossy s
         | [] \<Rightarrow> REPLACEMENT)
      else REPLACEMENT @ from_utf8_lossy s)"

lemma from_utf8_lossy_char:
  assumes "scalar n"
  shows "from_utf8_lossy (utf8_char n @ s) = utf8_char n @ from_utf8_lossy s"
proof -
  have n: "n < 1114112" "\<not> (55296 \<le> n \<and> n \<le> 57343)" using assms by (simp_all add: scalar_def)
  consider "n < 128" | "128 \<le> n" "n < 2048" | "2048 \<le> n" "n < 65536" | "65536 \<le> n"
    by linarith
  then show ?thesis
  proof cases
    case 1
    then show ?thesis by (simp add: utf8_char_def)
  next
    case 2
    then have "2 \<le> n div 64" "n div 64 < 32" by simp_all
    with 2 show ?thesis by (simp add: utf8_char_def cont_def)
  next
    case 3
    define h where "h = n div 4096"
    define m where "m = n div 64 mod 64"
    have split: "n div 64 = h * 64 + m"
    proof -
      have "n div 64 div 64 = h" by (simp add: h_def div_mult2_eq)
      then show ?thesis unfolding m_def by (metis div_mult_mod_eq)
    qed
    have hm: "h < 16" "m < 64" using 3 by (simp_all add: h_def m_def)
    have "32 \<le> n div 64" using 3 by simp
    then have e0: "h = 0 \<Longrightarrow> 32 \<le> m" using split by simp
    have "n div 64 < 864 \<or> 896 \<le> n div 64" using n(2) by auto
    then have ed: "h = 13 \<Longrightarrow> m < 32" using split hm by auto
    show ?thesis
      using 3 hm e0 ed by (simp add: utf8_char_def h_def [symmetric] m_def [symmetric] cont_def second_ok_def)
  next
    case 4
    define h where "h = n div 262144"
    define m where "m = n div 4096 mod 64"
    have split: "n div 4096 = h * 64 + m"
    proof -
      have "n div 4096 div 64 = h" by (simp add: h_def div_mult2_eq)
      then show ?thesis unfolding m_def by (metis div_mult_mod_eq)
    qed
    have hm: "h < 5" "m < 64" using n by (simp_all add: h_def m_def)
    have "16 \<le> n div 4096" using 4 by simp
    then have f0: "h = 0 \<Longrightarrow> 16 \<le> m" using split by simp
    have "n div 4096 < 272" using n(1) by simp
    then have f4: "h = 4 \<Longrightarrow> m < 16" using split by simp
    show ?thesis
      using 4 hm f0 f4 by (simp add: utf8_char_def h_def [symmetric] m_def [symmetric] cont_def second_ok_def)
  qed
qed

lemma from_utf8_lossy_utf8: "\<forall>c \<in> set cs. scalar c \<Longrightarrow> from_utf8_lossy (utf8 cs) = utf8 cs"
  by (induction cs) (simp_all add: from_utf8_lossy_char)

text \<open>Decoding is undone by encoding.\<close>

lemma from_utf8_append:
  "from_utf8 x = Some cs \<Longrightarrow> from_utf8 y = Some ds \<Longrightarrow> from_utf8 (x @ y) = Some (cs @ ds)"
  by (induction x arbitrary: cs rule: from_utf8.induct) (auto simp: Let_def split: if_splits list.splits)

lemma base64_digits:
  assumes "(z::nat) < 64"
  shows "(u * 64 + z) div 64 = u" "(u * 64 + z) mod 64 = z"
  using assms by simp_all

lemma utf8_char_bytes:
  "code a < 128 \<Longrightarrow> utf8_char (code a) = [a]"
  "192 \<le> code a \<Longrightarrow> cont b \<Longrightarrow> (code a - 192) * 64 + low6 b < 2048 \<Longrightarrow> 128 \<le> (code a - 192) * 64 + low6 b \<Longrightarrow>
     utf8_char ((code a - 192) * 64 + low6 b) = [a, b]"
  "224 \<le> code a \<Longrightarrow> cont b \<Longrightarrow> cont c \<Longrightarrow> (code a - 224) * 4096 + low6 b * 64 + low6 c < 65536 \<Longrightarrow>
     2048 \<le> (code a - 224) * 4096 + low6 b * 64 + low6 c \<Longrightarrow>
     utf8_char ((code a - 224) * 4096 + low6 b * 64 + low6 c) = [a, b, c]"
  "240 \<le> code a \<Longrightarrow> cont b \<Longrightarrow> cont c \<Longrightarrow> cont d \<Longrightarrow>
     65536 \<le> (code a - 240) * 262144 + low6 b * 4096 + low6 c * 64 + low6 d \<Longrightarrow>
     utf8_char ((code a - 240) * 262144 + low6 b * 4096 + low6 c * 64 + low6 d) = [a, b, c, d]"
proof -
  have low: "low6 e < 64" "128 + low6 e = code e" if "cont e" for e using that by (auto simp: cont_def low6_def)
  show "code a < 128 \<Longrightarrow> utf8_char (code a) = [a]" by (simp add: utf8_char_def)
  show "utf8_char ((code a - 192) * 64 + low6 b) = [a, b]"
    if "192 \<le> code a" "cont b" "(code a - 192) * 64 + low6 b < 2048" "128 \<le> (code a - 192) * 64 + low6 b"
    using that low [of b] by (simp add: utf8_char_def base64_digits)
  show "utf8_char ((code a - 224) * 4096 + low6 b * 64 + low6 c) = [a, b, c]"
    if h: "224 \<le> code a" "cont b" "cont c" "(code a - 224) * 4096 + low6 b * 64 + low6 c < 65536"
      "2048 \<le> (code a - 224) * 4096 + low6 b * 64 + low6 c"
  proof -
    define n where "n = (code a - 224) * 4096 + low6 b * 64 + low6 c"
    have "n = ((code a - 224) * 64 + low6 b) * 64 + low6 c" by (simp add: n_def algebra_simps)
    then have d: "n div 64 = (code a - 224) * 64 + low6 b" "n mod 64 = low6 c" using base64_digits low h(3) by metis+
    have "n div 4096 = n div 64 div 64" by (simp add: div_mult2_eq)
    then have "n div 4096 = code a - 224" "n div 64 mod 64 = low6 b" using d base64_digits low h(2) by metis+
    then show ?thesis using h d(2) low unfolding utf8_char_def n_def [symmetric] by simp
  qed
  show "utf8_char ((code a - 240) * 262144 + low6 b * 4096 + low6 c * 64 + low6 d) = [a, b, c, d]"
    if h: "240 \<le> code a" "cont b" "cont c" "cont d"
      "65536 \<le> (code a - 240) * 262144 + low6 b * 4096 + low6 c * 64 + low6 d"
  proof -
    define n where "n = (code a - 240) * 262144 + low6 b * 4096 + low6 c * 64 + low6 d"
    have "n = (((code a - 240) * 64 + low6 b) * 64 + low6 c) * 64 + low6 d" by (simp add: n_def algebra_simps)
    then have d: "n div 64 = ((code a - 240) * 64 + low6 b) * 64 + low6 c" "n mod 64 = low6 d"
      using base64_digits low h(4) by metis+
    have "n div 4096 = n div 64 div 64" by (simp add: div_mult2_eq)
    then have e: "n div 4096 = (code a - 240) * 64 + low6 b" "n div 64 mod 64 = low6 c" using d base64_digits low h(3) by metis+
    have "n div 262144 = n div 4096 div 64" by (simp add: div_mult2_eq)
    then have "n div 262144 = code a - 240" "n div 4096 mod 64 = low6 b" using e base64_digits low h(2) by metis+
    then show ?thesis using h d(2) e(2) low unfolding utf8_char_def n_def [symmetric] by simp
  qed
qed

lemma low6_less: "cont c \<Longrightarrow> low6 c < 64"
  by (auto simp: cont_def low6_def)

lemma utf8_from_utf8: "from_utf8 s = Some cs \<Longrightarrow> utf8 cs = s"
proof (induction s arbitrary: cs rule: from_utf8.induct)
  case 1
  then show ?case by simp
next
  case (2 a s)
  consider (one) "code a < 128" | (two) "192 \<le> code a" "code a < 224"
    | (three) "224 \<le> code a" "code a < 240" | (four) "240 \<le> code a" "code a < 248"
    using 2(5) by (auto split: if_splits)
  then show ?case
  proof cases
    case one
    then show ?thesis using 2(1,5) by (auto simp: utf8_char_bytes(1))
  next
    case two
    then obtain b t where s: "s = b # t" using 2(5) by (auto split: list.splits)
    have "(code a - 192) * 64 + low6 b < 2048" if "cont b" using low6_less [OF that] two by simp
    then show ?thesis using two 2(2) [OF _ _ s refl] 2(5) s by (auto simp: Let_def utf8_char_bytes(2) split: if_splits)
  next
    case three
    then obtain b c t where s: "s = b # c # t" using 2(5) by (auto split: list.splits)
    have "(code a - 224) * 4096 + low6 b * 64 + low6 c < 65536" if "cont b" "cont c"
      using low6_less [OF that(1)] low6_less [OF that(2)] three by simp
    then show ?thesis using three 2(3) [OF _ _ _ s _ refl] 2(5) s by (auto simp: Let_def utf8_char_bytes(3) split: if_splits)
  next
    case four
    then obtain b c d t where s: "s = b # c # d # t" using 2(5) by (auto split: list.splits)
    then show ?thesis using four 2(4) [OF _ _ _ _ s _ _ refl] 2(5) s by (auto simp: Let_def utf8_char_bytes(4) split: if_splits)
  qed
qed

end
