(* ===== verification/Lsp_Protocol.thy ===== *)
theory Lsp_Protocol
  imports Utf8
begin

text \<open>
  \<open>src/lsp_client/protocol.rs\<close> and \<open>src/lsp_client/frames.rs\<close>: the framing of JSON-RPC messages over a
  byte stream and the reading of their answers.  The pipe is the list of the bytes still to come,
  ended by the end of the file; \<open>serde_json\<close> is a pair of parameters between JSON values and bytes.
\<close>

section \<open>JSON values\<close>

text \<open>\<open>serde_json::Value\<close>; a number that is not an integer is its text.\<close>

datatype json = JNull | JBool bool | JInt int | JFloat string | JString string | JArray "json list" | JObject "(string \<times> json) list"

fun json_get :: "json \<Rightarrow> string \<Rightarrow> json option" where
  "json_get (JObject fields) k = map_of fields k"
| "json_get _ k = None"

fun as_str :: "json \<Rightarrow> string option" where
  "as_str (JString s) = Some s"
| "as_str _ = None"

fun as_bool :: "json \<Rightarrow> bool option" where
  "as_bool (JBool b) = Some b"
| "as_bool _ = None"

fun as_i64 :: "json \<Rightarrow> int option" where
  "as_i64 (JInt n) = (if - (2 ^ 63) \<le> n \<and> n < 2 ^ 63 then Some n else None)"
| "as_i64 _ = None"

fun as_u64 :: "json \<Rightarrow> nat option" where
  "as_u64 (JInt n) = (if 0 \<le> n \<and> n < 2 ^ 64 then Some (nat n) else None)"
| "as_u64 _ = None"

definition field_str :: "json \<Rightarrow> string \<Rightarrow> string option" where
  "field_str v k = Option.bind (json_get v k) as_str"

section \<open>Framing\<close>

datatype frame_error = Payload string | Fatal string | Timeout string

fun frame_message :: "frame_error \<Rightarrow> string" where
  "frame_message (Payload m) = m"
| "frame_message (Fatal m) = m"
| "frame_message (Timeout m) = m"

fun is_skippable :: "frame_error \<Rightarrow> bool" where
  "is_skippable (Payload m) = True"
| "is_skippable _ = False"

fun is_timeout :: "frame_error \<Rightarrow> bool" where
  "is_timeout (Timeout m) = True"
| "is_timeout _ = False"

fun is_fatal_error :: "frame_error \<Rightarrow> bool" where
  "is_fatal_error (Fatal m) = True"
| "is_fatal_error _ = False"

lemma frame_error_kinds: "is_skippable e \<or> is_timeout e \<longleftrightarrow> \<not> is_fatal_error e"
  by (cases e) simp_all

definition EOF_BEFORE_HEADER :: string where
  "EOF_BEFORE_HEADER = ''eof_before_header: child stdout closed without LSP framing''"

definition EOF_BEFORE_BODY :: string where
  "EOF_BEFORE_BODY = ''eof_before_body: partial header then EOF''"

definition crlf :: string where
  "crlf = [byte 13, byte 10]"

definition LSP_TIMEOUT_PREFIX :: string where
  "LSP_TIMEOUT_PREFIX = ''lsp_timeout:''"

definition is_lsp_timeout :: "string \<Rightarrow> bool" where
  "is_lsp_timeout e \<longleftrightarrow> starts_with e LSP_TIMEOUT_PREFIX"

definition write_lsp_message :: "string \<Rightarrow> string" where
  "write_lsp_message msg = ''Content-Length: '' @ decimal (length msg) @ crlf @ crlf @ msg"

text \<open>\<open>BufRead::read_line\<close>: the bytes up to and with the next line feed, or to the end of the file.\<close>

definition split_line :: "string \<Rightarrow> string \<times> string" where
  "split_line s = (case find_index (\<lambda>c. c = byte 10) s of
     Some i \<Rightarrow> (take (Suc i) s, drop (Suc i) s) | None \<Rightarrow> (s, []))"

definition trim_codes :: "nat list \<Rightarrow> nat list" where
  "trim_codes cs = rev (dropWhile is_whitespace (rev (dropWhile is_whitespace cs)))"

definition str_trim :: "string \<Rightarrow> string" where
  "str_trim s = (case from_utf8 s of Some cs \<Rightarrow> utf8 (trim_codes cs) | None \<Rightarrow> s)"

text \<open>The header loop; a line is never empty before the end of the file, so the stream shrinks.\<close>

function read_headers :: "string \<Rightarrow> nat option \<Rightarrow> bool \<Rightarrow> (nat option, frame_error) result \<times> string" where
  "read_headers s content_length saw_any_byte =
     (if s = [] then
        (Err (Fatal (if saw_any_byte then EOF_BEFORE_BODY else EOF_BEFORE_HEADER)), [])
      else
        (case split_line s of (line, rest) \<Rightarrow>
           if \<not> utf8_valid line then (Err (Fatal ''read header line: stream did not contain valid UTF-8''), rest)
           else
             let trimmed = str_trim line in
             if trimmed = [] then (Ok content_length, rest)
             else
               read_headers rest
                 (case strip_prefix trimmed ''Content-Length:'' of
                    Some value \<Rightarrow> parse_u64 (str_trim value) | None \<Rightarrow> content_length) True))"
  by pat_completeness auto

lemma split_line_shorter: "split_line s = (line, rest) \<Longrightarrow> s \<noteq> [] \<Longrightarrow> length rest < length s"
  by (auto simp: split_line_def split: option.splits)

termination read_headers
  by (relation "measure (\<lambda>(s, _, _). length s)") (auto dest: split_line_shorter [OF sym])

declare read_headers.simps [simp del]

definition read_lsp_message :: "(string \<Rightarrow> (json, string) result) \<Rightarrow> string \<Rightarrow> (json, frame_error) result \<times> string" where
  "read_lsp_message from_slice s =
     (case read_headers s None False of
        (Inl e, rest) \<Rightarrow> (Err e, rest)
      | (Inr None, rest) \<Rightarrow> (Err (Fatal ''missing Content-Length header''), rest)
      | (Inr (Some len), rest) \<Rightarrow>
          if length rest < len then (Err (Fatal (''read body ('' @ decimal len @ '' bytes): failed to fill whole buffer'')), [])
          else (case from_slice (take len rest) of
                  Inr v \<Rightarrow> (Ok v, drop len rest)
                | Inl e \<Rightarrow> (Err (Payload (''parse JSON body: '' @ e)), drop len rest)))"

fun is_fatal :: "('a, frame_error) result \<Rightarrow> bool" where
  "is_fatal (Inl e) = is_fatal_error e"
| "is_fatal (Inr v) = False"

lemma read_headers_shorter:
  "read_headers s n b = (r, rest) \<Longrightarrow> s \<noteq> [] \<Longrightarrow> length rest < length s"
proof (induction s n b rule: read_headers.induct)
  case (1 s n b)
  obtain line more where l: "split_line s = (line, more)" by fastforce
  have m: "length more < length s" using split_line_shorter [OF l 1(3)] .
  show ?case
  proof (cases "utf8_valid line \<and> str_trim line \<noteq> []")
    case True
    let ?n = "case strip_prefix (str_trim line) ''Content-Length:'' of Some value \<Rightarrow> parse_u64 (str_trim value) | None \<Rightarrow> n"
    have step: "read_headers more ?n True = (r, rest)"
      using 1(2,3) l True by (simp add: read_headers.simps [of s n b] Let_def)
    show ?thesis
    proof (cases "more = []")
      case True
      then show ?thesis using step 1(3) by (auto simp: read_headers.simps [of "[]"])
    next
      case False
      then show ?thesis using 1(1) [OF 1(3) l [symmetric] _ refl _ step] \<open>utf8_valid line \<and> _\<close> m l by simp
    qed
  next
    case False
    then show ?thesis using 1(2,3) l m by (auto simp: read_headers.simps [of s n b] Let_def split: if_splits)
  qed
qed

lemma read_message_shorter:
  assumes "read_lsp_message from_slice s = (r, rest)" "\<not> is_fatal r"
  shows "length rest < length s"
proof -
  obtain h more where h: "read_headers s None False = (h, more)" by fastforce
  have s: "s \<noteq> []"
  proof
    assume "s = []"
    then have "h = Err (Fatal EOF_BEFORE_HEADER)" using h by (simp add: read_headers.simps [of "[]"])
    then show False using assms h by (auto simp: read_lsp_message_def)
  qed
  have "length rest \<le> length more"
    using assms h by (auto simp: read_lsp_message_def split: sum.splits option.splits if_splits)
  then show ?thesis using read_headers_shorter [OF h s] by simp
qed

text \<open>The reader thread: every frame in turn, to the first fatal one, which the end of the file is.\<close>

function read_frames :: "(string \<Rightarrow> (json, string) result) \<Rightarrow> string \<Rightarrow> (json, frame_error) result list" where
  "read_frames from_slice s =
     (case read_lsp_message from_slice s of
        (frame, rest) \<Rightarrow> frame # (if is_fatal frame then [] else read_frames from_slice rest))"
  by pat_completeness auto

termination read_frames
  by (relation "measure (\<lambda>(_, s). length s)") (auto dest: read_message_shorter [OF sym])

declare read_frames.simps [simp del]

text \<open>
  What the channel holds: the frames with their times of arrival.  After a fatal frame the reader is
  gone, and every further receive reports the end of the stream.
\<close>

type_synonym arrival = "nat \<times> (json, frame_error) result"

definition frames_after :: "arrival \<Rightarrow> arrival list \<Rightarrow> arrival list" where
  "frames_after a later = (if is_fatal (snd a) then [(fst a, Err (Fatal EOF_BEFORE_HEADER))] else later)"

fun drain_pending :: "nat \<Rightarrow> arrival list \<Rightarrow> arrival list" where
  "drain_pending now [] = []"
| "drain_pending now ((t, frame) # arrivals) =
     (if now < t then (t, frame) # arrivals
      else if is_fatal frame then frames_after (t, frame) arrivals
      else drain_pending now arrivals)"

section \<open>The first answer\<close>

definition probe_reason :: "string \<Rightarrow> string option" where
  "probe_reason e =
     (if contains e ''eof_before_header'' then
        Some ''found on PATH but didn't respond as an LSP server (stdout closed immediately; likely a stub, proxy, or non-LSP binary)''
      else if contains e ''eof_before_body'' then
        Some ''found on PATH but dropped the connection mid-header (partial LSP framing then EOF)''
      else if contains e ''missing Content-Length'' then
        Some ''found on PATH but sent non-LSP output (no Content-Length header)''
      else if is_lsp_timeout e \<or> contains e ''no response within probe timeout'' then
        Some ''found on PATH but didn't respond within the probe window (not an LSP server or hung)''
      else if contains e ''parse JSON body'' then
        Some ''found on PATH but sent non-JSON-RPC bytes as the first frame''
      else None)"

definition classify_probe_err :: "string \<Rightarrow> string" where
  "classify_probe_err e =
     (if starts_with e ''lsp_probe_failed'' then e
      else case probe_reason e of
        None \<Rightarrow> ''lsp_probe_failed: '' @ e
      | Some reason \<Rightarrow> ''lsp_probe_failed: '' @ reason @ '' '' @ utf8 [0x2014] @ '' underlying: '' @ e)"

datatype probe_error = MissingJsonrpc | NeitherResultNorError

definition validate_probe_response :: "json \<Rightarrow> (unit, probe_error) result" where
  "validate_probe_response resp =
     (if field_str resp ''jsonrpc'' \<noteq> Some ''2.0'' then Err MissingJsonrpc
      else if json_get resp ''result'' = None \<and> json_get resp ''error'' = None then Err NeitherResultNorError
      else Ok ())"

section \<open>Definitions\<close>

record definition_result =
  dr_uri :: string
  dr_start_line :: nat
  dr_start_col :: nat

datatype definition_error = LspError json | MissingRangeStart

definition or_else :: "'a option \<Rightarrow> 'a option \<Rightarrow> 'a option" where
  "or_else a b = (case a of None \<Rightarrow> b | Some x \<Rightarrow> Some x)"

definition preferred_uri :: "json \<Rightarrow> string option" where
  "preferred_uri location = Option.bind (or_else (json_get location ''targetUri'') (json_get location ''uri'')) as_str"

definition preferred_range :: "json \<Rightarrow> json option" where
  "preferred_range location =
     or_else (json_get location ''targetSelectionRange'')
       (or_else (json_get location ''targetRange'') (json_get location ''range''))"

definition number_field :: "json \<Rightarrow> string \<Rightarrow> nat" where
  "number_field v k = (case Option.bind (json_get v k) as_u64 of Some n \<Rightarrow> n | None \<Rightarrow> 0)"

definition location_result :: "json \<Rightarrow> (definition_result option, definition_error) result" where
  "location_result location =
     (case (preferred_uri location, preferred_range location) of
        (Some u, Some r) \<Rightarrow>
          (case json_get r ''start'' of
             None \<Rightarrow> Err MissingRangeStart
           | Some start \<Rightarrow> Ok (Some \<lparr>dr_uri = u, dr_start_line = number_field start ''line'',
                                  dr_start_col = number_field start ''character''\<rparr>))
      | _ \<Rightarrow> Ok None)"

definition parse_definition_response :: "json \<Rightarrow> (definition_result option, definition_error) result" where
  "parse_definition_response resp =
     (case json_get resp ''error'' of
        Some err \<Rightarrow> Err (LspError err)
      | None \<Rightarrow>
          (case json_get resp ''result'' of
             None \<Rightarrow> Ok None
           | Some JNull \<Rightarrow> Ok None
           | Some (JArray []) \<Rightarrow> Ok None
           | Some (JArray (location # _)) \<Rightarrow> location_result location
           | Some (JObject entries) \<Rightarrow> location_result (JObject entries)
           | Some _ \<Rightarrow> Ok None))"

section \<open>Frames are read back\<close>

lemma utf8_code: "\<forall>c \<in> set s. code c < 128 \<Longrightarrow> utf8 (map code s) = s"
  by (induction s) (auto simp: utf8_char_def)

abbreviation blank :: "char \<Rightarrow> bool" where
  "blank c \<equiv> is_whitespace (code c)"

lemma str_trim_ascii:
  assumes "\<forall>c \<in> set s. code c < 128"
  shows "str_trim s = rev (dropWhile blank (rev (dropWhile blank s)))"
proof -
  let ?t = "rev (dropWhile blank (rev (dropWhile blank s)))"
  have "set ?t \<subseteq> set s" by (auto dest!: set_dropWhileD)
  then have "utf8 (map code ?t) = ?t" using assms by (intro utf8_code) blast
  moreover have "trim_codes (map code s) = map code ?t"
    by (simp add: trim_codes_def dropWhile_map comp_def rev_map)
  ultimately show ?thesis by (simp add: str_trim_def from_utf8_ascii assms)
qed

text \<open>An ASCII text between two characters that are not white space keeps only those blanks.\<close>

lemma str_trim_between:
  assumes "\<forall>c \<in> set (xs @ ys @ zs). code c < 128" "\<forall>c \<in> set xs. blank c" "\<forall>c \<in> set zs. blank c"
    and "ys \<noteq> []" "\<not> blank (hd ys)" "\<not> blank (last ys)"
  shows "str_trim (xs @ ys @ zs) = ys"
proof -
  have "dropWhile blank (xs @ ys @ zs) = ys @ zs"
    using assms(2,4,5) by (cases ys) (simp_all add: dropWhile_append2)
  moreover have "dropWhile blank (rev zs @ rev ys) = rev ys"
    using assms(3,4,6) by (subst dropWhile_append2) (auto, cases ys rule: rev_cases, auto)
  ultimately show ?thesis by (simp add: str_trim_ascii [OF assms(1)])
qed

lemma split_line_at: "byte 10 \<notin> set l \<Longrightarrow> split_line (l @ byte 10 # rest) = (l @ [byte 10], rest)"
proof -
  assume l: "byte 10 \<notin> set l"
  then have "find_index (\<lambda>c. c = byte 10) (l @ byte 10 # rest) = Some (length l)"
    by (auto simp: find_index_Some nth_append in_set_conv_nth)
  then show ?thesis by (simp add: split_line_def)
qed

definition header_line :: "nat \<Rightarrow> string" where
  "header_line n = ''Content-Length: '' @ decimal n"

lemma decimal_code: "c \<in> set (decimal n) \<Longrightarrow> 48 \<le> code c \<and> code c \<le> 57"
  using decimal_digits by (fastforce simp: is_digit_def)

lemma digit_not_blank: "48 \<le> code c \<Longrightarrow> code c \<le> 57 \<Longrightarrow> \<not> blank c"
  by (auto simp: is_whitespace_def)

lemma header_name: "\<forall>c \<in> set ''Content-Length: ''. code c < 128 \<and> code c \<noteq> 10"
  by code_simp

lemma header_ascii: "c \<in> set (header_line n) \<Longrightarrow> code c < 128 \<and> code c \<noteq> 10"
  using decimal_code [of c n] header_name unfolding header_line_def by fastforce

lemma crlf_simps [simp]: "set crlf = {byte 13, byte 10}" "is_whitespace 13" "is_whitespace 10"
  by (simp_all add: crlf_def is_whitespace_def)

lemma header_hd: "\<not> blank (hd (header_line n))"
proof -
  have "hd (header_line n) = CHR ''C''" by (simp add: header_line_def)
  moreover have "\<not> blank (CHR ''C'')" by code_simp
  ultimately show ?thesis by simp
qed

lemma trim_header: "str_trim (header_line n @ crlf) = header_line n"
proof -
  have "str_trim ([] @ header_line n @ crlf) = header_line n"
  proof (rule str_trim_between)
    have "last (header_line n) \<in> set (decimal n)" by (simp add: header_line_def)
    then show "\<not> blank (last (header_line n))" using decimal_code digit_not_blank by blast
      show "header_line n \<noteq> []" by (simp add: header_line_def)
  qed (use header_ascii header_hd in auto)
  then show ?thesis by simp
qed

lemma trim_length: "str_trim ('' '' @ decimal n) = decimal n"
proof -
  have "str_trim ('' '' @ decimal n @ []) = decimal n"
  proof (rule str_trim_between)
    have "\<forall>c \<in> set '' ''. code c < 128 \<and> blank c" by code_simp
    then show "\<forall>c \<in> set ('' '' @ decimal n @ []). code c < 128" "\<forall>c \<in> set '' ''. blank c"
      using decimal_code by fastforce+
    show "\<not> blank (hd (decimal n))" "\<not> blank (last (decimal n))"
      using decimal_code digit_not_blank hd_in_set last_in_set decimal_nonempty by metis+
  qed simp_all
  then show ?thesis by simp
qed

lemma read_one_header:
  assumes "byte 10 \<notin> set l" "utf8_valid (l @ [byte 10])"
  shows "read_headers (l @ byte 10 # rest) n b =
     (if str_trim (l @ [byte 10]) = [] then (Ok n, rest)
      else read_headers rest (case strip_prefix (str_trim (l @ [byte 10])) ''Content-Length:'' of
             Some value \<Rightarrow> parse_u64 (str_trim value) | None \<Rightarrow> n) True)"
  using assms by (simp add: read_headers.simps [of "l @ byte 10 # rest"] split_line_at Let_def)

lemma read_written_headers:
  assumes "n < 2 ^ 64"
  shows "read_headers (header_line n @ crlf @ crlf @ rest) None False = (Ok (Some n), rest)"
proof -
  let ?l = "header_line n @ [byte 13]"
  have l: "byte 10 \<notin> set ?l" "utf8_valid (?l @ [byte 10])"
    using header_ascii [of "byte 10"] header_ascii by (auto simp: byte_eq intro!: utf8_valid_ascii)
  have trim: "str_trim (?l @ [byte 10]) = header_line n" using trim_header by (simp add: crlf_def)
  have strip: "strip_prefix (header_line n) ''Content-Length:'' = Some ('' '' @ decimal n)"
    by (simp add: header_line_def strip_prefix_def)
  have "read_headers (header_line n @ crlf @ crlf @ rest) None False =
        read_headers (?l @ byte 10 # crlf @ rest) None False" by (simp add: crlf_def)
  also have "\<dots> = read_headers (crlf @ rest) (parse_u64 (str_trim ('' '' @ decimal n))) True"
    unfolding read_one_header [OF l] trim strip by (simp add: header_line_def)
  also have "\<dots> = read_headers ([byte 13] @ byte 10 # rest) (Some n) True"
    by (simp add: parse_u64_decimal [OF assms] trim_length [simplified] crlf_def)
  also have "\<dots> = (Ok (Some n), rest)"
  proof (subst read_one_header)
    show "utf8_valid ([byte 13] @ [byte 10])" by (rule utf8_valid_ascii) simp
    have "str_trim ([byte 13] @ [byte 10]) = []" by code_simp
    then show "(if str_trim ([byte 13] @ [byte 10]) = [] then (Ok (Some n), rest) else
       read_headers rest (case strip_prefix (str_trim ([byte 13] @ [byte 10])) ''Content-Length:'' of
         Some value \<Rightarrow> parse_u64 (str_trim value) | None \<Rightarrow> Some n) True) = (Ok (Some n), rest)" by simp
  qed (simp add: byte_eq)
  finally show ?thesis .
qed

definition frame_of :: "(string \<Rightarrow> (json, string) result) \<Rightarrow> string \<Rightarrow> (json, frame_error) result" where
  "frame_of from_slice body =
     (case from_slice body of Inr v \<Rightarrow> Ok v | Inl e \<Rightarrow> Err (Payload (''parse JSON body: '' @ e)))"

lemma read_written_message:
  assumes "length body < 2 ^ 64"
  shows "read_lsp_message from_slice (write_lsp_message body @ rest) = (frame_of from_slice body, rest)"
  using read_written_headers [OF assms, of "body @ rest"]
  by (simp add: write_lsp_message_def read_lsp_message_def header_line_def frame_of_def split: sum.splits)

text \<open>A message of the protocol is read off the front of the stream.\<close>

definition next_message :: "(string \<Rightarrow> (json, string) result) \<Rightarrow> string \<Rightarrow> (json \<times> string) option" where
  "next_message from_slice s = (case read_lsp_message from_slice s of (Inr v, rest) \<Rightarrow> Some (v, rest) | _ \<Rightarrow> None)"

definition carried :: "(json \<Rightarrow> string) \<Rightarrow> (string \<Rightarrow> (json, string) result) \<Rightarrow> json \<Rightarrow> bool" where
  "carried to_string from_slice v \<longleftrightarrow> from_slice (to_string v) = Ok v \<and> length (to_string v) < 2 ^ 64"

interpretation frames: stream_codec "\<lambda>v. write_lsp_message (to_string v)" "next_message from_slice" "carried to_string from_slice"
  for to_string from_slice
  by unfold_locales (simp add: next_message_def carried_def read_written_message frame_of_def)

lemma not_fatal_frame_of: "\<not> is_fatal (frame_of from_slice body)"
  by (simp add: frame_of_def split: sum.splits)

lemma read_frames_end: "read_frames from_slice [] = [Err (Fatal EOF_BEFORE_HEADER)]"
  by (simp add: read_frames.simps [of _ "[]"] read_lsp_message_def read_headers.simps [of "[]"])

text \<open>
  C25: The reader thread reads back every body that was written with \<open>write_lsp_message\<close>, in order:
  a body that is not JSON becomes one skippable error and leaves the frames after it aligned, and
  after the last frame the end of the stream is reported, once and as fatal.
\<close>

theorem written_frames_are_read_back:
  assumes "\<forall>body \<in> set bodies. length body < 2 ^ 64"
  shows "read_frames from_slice (concat (map write_lsp_message bodies)) =
         map (frame_of from_slice) bodies @ [Err (Fatal EOF_BEFORE_HEADER)]"
  using assms
proof (induction bodies)
  case Nil
  show ?case by (simp add: read_frames_end)
next
  case (Cons body bodies)
  then show ?case
    by (simp add: read_frames.simps [of _ "write_lsp_message body @ _"] read_written_message not_fatal_frame_of)
qed

lemma written_frames_are_read_back_witness:
  "read_frames (\<lambda>s. if s = ''null'' then Ok JNull else Err ''EOF'')
     (concat (map write_lsp_message [''null'', ''{'', ''null''])) =
   [Ok JNull, Err (Payload ''parse JSON body: EOF''), Ok JNull, Err (Fatal EOF_BEFORE_HEADER)]"
  using written_frames_are_read_back
    [of "[''null'', ''{'', ''null'']" "\<lambda>s. if s = ''null'' then Ok JNull else Err ''EOF''"]
  by (simp add: frame_of_def)

text \<open>The messages of one stream are determined by its bytes.\<close>

lemma streams_carry_one_sequence:
  assumes "list_all (carried to_string from_slice) vs" "list_all (carried to_string from_slice) ws" "length vs = length ws"
    and "concat (map (\<lambda>v. write_lsp_message (to_string v)) vs) = concat (map (\<lambda>v. write_lsp_message (to_string v)) ws)"
  shows "vs = ws"
  using frames.put_concat_inject [OF assms(1-3), of "[]" "[]"] assms(4) by simp

end
