(* ===== verification/Change_Plan.thy ===== *)
theory Change_Plan
  imports Lsp_Protocol "HOL-Library.Multiset"
begin

text \<open>
  What an incremental index has to do: \<open>src/indexer/manifest.rs\<close> (the recorded state of the files),
  \<open>src/indexer/incremental/classify.rs\<close> (the current files against a manifest) and the git half of
  \<open>src/indexer/incremental/bootstrap.rs\<close>.  A \<open>BTreeMap\<close> is the list of its entries in the order of
  their keys.  The content of the disk is the parameter \<open>hash\<close>, which gives the hash of a file that can
  be read; what git prints is a parameter as well.
\<close>

section \<open>Manifests\<close>

record file_state =
  mtime_ns :: int
  file_size :: nat
  content_hash :: string

type_synonym states = "(string \<times> file_state) list"

record file_manifest =
  schema_version :: nat
  files :: states

definition MANIFEST_SCHEMA_VERSION :: nat where
  "MANIFEST_SCHEMA_VERSION = 1"

definition new_manifest :: file_manifest where
  "new_manifest = \<lparr>schema_version = MANIFEST_SCHEMA_VERSION, files = []\<rparr>"

fun btree_insert :: "string \<Rightarrow> 'a \<Rightarrow> (string \<times> 'a) list \<Rightarrow> (string \<times> 'a) list" where
  "btree_insert k v [] = [(k, v)]"
| "btree_insert k v ((l, w) # es) =
     (if k < l then (k, v) # (l, w) # es else if k = l then (k, v) # es else (l, w) # btree_insert k v es)"

abbreviation btree :: "(string \<times> 'a) list \<Rightarrow> bool" where
  "btree es \<equiv> sorted_wrt (<) (map fst es)"

lemma btree_insert_keys: "fst ` set (btree_insert k v es) = insert k (fst ` set es)"
  by (induction k v es rule: btree_insert.induct) auto

lemma btree_insert: "btree es \<Longrightarrow> btree (btree_insert k v es)"
proof (induction k v es rule: btree_insert.induct)
  case (2 k v l w es)
  have "fst ` set (btree_insert k v es) = insert k (fst ` set es)" by (rule btree_insert_keys)
  then show ?case using 2 by (auto simp: image_iff)
qed simp

lemma btree_insert_lookup: "btree es \<Longrightarrow> map_of (btree_insert k v es) = (map_of es)(k \<mapsto> v)"
proof (induction k v es rule: btree_insert.induct)
  case (2 k v l w es)
  then show ?case by (auto simp: fun_eq_iff)
qed auto

lemma btree_distinct: "btree es \<Longrightarrow> distinct (map fst es)"
  by (simp add: strict_sorted_iff)

text \<open>\<open>serde_json\<close> is a parameter; a schema of a later build is no manifest.\<close>

definition parse_manifest :: "(string \<Rightarrow> file_manifest option) \<Rightarrow> string \<Rightarrow> file_manifest option" where
  "parse_manifest from_slice bytes =
     Option.bind (from_slice bytes) (\<lambda>m. if MANIFEST_SCHEMA_VERSION < schema_version m then None else Some m)"

definition load_manifest :: "(string \<Rightarrow> file_manifest option) \<Rightarrow> string option \<Rightarrow> file_manifest option" where
  "load_manifest from_slice content = Option.bind content (parse_manifest from_slice)"

section \<open>Classification\<close>

record discovered =
  rel :: string
  abs_path :: string
  d_mtime_ns :: int
  d_size :: nat

record rename =
  old_rel :: string
  new_file :: discovered

record change_set =
  changed :: "discovered list"
  added :: "discovered list"
  deleted :: "string list"
  renamed :: "rename list"

record plan =
  changes :: change_set
  unchanged :: "discovered list"
  next_manifest :: file_manifest

definition hash_or_empty :: "(string \<Rightarrow> string option) \<Rightarrow> discovered \<Rightarrow> string" where
  "hash_or_empty hash d = (case hash (abs_path d) of None \<Rightarrow> [] | Some h \<Rightarrow> h)"

definition fresh_state :: "(string \<Rightarrow> string option) \<Rightarrow> discovered \<Rightarrow> file_state" where
  "fresh_state hash d = \<lparr>mtime_ns = d_mtime_ns d, file_size = d_size d, content_hash = hash_or_empty hash d\<rparr>"

definition record_state :: "discovered \<Rightarrow> file_state \<Rightarrow> file_manifest \<Rightarrow> file_manifest" where
  "record_state d s m = m\<lparr>files := btree_insert (rel d) s (files m)\<rparr>"

type_synonym partition = "discovered list \<times> discovered list \<times> discovered list"

definition classify_file ::
  "(string \<Rightarrow> string option) \<Rightarrow> file_manifest \<Rightarrow> discovered \<Rightarrow> partition \<times> file_manifest \<Rightarrow> partition \<times> file_manifest" where
  "classify_file hash prior d acc = (case acc of ((chg, add, unc), m) \<Rightarrow>
     (case map_of (files prior) (rel d) of
        None \<Rightarrow> ((chg, add @ [d], unc), m)
      | Some prev \<Rightarrow>
          if mtime_ns prev = d_mtime_ns d \<and> file_size prev = d_size d
          then ((chg, add, unc @ [d]), record_state d prev m)
          else
            let h = hash_or_empty hash d; same_content = (h \<noteq> [] \<and> h = content_hash prev) in
            (if same_content then (chg, add, unc @ [d]) else (chg @ [d], add, unc),
             record_state d (fresh_state hash d) m)))"

definition diff_current_against_prior ::
  "(string \<Rightarrow> string option) \<Rightarrow> file_manifest \<Rightarrow> discovered list \<Rightarrow> file_manifest \<Rightarrow> partition \<times> file_manifest" where
  "diff_current_against_prior hash prior current m = fold (classify_file hash prior) current (([], [], []), m)"

type_synonym by_hash = "string \<Rightarrow> string list option"

definition index_deleted_by_hash :: "file_manifest \<Rightarrow> string set \<Rightarrow> string list \<times> by_hash" where
  "index_deleted_by_hash prior current_ids =
     (let candidates = filter (\<lambda>r. r \<notin> current_ids) (map fst (files prior)) in
      (candidates,
       fold (\<lambda>r idx. case map_of (files prior) r of
                None \<Rightarrow> idx
              | Some s \<Rightarrow>
                  if content_hash s = [] then idx
                  else idx(content_hash s \<mapsto> (case idx (content_hash s) of None \<Rightarrow> [] | Some rs \<Rightarrow> rs) @ [r]))
         candidates Map.empty))"

fun match_renames_and_adds ::
  "(string \<Rightarrow> string option) \<Rightarrow> by_hash \<Rightarrow> discovered list \<Rightarrow> string set \<Rightarrow> file_manifest \<Rightarrow>
   rename list \<times> discovered list \<times> string set \<times> file_manifest" where
  "match_renames_and_adds hash idx [] consumed m = ([], [], consumed, m)"
| "match_renames_and_adds hash idx (d # ds) consumed m =
     (let h = hash_or_empty hash d;
          matched_old = (if h = [] then None else Option.bind (idx h) (find (\<lambda>r. r \<notin> consumed)));
          m' = record_state d (fresh_state hash d) m
      in case matched_old of
           Some r \<Rightarrow>
             (case match_renames_and_adds hash idx ds (insert r consumed) m' of
                (ren, add, c, m'') \<Rightarrow> (\<lparr>old_rel = r, new_file = d\<rparr> # ren, add, c, m''))
         | None \<Rightarrow>
             (case match_renames_and_adds hash idx ds consumed m' of (ren, add, c, m'') \<Rightarrow> (ren, d # add, c, m'')))"

definition classify :: "(string \<Rightarrow> string option) \<Rightarrow> file_manifest \<Rightarrow> discovered list \<Rightarrow> plan" where
  "classify hash prior current =
     (let ((chg, candidates, unc), m) = diff_current_against_prior hash prior current new_manifest;
          (gone, idx) = index_deleted_by_hash prior (rel ` set current);
          (ren, add, consumed, m') = match_renames_and_adds hash idx candidates {} m
      in \<lparr>changes = \<lparr>changed = chg, added = add, deleted = filter (\<lambda>r. r \<notin> consumed) gone, renamed = ren\<rparr>,
          unchanged = unc, next_manifest = m'\<rparr>)"

definition manifest_from_discovered :: "(string \<Rightarrow> string option) \<Rightarrow> discovered list \<Rightarrow> file_manifest" where
  "manifest_from_discovered hash current = fold (\<lambda>d. record_state d (fresh_state hash d)) current new_manifest"

section \<open>Classification by git\<close>

definition is_hex_sha :: "string \<Rightarrow> bool" where
  "is_hex_sha s \<longleftrightarrow> s \<noteq> [] \<and> list_all is_hexdigit s"

definition strip_prefix_path :: "string \<Rightarrow> string \<Rightarrow> string option" where
  "strip_prefix_path path pre = (if pre = [] then Some path else strip_prefix path pre)"

abbreviation add_changed :: "discovered option \<Rightarrow> change_set \<Rightarrow> change_set" where
  "add_changed d cs \<equiv> (case d of None \<Rightarrow> cs | Some d \<Rightarrow> cs\<lparr>changed := changed cs @ [d]\<rparr>)"
abbreviation add_added :: "discovered option \<Rightarrow> change_set \<Rightarrow> change_set" where
  "add_added d cs \<equiv> (case d of None \<Rightarrow> cs | Some d \<Rightarrow> cs\<lparr>added := added cs @ [d]\<rparr>)"
abbreviation add_deleted :: "string option \<Rightarrow> change_set \<Rightarrow> change_set" where
  "add_deleted r cs \<equiv> (case r of None \<Rightarrow> cs | Some r \<Rightarrow> cs\<lparr>deleted := deleted cs @ [r]\<rparr>)"

text \<open>One line of \<open>git diff --name-status -M\<close>: a status, and one or two paths between tabs.\<close>

definition parse_diff_line :: "string \<Rightarrow> string \<Rightarrow> (string \<Rightarrow> discovered option) \<Rightarrow> change_set \<Rightarrow> change_set" where
  "parse_diff_line line pre by_rel cs =
     (case split_on (\<lambda>c. c = byte 9) line of
        [] \<Rightarrow> cs
      | [] # _ \<Rightarrow> cs
      | (stat # _) # paths \<Rightarrow>
          if stat = CHR ''R'' \<or> stat = CHR ''C'' then
            (case paths of
               old # new # _ \<Rightarrow>
                 (case strip_prefix_path new pre of
                    None \<Rightarrow> cs
                  | Some new_rel \<Rightarrow>
                      (case by_rel new_rel of
                         Some d \<Rightarrow>
                           (if stat = CHR ''R'' then
                              (case strip_prefix_path old pre of
                                 Some r \<Rightarrow> cs\<lparr>renamed := renamed cs @ [\<lparr>old_rel = r, new_file = d\<rparr>]\<rparr>
                               | None \<Rightarrow> add_added (Some d) cs)
                            else add_added (Some d) cs)
                       | None \<Rightarrow> if stat = CHR ''R'' then add_deleted (strip_prefix_path old pre) cs else cs))
             | _ \<Rightarrow> cs)
          else
            (case paths of
               path # _ \<Rightarrow>
                 (case strip_prefix_path path pre of
                    None \<Rightarrow> cs
                  | Some r \<Rightarrow>
                      if stat = CHR ''D'' then add_deleted (Some r) cs
                      else if stat = CHR ''A'' then add_added (by_rel r) cs
                      else add_changed (by_rel r) cs)
             | [] \<Rightarrow> cs))"

text \<open>What git prints, when it can, is given by \<open>git\<close>, the function of the arguments.\<close>

record diff_context =
  git_output :: "string list \<Rightarrow> string option"
  path_prefix :: string
  by_rel :: "string \<Rightarrow> discovered option"

definition collect_tracked_changes :: "diff_context \<Rightarrow> string \<Rightarrow> change_set \<Rightarrow> change_set" where
  "collect_tracked_changes ctx artifact_sha cs =
     (case git_output ctx [''-c'', ''core.quotepath=false'', ''diff'', ''--name-status'', ''-M'', artifact_sha, ''--''] of
        None \<Rightarrow> cs
      | Some diff \<Rightarrow> fold (\<lambda>line. parse_diff_line line (path_prefix ctx) (by_rel ctx)) (str_lines diff) cs)"

definition add_untracked :: "diff_context \<Rightarrow> string set \<Rightarrow> string \<Rightarrow> change_set \<Rightarrow> change_set" where
  "add_untracked ctx already line cs =
     (case strip_prefix_path (str_trim line) (path_prefix ctx) of
        None \<Rightarrow> cs
      | Some r \<Rightarrow> if r \<in> already then cs else add_added (by_rel ctx r) cs)"

definition collect_untracked_adds :: "diff_context \<Rightarrow> change_set \<Rightarrow> change_set" where
  "collect_untracked_adds ctx cs =
     (case git_output ctx [''-c'', ''core.quotepath=false'', ''ls-files'', ''--others'', ''--exclude-standard''] of
        None \<Rightarrow> cs
      | Some others \<Rightarrow>
          fold (add_untracked ctx (rel ` set (added cs @ changed cs))) (str_lines others) cs)"

definition no_changes :: change_set where
  "no_changes = \<lparr>changed = [], added = [], deleted = [], renamed = []\<rparr>"

definition git_changes :: "(string list \<Rightarrow> string option) \<Rightarrow> string \<Rightarrow> discovered list \<Rightarrow> change_set option" where
  "git_changes git artifact_sha current =
     (if \<not> is_hex_sha artifact_sha then None
      else
        Option.bind (git [''rev-parse'', ''--show-prefix'']) (\<lambda>pre.
        Option.bind (git [''cat-file'', ''-e'', artifact_sha @ ''^{commit}'']) (\<lambda>_.
          let ctx = \<lparr>git_output = git, path_prefix = str_trim pre,
                     by_rel = map_of (rev (map (\<lambda>d. (rel d, d)) current))\<rparr>
          in Some (collect_untracked_adds ctx (collect_tracked_changes ctx artifact_sha no_changes)))))"

datatype fill_method = GitDiff | ContentHash

text \<open>The choice \<open>fill_after_bootstrap\<close> makes: the changes, the number of unchanged files and the manifest to keep.\<close>

definition choose_changes ::
  "(string list \<Rightarrow> string option) \<Rightarrow> (string \<Rightarrow> string option) \<Rightarrow> string \<Rightarrow> file_manifest option \<Rightarrow> discovered list \<Rightarrow>
   (change_set \<times> nat \<times> file_manifest \<times> fill_method, string) result" where
  "choose_changes git hash artifact_sha imported current =
     (case git_changes git artifact_sha current of
        Some cs \<Rightarrow>
          let reparsed = length (changed cs) + length (added cs) + length (renamed cs) in
          Ok (cs, length current - reparsed, manifest_from_discovered hash current, GitDiff)
      | None \<Rightarrow>
          (case imported of
             None \<Rightarrow> Err ''artifact fill: cannot diff (git unavailable AND no bundled manifest)''
           | Some prior \<Rightarrow>
               let p = classify hash prior current in
               Ok (changes p, length (unchanged p), next_manifest p, ContentHash)))"

section \<open>What a file is found to be\<close>

text \<open>The three answers the first phase can give for a file, and the state it leaves in the next manifest.\<close>

definition is_new :: "file_manifest \<Rightarrow> discovered \<Rightarrow> bool" where
  "is_new prior d \<longleftrightarrow> map_of (files prior) (rel d) = None"

definition same_stat :: "discovered \<Rightarrow> file_state \<Rightarrow> bool" where
  "same_stat d s \<longleftrightarrow> mtime_ns s = d_mtime_ns d \<and> file_size s = d_size d"

definition same_file :: "(string \<Rightarrow> string option) \<Rightarrow> file_manifest \<Rightarrow> discovered \<Rightarrow> bool" where
  "same_file hash prior d \<longleftrightarrow>
     (case map_of (files prior) (rel d) of
        None \<Rightarrow> False
      | Some s \<Rightarrow> same_stat d s \<or> (hash_or_empty hash d \<noteq> [] \<and> hash_or_empty hash d = content_hash s))"

definition next_state :: "(string \<Rightarrow> string option) \<Rightarrow> file_manifest \<Rightarrow> discovered \<Rightarrow> file_state" where
  "next_state hash prior d =
     (case map_of (files prior) (rel d) of
        None \<Rightarrow> fresh_state hash d
      | Some s \<Rightarrow> if same_stat d s then s else fresh_state hash d)"

lemma next_state_stat: "same_stat d (next_state hash prior d)"
  by (simp add: next_state_def same_stat_def fresh_state_def split: option.splits)

lemma next_state_new: "is_new prior d \<Longrightarrow> next_state hash prior d = fresh_state hash d"
  by (simp add: next_state_def is_new_def)

abbreviation record_all :: "(discovered \<Rightarrow> file_state) \<Rightarrow> discovered list \<Rightarrow> file_manifest \<Rightarrow> file_manifest" where
  "record_all st ds m \<equiv> fold (\<lambda>d. record_state d (st d)) ds m"

lemma classify_file_eq:
  "classify_file hash prior d ((chg, add, unc), m) =
     ((if is_new prior d \<or> same_file hash prior d then chg else chg @ [d],
       if is_new prior d then add @ [d] else add,
       if same_file hash prior d then unc @ [d] else unc),
      if is_new prior d then m else record_state d (next_state hash prior d) m)"
  by (simp add: classify_file_def is_new_def same_file_def next_state_def same_stat_def Let_def
      split: option.splits)

lemma same_file_not_new: "same_file hash prior d \<Longrightarrow> \<not> is_new prior d"
  by (simp add: same_file_def is_new_def split: option.splits)

lemma classify_files:
  "fold (classify_file hash prior) ds ((chg, add, unc), m) =
     ((chg @ filter (\<lambda>d. \<not> is_new prior d \<and> \<not> same_file hash prior d) ds,
       add @ filter (is_new prior) ds,
       unc @ filter (same_file hash prior) ds),
      record_all (next_state hash prior) (filter (\<lambda>d. \<not> is_new prior d) ds) m)"
proof (induction ds arbitrary: chg add unc m)
  case (Cons d ds)
  then show ?case
    using same_file_not_new[of hash prior d] by (cases "is_new prior d"; cases "same_file hash prior d") (simp_all add: classify_file_eq)
qed simp

section \<open>The manifest that is kept\<close>

lemma files_record_state[simp]: "files (record_state d s m) = btree_insert (rel d) s (files m)"
  by (simp add: record_state_def)
lemma version_record_state[simp]: "schema_version (record_state d s m) = schema_version m"
  by (simp add: record_state_def)

lemma record_all_version: "schema_version (record_all st ds m) = schema_version m"
  by (induction ds arbitrary: m) simp_all

lemma record_all_btree: "btree (files m) \<Longrightarrow> btree (files (record_all st ds m))"
  by (induction ds arbitrary: m) (simp_all add: btree_insert)

lemma record_all_lookup:
  "btree (files m) \<Longrightarrow> distinct (map rel ds) \<Longrightarrow>
   map_of (files (record_all st ds m)) = map_of (files m) ++ map_of (map (\<lambda>d. (rel d, st d)) ds)"
proof (induction ds arbitrary: m)
  case (Cons d ds)
  have "map_of (map (\<lambda>d. (rel d, st d)) ds) (rel d) = None" using Cons.prems(2) by (auto simp: map_of_eq_None_iff)
  then have comm: "(map_of (files m))(rel d \<mapsto> st d) ++ map_of (map (\<lambda>d. (rel d, st d)) ds) =
    map_of (files m) ++ map_of (map (\<lambda>d. (rel d, st d)) (d # ds))"
    by (auto simp: fun_eq_iff map_add_def split: option.splits)
  have "btree (files (record_state d (st d) m))" using Cons.prems by (simp add: btree_insert)
  moreover have "distinct (map rel ds)" using Cons.prems(2) by simp
  ultimately show ?case
    using Cons.IH[of "record_state d (st d) m"] btree_insert_lookup[OF Cons.prems(1), of "rel d" "st d"]
    by (simp only: fold_simps comp_def files_record_state comm)
qed simp

lemma btree_eqI:
  assumes "btree es" and "btree fs" and "map_of es = map_of fs"
  shows "es = fs"
proof -
  have list: "es = map (\<lambda>k. (k, the (map_of es k))) (map fst es)" if "btree es" for es :: "(string \<times> 'a) list"
    using btree_distinct[OF that] by (auto intro!: map_idI[symmetric])
  have "set (map fst es) = set (map fst fs)" using assms(3) by (metis dom_map_of_conv_image_fst set_map)
  then have "map fst es = map fst fs"
    using assms(1,2) by (simp add: strict_sorted_iff sorted_distinct_set_unique)
  then show ?thesis using list[OF assms(1)] list[OF assms(2)] assms(3) by metis
qed

lemma files_eqI:
  "schema_version m = schema_version n \<Longrightarrow> files m = files n \<Longrightarrow> (m :: file_manifest) = n"
  by (cases m; cases n) simp

section \<open>Renames\<close>

abbreviation index_add :: "states \<Rightarrow> string \<Rightarrow> by_hash \<Rightarrow> by_hash" where
  "index_add fs r idx \<equiv> (case map_of fs r of
                None \<Rightarrow> idx
              | Some s \<Rightarrow>
                  if content_hash s = [] then idx
                  else idx(content_hash s \<mapsto> (case idx (content_hash s) of None \<Rightarrow> [] | Some rs \<Rightarrow> rs) @ [r]))"

lemma index_add_entry:
  "index_add fs q idx h = Some xs \<Longrightarrow> r \<in> set xs \<Longrightarrow>
   (\<exists>ys. idx h = Some ys \<and> r \<in> set ys) \<or> (r = q \<and> map_option content_hash (map_of fs r) = Some h \<and> h \<noteq> [])"
  by (auto split: option.splits if_splits)

lemma index_entries:
  "fold (index_add fs) rs idx0 h = Some xs \<Longrightarrow> r \<in> set xs \<Longrightarrow>
   (\<exists>ys. idx0 h = Some ys \<and> r \<in> set ys) \<or> (r \<in> set rs \<and> map_option content_hash (map_of fs r) = Some h \<and> h \<noteq> [])"
proof (induction rs arbitrary: idx0)
  case (Cons q rs)
  have "fold (index_add fs) rs (index_add fs q idx0) h = Some xs" using Cons.prems(1) by (simp only: fold_simps)
  from Cons.IH[OF this Cons.prems(2)]
  consider ys where "index_add fs q idx0 h = Some ys" "r \<in> set ys"
    | "r \<in> set rs" "map_option content_hash (map_of fs r) = Some h" "h \<noteq> []" by blast
  then show ?case
  proof cases
    case 1
    from index_add_entry[OF this] show ?thesis by auto
  qed auto
qed auto

lemma index_deleted:
  assumes "index_deleted_by_hash prior ids = (gone, idx)" and "idx h = Some xs" and "r \<in> set xs"
  shows "r \<in> set gone" and "map_option content_hash (map_of (files prior) r) = Some h" and "h \<noteq> []"
proof -
  have "gone = filter (\<lambda>r. r \<notin> ids) (map fst (files prior))"
    and idx: "fold (index_add (files prior)) gone Map.empty = idx"
    using assms(1) by (auto simp: index_deleted_by_hash_def Let_def)
  from index_entries[of "files prior" gone Map.empty h xs r] assms(2,3) idx
  show "r \<in> set gone" and "map_option content_hash (map_of (files prior) r) = Some h" and "h \<noteq> []"
    by auto
qed

definition rename_ok :: "(string \<Rightarrow> string option) \<Rightarrow> file_manifest \<Rightarrow> rename \<Rightarrow> bool" where
  "rename_ok hash prior rn \<longleftrightarrow>
     hash_or_empty hash (new_file rn) \<noteq> [] \<and>
     map_option content_hash (map_of (files prior) (old_rel rn)) = Some (hash_or_empty hash (new_file rn))"

lemma match_files:
  "match_renames_and_adds hash idx ds consumed m = (ren, add, c, m') \<Longrightarrow>
   mset (map new_file ren) + mset add = mset ds \<and>
   c = consumed \<union> set (map old_rel ren) \<and>
   distinct (map old_rel ren) \<and> consumed \<inter> set (map old_rel ren) = {} \<and>
   m' = record_all (fresh_state hash) ds m \<and>
   (\<forall>rn \<in> set ren. \<exists>rs. hash_or_empty hash (new_file rn) \<noteq> [] \<and> idx (hash_or_empty hash (new_file rn)) = Some rs
                        \<and> old_rel rn \<in> set rs)"
proof (induction ds arbitrary: consumed m ren add c m')
  case (Cons d ds)
  define h where "h = hash_or_empty hash d"
  define found where "found = (if h = [] then None else Option.bind (idx h) (find (\<lambda>r. r \<notin> consumed)))"
  have step: "match_renames_and_adds hash idx (d # ds) consumed m =
    (case found of
           Some r \<Rightarrow>
             (case match_renames_and_adds hash idx ds (insert r consumed) (record_state d (fresh_state hash d) m) of
                (ren, add, c, m'') \<Rightarrow> (\<lparr>old_rel = r, new_file = d\<rparr> # ren, add, c, m''))
         | None \<Rightarrow>
             (case match_renames_and_adds hash idx ds consumed (record_state d (fresh_state hash d) m) of
                (ren, add, c, m'') \<Rightarrow> (ren, d # add, c, m'')))"
    by (simp only: match_renames_and_adds.simps Let_def found_def h_def)
  show ?case
  proof (cases found)
    case None
    obtain ren' add' c' m'' where rest: "match_renames_and_adds hash idx ds consumed (record_state d (fresh_state hash d) m) = (ren', add', c', m'')"
      by (metis prod_cases4)
    with Cons.prems None have "ren = ren'" "add = d # add'" "c = c'" "m' = m''"
      by (simp_all add: step del: match_renames_and_adds.simps)
    with Cons.IH[OF rest] show ?thesis by simp
  next
    case (Some r)
    obtain ren' add' c' m'' where rest: "match_renames_and_adds hash idx ds (insert r consumed) (record_state d (fresh_state hash d) m) = (ren', add', c', m'')"
      by (metis prod_cases4)
    with Cons.prems Some have eqs: "ren = \<lparr>old_rel = r, new_file = d\<rparr> # ren'" "add = add'" "c = c'" "m' = m''"
      by (simp_all add: step del: match_renames_and_adds.simps)
    have r: "h \<noteq> []" "\<exists>rs. idx h = Some rs \<and> r \<in> set rs" "r \<notin> consumed"
      using Some by (auto simp: found_def find_Some_iff bind_eq_Some_conv split: if_splits)
    from Cons.IH[OF rest] r eqs show ?thesis by (auto simp: h_def)
  qed
qed auto


section \<open>The plan\<close>

lemma classify_eq:
  obtains ren add consumed m' where
    "match_renames_and_adds hash (snd (index_deleted_by_hash prior (rel ` set current))) (filter (is_new prior) current) {}
       (record_all (next_state hash prior) (filter (\<lambda>d. \<not> is_new prior d) current) new_manifest) = (ren, add, consumed, m')"
    "classify hash prior current =
       \<lparr>changes = \<lparr>changed = filter (\<lambda>d. \<not> is_new prior d \<and> \<not> same_file hash prior d) current, added = add,
          deleted = filter (\<lambda>r. r \<notin> rel ` set current \<and> r \<notin> consumed) (map fst (files prior)), renamed = ren\<rparr>,
        unchanged = filter (same_file hash prior) current, next_manifest = m'\<rparr>"
proof -
  obtain gone idx where ix: "index_deleted_by_hash prior (rel ` set current) = (gone, idx)" by fastforce
  then have gone: "gone = filter (\<lambda>r. r \<notin> rel ` set current) (map fst (files prior))"
    by (auto simp: index_deleted_by_hash_def Let_def)
  obtain ren add consumed m' where rn: "match_renames_and_adds hash idx (filter (is_new prior) current) {}
       (record_all (next_state hash prior) (filter (\<lambda>d. \<not> is_new prior d) current) new_manifest) = (ren, add, consumed, m')"
    by (metis prod_cases4)
  have "filter (\<lambda>r. r \<notin> consumed) gone = filter (\<lambda>r. r \<notin> rel ` set current \<and> r \<notin> consumed) (map fst (files prior))"
    by (simp add: gone conj_commute)
  with that[OF rn[folded snd_conv[of gone idx, folded ix]]] show thesis
    by (simp add: classify_def diff_current_against_prior_def classify_files ix rn)
qed

lemma distinct_minus_taken:
  assumes "distinct xs" and "distinct ys" and "set ys \<subseteq> {x \<in> set xs. P x}"
  shows "mset (filter (\<lambda>x. P x \<and> x \<notin> set ys) xs) + mset ys = mset (filter P xs)"
proof -
  have "distinct (filter (\<lambda>x. P x \<and> x \<notin> set ys) xs @ ys)" using assms by auto
  moreover have "set (filter (\<lambda>x. P x \<and> x \<notin> set ys) xs @ ys) = set (filter P xs)" using assms by auto
  ultimately have "mset (filter (\<lambda>x. P x \<and> x \<notin> set ys) xs @ ys) = mset (filter P xs)"
    using assms(1) set_eq_iff_mset_eq_distinct distinct_filter by blast
  then show ?thesis by simp
qed

lemma classify_accounts:
  assumes "btree (files prior)" and "classify hash prior current = p"
  shows "mset (changed (changes p)) + mset (added (changes p)) + mset (map new_file (renamed (changes p)))
           + mset (unchanged p) = mset current"
    and "mset (deleted (changes p)) + mset (map old_rel (renamed (changes p)))
           = mset (filter (\<lambda>r. r \<notin> rel ` set current) (map fst (files prior)))"
    and "list_all (rename_ok hash prior) (renamed (changes p))"
proof -
  let ?ix = "index_deleted_by_hash prior (rel ` set current)"
  obtain ren add consumed m' where rn: "match_renames_and_adds hash (snd ?ix) (filter (is_new prior) current) {}
       (record_all (next_state hash prior) (filter (\<lambda>d. \<not> is_new prior d) current) new_manifest) = (ren, add, consumed, m')"
    and p: "p = \<lparr>changes = \<lparr>changed = filter (\<lambda>d. \<not> is_new prior d \<and> \<not> same_file hash prior d) current, added = add,
          deleted = filter (\<lambda>r. r \<notin> rel ` set current \<and> r \<notin> consumed) (map fst (files prior)), renamed = ren\<rparr>,
        unchanged = filter (same_file hash prior) current, next_manifest = m'\<rparr>"
    using assms(2) by (auto intro: classify_eq[of hash prior current])
  from match_files[OF rn] have new: "mset (map new_file ren) + mset add = mset (filter (is_new prior) current)"
    and consumed: "consumed = set (map old_rel ren)" and dist: "distinct (map old_rel ren)"
    and entry: "\<And>r. r \<in> set ren \<Longrightarrow> \<exists>rs. hash_or_empty hash (new_file r) \<noteq> [] \<and>
                  snd ?ix (hash_or_empty hash (new_file r)) = Some rs \<and> old_rel r \<in> set rs" by auto
  have split: "mset current = mset (filter (is_new prior) current) + (mset (filter (same_file hash prior) current)
      + mset (filter (\<lambda>d. \<not> is_new prior d \<and> \<not> same_file hash prior d) current))"
    by (induction current) (auto simp: same_file_not_new)
  show "mset (changed (changes p)) + mset (added (changes p)) + mset (map new_file (renamed (changes p)))
           + mset (unchanged p) = mset current"
    using new split by (simp add: p ac_simps del: mset_filter)
  have gone: "fst ?ix = filter (\<lambda>r. r \<notin> rel ` set current) (map fst (files prior))"
    by (simp add: index_deleted_by_hash_def Let_def)
  have ok: "old_rel r \<in> set (fst ?ix) \<and> rename_ok hash prior r" if "r \<in> set ren" for r
    using entry[OF that] index_deleted[of prior _ "fst ?ix" "snd ?ix"] by (auto simp: rename_ok_def)
  then show "list_all (rename_ok hash prior) (renamed (changes p))" by (simp add: p list_all_iff)
  have "set (map old_rel ren) \<subseteq> {r \<in> set (map fst (files prior)). r \<notin> rel ` set current}"
    using ok by (auto simp: gone)
  from distinct_minus_taken[OF btree_distinct[OF assms(1)] dist this]
  show "mset (deleted (changes p)) + mset (map old_rel (renamed (changes p)))
           = mset (filter (\<lambda>r. r \<notin> rel ` set current) (map fst (files prior)))"
    by (simp add: p consumed)
qed

text \<open>
  C13: A plan accounts for every file exactly once.  The changed, added, renamed and unchanged files are together
  the current files; the paths deleted and the paths renamed away are together the paths of the manifest that
  are not among the current files, so that no old path is used for two renames; and every rename joins a
  current file to an old path whose recorded content hash is its own and is not empty.
\<close>

theorem classify_accounts_for_every_file:
  assumes "btree (files prior)" and "classify hash prior current = p"
  shows "mset (changed (changes p)) + mset (added (changes p)) + mset (map new_file (renamed (changes p)))
           + mset (unchanged p) = mset current \<and>
    mset (deleted (changes p)) + mset (map old_rel (renamed (changes p)))
           = mset (filter (\<lambda>r. r \<notin> rel ` set current) (map fst (files prior))) \<and>
    list_all (rename_ok hash prior) (renamed (changes p))"
  using classify_accounts[OF assms] by blast

lemma next_manifest_entries:
  assumes "distinct (map rel current)"
  shows "btree (files (next_manifest (classify hash prior current)))"
    and "schema_version (next_manifest (classify hash prior current)) = MANIFEST_SCHEMA_VERSION"
    and "map_of (files (next_manifest (classify hash prior current))) =
           map_of (map (\<lambda>d. (rel d, next_state hash prior d)) current)"
proof -
  let ?old = "filter (\<lambda>d. \<not> is_new prior d) current" and ?new = "filter (is_new prior) current"
  let ?m = "record_all (next_state hash prior) ?old new_manifest"
  obtain ren add consumed where
    rn: "match_renames_and_adds hash (snd (index_deleted_by_hash prior (rel ` set current))) ?new {} ?m
      = (ren, add, consumed, next_manifest (classify hash prior current))"
    by (rule classify_eq[of hash prior current]) (auto intro: that)
  from match_files[OF rn] have m: "next_manifest (classify hash prior current) = record_all (fresh_state hash) ?new ?m" by simp
  have b0: "btree (files new_manifest)" by (simp add: new_manifest_def)
  show "btree (files (next_manifest (classify hash prior current)))"
    unfolding m by (intro record_all_btree b0)
  show "schema_version (next_manifest (classify hash prior current)) = MANIFEST_SCHEMA_VERSION"
    by (simp add: m record_all_version new_manifest_def)
  have d: "distinct (map rel ?old)" "distinct (map rel ?new)" using assms by (simp_all add: distinct_map_filter)
  have new: "map (\<lambda>d. (rel d, fresh_state hash d)) ?new = map (\<lambda>d. (rel d, next_state hash prior d)) ?new"
    by (simp add: next_state_new)
  have "map_of (files new_manifest) = Map.empty" by (simp add: new_manifest_def)
  then have eq: "map_of (files (next_manifest (classify hash prior current))) =
      map_of (map (\<lambda>d. (rel d, next_state hash prior d)) ?old) ++ map_of (map (\<lambda>d. (rel d, next_state hash prior d)) ?new)"
    by (simp add: m record_all_lookup[OF record_all_btree[OF b0] d(2)] record_all_lookup[OF b0 d(1)] new)
  also have "\<dots> = map_of (map (\<lambda>d. (rel d, next_state hash prior d)) (?new @ ?old))" by simp
  also have "\<dots> = map_of (map (\<lambda>d. (rel d, next_state hash prior d)) current)"
  proof (rule map_of_inject_set[THEN iffD2])
    have "distinct (map rel (?new @ ?old))"
      using assms d unfolding distinct_map by (auto simp: inj_on_def)
    then show "distinct (map fst (map (\<lambda>d. (rel d, next_state hash prior d)) (?new @ ?old)))" by (simp add: comp_def)
    show "distinct (map fst (map (\<lambda>d. (rel d, next_state hash prior d)) current))" using assms by (simp add: comp_def)
  qed auto
  finally show "map_of (files (next_manifest (classify hash prior current))) = \<dots>" .
qed


lemma next_manifest_lookup:
  assumes "distinct (map rel current)" and "d \<in> set current"
  shows "map_of (files (next_manifest (classify hash prior current))) (rel d) = Some (next_state hash prior d)"
  using assms by (simp add: next_manifest_entries(3) comp_def)

lemma next_manifest_keys:
  assumes "distinct (map rel current)"
  shows "set (map fst (files (next_manifest (classify hash prior current)))) = rel ` set current"
proof -
  have "set (map fst (files (next_manifest (classify hash prior current)))) =
      dom (map_of (files (next_manifest (classify hash prior current))))" by (simp add: dom_map_of_conv_image_fst)
  also have "\<dots> = rel ` set current" by (simp add: next_manifest_entries(3)[OF assms] dom_map_of_conv_image_fst image_image)
  finally show ?thesis .
qed


definition sample_disk :: "string \<Rightarrow> string option" where
  "sample_disk p = (if p = ''/r/new.rs'' then Some ''aa'' else if p = ''/r/kept.rs'' then Some ''bb'' else None)"

definition sample_files :: "discovered list" where
  "sample_files = [\<lparr>rel = ''kept.rs'', abs_path = ''/r/kept.rs'', d_mtime_ns = 9, d_size = 2\<rparr>,
                   \<lparr>rel = ''new.rs'', abs_path = ''/r/new.rs'', d_mtime_ns = 9, d_size = 2\<rparr>,
                   \<lparr>rel = ''lost.rs'', abs_path = ''/r/lost.rs'', d_mtime_ns = 9, d_size = 2\<rparr>]"

definition sample_prior :: file_manifest where
  "sample_prior = \<lparr>schema_version = 1,
     files = [(''gone.rs'', \<lparr>mtime_ns = 1, file_size = 2, content_hash = ''cc''\<rparr>),
              (''kept.rs'', \<lparr>mtime_ns = 1, file_size = 2, content_hash = ''bb''\<rparr>),
              (''old.rs'', \<lparr>mtime_ns = 1, file_size = 2, content_hash = ''aa''\<rparr>)]\<rparr>"

lemma classify_accounts_for_every_file_witness:
  "(case classify sample_disk sample_prior sample_files of p \<Rightarrow>
     map rel (unchanged p) = [''kept.rs''] \<and> map rel (added (changes p)) = [''lost.rs''] \<and>
     deleted (changes p) = [''gone.rs''] \<and> map old_rel (renamed (changes p)) = [''old.rs''] \<and>
     list_all (rename_ok sample_disk sample_prior) (renamed (changes p)))"
proof -
  have "btree (files sample_prior)" by code_simp
  note ok = classify_accounts_for_every_file[OF this refl, of sample_disk sample_files]
  have "map rel (unchanged (classify sample_disk sample_prior sample_files)) = [''kept.rs'']"
    "map rel (added (changes (classify sample_disk sample_prior sample_files))) = [''lost.rs'']"
    "deleted (changes (classify sample_disk sample_prior sample_files)) = [''gone.rs'']"
    "map old_rel (renamed (changes (classify sample_disk sample_prior sample_files))) = [''old.rs'']"
    by code_simp+
  with ok show ?thesis by simp
qed


text \<open>
  The set of paths the untracked files are compared with holds the added and the changed files only; a path that
  is the new end of a rename and also untracked is reported as a rename and as an add.
\<close>

lemma untracked_rename_is_added_too:
  "let d = \<lparr>rel = ''b'', abs_path = ''b'', d_mtime_ns = 0, d_size = 0\<rparr>;
       ctx = \<lparr>git_output = (\<lambda>_. Some ''b''), path_prefix = [], by_rel = (\<lambda>r. if r = ''b'' then Some d else None)\<rparr>;
       cs = collect_untracked_adds ctx (no_changes\<lparr>renamed := [\<lparr>old_rel = ''a'', new_file = d\<rparr>]\<rparr>)
   in added cs = [d] \<and> map new_file (renamed cs) = [d]"
  by code_simp

text \<open>
  \<open>write_full_manifest\<close> records an empty hash for a file that cannot be read, so that it classifies as changed
  the next time; the next time only its time and size are compared.
\<close>

definition write_full_manifest :: "(string \<Rightarrow> string option) \<Rightarrow> discovered list \<Rightarrow> file_manifest" where
  "write_full_manifest hash current =
     fold (\<lambda>d m. m\<lparr>files := btree_insert (rel d)
        \<lparr>mtime_ns = d_mtime_ns d, file_size = d_size d, content_hash = hash_or_empty hash d\<rparr> (files m)\<rparr>) current new_manifest"

lemma full_manifest_is_that_of_the_discovered:
  "write_full_manifest hash current = manifest_from_discovered hash current"
  by (simp add: write_full_manifest_def manifest_from_discovered_def record_state_def[abs_def] fresh_state_def)

lemma unreadable_file_is_unchanged_later:
  "let p = classify (\<lambda>p. Some ''aa'') (write_full_manifest (\<lambda>p. None) sample_files) sample_files
   in unchanged p = sample_files \<and> changed (changes p) = []"
  by code_simp


section \<open>Changes found by git\<close>

definition touched :: "change_set \<Rightarrow> discovered set" where
  "touched cs = set (changed cs) \<union> set (added cs) \<union> new_file ` set (renamed cs)"

lemma parse_diff_line_touched:
  "touched (parse_diff_line line pre known cs) \<subseteq> touched cs \<union> ran known"
  by (auto simp: parse_diff_line_def touched_def ran_def split: list.splits option.splits)

lemma fold_touched:
  "(\<And>x cs. touched (f x cs) \<subseteq> touched cs \<union> A) \<Longrightarrow> touched (fold f xs cs) \<subseteq> touched cs \<union> A"
proof (induction xs arbitrary: cs)
  case (Cons x xs)
  from Cons.IH[OF Cons.prems, of "f x cs"] Cons.prems[of x cs] show ?case by auto
qed simp

lemma tracked_touched: "touched (collect_tracked_changes ctx sha cs) \<subseteq> touched cs \<union> ran (by_rel ctx)"
  unfolding collect_tracked_changes_def by (auto split: option.splits dest!: subsetD[OF fold_touched[OF parse_diff_line_touched]])

lemma untracked_touched: "touched (collect_untracked_adds ctx cs) \<subseteq> touched cs \<union> ran (by_rel ctx)"
proof -
  let ?already = "rel ` set (added cs @ changed cs)"
  have "touched (add_untracked ctx ?already line cs') \<subseteq> touched cs' \<union> ran (by_rel ctx)" for line cs'
    by (auto simp: add_untracked_def touched_def ran_def split: option.splits)
  then have "touched (fold (add_untracked ctx ?already) lines cs) \<subseteq> touched cs \<union> ran (by_rel ctx)" for lines
    by (rule fold_touched)
  then show ?thesis unfolding collect_untracked_adds_def by (auto simp: ran_def split: option.splits)
qed

text \<open>Nothing outside the discovered files is parsed again, whatever git prints.\<close>

lemma git_changes_are_current:
  "git_changes git sha current = Some cs \<Longrightarrow> touched cs \<subseteq> set current"
proof -
  assume "git_changes git sha current = Some cs"
  then obtain ctx where cs: "cs = collect_untracked_adds ctx (collect_tracked_changes ctx sha no_changes)"
    and lookup: "by_rel ctx = map_of (rev (map (\<lambda>d. (rel d, d)) current))"
    by (auto simp: git_changes_def Let_def bind_eq_Some_conv split: if_splits)
  have "ran (by_rel ctx) \<subseteq> set current" by (auto simp: lookup ran_def dest!: map_of_SomeD)
  moreover have "touched no_changes = {}" by (simp add: touched_def no_changes_def)
  ultimately show ?thesis
    using untracked_touched[of ctx "collect_tracked_changes ctx sha no_changes"] tracked_touched[of ctx sha no_changes]
    by (auto simp: cs)
qed

end
