(* ===== verification/Worklist.thy ===== *)
theory Worklist
  imports Rust_Base "HOL-Library.Multiset"
begin

text \<open>
  The loop \<open>while let Some(x) = pending.pop()\<close> of the module-tree walks: a stack of pending items, and a state the
  visit of an item changes, pushing more items.  The head of the list is the top of the stack.  Nothing in the
  loop bounds it, so not returning is the value \<open>None\<close>; the lemmas give its termination, its invariants and the
  closure of what it visits.
\<close>

partial_function (option) worklist :: "('s \<Rightarrow> 'a \<Rightarrow> 's \<times> 'a list) \<Rightarrow> 's \<Rightarrow> 'a list \<Rightarrow> 's option" where
  "worklist visit s pending =
     (case pending of
        [] \<Rightarrow> Some s
      | x # rest \<Rightarrow> (case visit s x of (s', pushed) \<Rightarrow> worklist visit s' (rev pushed @ rest)))"

lemma worklist_simps [simp, code]:
  "worklist visit s [] = Some s"
  "worklist visit s (x # rest) = (case visit s x of (s', pushed) \<Rightarrow> worklist visit s' (rev pushed @ rest))"
  by (simp_all add: worklist.simps[of visit s])

text \<open>A measure of the state that every pushing visit lowers makes the loop return.\<close>

lemma worklist_returns:
  assumes keep: "\<And>s x s' pushed. P s \<Longrightarrow> x \<in> U \<Longrightarrow> visit s x = (s', pushed) \<Longrightarrow>
      P s' \<and> set pushed \<subseteq> U \<and> m s' \<le> m s \<and> (pushed \<noteq> [] \<longrightarrow> m s' < (m s :: nat))"
    and "P s" and "set pending \<subseteq> U"
  shows "\<exists>t. worklist visit s pending = Some t"
  using assms(2,3)
proof (induction "(s, pending)" arbitrary: s pending
    rule: wf_induct[OF wf_inv_image[OF wf_lex_prod[OF wf_less_than wf_less_than], of "\<lambda>(s, p). (m s, length p)"]])
  case 1
  show ?case
  proof (cases pending)
    case (Cons x rest)
    obtain s' pushed where v: "visit s x = (s', pushed)" by fastforce
    from keep[OF 1(2) _ v] 1(3) Cons
    have P: "P s'" "set (rev pushed @ rest) \<subseteq> U" and le: "m s' \<le> m s" and less: "pushed \<noteq> [] \<longrightarrow> m s' < m s" by auto
    have "((s', rev pushed @ rest), (s, pending)) \<in> inv_image (less_than <*lex*> less_than) (\<lambda>(s, p). (m s, length p))"
      using le less by (cases "pushed = []") (auto simp: Cons)
    with 1(1) P have "\<exists>t. worklist visit s' (rev pushed @ rest) = Some t" by blast
    then show ?thesis by (simp add: Cons v)
  qed simp
qed

text \<open>So does a well-founded relation that every item pushed goes down in.\<close>

lemma worklist_returns_wf:
  assumes "wf r"
    and push: "\<And>s x s' pushed. x \<in> U \<Longrightarrow> visit s x = (s', pushed) \<Longrightarrow> \<forall>y \<in> set pushed. y \<in> U \<and> (y, x) \<in> r"
    and "set pending \<subseteq> U"
  shows "\<exists>t. worklist visit s pending = Some t"
  using assms(3)
proof (induction "mset pending" arbitrary: s pending rule: wf_induct[OF wf_mult[OF assms(1)]])
  case 1
  show ?case
  proof (cases pending)
    case (Cons x rest)
    obtain s' pushed where v: "visit s x = (s', pushed)" by fastforce
    from push[OF _ v] 1(2) Cons have pushed: "\<forall>y \<in> set pushed. y \<in> U \<and> (y, x) \<in> r" by simp
    have "(mset rest + mset pushed, mset rest + {#x#}) \<in> mult r"
      by (rule one_step_implies_mult) (use pushed in auto)
    then have "(mset (rev pushed @ rest), mset pending) \<in> mult r" by (simp add: Cons ac_simps)
    moreover have "set (rev pushed @ rest) \<subseteq> U" using pushed 1(2) Cons by auto
    ultimately have "\<exists>t. worklist visit s' (rev pushed @ rest) = Some t" using 1(1) by blast
    then show ?thesis by (simp add: Cons v)
  qed simp
qed

text \<open>An invariant of the state and the pending items holds of the result, where nothing is pending.\<close>

lemma worklist_invariant:
  assumes step: "\<And>s x rest s' pushed. I s (x # rest) \<Longrightarrow> visit s x = (s', pushed) \<Longrightarrow> I s' (rev pushed @ rest)"
    and "worklist visit s pending = Some t" and "I s pending"
  shows "I t []"
proof -
  define P where "P v s p t \<longleftrightarrow> (v = visit \<longrightarrow> I s p \<longrightarrow> I t [])" for v s p t
  have "P visit s pending t"
  proof (rule worklist.raw_induct[OF _ assms(2)])
    fix f :: "('a \<Rightarrow> 'b \<Rightarrow> 'a \<times> 'b list) \<Rightarrow> 'a \<Rightarrow> 'b list \<Rightarrow> 'a option" and v s p t
    assume IH: "\<And>v s p t. f v s p = Some t \<Longrightarrow> P v s p t"
      and eq: "(case p of [] \<Rightarrow> Some s | x # rest \<Rightarrow> (case v s x of (s', pushed) \<Rightarrow> f v s' (rev pushed @ rest))) = Some t"
    show "P v s p t"
    proof (cases p)
      case Nil
      then show ?thesis using eq by (simp add: P_def)
    next
      case (Cons x rest)
      obtain s' pushed where v: "v s x = (s', pushed)" by fastforce
      from eq Cons v have "P v s' (rev pushed @ rest) t" by (intro IH) simp
      with v Cons step show ?thesis by (auto simp: P_def)
    qed
  qed
  with assms(3) show ?thesis by (simp add: P_def)
qed

text \<open>While a property that keeps something pending is kept, the loop does not return.\<close>

lemma worklist_diverges:
  assumes step: "\<And>s x rest s' pushed. Q s (x # rest) \<Longrightarrow> visit s x = (s', pushed) \<Longrightarrow> Q s' (rev pushed @ rest)"
    and pending: "\<And>s. \<not> Q s []" and start: "Q s pending"
  shows "worklist visit s pending = None"
proof (cases "worklist visit s pending")
  case (Some t)
  have "Q t []" by (rule worklist_invariant[where I = Q, OF _ Some start]) (rule step)
  with pending show ?thesis by blast
qed


section \<open>Marking what is popped\<close>

text \<open>
  A visit that marks an item and pushes its successors, or skips one that is marked, marks everything that can
  be reached.  What was marked before stays marked and has to be closed already.
\<close>

lemma worklist_reaches:
  assumes visit: "\<And>s x. visit s x = (if key x \<in> s then (s, []) else (insert (key x) s, succ x))"
    and "inj key" and "finite U" and "set init \<subseteq> U" and succ: "\<And>x. x \<in> U \<Longrightarrow> set (succ x) \<subseteq> U"
    and closed: "\<And>x. key x \<in> s0 \<Longrightarrow> key ` set (succ x) \<subseteq> s0"
  shows "worklist visit s0 init = Some (s0 \<union> key ` ({(a, b). b \<in> set (succ a)}\<^sup>* `` set init))"
proof -
  let ?R = "{(a, b). b \<in> set (succ a)}\<^sup>* `` set init"
  have "\<exists>t. worklist visit s0 init = Some t"
  proof (rule worklist_returns[where P = "\<lambda>_. True" and U = U and m = "\<lambda>s. card (key ` U - s)"])
    fix s x s' pushed
    assume "x \<in> U" and v: "visit s x = (s', pushed)"
    then have sub: "key ` U - s' \<subseteq> key ` U - s" "set pushed \<subseteq> U" and less: "pushed \<noteq> [] \<Longrightarrow> key ` U - s' \<subset> key ` U - s"
      using visit[of s x] succ by (auto split: if_splits)
    have "finite (key ` U - s)" using \<open>finite U\<close> by simp
    with sub less show "True \<and> set pushed \<subseteq> U \<and> card (key ` U - s') \<le> card (key ` U - s) \<and>
        (pushed \<noteq> [] \<longrightarrow> card (key ` U - s') < card (key ` U - s))"
      by (auto intro: card_mono psubset_card_mono)
  qed (use assms in auto)
  then obtain t where t: "worklist visit s0 init = Some t" ..
  define I where "I s pending \<longleftrightarrow> s0 \<subseteq> s \<and> s \<subseteq> s0 \<union> key ` ?R \<and> set pending \<subseteq> ?R \<and>
      key ` set init \<subseteq> s \<union> key ` set pending \<and> (\<forall>x. key x \<in> s \<longrightarrow> key ` set (succ x) \<subseteq> s \<union> key ` set pending)" for s pending
  have "I t []"
  proof (rule worklist_invariant[OF _ t])
    show "I s0 init" using closed by (auto simp: I_def)
  next
    fix s x rest s' pushed
    assume I: "I s (x # rest)" and v: "visit s x = (s', pushed)"
    show "I s' (rev pushed @ rest)"
    proof (cases "key x \<in> s")
      case True
      then have "s \<union> key ` set (x # rest) = s \<union> key ` set rest" by auto
      moreover have "s' = s" "pushed = []" using v True by (auto simp: visit)
      ultimately show ?thesis using I by (simp add: I_def)
    next
      case False
      with v have s': "s' = insert (key x) s" "pushed = succ x" by (auto simp: visit)
      have "x \<in> ?R" using I by (simp add: I_def)
      then have "set (succ x) \<subseteq> ?R" by (blast intro: rtrancl_into_rtrancl)
      moreover have old: "A \<subseteq> s' \<union> key ` set (rev pushed @ rest)" if "A \<subseteq> s \<union> key ` set (x # rest)" for A
        using that by (auto simp: s')
      have "key ` set (succ y) \<subseteq> s' \<union> key ` set (rev pushed @ rest)" if "key y \<in> s'" for y
      proof (cases "y = x")
        case False
        then have "key y \<in> s" using that \<open>inj key\<close> by (auto simp: s' dest: injD)
        then show ?thesis using I by (intro old) (simp add: I_def)
      qed (auto simp: s')
      moreover have "key ` set init \<subseteq> s' \<union> key ` set (rev pushed @ rest)" using I by (intro old) (simp add: I_def)
      ultimately show ?thesis using I \<open>x \<in> ?R\<close> by (auto simp: I_def s')
    qed
  qed
  then have sub: "s0 \<subseteq> t" "t \<subseteq> s0 \<union> key ` ?R" and init: "key ` set init \<subseteq> t"
    and step: "\<And>x y. key x \<in> t \<Longrightarrow> y \<in> set (succ x) \<Longrightarrow> key y \<in> t" by (auto simp: I_def image_subset_iff)
  have "key y \<in> t" if "(x, y) \<in> {(a, b). b \<in> set (succ a)}\<^sup>*" "x \<in> set init" for x y
    using that by (induction rule: rtrancl_induct) (use init step in auto)
  with sub t show ?thesis by auto
qed

end
