(* ===== verification/Cfg_Lex.thy ===== *)
theory Cfg_Lex
  imports Utf8
begin

text \<open>
  \<open>src/parser/cfg_lex.rs\<close>: the lexer of a \<open>#[cfg(...)]\<close> argument list.  Text is a list of code
  points; a \<open>Peekable<Chars>\<close> is the list of the characters still to come, which every operation
  returns beside its result.  The strings a token carries are UTF-8 bytes.
  \<open>char::is_alphanumeric\<close> outside ASCII is the Unicode table of the standard library, passed as
  \<open>ua\<close>; every theorem holds for any table.
\<close>

abbreviation (input) "QUOTE \<equiv> (34::nat)"
abbreviation (input) "SLASH \<equiv> (47::nat)"
abbreviation (input) "STAR \<equiv> (42::nat)"
abbreviation (input) "BACKSLASH \<equiv> (92::nat)"
abbreviation (input) "NEWLINE \<equiv> (10::nat)"
abbreviation (input) "SPACE \<equiv> (32::nat)"

section \<open>Comments\<close>

fun copy_string_rest :: "bool \<Rightarrow> nat list \<Rightarrow> nat list \<times> nat list" where
  "copy_string_rest escaped [] = ([], [])"
| "copy_string_rest escaped (c # cs) =
     (if escaped then (case copy_string_rest False cs of (out, rest) \<Rightarrow> (c # out, rest))
      else if c = BACKSLASH then (case copy_string_rest True cs of (out, rest) \<Rightarrow> (c # out, rest))
      else if c = QUOTE then ([c], cs)
      else (case copy_string_rest False cs of (out, rest) \<Rightarrow> (c # out, rest)))"

fun skip_block_comment :: "nat \<Rightarrow> nat list \<Rightarrow> nat list" where
  "skip_block_comment depth [] = []"
| "skip_block_comment depth [c] = []"
| "skip_block_comment depth (c # d # cs) =
     (if c = SLASH \<and> d = STAR then skip_block_comment (Suc depth) cs
      else if c = STAR \<and> d = SLASH then
        (if depth - 1 = 0 then cs else skip_block_comment (depth - 1) cs)
      else skip_block_comment depth (d # cs))"

text \<open>The \<open>for c in chars.by_ref()\<close> loop of a line comment: everything up to and with the line feed.\<close>

fun skip_line :: "nat list \<Rightarrow> nat list" where
  "skip_line [] = []"
| "skip_line (c # cs) = (if c = NEWLINE then cs else skip_line cs)"

lemma length_copy_string_rest:
  "length (fst (copy_string_rest e cs)) + length (snd (copy_string_rest e cs)) = length cs"
proof (induction cs arbitrary: e)
  case Nil
  then show ?case by simp
next
  case (Cons c cs)
  show ?case using Cons [of True] Cons [of False] by (auto split: prod.splits)
qed

lemma length_copy_string_rest_snd: "copy_string_rest e cs = (out, rest) \<Longrightarrow> length rest \<le> length cs"
  using length_copy_string_rest [of e cs] by simp

lemma length_skip_block_comment: "length (skip_block_comment d cs) \<le> length cs"
  by (induction d cs rule: skip_block_comment.induct) auto

lemma length_skip_line: "length (skip_line cs) \<le> length cs"
  by (induction cs) auto

function without_comments :: "nat list \<Rightarrow> nat list" where
  "without_comments [] = []"
| "without_comments (c # cs) =
     (if c = QUOTE then (case copy_string_rest False cs of (out, rest) \<Rightarrow> c # out @ without_comments rest)
      else if c = SLASH \<and> cs \<noteq> [] \<and> hd cs = SLASH then SPACE # without_comments (skip_line cs)
      else if c = SLASH \<and> cs \<noteq> [] \<and> hd cs = STAR then SPACE # without_comments (skip_block_comment 1 (tl cs))
      else c # without_comments cs)"
  by pat_completeness auto
termination
proof (relation "measure length", goal_cases)
  case 2
  then show ?case by (auto dest: length_copy_string_rest_snd [OF sym])
next
  case 3
  then show ?case by (simp add: le_imp_less_Suc length_skip_line)
next
  case 4
  then show ?case
    using length_skip_block_comment le_trans [OF length_skip_block_comment] by (simp add: le_imp_less_Suc)
qed auto

declare without_comments.simps(2) [simp del]

section \<open>Tokens\<close>

datatype token = Ident string | Str string | Eq | Open | Close | Comma

text \<open>\<open>from_str_radix(_, 16)\<close>: an optional plus sign and at least one digit, below the bound.\<close>

definition hex_value :: "nat \<Rightarrow> nat option" where
  "hex_value c =
     (if 48 \<le> c \<and> c \<le> 57 then Some (c - 48)
      else if 65 \<le> c \<and> c \<le> 70 then Some (c - 55)
      else if 97 \<le> c \<and> c \<le> 102 then Some (c - 87) else None)"

fun hex_digits :: "nat \<Rightarrow> nat list \<Rightarrow> nat option" where
  "hex_digits acc [] = Some acc"
| "hex_digits acc (c # cs) =
     (case hex_value c of None \<Rightarrow> None | Some d \<Rightarrow> hex_digits (acc * 16 + d) cs)"

definition from_radix16 :: "nat \<Rightarrow> nat list \<Rightarrow> nat option" where
  "from_radix16 bound cs =
     (let ds = (if cs \<noteq> [] \<and> hd cs = 43 then tl cs else cs) in
      if ds = [] then None
      else (case hex_digits 0 ds of None \<Rightarrow> None | Some n \<Rightarrow> if n < bound then Some n else None))"

text \<open>The inner \<open>match\<close> of \<open>string_literal\<close>: the character an escape denotes, the backslash read.\<close>

fun escape :: "nat list \<Rightarrow> (nat \<times> nat list) option" where
  "escape [] = None"
| "escape (c # cs) =
     (if c = QUOTE \<or> c = BACKSLASH \<or> c = 39 then Some (c, cs)
      else if c = 110 then Some (10, cs)
      else if c = 114 then Some (13, cs)
      else if c = 116 then Some (9, cs)
      else if c = 48 then Some (0, cs)
      else if c = 120 then
        (case from_radix16 256 (take 2 cs) of
           Some b \<Rightarrow> if b < 128 then Some (b, drop 2 cs) else None
         | None \<Rightarrow> None)
      else if c = 117 then
        (case cs of
           [] \<Rightarrow> None
         | d # ds \<Rightarrow>
             if d \<noteq> 123 then None
             else (case from_radix16 4294967296 (takeWhile (\<lambda>e. e \<noteq> 125) ds) of
                     Some n \<Rightarrow> if scalar n then Some (n, tl (dropWhile (\<lambda>e. e \<noteq> 125) ds)) else None
                   | None \<Rightarrow> None))
      else None)"

lemma length_tl_dropWhile: "length (tl (dropWhile P xs)) \<le> length xs"
  by (metis diff_le_self length_dropWhile_le length_tl le_trans)

lemma escape_shorter: "escape cs = Some (c, rest) \<Longrightarrow> length rest < length cs"
  by (cases cs)
    (auto split: if_splits option.splits list.splits simp: le_imp_less_Suc less_Suc_eq_le length_tl_dropWhile
       intro: le_trans [OF length_tl_dropWhile] simp del: length_tl)

function string_literal :: "nat list \<Rightarrow> (nat list \<times> nat list) option" where
  "string_literal [] = None"
| "string_literal (c # cs) =
     (if c = QUOTE then Some ([], cs)
      else if c = BACKSLASH then
        (case escape cs of
           None \<Rightarrow> None
         | Some (d, rest) \<Rightarrow> map_option (map_prod (Cons d) id) (string_literal rest))
      else map_option (map_prod (Cons c) id) (string_literal cs))"
  by pat_completeness auto
termination
  by (relation "measure length") (auto dest: escape_shorter)

lemma string_literal_shorter: "string_literal cs = Some (l, rest) \<Longrightarrow> length rest < length cs"
proof (induction cs arbitrary: l rest rule: string_literal.induct)
  case 1
  then show ?case by simp
next
  case (2 c cs)
  then show ?case
    by (fastforce split: if_splits option.splits dest: escape_shorter)
qed

definition is_alphanumeric :: "(nat \<Rightarrow> bool) \<Rightarrow> nat \<Rightarrow> bool" where
  "is_alphanumeric ua c \<longleftrightarrow>
     (if c < 128 then (48 \<le> c \<and> c \<le> 57) \<or> (65 \<le> c \<and> c \<le> 90) \<or> (97 \<le> c \<and> c \<le> 122) else ua c)"

definition ident_char :: "(nat \<Rightarrow> bool) \<Rightarrow> nat \<Rightarrow> bool" where
  "ident_char ua c \<longleftrightarrow> is_alphanumeric ua c \<or> c = 95"

function tokenize :: "(nat \<Rightarrow> bool) \<Rightarrow> nat list \<Rightarrow> token list option" where
  "tokenize ua [] = Some []"
| "tokenize ua (c # cs) =
     (if is_whitespace c then tokenize ua cs
      else if c = 40 then map_option (Cons Open) (tokenize ua cs)
      else if c = 41 then map_option (Cons Close) (tokenize ua cs)
      else if c = 44 then map_option (Cons Comma) (tokenize ua cs)
      else if c = 61 then map_option (Cons Eq) (tokenize ua cs)
      else if c = QUOTE then
        (case string_literal cs of
           None \<Rightarrow> None
         | Some (l, rest) \<Rightarrow> map_option (Cons (Str (utf8 l))) (tokenize ua rest))
      else if ident_char ua c then
        map_option (Cons (Ident (utf8 (takeWhile (ident_char ua) (c # cs)))))
          (tokenize ua (dropWhile (ident_char ua) (c # cs)))
      else None)"
  by pat_completeness auto
termination
  by (relation "measure (\<lambda>(ua, cs). length cs)")
    (auto simp: le_imp_less_Suc length_dropWhile_le dest: string_literal_shorter)

declare tokenize.simps(2) [simp del]

section \<open>Laws of the lexer\<close>

text \<open>The copied string is a prefix of the input, so nothing inside a literal is rewritten.\<close>

lemma copy_string_rest_append: "copy_string_rest e cs = (out, rest) \<Longrightarrow> out @ rest = cs"
  by (induction e cs arbitrary: out rest rule: copy_string_rest.induct)
    (auto split: prod.splits if_splits)

text \<open>The literal a copy read is closed, or the text ended inside it.\<close>

lemma copy_string_rest_again:
  "copy_string_rest e cs = (out, rest) \<Longrightarrow> rest \<noteq> [] \<Longrightarrow> copy_string_rest e (out @ zs) = (out, zs)"
  by (induction e cs arbitrary: out rest rule: copy_string_rest.induct)
    (auto split: prod.splits if_splits)

lemma hd_without_comments: 
  "without_comments cs \<noteq> [] \<Longrightarrow> hd (without_comments cs) = hd cs \<or> hd (without_comments cs) = SPACE"
  by (cases cs) (auto simp: without_comments.simps(2) split: prod.split)

text \<open>
  A second pass over comment-free text changes nothing: the space written for each comment
  never joins with what follows into a new comment marker, and a string literal is copied whole,
  markers inside it included.  Identity is computed on text that carries no comment.
\<close>

theorem without_comments_idem: "without_comments (without_comments cs) = without_comments cs"
proof (induction cs rule: without_comments.induct)
  case 1
  then show ?case by simp
next
  case (2 c cs)
  consider (str) "c = QUOTE" | (line) "c = SLASH" "cs \<noteq> []" "hd cs = SLASH"
    | (block) "c = SLASH" "cs \<noteq> []" "hd cs = STAR"
    | (plain) "c \<noteq> QUOTE" "\<not> (c = SLASH \<and> cs \<noteq> [] \<and> (hd cs = SLASH \<or> hd cs = STAR))"
    by auto
  then show ?case
  proof cases
    case str
    obtain out rest where o: "copy_string_rest False cs = (out, rest)" by fastforce
    have IH: "without_comments (without_comments rest) = without_comments rest"
      using 2(1) str o by auto
    have eq: "without_comments (c # cs) = c # out @ without_comments rest"
      using str o by (simp add: without_comments.simps(2))
    show ?thesis
    proof (cases "rest = []")
      case True
      with copy_string_rest_append [OF o] have "out = cs" by simp
      then show ?thesis using eq True o str by (simp add: without_comments.simps(2))
    next
      case False
      then show ?thesis
        using eq IH str copy_string_rest_again [OF o False, of "without_comments rest"] by (simp add: without_comments.simps(2))
    qed
  next
    case line
    then show ?thesis using 2(2) by (simp add: without_comments.simps(2))
  next
    case block
    then show ?thesis using 2(3) by (simp add: without_comments.simps(2))
  next
    case plain
    have IH: "without_comments (without_comments cs) = without_comments cs"
      using 2(4) plain by auto
    have eq: "without_comments (c # cs) = c # without_comments cs"
      using plain by (auto simp: without_comments.simps(2))
    have "\<not> (c = SLASH \<and> without_comments cs \<noteq> [] \<and>
        (hd (without_comments cs) = SLASH \<or> hd (without_comments cs) = STAR))"
      using plain(2) hd_without_comments [of cs] by auto
    then show ?thesis using IH plain(1) by (auto simp: eq without_comments.simps(2) [of c "without_comments cs"])
  qed
qed

end
