(* ===== verification/Cfg_Expr.thy ===== *)
theory Cfg_Expr
  imports Cfg_Lex
begin

text \<open>
  \<open>src/parser/cfg_expr.rs\<close>: the \<open>#[cfg]\<close> predicate, its three-valued evaluation against a build
  profile, its canonical form, its compact text and its parser.  The parser's \<open>tokens\<close> and
  \<open>pos\<close> are the list of tokens still to read.
\<close>

section \<open>Predicates and truth values\<close>

datatype cfg_predicate =
    Feature string
  | CfgOption string "string option"
  | CfgAll "cfg_predicate list"
  | CfgAny "cfg_predicate list"
  | CfgNot cfg_predicate

datatype truth = TrueT | FalseT | Unknown

definition NEVER_SET_BY_A_PLAIN_BUILD :: "string list" where
  "NEVER_SET_BY_A_PLAIN_BUILD = [''kani'', ''miri'', ''doc'', ''doctest'']"

record build_profile =
  features :: "string set"
  options :: "string \<rightharpoonup> bool"

definition with_features :: "string set \<Rightarrow> build_profile" where
  "with_features fs =
     \<lparr>features = fs, options = map_of (map (\<lambda>name. (name, False)) NEVER_SET_BY_A_PLAIN_BUILD)\<rparr>"

text \<open>The loop of \<open>fold\<close>, with \<open>result\<close> as its accumulator.\<close>

fun fold_truth :: "truth \<Rightarrow> truth \<Rightarrow> truth list \<Rightarrow> truth" where
  "fold_truth absorbing result [] = result"
| "fold_truth absorbing result (t # ts) =
     (if t = absorbing then absorbing
      else if t = Unknown then fold_truth absorbing Unknown ts
      else fold_truth absorbing result ts)"

fun eval_with :: "string set \<Rightarrow> (string \<rightharpoonup> bool) \<Rightarrow> cfg_predicate \<Rightarrow> truth" where
  "eval_with enabled opts (Feature f) = (if f \<in> enabled then TrueT else FalseT)"
| "eval_with enabled opts (CfgOption key None) =
     (case opts key of Some True \<Rightarrow> TrueT | Some False \<Rightarrow> FalseT | None \<Rightarrow> Unknown)"
| "eval_with enabled opts (CfgOption key (Some v)) = Unknown"
| "eval_with enabled opts (CfgAll items) = fold_truth FalseT TrueT (map (eval_with enabled opts) items)"
| "eval_with enabled opts (CfgAny items) = fold_truth TrueT FalseT (map (eval_with enabled opts) items)"
| "eval_with enabled opts (CfgNot inner) =
     (case eval_with enabled opts inner of TrueT \<Rightarrow> FalseT | FalseT \<Rightarrow> TrueT | Unknown \<Rightarrow> Unknown)"

definition eval_features :: "string set \<Rightarrow> cfg_predicate \<Rightarrow> truth" where
  "eval_features enabled p = eval_with enabled Map.empty p"

definition eval_in :: "build_profile \<Rightarrow> cfg_predicate \<Rightarrow> truth" where
  "eval_in profile p = eval_with (features profile) (options profile) p"

fun requires_option :: "string \<Rightarrow> cfg_predicate \<Rightarrow> bool" where
  "requires_option key (CfgOption k None) = (k = key)"
| "requires_option key (CfgAll items) = (\<exists>item \<in> set items. requires_option key item)"
| "requires_option key _ = False"

section \<open>Compact text and canonical form\<close>

definition hex_upper :: "nat \<Rightarrow> char" where
  "hex_upper n = (if n < 10 then byte (48 + n) else byte (55 + n))"

definition kept :: "char \<Rightarrow> bool" where
  "kept c \<longleftrightarrow> is_alnum c \<or> c = CHR ''_'' \<or> c = CHR ''-''"

definition encode_byte :: "char \<Rightarrow> string" where
  "encode_byte c = (if kept c then [c] else [CHR ''%'', hex_upper (code c div 16), hex_upper (code c mod 16)])"

definition encode :: "string \<Rightarrow> string" where
  "encode s = concat (map encode_byte s)"

fun compact :: "cfg_predicate \<Rightarrow> string" where
  "compact (Feature name) = ''feature='' @ encode name"
| "compact (CfgOption key None) = encode key"
| "compact (CfgOption key (Some v)) = encode key @ ''='' @ encode v"
| "compact (CfgAll items) = ''all('' @ join_with '','' (map compact items) @ '')''"
| "compact (CfgAny items) = ''any('' @ join_with '','' (map compact items) @ '')''"
| "compact (CfgNot inner) = ''not('' @ compact inner @ '')''"

text \<open>\<open>join\<close>, on items already in canonical form (its loop takes \<open>item.canonical()\<close> one by one).\<close>

fun flatten_item :: "bool \<Rightarrow> cfg_predicate \<Rightarrow> cfg_predicate list" where
  "flatten_item is_all (CfgAll inner) = (if is_all then inner else [CfgAll inner])"
| "flatten_item is_all (CfgAny inner) = (if \<not> is_all then inner else [CfgAny inner])"
| "flatten_item is_all other = [other]"

definition join :: "bool \<Rightarrow> cfg_predicate list \<Rightarrow> cfg_predicate" where
  "join is_all items =
     (let flat = remdups_adj (sort_key compact (concat (map (flatten_item is_all) items))) in
      if length flat = 1 then hd flat else if is_all then CfgAll flat else CfgAny flat)"

fun canonical :: "cfg_predicate \<Rightarrow> cfg_predicate" where
  "canonical (CfgAll items) = join True (map canonical items)"
| "canonical (CfgAny items) = join False (map canonical items)"
| "canonical (CfgNot inner) = (case canonical inner of CfgNot twice \<Rightarrow> twice | other \<Rightarrow> CfgNot other)"
| "canonical (Feature f) = Feature f"
| "canonical (CfgOption k v) = CfgOption k v"

section \<open>Parser\<close>

text \<open>
  \<open>predicate\<close> and \<open>list\<close> call each other; fuel makes the recursion structural, and
  \<open>parser_fuel_irrelevant\<close> below shows that the fuel \<open>parse_cfg_arguments\<close> gives never runs out.
\<close>

fun predicate :: "nat \<Rightarrow> token list \<Rightarrow> (cfg_predicate \<times> token list) option"
  and pred_list :: "nat \<Rightarrow> token list \<Rightarrow> (cfg_predicate list \<times> token list) option" where
  "predicate 0 ts = None"
| "predicate (Suc fuel) ts =
     (case ts of
        Ident name # Eq # ts2 \<Rightarrow>
          (case ts2 of
             Str v # ts3 \<Rightarrow>
               Some (if name = ''feature'' then Feature v else CfgOption name (Some v), ts3)
           | _ \<Rightarrow> None)
      | Ident name # Open # ts2 \<Rightarrow>
          (case pred_list fuel ts2 of
             None \<Rightarrow> None
           | Some (items, ts3) \<Rightarrow>
               if name = ''all'' then Some (CfgAll items, ts3)
               else if name = ''any'' then Some (CfgAny items, ts3)
               else if name = ''not'' \<and> length items = 1 then Some (CfgNot (hd items), ts3)
               else None)
      | Ident name # ts1 \<Rightarrow> Some (CfgOption name None, ts1)
      | _ \<Rightarrow> None)"
| "pred_list 0 ts = None"
| "pred_list (Suc fuel) ts =
     (case ts of
        Close # rest \<Rightarrow> Some ([], rest)
      | _ \<Rightarrow>
          (case predicate fuel ts of
             None \<Rightarrow> None
           | Some (p, Comma # rest) \<Rightarrow> map_option (map_prod (Cons p) id) (pred_list fuel rest)
           | Some (p, Close # rest) \<Rightarrow> Some ([p], rest)
           | Some _ \<Rightarrow> None))"

definition parse_tokens :: "token list \<Rightarrow> cfg_predicate option" where
  "parse_tokens ts =
     (case ts of
        Open # ts1 \<Rightarrow>
          (case predicate (2 * length ts1 + 1) ts1 of
             None \<Rightarrow> None
           | Some (p, ts2) \<Rightarrow>
               (case (case ts2 of Comma # ts3 \<Rightarrow> ts3 | _ \<Rightarrow> ts2) of
                  [Close] \<Rightarrow> Some p
                | _ \<Rightarrow> None))
      | _ \<Rightarrow> None)"

definition parse_cfg_arguments :: "(nat \<Rightarrow> bool) \<Rightarrow> nat list \<Rightarrow> cfg_predicate option" where
  "parse_cfg_arguments ua text = Option.bind (tokenize ua (without_comments text)) parse_tokens"

section \<open>Evaluation\<close>

lemma fold_truth_absorbing:
  "absorbing \<noteq> Unknown \<Longrightarrow> result \<noteq> absorbing \<Longrightarrow>
   fold_truth absorbing result ts = absorbing \<longleftrightarrow> (\<exists>t \<in> set ts. t = absorbing)"
  by (induction ts arbitrary: result) auto

lemma fold_truth_Unknown: "fold_truth absorbing Unknown ts \<in> {absorbing, Unknown}"
  by (induction ts) auto

lemma fold_truth_unit:
  "result \<noteq> absorbing \<Longrightarrow> result \<noteq> Unknown \<Longrightarrow> absorbing \<noteq> Unknown \<Longrightarrow>
   fold_truth absorbing result ts = result \<longleftrightarrow> (\<forall>t \<in> set ts. t = result)"
proof (induction ts)
  case Nil
  then show ?case by simp
next
  case (Cons t ts)
  have "t \<noteq> absorbing \<Longrightarrow> t \<noteq> Unknown \<Longrightarrow> t = result"
    using Cons.prems by (cases t; cases absorbing; cases result) auto
  moreover have "fold_truth absorbing Unknown ts \<noteq> result"
    using fold_truth_Unknown [of absorbing ts] Cons.prems by auto
  ultimately show ?case using Cons by auto
qed

text \<open>
  \<open>all\<close> and \<open>any\<close> are dual: one node constructor, its absorbing value and its unit, chosen by the
  flag that \<^const>\<open>join\<close> takes.
\<close>

definition node :: "bool \<Rightarrow> cfg_predicate list \<Rightarrow> cfg_predicate" where
  "node is_all items = (if is_all then CfgAll items else CfgAny items)"

definition absorbing_of :: "bool \<Rightarrow> truth" where
  "absorbing_of is_all = (if is_all then FalseT else TrueT)"

definition unit_of :: "bool \<Rightarrow> truth" where
  "unit_of is_all = (if is_all then TrueT else FalseT)"

lemma node_simps [simp]: "node True items = CfgAll items" "node False items = CfgAny items"
  by (simp_all add: node_def)

lemma truth_eqI:
  "(s = absorbing_of b \<longleftrightarrow> t = absorbing_of b) \<Longrightarrow> (s = unit_of b \<longleftrightarrow> t = unit_of b) \<Longrightarrow> s = t"
  by (cases s; cases t; cases b) (auto simp: absorbing_of_def unit_of_def)

lemma eval_node_absorbing:
  "eval_with fs opts (node b items) = absorbing_of b \<longleftrightarrow> (\<exists>p \<in> set items. eval_with fs opts p = absorbing_of b)"
  by (cases b) (simp_all add: fold_truth_absorbing absorbing_of_def, (metis image_iff)+)

lemma eval_node_unit:
  "eval_with fs opts (node b items) = unit_of b \<longleftrightarrow> (\<forall>p \<in> set items. eval_with fs opts p = unit_of b)"
  by (cases b) (simp_all add: fold_truth_unit unit_of_def)

lemma eval_node_cong_set: "set items = set items' \<Longrightarrow> eval_with fs opts (node b items) = eval_with fs opts (node b items')"
  by (rule truth_eqI [of _ b]) (simp_all only: eval_node_absorbing eval_node_unit)

lemma eval_node_single: "eval_with fs opts (node b [p]) = eval_with fs opts p"
  by (rule truth_eqI [of _ b]) (simp_all add: eval_node_absorbing eval_node_unit)

text \<open>
  The two-valued reading: a build enables a set of features and decides every option, bare or with
  a value.
\<close>

fun holds :: "string set \<Rightarrow> (string \<Rightarrow> string option \<Rightarrow> bool) \<Rightarrow> cfg_predicate \<Rightarrow> bool" where
  "holds fs opt (Feature f) = (f \<in> fs)"
| "holds fs opt (CfgOption k v) = opt k v"
| "holds fs opt (CfgAll items) = (\<forall>p \<in> set items. holds fs opt p)"
| "holds fs opt (CfgAny items) = (\<exists>p \<in> set items. holds fs opt p)"
| "holds fs opt (CfgNot p) = (\<not> holds fs opt p)"

lemma eval_sound:
  assumes "\<forall>k b. opts k = Some b \<longrightarrow> opt k None = b"
  shows "(eval_with fs opts p = TrueT \<longrightarrow> holds fs opt p) \<and> (eval_with fs opts p = FalseT \<longrightarrow> \<not> holds fs opt p)"
proof (induction p)
  case (CfgOption k v)
  then show ?case using assms by (cases v) (auto split: option.splits bool.splits)
next
  case (CfgAll items)
  then show ?case
    using eval_node_unit [of fs opts True items] eval_node_absorbing [of fs opts True items]
    by (auto simp del: eval_with.simps simp: unit_of_def absorbing_of_def)
next
  case (CfgAny items)
  then show ?case
    using eval_node_unit [of fs opts False items] eval_node_absorbing [of fs opts False items]
    by (auto simp del: eval_with.simps simp: unit_of_def absorbing_of_def)
qed (auto split: truth.splits)

lemma requires_option_holds: "requires_option key p \<Longrightarrow> holds fs opt p \<Longrightarrow> opt key None"
  by (induction key p rule: requires_option.induct) auto

section \<open>Canonical form\<close>

lemma flatten_item_cases: "flatten_item b p = [p] \<or> (\<exists>qs. p = node b qs \<and> flatten_item b p = qs)"
  by (cases p; cases b) auto

lemma join_node: "\<exists>xs. set xs = set (concat (map (flatten_item b) items)) \<and>
    (join b items = node b xs \<or> xs = [join b items])"
proof -
  let ?xs = "remdups_adj (sort_key compact (concat (map (flatten_item b) items)))"
  have "join b items = node b ?xs \<or> ?xs = [join b items]"
  proof (cases "length ?xs = 1")
    case True
    then obtain x where x: "?xs = [x]"
      by (metis One_nat_def length_0_conv length_Suc_conv)
    then show ?thesis by (simp only: join_def Let_def x list.sel) simp
  next
    case False
    then show ?thesis by (simp add: join_def Let_def node_def)
  qed
  then show ?thesis by (intro exI [of _ ?xs]) simp
qed

lemma eval_flatten_item: "eval_with fs opts (node b (flatten_item b p)) = eval_with fs opts p"
  using flatten_item_cases [of b p] eval_node_single [of fs opts b p] by auto

lemma eval_join: "eval_with fs opts (join b items) = eval_with fs opts (node b items)"
proof -
  let ?flat = "concat (map (flatten_item b) items)"
  obtain xs where xs: "set xs = set ?flat" and "join b items = node b xs \<or> xs = [join b items]"
    using join_node by blast
  then have "eval_with fs opts (join b items) = eval_with fs opts (node b ?flat)"
    using eval_node_single [of fs opts b "join b items"] eval_node_cong_set [OF xs] by auto
  also have "\<dots> = eval_with fs opts (node b items)"
  proof (rule truth_eqI [of _ b])
    have "(\<exists>q \<in> set (flatten_item b p). eval_with fs opts q = absorbing_of b) \<longleftrightarrow> eval_with fs opts p = absorbing_of b" for p
      by (metis eval_flatten_item eval_node_absorbing)
    then show "eval_with fs opts (node b ?flat) = absorbing_of b \<longleftrightarrow> eval_with fs opts (node b items) = absorbing_of b"
      by (simp add: eval_node_absorbing)
    have "(\<forall>q \<in> set (flatten_item b p). eval_with fs opts q = unit_of b) \<longleftrightarrow> eval_with fs opts p = unit_of b" for p
      by (metis eval_flatten_item eval_node_unit)
    then show "eval_with fs opts (node b ?flat) = unit_of b \<longleftrightarrow> eval_with fs opts (node b items) = unit_of b"
      by (simp add: eval_node_unit)
  qed
  finally show ?thesis .
qed

lemma eval_node_map:
  "(\<And>p. p \<in> set items \<Longrightarrow> eval_with fs opts (f p) = eval_with fs opts p) \<Longrightarrow>
   eval_with fs opts (node b (map f items)) = eval_with fs opts (node b items)"
  by (rule truth_eqI [of _ b]) (simp_all add: eval_node_absorbing eval_node_unit)

lemma eval_canonical: "eval_with fs opts (canonical p) = eval_with fs opts p"
proof (induction p)
  case (CfgAll items)
  then show ?case
    using eval_node_map [of items fs opts canonical True] eval_join [of fs opts True] by simp
next
  case (CfgAny items)
  then show ?case
    using eval_node_map [of items fs opts canonical False] eval_join [of fs opts False] by simp
next
  case (CfgNot p)
  have "eval_with fs opts (canonical (CfgNot p)) = eval_with fs opts (CfgNot (canonical p))"
    by (simp split: cfg_predicate.split truth.split)
  with CfgNot show ?case by simp
qed simp_all

lemma holds_node: "holds fs opt (node b items) \<longleftrightarrow>
    (if b then \<forall>p \<in> set items. holds fs opt p else \<exists>p \<in> set items. holds fs opt p)"
  by (simp add: node_def)

lemma holds_join: "holds fs opt (join b items) = holds fs opt (node b items)"
proof -
  let ?flat = "concat (map (flatten_item b) items)"
  obtain xs where "set xs = set ?flat" and "join b items = node b xs \<or> xs = [join b items]"
    using join_node by blast
  then have "holds fs opt (join b items) = holds fs opt (node b ?flat)"
    by (metis (no_types, lifting) holds_node list.set_intros(1) list.simps(15) empty_iff insert_iff set_empty2)
  moreover have "holds fs opt (node b (flatten_item b p)) = holds fs opt p" for p
    by (cases p; cases b) (auto simp: holds_node)
  then have "(\<forall>q \<in> set (flatten_item True p). holds fs opt q) = holds fs opt p"
    "(\<exists>q \<in> set (flatten_item False p). holds fs opt q) = holds fs opt p" if "b = True \<or> b = False" for p
    by (cases p; simp)+
  ultimately show ?thesis by (cases b) (simp_all add: holds_node)
qed

lemma holds_canonical: "holds fs opt (canonical p) = holds fs opt p"
  by (induction p) (auto simp: holds_join holds_node split: cfg_predicate.splits)

subsection \<open>Canonical predicates are fixed points\<close>

fun is_canonical :: "cfg_predicate \<Rightarrow> bool" where
  "is_canonical (CfgAll ps) =
     (length ps \<noteq> 1 \<and> sorted (map compact ps) \<and> distinct_adj ps \<and>
      (\<forall>p \<in> set ps. is_canonical p \<and> flatten_item True p = [p]))"
| "is_canonical (CfgAny ps) =
     (length ps \<noteq> 1 \<and> sorted (map compact ps) \<and> distinct_adj ps \<and>
      (\<forall>p \<in> set ps. is_canonical p \<and> flatten_item False p = [p]))"
| "is_canonical (CfgNot p) = (is_canonical p \<and> (\<forall>q. p \<noteq> CfgNot q))"
| "is_canonical _ = True"

lemma sorted_map_remdups_adj: "sorted (map f xs) \<Longrightarrow> sorted (map f (remdups_adj xs))"
  by (induction xs rule: remdups_adj.induct) auto

lemma is_canonical_node:
  "is_canonical (node b ps) \<longleftrightarrow>
     length ps \<noteq> 1 \<and> sorted (map compact ps) \<and> distinct_adj ps \<and>
     (\<forall>p \<in> set ps. is_canonical p \<and> flatten_item b p = [p])"
  by (cases b) simp_all

lemma flatten_canonical:
  assumes "is_canonical p" and "q \<in> set (flatten_item b p)"
  shows "is_canonical q \<and> flatten_item b q = [q]"
proof (cases "flatten_item b p = [p]")
  case True
  with assms show ?thesis by simp
next
  case False
  then have "p = node b (flatten_item b p)"
    using flatten_item_cases [of b p] by auto
  with assms show ?thesis by (metis is_canonical_node)
qed

lemma is_canonical_join:
  assumes "\<forall>p \<in> set items. is_canonical p"
  shows "is_canonical (join b items)"
proof -
  let ?xs = "remdups_adj (sort_key compact (concat (map (flatten_item b) items)))"
  have each: "\<forall>q \<in> set ?xs. is_canonical q \<and> flatten_item b q = [q]"
    using assms flatten_canonical by auto
  show ?thesis
  proof (cases "length ?xs = 1")
    case True
    then obtain x where x: "?xs = [x]"
      by (metis One_nat_def length_0_conv length_Suc_conv)
    with each have "is_canonical x" by simp
    then show ?thesis by (simp only: join_def Let_def x list.sel) simp
  next
    case False
    have "sorted (map compact ?xs)"
      by (intro sorted_map_remdups_adj) simp
    moreover have "join b items = node b ?xs"
      using False by (simp add: join_def Let_def node_def)
    ultimately show ?thesis
      using False each by (simp only: is_canonical_node distinct_adj_remdups_adj) blast
  qed
qed

lemma is_canonical_canonical: "is_canonical (canonical p)"
proof (induction p)
  case (CfgNot p)
  then show ?case by (auto split: cfg_predicate.splits)
qed (simp_all add: is_canonical_join)

lemma remdups_adj_distinct_adj: "distinct_adj xs \<Longrightarrow> remdups_adj xs = xs"
  by (induction xs rule: remdups_adj.induct) auto

lemma join_fixed:
  assumes "is_canonical (node b ps)"
  shows "join b ps = node b ps"
proof -
  have c: "length ps \<noteq> 1" "sorted (map compact ps)" "distinct_adj ps"
    "\<forall>p \<in> set ps. flatten_item b p = [p]"
    using assms unfolding is_canonical_node by blast+
  have "concat (map (flatten_item b) ps) = concat (map (\<lambda>p. [p]) ps)"
    using c(4) by (simp cong: map_cong)
  then have flat: "concat (map (flatten_item b) ps) = ps" by simp
  have "remdups_adj (sort_key compact ps) = ps"
    using c(2,3) by (simp add: sort_key_id_if_sorted remdups_adj_distinct_adj)
  with flat c(1) show ?thesis by (simp add: join_def Let_def node_def)
qed

lemma canonical_fixed: "is_canonical p \<Longrightarrow> canonical p = p"
proof (induction p)
  case (CfgAll ps)
  then have "map canonical ps = ps" by (simp add: map_idI)
  with CfgAll join_fixed [of True ps] show ?case by simp
next
  case (CfgAny ps)
  then have "map canonical ps = ps" by (simp add: map_idI)
  with CfgAny join_fixed [of False ps] show ?case by simp
next
  case (CfgNot p)
  then show ?case by (auto split: cfg_predicate.splits)
qed simp_all

section \<open>The compact alphabet\<close>

definition id_safe :: "char \<Rightarrow> bool" where
  "id_safe c \<longleftrightarrow> kept c \<or> c = CHR ''%'' \<or> c = CHR ''='' \<or> c = CHR ''('' \<or> c = CHR '')'' \<or> c = CHR '',''"

lemma kept_hex_upper: "n < 16 \<Longrightarrow> kept (hex_upper n)"
  by (auto simp: kept_def hex_upper_def ascii_simps)

lemma code_nibbles: "code c div 16 < 16" "code c mod 16 < 16"
  using code_less [of c] by (simp_all add: less_mult_imp_div_less)

lemma id_safe_encode: "c \<in> set (encode s) \<Longrightarrow> kept c \<or> c = CHR ''%''"
  by (auto simp: encode_def encode_byte_def intro!: kept_hex_upper code_nibbles split: if_splits)

lemma kept_letters: "kept (CHR ''a'') \<and> kept (CHR ''l'') \<and> kept (CHR ''n'') \<and> kept (CHR ''y'') \<and> kept (CHR ''o'') \<and>
    kept (CHR ''t'') \<and> kept (CHR ''f'') \<and> kept (CHR ''e'') \<and> kept (CHR ''u'') \<and> kept (CHR ''r'')"
  by (simp add: kept_def ascii_simps code_def)

lemma set_join_with: "c \<in> set (join_with sep xs) \<Longrightarrow> c \<in> set sep \<or> (\<exists>x \<in> set xs. c \<in> set x)"
  by (induction sep xs rule: join_with.induct) auto

lemma id_safe_compact: "c \<in> set (compact p) \<Longrightarrow> id_safe c"
proof (induction p rule: compact.induct)
  case (4 items)
  then show ?case using kept_letters by (auto simp: id_safe_def dest!: set_join_with)
next
  case (5 items)
  then show ?case using kept_letters by (auto simp: id_safe_def dest!: set_join_with)
qed (use kept_letters in \<open>auto simp: id_safe_def dest!: id_safe_encode\<close>)

section \<open>The parser\<close>

lemma parser_shorter:
  "predicate fuel ts = Some (p, rest) \<Longrightarrow> length rest < length ts"
  "pred_list fuel ts = Some (ps, rest) \<Longrightarrow> length rest < length ts"
proof (induction fuel ts and fuel ts arbitrary: p rest and ps rest rule: predicate_pred_list.induct)
  case (2 fuel ts)
  then show ?case
    by (fastforce split: list.splits token.splits option.splits if_splits)
next
  case (4 fuel ts)
  then show ?case
    by (fastforce split: list.splits token.splits option.splits if_splits)
qed simp_all

lemma predicate_fuel_aux:
  "(\<forall>f g. 2 * length ts + 1 \<le> f \<longrightarrow> 2 * length ts + 1 \<le> g \<longrightarrow> predicate f ts = predicate g ts) \<and>
   (\<forall>f g. 2 * length ts + 2 \<le> f \<longrightarrow> 2 * length ts + 2 \<le> g \<longrightarrow> pred_list f ts = pred_list g ts)"
proof (induction "length ts" arbitrary: ts rule: less_induct)
  case less
  have P: "predicate f us = predicate g us" if "length us < length ts" "2 * length us + 1 \<le> f" "2 * length us + 1 \<le> g" for f g us
    using less that by blast
  have L: "pred_list f us = pred_list g us" if "length us < length ts" "2 * length us + 2 \<le> f" "2 * length us + 2 \<le> g" for f g us
    using less that by blast
  have P': "predicate f ts = predicate g ts" if fg: "2 * length ts + 1 \<le> f" "2 * length ts + 1 \<le> g" for f g
  proof -
    obtain f' g' where f: "f = Suc f'" "g = Suc g'" using fg by (cases f; cases g) auto
    show ?thesis
    proof (cases "\<exists>a b us. ts = a # b # us")
      case True
      then obtain a b us where ts: "ts = a # b # us" by blast
      have "pred_list f' us = pred_list g' us"
        using fg f ts by (intro L) auto
      then show ?thesis by (simp add: f ts split: token.split)
    next
      case False
      then have "ts = [] \<or> (\<exists>a. ts = [a])" by (metis list.exhaust)
      then show ?thesis by (auto simp: f split: token.split)
    qed
  qed
  moreover have "pred_list f ts = pred_list g ts" if fg: "2 * length ts + 2 \<le> f" "2 * length ts + 2 \<le> g" for f g
  proof -
    obtain f' g' where f: "f = Suc f'" "g = Suc g'" using fg by (cases f; cases g) auto
    have eq: "predicate f' ts = predicate g' ts" using fg f by (intro P') auto
    have "pred_list f' r = pred_list g' r" if "predicate g' ts = Some (p, Comma # r)" for p r
      using parser_shorter(1) [OF that] fg f by (intro L) auto
    note eq_rest = this
    show ?thesis
    proof (cases "\<exists>r. ts = Close # r")
      case True
      then show ?thesis using f by auto
    next
      case False
      then have unfold: "pred_list (Suc h) ts = (case predicate h ts of
             None \<Rightarrow> None
           | Some (p, Comma # rest) \<Rightarrow> map_option (map_prod (Cons p) id) (pred_list h rest)
           | Some (p, Close # rest) \<Rightarrow> Some ([p], rest)
           | Some _ \<Rightarrow> None)" for h
        by (simp split: list.split token.split)
      show ?thesis
        unfolding f unfold eq using eq_rest
        by (cases "predicate g' ts") (auto split: list.split token.split)
    qed
  qed
  ultimately show ?case by blast
qed

lemma parser_fuel_irrelevant:
  "2 * length ts + 1 \<le> fuel \<Longrightarrow> predicate fuel ts = predicate (2 * length ts + 1) ts"
  using predicate_fuel_aux by blast

text \<open>The tokens a predicate is written with, no trailing comma.\<close>

fun sep_comma :: "token list list \<Rightarrow> token list" where
  "sep_comma [] = []"
| "sep_comma [ts] = ts"
| "sep_comma (ts # us # uss) = ts @ Comma # sep_comma (us # uss)"

fun render :: "cfg_predicate \<Rightarrow> token list" where
  "render (Feature v) = [Ident ''feature'', Eq, Str v]"
| "render (CfgOption k None) = [Ident k]"
| "render (CfgOption k (Some v)) = [Ident k, Eq, Str v]"
| "render (CfgAll ps) = [Ident ''all'', Open] @ sep_comma (map render ps) @ [Close]"
| "render (CfgAny ps) = [Ident ''any'', Open] @ sep_comma (map render ps) @ [Close]"
| "render (CfgNot p) = [Ident ''not'', Open] @ render p @ [Close]"

fun writable :: "cfg_predicate \<Rightarrow> bool" where
  "writable (CfgOption k (Some v)) = (k \<noteq> ''feature'')"
| "writable (CfgAll ps) = (\<forall>p \<in> set ps. writable p)"
| "writable (CfgAny ps) = (\<forall>p \<in> set ps. writable p)"
| "writable (CfgNot p) = writable p"
| "writable _ = True"

lemma render_hd: "\<exists>n ts. render p = Ident n # ts"
  by (cases p rule: render.cases) auto

lemma pred_list_render:
  assumes "\<And>p rest fuel. p \<in> set ps \<Longrightarrow> length (render p) \<le> fuel \<Longrightarrow> (\<forall>t us. rest = t # us \<longrightarrow> t \<noteq> Eq \<and> t \<noteq> Open) \<Longrightarrow>
      predicate fuel (render p @ rest) = Some (p, rest)"
    and "length (sep_comma (map render ps)) + 1 \<le> fuel"
  shows "pred_list fuel (sep_comma (map render ps) @ Close # rest) = Some (ps, rest)"
  using assms
proof (induction ps arbitrary: fuel)
  case Nil
  then show ?case by (cases fuel) auto
next
  case (Cons p ps)
  obtain f where f: "fuel = Suc f" using Cons.prems(2) by (cases fuel) auto
  obtain n ts where n: "render p = Ident n # ts" using render_hd by blast
  show ?case
  proof (cases ps)
    case Nil
    have "predicate f (render p @ Close # rest) = Some (p, Close # rest)"
      using Cons.prems f Nil by (intro Cons.prems(1)) auto
    then show ?thesis using f Nil n by simp
  next
    case (Cons q qs)
    let ?r = "Comma # sep_comma (map render ps) @ Close # rest"
    have "predicate f (render p @ ?r) = Some (p, ?r)"
      using Cons.prems f Cons by (intro Cons.prems(1)) auto
    moreover have "pred_list f (sep_comma (map render ps) @ Close # rest) = Some (ps, rest)"
      using Cons.prems f Cons by (intro Cons.IH) auto
    ultimately show ?thesis using f Cons n by simp
  qed
qed

lemma predicate_render:
  "writable p \<Longrightarrow> length (render p) \<le> fuel \<Longrightarrow> (\<forall>t us. rest = t # us \<longrightarrow> t \<noteq> Eq \<and> t \<noteq> Open) \<Longrightarrow>
   predicate fuel (render p @ rest) = Some (p, rest)"
proof (induction p arbitrary: fuel rest)
  case (Feature v)
  then show ?case by (cases fuel) auto
next
  case (CfgOption k v)
  then show ?case
    by (cases fuel; cases v) (auto split: list.splits token.splits)
next
  case (CfgAll ps)
  obtain f where f: "fuel = Suc f" using CfgAll.prems(2) by (cases fuel) auto
  have "pred_list f (sep_comma (map render ps) @ Close # rest) = Some (ps, rest)"
    using CfgAll f by (intro pred_list_render) auto
  then show ?case using f by simp
next
  case (CfgAny ps)
  obtain f where f: "fuel = Suc f" using CfgAny.prems(2) by (cases fuel) auto
  have "pred_list f (sep_comma (map render ps) @ Close # rest) = Some (ps, rest)"
    using CfgAny f by (intro pred_list_render) auto
  then show ?case using f by simp
next
  case (CfgNot p)
  obtain f where f: "fuel = Suc f" using CfgNot.prems(2) by (cases fuel) auto
  have "pred_list f (sep_comma (map render [p]) @ Close # rest) = Some ([p], rest)"
    using CfgNot f by (intro pred_list_render) auto
  then show ?case using f by simp
qed

lemma parse_tokens_render: "writable p \<Longrightarrow> parse_tokens (Open # render p @ [Close]) = Some p"
  using predicate_render [of p "2 * length (render p @ [Close]) + 1" "[Close]"]
  by (simp add: parse_tokens_def del: predicate.simps)

section \<open>Properties\<close>

text \<open>
  Canonicalisation is idempotent, its result has the canonical shape (no node with one child, no
  child of the node's own kind, children sorted by their compact text without adjacent duplicates,
  no double negation), and it does not change what a predicate evaluates to under any build profile.
\<close>

theorem canonical_idempotent:
  "canonical (canonical p) = canonical p \<and> is_canonical (canonical p) \<and>
   eval_in profile (canonical p) = eval_in profile p"
  by (simp add: canonical_fixed is_canonical_canonical eval_in_def eval_canonical)

text \<open>
  The three-valued evaluation is sound.  In every build that enables the profile's features and sets
  the options the profile decides as it decides them, a predicate evaluated \<open>True\<close> holds and one
  evaluated \<open>False\<close> does not, whatever the undecided options are.
\<close>

theorem eval_in_sound:
  assumes "\<forall>key b. options profile key = Some b \<longrightarrow> opt key None = b"
  shows "(eval_in profile p = TrueT \<longrightarrow> holds (features profile) opt p) \<and>
         (eval_in profile p = FalseT \<longrightarrow> \<not> holds (features profile) opt p)"
  unfolding eval_in_def using assms by (rule eval_sound)

theorem eval_in_sound_witness:
  "\<not> holds {''x''} (\<lambda>key v. key = ''unix'') (CfgAll [CfgOption ''kani'' None, CfgOption ''unix'' None])"
  using eval_in_sound [of "with_features {''x''}" "\<lambda>key v. key = ''unix''" "CfgAll [CfgOption ''kani'' None, CfgOption ''unix'' None]"]
  by (simp add: with_features_def NEVER_SET_BY_A_PLAIN_BUILD_def eval_in_def)

text \<open>
  The parser reads every predicate that can be written, from the tokens it is written with, back to
  that predicate: no form of \<open>all\<close>, \<open>any\<close>, \<open>not\<close>, a feature or an option is dropped or confused, at any
  nesting depth, and the fuel never runs out.
\<close>

theorem parse_written_predicate:
  "writable p \<Longrightarrow> parse_tokens (Open # render p @ [Close]) = Some p"
  by (rule parse_tokens_render)

theorem parse_written_predicate_witness:
  "parse_tokens [Open, Ident ''all'', Open, Ident ''unix'', Comma, Ident ''feature'', Eq, Str ''x'', Close, Close] =
   Some (CfgAll [CfgOption ''unix'' None, Feature ''x''])"
  using parse_written_predicate [of "CfgAll [CfgOption ''unix'' None, Feature ''x'']"] by simp

end
