(* ===== verification/Cfg_Compact.thy ===== *)
theory Cfg_Compact
  imports Cfg_Expr
begin

text \<open>
  \<open>src/parser/cfg_compact.rs\<close>: reads the compact text of a predicate back.  The reader's \<open>bytes\<close>
  and \<open>pos\<close> are the bytes still to read.
\<close>

section \<open>Reading words\<close>

definition word_char :: "char \<Rightarrow> bool" where
  "word_char c \<longleftrightarrow> is_alnum c \<or> c = CHR ''_'' \<or> c = CHR ''-'' \<or> c = CHR ''%''"

fun decode_bytes :: "string \<Rightarrow> string option" where
  "decode_bytes [] = Some []"
| "decode_bytes (c # s) =
     (if c = CHR ''%'' then
        (case s of
           a # b # t \<Rightarrow>
             (case from_radix16 256 [code a, code b] of
                Some n \<Rightarrow> map_option (Cons (byte n)) (decode_bytes t)
              | None \<Rightarrow> None)
         | _ \<Rightarrow> None)
      else map_option (Cons c) (decode_bytes s))"

definition decode :: "string \<Rightarrow> string option" where
  "decode w =
     (case decode_bytes w of
        Some out \<Rightarrow> if utf8_valid out then Some out else None
      | None \<Rightarrow> None)"

definition read_word :: "string \<Rightarrow> (string \<times> string) option" where
  "read_word s =
     (case decode (takeWhile word_char s) of
        Some w \<Rightarrow> if w \<noteq> [] then Some (w, dropWhile word_char s) else None
      | None \<Rightarrow> None)"

section \<open>Reading predicates\<close>

text \<open>
  \<open>read_list\<close> is the head of the source's \<open>list\<close> (an empty list closes at once), \<open>read_items\<close> its
  loop.  The fuel of \<open>parse_compact\<close> never runs out: \<open>reader_fuel_irrelevant\<close>.
\<close>

fun read_predicate :: "nat \<Rightarrow> string \<Rightarrow> (cfg_predicate \<times> string) option"
  and read_list :: "nat \<Rightarrow> string \<Rightarrow> (cfg_predicate list \<times> string) option"
  and read_items :: "nat \<Rightarrow> string \<Rightarrow> (cfg_predicate list \<times> string) option" where
  "read_predicate 0 s = None"
| "read_predicate (Suc fuel) s =
     (case read_word s of
        None \<Rightarrow> None
      | Some (name, []) \<Rightarrow> Some (CfgOption name None, [])
      | Some (name, c # r) \<Rightarrow>
          if c = CHR ''('' then
            (case read_list fuel r of
               None \<Rightarrow> None
             | Some (items, r2) \<Rightarrow>
                 if name = ''all'' then Some (CfgAll items, r2)
                 else if name = ''any'' then Some (CfgAny items, r2)
                 else if name = ''not'' \<and> length items = 1 then Some (CfgNot (hd items), r2)
                 else None)
          else if c = CHR ''='' then
            (case read_word r of
               None \<Rightarrow> None
             | Some (v, r2) \<Rightarrow>
                 Some (if name = ''feature'' then Feature v else CfgOption name (Some v), r2))
          else Some (CfgOption name None, c # r))"
| "read_list 0 s = None"
| "read_list (Suc fuel) s =
     (if s \<noteq> [] \<and> hd s = CHR '')'' then Some ([], tl s) else read_items fuel s)"
| "read_items 0 s = None"
| "read_items (Suc fuel) s =
     (case read_predicate fuel s of
        None \<Rightarrow> None
      | Some (p, []) \<Rightarrow> None
      | Some (p, c # r) \<Rightarrow>
          if c = CHR '','' then map_option (map_prod (Cons p) id) (read_items fuel r)
          else if c = CHR '')'' then Some ([p], r)
          else None)"

definition parse_compact :: "string \<Rightarrow> cfg_predicate option" where
  "parse_compact text =
     (case read_predicate (3 * length text + 1) text of
        Some (p, []) \<Rightarrow> Some p
      | _ \<Rightarrow> None)"

section \<open>The reader never runs out of fuel\<close>

lemma read_word_shorter: "read_word s = Some (w, r) \<Longrightarrow> length r < length s"
proof -
  assume a: "read_word s = Some (w, r)"
  then have r: "r = dropWhile word_char s" and "takeWhile word_char s \<noteq> []"
    by (auto simp: read_word_def decode_def split: option.splits if_splits)
  moreover have "length (takeWhile word_char s) + length (dropWhile word_char s) = length s"
    by (metis length_append takeWhile_dropWhile_id)
  ultimately show ?thesis by (metis add_less_same_cancel2 leI length_0_conv less_add_same_cancel2 neq0_conv)
qed

lemma reader_shorter:
  "read_predicate fuel s = Some (p, r) \<Longrightarrow> length r < length s"
  "read_list fuel s = Some (ps, r) \<Longrightarrow> length r < length s"
  "read_items fuel s = Some (ps, r) \<Longrightarrow> length r < length s"
proof (induction fuel s and fuel s and fuel s arbitrary: p r and ps r and ps r
    rule: read_predicate_read_list_read_items.induct)
  case (2 fuel s)
  then show ?case
    by (fastforce split: option.splits list.splits if_splits dest: read_word_shorter)
next
  case (4 fuel s)
  then show ?case by (cases s) (auto split: if_splits)
next
  case (6 fuel s)
  then show ?case by (fastforce split: option.splits list.splits if_splits)
qed simp_all

lemma reader_fuel_aux:
  "(\<forall>f g. 3 * length s + 1 \<le> f \<longrightarrow> 3 * length s + 1 \<le> g \<longrightarrow> read_predicate f s = read_predicate g s) \<and>
   (\<forall>f g. 3 * length s + 2 \<le> f \<longrightarrow> 3 * length s + 2 \<le> g \<longrightarrow> read_items f s = read_items g s) \<and>
   (\<forall>f g. 3 * length s + 3 \<le> f \<longrightarrow> 3 * length s + 3 \<le> g \<longrightarrow> read_list f s = read_list g s)"
proof (induction "length s" arbitrary: s rule: less_induct)
  case less
  have I: "read_items f u = read_items g u" if "length u < length s" "3 * length u + 2 \<le> f" "3 * length u + 2 \<le> g" for f g u
    using less that by blast
  have L: "read_list f u = read_list g u" if "length u < length s" "3 * length u + 3 \<le> f" "3 * length u + 3 \<le> g" for f g u
    using less that by blast
  have P': "read_predicate f s = read_predicate g s" if fg: "3 * length s + 1 \<le> f" "3 * length s + 1 \<le> g" for f g
  proof -
    obtain f' g' where f: "f = Suc f'" "g = Suc g'" using fg by (cases f; cases g) auto
    have "read_list f' r = read_list g' r" if "read_word s = Some (w, c # r)" for w c r
      using read_word_shorter [OF that] fg f by (intro L) auto
    then show ?thesis by (auto simp: f split: option.split list.split)
  qed
  have I': "read_items f s = read_items g s" if fg: "3 * length s + 2 \<le> f" "3 * length s + 2 \<le> g" for f g
  proof -
    obtain f' g' where f: "f = Suc f'" "g = Suc g'" using fg by (cases f; cases g) auto
    have eq: "read_predicate f' s = read_predicate g' s" using fg f by (intro P') auto
    have "read_items f' r = read_items g' r" if "read_predicate g' s = Some (p, c # r)" for p c r
      using reader_shorter(1) [OF that] fg f by (intro I) auto
    then show ?thesis using eq by (auto simp: f split: option.split list.split)
  qed
  have "read_list f s = read_list g s" if fg: "3 * length s + 3 \<le> f" "3 * length s + 3 \<le> g" for f g
  proof -
    obtain f' g' where f: "f = Suc f'" "g = Suc g'" using fg by (cases f; cases g) auto
    then have "read_items f' s = read_items g' s" using fg by (intro I') auto
    then show ?thesis by (auto simp: f)
  qed
  with P' I' show ?case by blast
qed

lemma reader_fuel_irrelevant:
  "3 * length s + 1 \<le> fuel \<Longrightarrow> read_predicate fuel s = read_predicate (3 * length s + 1) s"
  using reader_fuel_aux by blast

section \<open>Round trip\<close>

lemma hex_value_upper: "n < 16 \<Longrightarrow> hex_value (code (hex_upper n)) = Some n"
  by (simp add: hex_value_def hex_upper_def)

lemma code_hex_upper: "n < 16 \<Longrightarrow> code (hex_upper n) \<noteq> 43"
  by (simp add: hex_upper_def)

lemma from_radix16_byte:
  "from_radix16 256 [code (hex_upper (code c div 16)), code (hex_upper (code c mod 16))] = Some (code c)"
  using code_nibbles [of c] code_hex_upper [OF code_nibbles(1)]
  by (simp add: from_radix16_def hex_value_upper)

lemma not_kept_percent: "kept c \<Longrightarrow> c \<noteq> CHR ''%''"
  by (auto simp: kept_def ascii_simps code_def)

lemma decode_bytes_encode: "decode_bytes (encode s) = Some s"
proof (induction s)
  case Nil
  then show ?case by (simp add: encode_def)
next
  case (Cons c s)
  then show ?case
    using not_kept_percent by (cases "kept c") (auto simp: encode_def encode_byte_def from_radix16_byte)
qed

lemma word_char_encode: "c \<in> set (encode s) \<Longrightarrow> word_char c"
  by (drule id_safe_encode) (auto simp: word_char_def kept_def)

lemma read_word_encode:
  assumes "s \<noteq> []" and "utf8_valid s" and "\<forall>c t. rest = c # t \<longrightarrow> \<not> word_char c"
  shows "read_word (encode s @ rest) = Some (s, rest)"
proof -
  have "takeWhile word_char (encode s @ rest) = encode s"
    using assms(3) word_char_encode by (cases rest) (auto simp: takeWhile_append2)
  moreover have "dropWhile word_char (encode s @ rest) = rest"
    using assms(3) word_char_encode by (cases rest) (auto simp: dropWhile_append2)
  ultimately show ?thesis using assms by (simp add: read_word_def decode_def decode_bytes_encode)
qed

lemma kept_alnum_literal:
  "encode ''feature'' = ''feature''" "encode ''all'' = ''all''" "encode ''any'' = ''any''" "encode ''not'' = ''not''"
  using kept_letters by (simp_all add: encode_def encode_byte_def)

lemma utf8_valid_literal:
  "utf8_valid ''feature''" "utf8_valid ''all''" "utf8_valid ''any''" "utf8_valid ''not''"
  by (rule utf8_valid_ascii, simp add: code_def)+

lemma not_word_char: "\<not> word_char CHR ''=''" "\<not> word_char CHR ''(''" "\<not> word_char CHR '')''" "\<not> word_char CHR '',''"
  by (simp_all add: word_char_def ascii_simps code_def)

text \<open>What the compact text can carry: non-empty UTF-8 names and values, no valued option named \<open>feature\<close>.\<close>

definition word_ok :: "string \<Rightarrow> bool" where
  "word_ok s \<longleftrightarrow> s \<noteq> [] \<and> utf8_valid s"

fun readable :: "cfg_predicate \<Rightarrow> bool" where
  "readable (Feature v) = word_ok v"
| "readable (CfgOption k None) = word_ok k"
| "readable (CfgOption k (Some v)) = (word_ok k \<and> word_ok v \<and> k \<noteq> ''feature'')"
| "readable (CfgAll ps) = (\<forall>p \<in> set ps. readable p)"
| "readable (CfgAny ps) = (\<forall>p \<in> set ps. readable p)"
| "readable (CfgNot p) = readable p"

definition follows :: "string \<Rightarrow> bool" where
  "follows rest \<longleftrightarrow> (\<forall>c t. rest = c # t \<longrightarrow> \<not> word_char c \<and> c \<noteq> CHR ''('' \<and> c \<noteq> CHR ''='')"

lemma follows_simps [simp]: "follows []" "follows (CHR '','' # s)" "follows (CHR '')'' # s)"
  by (simp_all add: follows_def not_word_char)

lemmas read_literal = kept_alnum_literal(1) [symmetric] kept_alnum_literal(2) [symmetric]
  kept_alnum_literal(3) [symmetric] kept_alnum_literal(4) [symmetric]

lemma read_word_literal:
  "read_word (''feature='' @ s) = Some (''feature'', ''='' @ s)"
  "read_word (''all('' @ s) = Some (''all'', ''('' @ s)"
  "read_word (''any('' @ s) = Some (''any'', ''('' @ s)"
  "read_word (''not('' @ s) = Some (''not'', ''('' @ s)"
  using read_word_encode [of "''feature''" "''='' @ s"] read_word_encode [of "''all''" "''('' @ s"]
    read_word_encode [of "''any''" "''('' @ s"] read_word_encode [of "''not''" "''('' @ s"]
  by (simp_all add: kept_alnum_literal utf8_valid_literal not_word_char)

lemma compact_not_close: "readable p \<Longrightarrow> \<exists>c t. compact p = c # t \<and> c \<noteq> CHR '')''"
proof (cases p rule: compact.cases)
  case (2 key)
  moreover assume "readable p"
  ultimately obtain c t where "key = c # t" by (cases key) (auto simp: word_ok_def)
  then show ?thesis using 2 word_char_encode [of _ key] not_word_char(3)
    by (cases "compact p") (auto simp: encode_def encode_byte_def split: if_splits)
next
  case (3 key v)
  moreover assume "readable p"
  ultimately obtain c t where "key = c # t" by (cases key) (auto simp: word_ok_def)
  then show ?thesis using 3 word_char_encode [of _ key] not_word_char(3)
    by (cases "compact p") (auto simp: encode_def encode_byte_def split: if_splits)
qed auto

lemma read_items_compact:
  assumes "\<And>p rest fuel. p \<in> set ps \<Longrightarrow> length (compact p) < fuel \<Longrightarrow> follows rest \<Longrightarrow>
      read_predicate fuel (compact p @ rest) = Some (p, rest)"
    and "ps \<noteq> []" and "length (join_with '','' (map compact ps)) + 1 < fuel"
  shows "read_items fuel (join_with '','' (map compact ps) @ '')'' @ rest) = Some (ps, rest)"
  using assms
proof (induction ps arbitrary: fuel)
  case Nil
  then show ?case by simp
next
  case (Cons p ps)
  obtain f where f: "fuel = Suc f" using Cons.prems(3) by (cases fuel) auto
  show ?case
  proof (cases ps)
    case Nil
    have "read_predicate f (compact p @ '')'' @ rest) = Some (p, '')'' @ rest)"
      using Cons.prems f Nil by (intro Cons.prems(1)) auto
    then show ?thesis using f Nil by simp
  next
    case (Cons q qs)
    let ?r = "'','' @ join_with '','' (map compact ps) @ '')'' @ rest"
    have "read_predicate f (compact p @ ?r) = Some (p, ?r)"
      using Cons.prems f Cons by (intro Cons.prems(1)) auto
    moreover have "read_items f (join_with '','' (map compact ps) @ '')'' @ rest) = Some (ps, rest)"
      using Cons.prems f Cons by (intro Cons.IH) auto
    ultimately show ?thesis using f Cons by simp
  qed
qed

lemma read_list_compact:
  assumes "\<And>p rest fuel. p \<in> set ps \<Longrightarrow> length (compact p) < fuel \<Longrightarrow> follows rest \<Longrightarrow>
      read_predicate fuel (compact p @ rest) = Some (p, rest)"
    and "\<forall>p \<in> set ps. readable p" and "length (join_with '','' (map compact ps)) + 2 < fuel"
  shows "read_list fuel (join_with '','' (map compact ps) @ '')'' @ rest) = Some (ps, rest)"
proof -
  obtain f where f: "fuel = Suc f" using assms(3) by (cases fuel) auto
  show ?thesis
  proof (cases ps)
    case Nil
    then show ?thesis using f by simp
  next
    case (Cons p qs)
    then obtain c t where "compact p = c # t" "c \<noteq> CHR '')''"
      using assms(2) compact_not_close by fastforce
    then have "\<exists>u. join_with '','' (map compact ps) = c # u"
      using Cons by (cases qs) auto
    moreover have "read_items f (join_with '','' (map compact ps) @ '')'' @ rest) = Some (ps, rest)"
      using assms f Cons by (intro read_items_compact) auto
    ultimately show ?thesis using f \<open>c \<noteq> CHR '')''\<close> by auto
  qed
qed

lemma read_predicate_compact:
  "readable p \<Longrightarrow> length (compact p) < fuel \<Longrightarrow> follows rest \<Longrightarrow>
   read_predicate fuel (compact p @ rest) = Some (p, rest)"
proof (induction p arbitrary: fuel rest)
  case (Feature v)
  obtain f where f: "fuel = Suc f" using Feature.prems(2) by (cases fuel) auto
  have "read_word (encode v @ rest) = Some (v, rest)"
    using Feature.prems by (intro read_word_encode) (auto simp: word_ok_def follows_def)
  then show ?case using f read_word_literal(1) [of "encode v @ rest"] by simp
next
  case (CfgOption k v)
  obtain f where f: "fuel = Suc f" using CfgOption.prems(2) by (cases fuel) auto
  show ?case
  proof (cases v)
    case None
    have "read_word (encode k @ rest) = Some (k, rest)"
      using CfgOption.prems None by (intro read_word_encode) (auto simp: word_ok_def follows_def)
    then show ?thesis using f None CfgOption.prems(3) by (auto simp: follows_def split: list.split)
  next
    case (Some w)
    have "read_word (encode k @ ''='' @ encode w @ rest) = Some (k, ''='' @ encode w @ rest)"
      using CfgOption.prems Some by (intro read_word_encode) (auto simp: word_ok_def not_word_char)
    moreover have "read_word (encode w @ rest) = Some (w, rest)"
      using CfgOption.prems Some by (intro read_word_encode) (auto simp: word_ok_def follows_def)
    ultimately show ?thesis using f Some CfgOption.prems(1) by simp
  qed
next
  case (CfgAll ps)
  obtain f where f: "fuel = Suc f" using CfgAll.prems(2) by (cases fuel) auto
  have "read_list f (join_with '','' (map compact ps) @ '')'' @ rest) = Some (ps, rest)"
    using CfgAll f by (intro read_list_compact) auto
  then show ?case using f read_word_literal(2) [of "join_with '','' (map compact ps) @ '')'' @ rest"] by simp
next
  case (CfgAny ps)
  obtain f where f: "fuel = Suc f" using CfgAny.prems(2) by (cases fuel) auto
  have "read_list f (join_with '','' (map compact ps) @ '')'' @ rest) = Some (ps, rest)"
    using CfgAny f by (intro read_list_compact) auto
  then show ?case using f read_word_literal(3) [of "join_with '','' (map compact ps) @ '')'' @ rest"] by simp
next
  case (CfgNot p)
  obtain f where f: "fuel = Suc f" using CfgNot.prems(2) by (cases fuel) auto
  have "read_list f (join_with '','' (map compact [p]) @ '')'' @ rest) = Some ([p], rest)"
    using CfgNot f by (intro read_list_compact) auto
  then show ?case using f read_word_literal(4) [of "compact p @ '')'' @ rest"] by simp
qed

lemma parse_compact_compact: "readable p \<Longrightarrow> parse_compact (compact p) = Some p"
  using read_predicate_compact [of p "3 * length (compact p) + 1" "[]"]
  by (simp add: parse_compact_def del: read_predicate.simps)

lemma compact_inject: "readable p \<Longrightarrow> readable q \<Longrightarrow> compact p = compact q \<Longrightarrow> p = q"
  by (metis option.inject parse_compact_compact)

text \<open>Canonicalisation introduces no string, so it keeps a predicate readable.\<close>

lemma readable_node: "readable (node b ps) \<longleftrightarrow> (\<forall>p \<in> set ps. readable p)"
  by (cases b) simp_all

lemma readable_join:
  assumes "\<forall>p \<in> set items. readable p"
  shows "readable (join b items)"
proof -
  have "readable q" if "p \<in> set items" "q \<in> set (flatten_item b p)" for p q
  proof (cases "flatten_item b p = [p]")
    case True
    with assms that show ?thesis by simp
  next
    case False
    then have "p = node b (flatten_item b p)" using flatten_item_cases [of b p] by auto
    with assms that show ?thesis by (metis readable_node)
  qed
  then have each: "\<forall>q \<in> set (concat (map (flatten_item b) items)). readable q" by auto
  obtain xs where "set xs = set (concat (map (flatten_item b) items))"
    and "join b items = node b xs \<or> xs = [join b items]"
    using join_node by blast
  with each show ?thesis using readable_node [of b xs] by (metis list.set_intros(1))
qed

lemma readable_canonical: "readable p \<Longrightarrow> readable (canonical p)"
  by (induction p) (auto simp: readable_join split: cfg_predicate.splits)

section \<open>Properties\<close>

interpretation cfg_text: codec compact parse_compact readable
  by unfold_locales (rule parse_compact_compact)

text \<open>
  C40: The compact text of the canonical predicate identifies the gate: two predicates with one canonical
  text evaluate alike under every feature set and every table of options, and hold in the same builds.
  An item id that carries the text therefore never merges two items gated differently.
\<close>

theorem gate_identity:
  assumes "readable p" "readable q" "compact (canonical p) = compact (canonical q)"
  shows "eval_with fs opts p = eval_with fs opts q \<and> holds fs opt p = holds fs opt q"
  using cfg_text.enc_eqD [OF assms(3)] assms(1,2) eval_canonical holds_canonical
  by (metis readable_canonical)

lemma readable_examples:
  "readable (CfgAll [CfgOption ''unix'' None, Feature ''x''])"
  "readable (CfgAll [Feature ''x'', CfgOption ''unix'' None])"
  by (simp_all add: word_ok_def utf8_valid_ascii code_def)

lemma canonical_examples:
  "canonical (CfgAll [CfgOption ''unix'' None, Feature ''x'']) = canonical (CfgAll [Feature ''x'', CfgOption ''unix'' None])"
  by code_simp

theorem gate_identity_witness:
  "eval_with {} Map.empty (CfgAll [CfgOption ''unix'' None, Feature ''x'']) =
   eval_with {} Map.empty (CfgAll [Feature ''x'', CfgOption ''unix'' None])"
  using gate_identity [OF readable_examples arg_cong [OF canonical_examples, of compact]] by blast

text \<open>
  Reading the compact text of a canonical predicate gives the predicate back, for every predicate whose
  names and values are non-empty.
\<close>

theorem canonical_text_round_trip:
  "readable p \<Longrightarrow> parse_compact (compact (canonical p)) = Some (canonical p)"
  by (rule cfg_text.dec_enc) (rule readable_canonical)

theorem canonical_text_round_trip_witness:
  "parse_compact (compact (canonical (CfgNot (CfgNot (CfgOption ''unix'' None))))) = Some (CfgOption ''unix'' None)"
  using canonical_text_round_trip [of "CfgNot (CfgNot (CfgOption ''unix'' None))"]
  by (simp add: word_ok_def utf8_valid_ascii code_def)

text \<open>
  An empty value is written and not read back, so the round trip does not hold for every predicate,
  as the header of the source file says it does.
\<close>

lemma empty_value_not_read_back:
  "parse_compact (compact (CfgOption ''target_env'' (Some []))) = None \<and> parse_compact (compact (Feature [])) = None"
  by code_simp

end
