(* ===== verification/Cargo_Modules.thy ===== *)
theory Cargo_Modules
  imports Worklist Cfg_Compact
begin

text \<open>
  The module trees of a Cargo project under its default features: \<open>src/indexer/cargo_features.rs\<close> (the features
  a package enables by default), \<open>cargo_targets.rs\<close> (the targets), \<open>feature_gated.rs\<close> (the files the default
  build compiles out), \<open>target_context.rs\<close> and \<open>file_scope.rs\<close> (what reaches a file).  A relative path is the
  list of its components; a map to sets into which entries are only inserted is the set of its pairs.  The
  sources and the declarations the Rust grammar finds in one are parameters.
\<close>

section \<open>Default features\<close>

definition enabled_feature :: "string \<Rightarrow> string option" where
  "enabled_feature entry =
     (if starts_with entry ''dep:'' then None
      else
        (case split_once (CHR ''/'') entry of
           Some (dep, _) \<Rightarrow> if ends_with dep ''?'' then None else Some dep
         | None \<Rightarrow> Some entry))"

definition visit_feature ::
  "(string \<rightharpoonup> string list) \<Rightarrow> string set \<Rightarrow> string \<Rightarrow> string set \<times> string list" where
  "visit_feature table enabled entry =
     (case enabled_feature entry of
        None \<Rightarrow> (enabled, [])
      | Some name \<Rightarrow>
          (case table name of
             None \<Rightarrow> (enabled, [])
           | Some entries \<Rightarrow> if name \<in> enabled then (enabled, []) else (insert name enabled, entries)))"

definition default_closure :: "(string \<rightharpoonup> string list) \<Rightarrow> string set option" where
  "default_closure table =
     worklist (visit_feature table)
       (if table ''default'' = None then {} else {''default''})
       (rev (case table ''default'' of None \<Rightarrow> [] | Some entries \<Rightarrow> entries))"

section \<open>Targets\<close>

type_synonym path = "string list"

text \<open>\<open>Path::components\<close>: a dot is kept at the start of a relative path only.\<close>

definition is_absolute :: "string \<Rightarrow> bool" where
  "is_absolute s \<longleftrightarrow> starts_with s ''/''"

definition components :: "string \<Rightarrow> path" where
  "components s =
     (let parts = split_on (\<lambda>c. c = CHR ''/'') s in
      (if hd parts = ''.'' then [''.''] else []) @ filter (\<lambda>p. p \<noteq> [] \<and> p \<noteq> ''.'') parts)"

definition strip_root :: "string \<Rightarrow> string \<Rightarrow> path option" where
  "strip_root s root =
     (if is_absolute s = is_absolute root \<and> take (length (components root)) (components s) = components root
      then Some (drop (length (components root)) (components s)) else None)"

definition id_of :: "path \<Rightarrow> string" where
  "id_of p = map (\<lambda>c. if c = CHR 0x5C then CHR ''/'' else c) (join_with ''/'' p)"

text \<open>\<open>Path::file_stem\<close> of the last component.\<close>

definition file_stem :: "string \<Rightarrow> string" where
  "file_stem name =
     (case rsplit_once (CHR ''.'') name of
        None \<Rightarrow> name
      | Some (stem, _) \<Rightarrow> if stem = [] then name else stem)"

definition extension :: "path \<Rightarrow> string option" where
  "extension p =
     (if p = [] \<or> last p = ''..'' then None
      else
        (case rsplit_once (CHR ''.'') (last p) of
           None \<Rightarrow> None
         | Some (stem, ext) \<Rightarrow> if stem = [] then None else Some ext))"

datatype target_kind = ProductionTarget | TestTarget | BenchTarget | ExampleTarget

definition from_cargo :: "string list \<Rightarrow> target_kind" where
  "from_cargo kinds =
     (if ''test'' \<in> set kinds then TestTarget
      else if ''bench'' \<in> set kinds then BenchTarget
      else if ''example'' \<in> set kinds then ExampleTarget
      else ProductionTarget)"

record crate_root =
  entry :: path
  default_features :: "string set"
  root_kind :: target_kind
  lib_name :: "string option"

record known_targets =
  target_dirs :: "path set"
  target_files :: "path set"
  crate_roots :: "crate_root list"
  crate_names :: "string set"
  module_files :: "path set"

datatype target_map = UnknownTargets string | KnownTargets known_targets

definition is_outside_targets :: "target_map \<Rightarrow> path \<Rightarrow> bool" where
  "is_outside_targets m p =
     (case m of
        UnknownTargets _ \<Rightarrow> False
      | KnownTargets k \<Rightarrow>
          extension p = Some ''rs'' \<and> p \<notin> target_files k \<and> p \<notin> module_files k \<and>
          \<not> (\<exists>dir \<in> target_dirs k. take (length dir) p = dir))"

record cargo_target =
  src_path :: string
  target_name :: string
  kinds :: "string list"

record cargo_package =
  targets :: "cargo_target list"
  package_features :: "string \<rightharpoonup> string list"

definition IMPORTABLE_KINDS :: "string list" where
  "IMPORTABLE_KINDS = [''lib'', ''rlib'', ''dylib'', ''cdylib'', ''staticlib'', ''proc-macro'']"

definition lib_name_of :: "cargo_target \<Rightarrow> string option" where
  "lib_name_of t =
     (if list_ex (\<lambda>k. k \<in> set IMPORTABLE_KINDS) (kinds t)
      then Some (map (\<lambda>c. if c = CHR ''-'' then CHR ''_'' else c) (target_name t)) else None)"

definition add_target :: "string \<Rightarrow> string set \<Rightarrow> cargo_target \<Rightarrow> known_targets \<Rightarrow> known_targets" where
  "add_target root enabled t k =
     (let lib = lib_name_of t;
          k = (case lib of Some name \<Rightarrow> if name = [] then k else k\<lparr>crate_names := insert name (crate_names k)\<rparr> | None \<Rightarrow> k)
      in case strip_root (src_path t) root of
           None \<Rightarrow> k
         | Some p \<Rightarrow>
             k\<lparr>target_dirs := (if butlast p = [] then target_dirs k else insert (butlast p) (target_dirs k)),
               crate_roots := crate_roots k @ [\<lparr>entry = p, default_features = enabled, root_kind = from_cargo (kinds t), lib_name = lib\<rparr>],
               target_files := insert p (target_files k)\<rparr>)"

fun add_packages :: "string \<Rightarrow> cargo_package list \<Rightarrow> known_targets \<Rightarrow> known_targets option" where
  "add_packages root [] k = Some k"
| "add_packages root (pkg # pkgs) k =
     Option.bind (default_closure (package_features pkg)) (\<lambda>enabled.
       add_packages root pkgs (fold (add_target root enabled) (targets pkg) k))"

text \<open>\<open>from_str\<close> is \<open>serde_json\<close>; the outer option is that of the loops.\<close>

definition parse_metadata_json ::
  "(string \<Rightarrow> (cargo_package list, string) result) \<Rightarrow> string \<Rightarrow> string \<Rightarrow> target_map option" where
  "parse_metadata_json from_str json root =
     (case from_str json of
        Inl e \<Rightarrow> Some (UnknownTargets (''cargo metadata output did not parse: '' @ e))
      | Inr packages \<Rightarrow>
          map_option KnownTargets
            (add_packages root packages
               \<lparr>target_dirs = {}, target_files = {}, crate_roots = [], crate_names = {}, module_files = {}\<rparr>))"

section \<open>Declarations\<close>

record alt_path =
  alt_pred :: "cfg_predicate option"
  alt_file :: string

record mod_decl =
  decl_name :: string
  path_attr :: "string option"
  decl_cfg :: "cfg_predicate list option"
  cfg_text :: string
  alt_paths :: "alt_path list"

definition alternatives :: "mod_decl \<Rightarrow> mod_decl list" where
  "alternatives decl =
     map (\<lambda>alt. decl\<lparr>path_attr := Some (alt_file alt),
                      decl_cfg := Option.bind (decl_cfg decl) (\<lambda>all. map_option (\<lambda>p. all @ [p]) (alt_pred alt)),
                      alt_paths := []\<rparr>) (alt_paths decl) @
     [decl\<lparr>decl_cfg := Option.bind (decl_cfg decl) (\<lambda>all.
             map_option (\<lambda>ps. all @ map CfgNot ps) (those (map alt_pred (alt_paths decl)))),
           alt_paths := []\<rparr>]"

definition gate :: "mod_decl \<Rightarrow> string set \<Rightarrow> truth" where
  "gate decl enabled = (case decl_cfg decl of Some all \<Rightarrow> eval_features enabled (CfgAll all) | None \<Rightarrow> Unknown)"

text \<open>\<open>lexical\<close> of a list of components; \<open>seen\<close> holds those kept, the last first.\<close>

fun lexical_parts :: "path \<Rightarrow> path \<Rightarrow> path option" where
  "lexical_parts seen [] = Some (rev seen)"
| "lexical_parts seen (c # cs) =
     (if c = ''.'' then lexical_parts seen cs
      else if c = ''..'' then (case seen of [] \<Rightarrow> None | _ # seen' \<Rightarrow> lexical_parts seen' cs)
      else lexical_parts (c # seen) cs)"

definition lexical :: "path \<Rightarrow> string \<Rightarrow> path option" where
  "lexical parent p = (if is_absolute p then None else lexical_parts [] (parent @ components p))"

definition module_file :: "path \<Rightarrow> bool \<Rightarrow> mod_decl \<Rightarrow> (path \<Rightarrow> bool) \<Rightarrow> path option" where
  "module_file file owns_directory decl exists =
     (case path_attr decl of
        Some p \<Rightarrow> Option.bind (lexical (butlast file) p) (\<lambda>q. if exists q then Some q else None)
      | None \<Rightarrow>
          let find_in = (\<lambda>dir. find exists [dir @ [decl_name decl @ ''.rs''], dir @ [decl_name decl, ''mod.rs'']]) in
          if owns_directory then find_in (butlast file)
          else if file = [] \<or> last file = ''..'' then None
          else find_in (butlast file @ [file_stem (last file)]))"

record module_tree =
  read_source :: "path \<Rightarrow> string option"
  mod_decls :: "string \<Rightarrow> mod_decl list"
  indexed :: "path set"
  crate_entries :: "path set"

definition declared_children ::
  "(path \<Rightarrow> string option) \<Rightarrow> (string \<Rightarrow> mod_decl list) \<Rightarrow> path \<Rightarrow> bool \<Rightarrow> (path \<Rightarrow> bool) \<Rightarrow> (mod_decl \<times> path) list" where
  "declared_children read parse file owns_directory exists =
     (case read file of
        None \<Rightarrow> []
      | Some source \<Rightarrow>
          if \<not> contains source ''mod'' then []
          else
            concat (map (\<lambda>alternative.
                case module_file file owns_directory alternative exists of
                  None \<Rightarrow> []
                | Some target \<Rightarrow> [(alternative, target)])
              (concat (map alternatives (parse source)))))"

definition ends_with_mod_rs :: "path \<Rightarrow> bool" where
  "ends_with_mod_rs file \<longleftrightarrow> file \<noteq> [] \<and> last file = ''mod.rs''"

definition new_tree :: "(path \<Rightarrow> string option) \<Rightarrow> (string \<Rightarrow> mod_decl list) \<Rightarrow> path set \<Rightarrow> crate_root list \<Rightarrow> module_tree" where
  "new_tree read parse idx roots =
     \<lparr>read_source = read, mod_decls = parse, indexed = idx, crate_entries = set (map entry roots)\<rparr>"

definition children :: "module_tree \<Rightarrow> path \<Rightarrow> (mod_decl \<times> path) list" where
  "children tree file =
     declared_children (read_source tree) (mod_decls tree) file
       (file \<in> crate_entries tree \<or> ends_with_mod_rs file) (\<lambda>p. p \<in> indexed tree)"

definition visit_reached ::
  "(path \<Rightarrow> string option) \<Rightarrow> (string \<Rightarrow> mod_decl list) \<Rightarrow> path set \<Rightarrow> (path \<Rightarrow> bool) \<Rightarrow> path set \<Rightarrow> path \<Rightarrow> path set \<times> path list" where
  "visit_reached read parse entries exists reached file =
     (if file \<in> reached then (reached, [])
      else (insert file reached,
            map snd (declared_children read parse file (file \<in> entries \<or> ends_with_mod_rs file) exists)))"

definition reached_on_disk ::
  "(path \<Rightarrow> string option) \<Rightarrow> (string \<Rightarrow> mod_decl list) \<Rightarrow> (path \<Rightarrow> bool) \<Rightarrow> path list \<Rightarrow> path set option" where
  "reached_on_disk read parse exists entries =
     worklist (visit_reached read parse (set entries) exists) {} (rev (filter exists (sorted_list_of_set (set entries))))"

definition with_module_files ::
  "(path \<Rightarrow> string option) \<Rightarrow> (string \<Rightarrow> mod_decl list) \<Rightarrow> (path \<Rightarrow> bool) \<Rightarrow> target_map \<Rightarrow> target_map option" where
  "with_module_files read parse exists m =
     (case m of
        UnknownTargets _ \<Rightarrow> Some m
      | KnownTargets k \<Rightarrow>
          map_option (\<lambda>reached.
              KnownTargets (k\<lparr>module_files :=
                Set.filter (\<lambda>file. \<not> (\<exists>dir \<in> target_dirs k. take (length dir) file = dir)) reached\<rparr>))
            (reached_on_disk read parse exists (map entry (crate_roots k))))"

end
