(* ===== verification/Module_Walks.thy ===== *)
theory Module_Walks
  imports Cargo_Modules
begin

text \<open>
  The walks of the module trees: \<open>src/indexer/feature_gated.rs\<close> (live and compiled-out files),
  \<open>target_context.rs\<close> (what the package says a file is, which targets own it) and \<open>file_scope.rs\<close> (the gate
  and the module path of a file).  A walk that does not return is \<open>None\<close>.
\<close>

section \<open>Live and compiled-out files\<close>

type_synonym live_set = "(path \<times> string set) set"
type_synonym seeds = "(path \<times> string) list"

definition gate_detail :: "mod_decl \<Rightarrow> path \<Rightarrow> string" where
  "gate_detail decl file =
     ''compiled out under the package's default features (cargo metadata): '' @ cfg_text decl @ '' on `mod '' @
     decl_name decl @ '';` in '' @ id_of file @
     '' is false; declarations are indexed, calls in it cannot be resolved by the language server''"

definition visit_child ::
  "string set \<Rightarrow> path \<Rightarrow> mod_decl \<times> path \<Rightarrow> live_set \<times> seeds \<times> path list \<Rightarrow> live_set \<times> seeds \<times> path list" where
  "visit_child enabled file child acc =
     (case (child, acc) of ((decl, target), (live, seeds, pushed)) \<Rightarrow>
        if gate decl enabled = FalseT then (live, seeds @ [(target, gate_detail decl file)], pushed)
        else if (target, enabled) \<in> live then (live, seeds, pushed)
        else (insert (target, enabled) live, seeds, pushed @ [target]))"

definition visit_live ::
  "module_tree \<Rightarrow> string set \<Rightarrow> live_set \<times> seeds \<Rightarrow> path \<Rightarrow> (live_set \<times> seeds) \<times> path list" where
  "visit_live tree enabled st file =
     (case fold (visit_child enabled file) (children tree file) (fst st, snd st, []) of
        (live, seeds, pushed) \<Rightarrow> ((live, seeds), pushed))"

definition walk_live :: "module_tree \<Rightarrow> crate_root \<Rightarrow> live_set \<times> seeds \<Rightarrow> (live_set \<times> seeds) option" where
  "walk_live tree root st =
     (if entry root \<notin> indexed tree \<or> (entry root, default_features root) \<in> fst st then Some st
      else worklist (visit_live tree (default_features root))
             (insert (entry root, default_features root) (fst st), snd st) [entry root])"

fun walk_all :: "module_tree \<Rightarrow> crate_root list \<Rightarrow> live_set \<times> seeds \<Rightarrow> (live_set \<times> seeds) option" where
  "walk_all tree [] st = Some st"
| "walk_all tree (root # roots) st = Option.bind (walk_live tree root st) (walk_all tree roots)"

definition visit_gated ::
  "module_tree \<Rightarrow> live_set \<Rightarrow> (path \<rightharpoonup> string) \<Rightarrow> path \<times> string \<Rightarrow> (path \<rightharpoonup> string) \<times> (path \<times> string) list" where
  "visit_gated tree live gated item =
     (case item of (file, detail) \<Rightarrow>
        if file \<in> fst ` live \<or> gated file \<noteq> None then (gated, [])
        else (gated(file \<mapsto> detail),
              map (\<lambda>(_, target). (target, ''declared in '' @ id_of file @ '', itself '' @ detail)) (children tree file)))"

definition propagate_gated :: "module_tree \<Rightarrow> seeds \<Rightarrow> live_set \<Rightarrow> (path \<rightharpoonup> string) option" where
  "propagate_gated tree seeds live = worklist (visit_gated tree live) Map.empty (rev seeds)"

datatype file_features = CompiledOut | Enabled "string set" | Disagree

record feature_analysis =
  gated_files :: "path \<rightharpoonup> string"
  features_of :: "path \<rightharpoonup> file_features"

definition known_features :: "live_set \<Rightarrow> path \<Rightarrow> file_features option" where
  "known_features live file =
     (let sets = snd ` Set.filter (\<lambda>p. fst p = file) live in
      if sets = {} then None else if card sets = 1 then Some (Enabled (the_elem sets)) else Some Disagree)"

definition analyse_features :: "module_tree \<Rightarrow> target_map \<Rightarrow> feature_analysis option" where
  "analyse_features tree m =
     (case m of
        UnknownTargets _ \<Rightarrow> Some \<lparr>gated_files = Map.empty, features_of = Map.empty\<rparr>
      | KnownTargets k \<Rightarrow>
          Option.bind (walk_all tree (crate_roots k) ({}, [])) (\<lambda>(live, seeds).
          Option.bind (propagate_gated tree seeds live) (\<lambda>gated.
            Some \<lparr>gated_files = gated,
                  features_of = (\<lambda>file. if gated file \<noteq> None then Some CompiledOut else known_features live file)\<rparr>)))"

section \<open>Contexts and owners\<close>

datatype target_class = ProductionClass | TestClass | BenchClass | ExampleClass | ProofClass

fun class_of :: "target_kind \<Rightarrow> target_class" where
  "class_of ProductionTarget = ProductionClass"
| "class_of TestTarget = TestClass"
| "class_of BenchTarget = BenchClass"
| "class_of ExampleTarget = ExampleClass"

fun class_name :: "target_class \<Rightarrow> string" where
  "class_name ProductionClass = ''production''"
| "class_name TestClass = ''test''"
| "class_name BenchClass = ''bench''"
| "class_name ExampleClass = ''example''"
| "class_name ProofClass = ''proof''"

definition decl_requires :: "mod_decl \<Rightarrow> string \<Rightarrow> bool" where
  "decl_requires decl key = (case decl_cfg decl of None \<Rightarrow> False | Some all \<Rightarrow> requires_option key (CfgAll all))"

definition class_below :: "target_class \<Rightarrow> mod_decl \<Rightarrow> target_class" where
  "class_below c decl =
     (if decl_requires decl ''test'' then TestClass else if decl_requires decl ''kani'' then ProofClass else c)"

definition visit_class ::
  "module_tree \<Rightarrow> (path \<times> target_class) set \<Rightarrow> path \<times> target_class \<Rightarrow> (path \<times> target_class) set \<times> (path \<times> target_class) list" where
  "visit_class tree reached item =
     (if item \<in> reached then (reached, [])
      else (insert item reached,
            map (\<lambda>(decl, target). (target, class_below (snd item) decl)) (children tree (fst item))))"

fun walk_classes :: "module_tree \<Rightarrow> crate_root list \<Rightarrow> (path \<times> target_class) set \<Rightarrow> (path \<times> target_class) set option" where
  "walk_classes tree [] reached = Some reached"
| "walk_classes tree (root # roots) reached =
     (if entry root \<notin> indexed tree then walk_classes tree roots reached
      else Option.bind (worklist (visit_class tree) reached [(entry root, class_of (root_kind root))]) (walk_classes tree roots))"

definition decide_class :: "target_class set \<Rightarrow> target_class option" where
  "decide_class classes =
     (if ProductionClass \<in> classes then Some ProductionClass
      else if card classes = 1 then Some (the_elem classes) else None)"

definition analyse_contexts :: "module_tree \<Rightarrow> target_map \<Rightarrow> (path \<rightharpoonup> string) option" where
  "analyse_contexts tree m =
     (case m of
        UnknownTargets _ \<Rightarrow> Some Map.empty
      | KnownTargets k \<Rightarrow>
          map_option (\<lambda>reached file. map_option class_name (decide_class (snd ` Set.filter (\<lambda>p. fst p = file) reached)))
            (walk_classes tree (crate_roots k) {}))"

definition visit_owned :: "module_tree \<Rightarrow> path \<Rightarrow> (path \<times> path) set \<Rightarrow> path \<Rightarrow> (path \<times> path) set \<times> path list" where
  "visit_owned tree owner owned file =
     (if (file, owner) \<in> owned then (owned, []) else (insert (file, owner) owned, map snd (children tree file)))"

fun walk_owners :: "module_tree \<Rightarrow> crate_root list \<Rightarrow> (path \<times> path) set \<Rightarrow> (path \<times> path) set option" where
  "walk_owners tree [] owned = Some owned"
| "walk_owners tree (root # roots) owned =
     (if entry root \<notin> indexed tree then walk_owners tree roots owned
      else Option.bind (worklist (visit_owned tree (entry root)) owned [entry root]) (walk_owners tree roots))"

definition owners :: "module_tree \<Rightarrow> target_map \<Rightarrow> (path \<times> path) set option" where
  "owners tree m = (case m of UnknownTargets _ \<Rightarrow> Some {} | KnownTargets k \<Rightarrow> walk_owners tree (crate_roots k) {})"

section \<open>Gates and module paths\<close>

record reach_fact =
  r_module_path :: string
  r_gate :: string
  r_truth :: nat
  r_placed :: bool

record way =
  w_file :: path
  w_module_path :: string
  w_gates :: "cfg_predicate list option"
  w_placed :: bool

record file_cfg =
  f_module_path :: string
  f_gate :: string
  f_active :: string

definition way_child :: "way \<Rightarrow> mod_decl \<times> path \<Rightarrow> way" where
  "way_child w child =
     (case child of (decl, target) \<Rightarrow>
        \<lparr>w_file = target,
         w_module_path = w_module_path w @ ''::'' @ decl_name decl,
         w_gates = (case (w_gates w, decl_cfg decl) of (Some outer, Some own) \<Rightarrow> Some (outer @ own) | _ \<Rightarrow> None),
         w_placed = (w_placed w \<or> path_attr decl \<noteq> None \<or> alt_paths decl \<noteq> [])\<rparr>)"

definition truth_rank :: "truth \<Rightarrow> nat" where
  "truth_rank t = (case t of TrueT \<Rightarrow> 2 | Unknown \<Rightarrow> 1 | FalseT \<Rightarrow> 0)"

definition reach_of :: "string \<Rightarrow> cfg_predicate list option \<Rightarrow> string set \<Rightarrow> reach_fact" where
  "reach_of module_path gates enabled =
     (let (g, t) =
        (case gates of
           None \<Rightarrow> (''?'', Unknown)
         | Some all \<Rightarrow>
             if all = [] then ([], TrueT)
             else (compact (canonical (CfgAll all)), eval_in (with_features enabled) (CfgAll all)))
      in \<lparr>r_module_path = module_path, r_gate = g, r_truth = truth_rank t, r_placed = False\<rparr>)"

type_synonym reaches = "(path \<times> reach_fact) set"

definition visit_way ::
  "module_tree \<Rightarrow> string set \<Rightarrow> reaches \<times> (path \<times> string) set \<Rightarrow> way \<Rightarrow> (reaches \<times> (path \<times> string) set) \<times> way list" where
  "visit_way tree enabled st w =
     (case st of (reaches, seen) \<Rightarrow>
        if (w_file w, w_module_path w) \<in> seen then (st, [])
        else
          let r = (reach_of (w_module_path w) (w_gates w) enabled)\<lparr>r_placed := w_placed w\<rparr> in
          ((insert (w_file w, r) reaches, insert (w_file w, w_module_path w) seen),
           map (way_child w) (children tree (w_file w))))"

fun walk_ways :: "module_tree \<Rightarrow> crate_root list \<Rightarrow> reaches \<Rightarrow> reaches option" where
  "walk_ways tree [] reaches = Some reaches"
| "walk_ways tree (root # roots) reaches =
     (if entry root \<notin> indexed tree then walk_ways tree roots reaches
      else
        Option.bind
          (worklist (visit_way tree (default_features root)) (reaches, {})
             [\<lparr>w_file = entry root, w_module_path = id_of (entry root), w_gates = Some [], w_placed = False\<rparr>])
          (\<lambda>(reaches, _). walk_ways tree roots reaches))"

definition scope_of :: "reach_fact set \<Rightarrow> bool \<Rightarrow> file_cfg" where
  "scope_of rs compiled_out =
     (let only = (if card rs = 1 then Some (the_elem rs) else None);
          best = (if rs = {} then 1 else Max (r_truth ` rs))
      in \<lparr>f_module_path = (case only of Some r \<Rightarrow> r_module_path r | None \<Rightarrow> []),
          f_gate = (case only of Some r \<Rightarrow> r_gate r | None \<Rightarrow> []),
          f_active = (if compiled_out \<or> best = 0 then ''inactive'' else if best = 2 then ''active'' else ''unknown'')\<rparr>)"

definition file_facts :: "reaches \<Rightarrow> (path \<rightharpoonup> file_features) \<Rightarrow> path \<Rightarrow> file_cfg option" where
  "file_facts reaches feats file =
     (let rs = snd ` Set.filter (\<lambda>p. fst p = file) reaches;
          placed = (card rs = 1 \<and> (\<forall>r \<in> rs. r_placed r));
          facts = scope_of rs (feats file = Some CompiledOut)
      in if rs \<noteq> {} \<and> (placed \<or> f_gate facts \<noteq> [] \<or> f_active facts = ''inactive'') then Some facts else None)"

definition analyse_scopes :: "module_tree \<Rightarrow> target_map \<Rightarrow> (path \<rightharpoonup> file_features) \<Rightarrow> (path \<rightharpoonup> file_cfg) option" where
  "analyse_scopes tree m feats =
     (case m of
        UnknownTargets _ \<Rightarrow> Some Map.empty
      | KnownTargets k \<Rightarrow> map_option (\<lambda>reaches. file_facts reaches feats) (walk_ways tree (crate_roots k) {}))"

section \<open>The default features are the least closed set\<close>

text \<open>What Cargo enables: \<open>default\<close>, and every feature of the table an enabled one names.\<close>

inductive enabled_by :: "(string \<rightharpoonup> string list) \<Rightarrow> string \<Rightarrow> bool" for table where
  default: "table ''default'' = Some entries \<Longrightarrow> enabled_by table ''default''"
| named: "enabled_by table n \<Longrightarrow> table n = Some entries \<Longrightarrow> e \<in> set entries \<Longrightarrow> enabled_feature e = Some k \<Longrightarrow>
    table k \<noteq> None \<Longrightarrow> enabled_by table k"

definition names_of :: "(string \<rightharpoonup> string list) \<Rightarrow> string list \<Rightarrow> string set" where
  "names_of table entries = {k. table k \<noteq> None \<and> Some k \<in> enabled_feature ` set entries}"

lemma names_of_simps [simp]:
  "names_of table [] = {}"
  "names_of table (rev es) = names_of table es"
  "names_of table (es @ fs) = names_of table es \<union> names_of table fs"
  by (auto simp: names_of_def)

lemma names_of_one:
  "names_of table [e] = (case enabled_feature e of None \<Rightarrow> {} | Some n \<Rightarrow> if table n = None then {} else {n})"
  by (auto simp: names_of_def split: option.splits)

lemma visit_feature_cases:
  obtains "visit_feature table s e = (s, [])" "names_of table [e] \<subseteq> s"
  | n entries where "names_of table [e] = {n}" "table n = Some entries" "n \<notin> s"
      "visit_feature table s e = (insert n s, entries)"
proof (cases "enabled_feature e")
  case (Some n)
  then show thesis
    using that by (cases "table n"; cases "n \<in> s") (auto simp: visit_feature_def names_of_one)
qed (use that in \<open>auto simp: visit_feature_def names_of_one\<close>)

lemma default_closure_returns: "finite (dom table) \<Longrightarrow> \<exists>s. default_closure table = Some s"
  unfolding default_closure_def
proof (rule worklist_returns[where P = "\<lambda>_. True" and U = UNIV and m = "\<lambda>s. card (dom table - s)"])
  fix s e s' pushed
  assume fin: "finite (dom table)" and v: "visit_feature table s e = (s', pushed)"
  show "True \<and> set pushed \<subseteq> UNIV \<and> card (dom table - s') \<le> card (dom table - s) \<and>
      (pushed \<noteq> [] \<longrightarrow> card (dom table - s') < card (dom table - s))"
  proof (cases rule: visit_feature_cases[of table s e])
    case (2 n entries)
    then have "s' = insert n s" using v by simp
    moreover have "card (dom table - insert n s) < card (dom table - s)"
      using fin 2 by (intro psubset_card_mono) auto
    ultimately show ?thesis by simp
  qed (use v in simp)
qed simp_all

definition names_from :: "(string \<rightharpoonup> string list) \<Rightarrow> string set \<Rightarrow> string set" where
  "names_from table s = (\<Union>n \<in> s. case table n of None \<Rightarrow> {} | Some entries \<Rightarrow> names_of table entries)"

lemma names_from_insert: "table n = Some es \<Longrightarrow> names_from table (insert n s) = names_of table es \<union> names_from table s"
  by (simp add: names_from_def)

definition closure_inv :: "(string \<rightharpoonup> string list) \<Rightarrow> string set \<Rightarrow> string list \<Rightarrow> bool" where
  "closure_inv table s pending \<longleftrightarrow>
     s \<union> names_of table pending \<subseteq> Collect (enabled_by table) \<and> (table ''default'' \<noteq> None \<longrightarrow> ''default'' \<in> s) \<and>
     names_from table s \<subseteq> s \<union> names_of table pending"

lemma names_enabled: "enabled_by table n \<Longrightarrow> table n = Some es \<Longrightarrow> names_of table es \<subseteq> Collect (enabled_by table)"
  by (auto simp: names_of_def intro: enabled_by.named)

lemma closure_inv_step:
  assumes "closure_inv table s (e # rest)" and "visit_feature table s e = (s', pushed)"
  shows "closure_inv table s' (rev pushed @ rest)"
proof -
  have split: "names_of table (e # rest) = names_of table [e] \<union> names_of table rest" by (auto simp: names_of_def)
  show ?thesis
  proof (cases rule: visit_feature_cases[of table s e])
    case 1
    then have "s \<union> names_of table (e # rest) = s \<union> names_of table rest" by (auto simp: split)
    with 1 assms show ?thesis by (auto simp: closure_inv_def)
  next
    case (2 n entries)
    then have "enabled_by table n" using assms(1) by (auto simp: closure_inv_def split)
    from names_enabled[OF this] 2 assms show ?thesis
      by (auto simp: closure_inv_def split names_from_insert)
  qed
qed

text \<open>
  C28: The features a package enables by default.  On every finite table of features the loop returns, and what
  it returns is the least set that holds \<open>default\<close> (when there is one) and every feature of the table that an
  enabled feature names, a weak dependency feature and a \<open>dep:\<close> entry naming none.
\<close>

theorem default_closure_is_least:
  assumes "finite (dom table)"
  shows "default_closure table = Some (Collect (enabled_by table))"
proof -
  obtain s where s: "default_closure table = Some s" using default_closure_returns[OF assms] ..
  have init: "closure_inv table (if table ''default'' = None then {} else {''default''})
      (rev (case table ''default'' of None \<Rightarrow> [] | Some entries \<Rightarrow> entries))"
    using names_enabled[OF enabled_by.default]
    by (auto simp: closure_inv_def names_from_def intro: enabled_by.default split: option.splits)
  have inv: "closure_inv table s []"
    by (rule worklist_invariant[where I = "closure_inv table", OF _ s[unfolded default_closure_def] init])
      (rule closure_inv_step)
  have "n \<in> s" if "enabled_by table n" for n
    using that
  proof induction
    case (named n entries e k)
    then have "k \<in> names_of table entries" by (force simp: names_of_def)
    with named have "k \<in> names_from table s" by (force simp: names_from_def)
    with inv show ?case by (auto simp: closure_inv_def)
  qed (use inv in \<open>auto simp: closure_inv_def\<close>)
  then show ?thesis using s inv by (auto simp: closure_inv_def)
qed

definition sample_table :: "string \<rightharpoonup> string list" where
  "sample_table = map_of [(''default'', [''x'', ''dep1/std'', ''dep2?/std'']), (''dep1'', [''dep:dep1'']), (''dep2'', [''dep:dep2'']),
                          (''x'', [''y'']), (''y'', []), (''z'', [])]"

lemma default_closure_is_least_witness:
  "default_closure sample_table = Some {''default'', ''x'', ''y'', ''dep1''} \<and>
   Collect (enabled_by sample_table) = {''default'', ''x'', ''y'', ''dep1''}"
proof -
  have "finite (dom sample_table)" by (simp add: sample_table_def finite_dom_map_of)
  from default_closure_is_least[OF this]
  have eq: "default_closure sample_table = Some (Collect (enabled_by sample_table))" .
  moreover have "default_closure sample_table = Some {''default'', ''x'', ''y'', ''dep1''}"
    by code_simp
  ultimately show ?thesis by simp
qed

section \<open>What the live walk finds\<close>

definition live_rel :: "module_tree \<Rightarrow> string set \<Rightarrow> (path \<times> path) set" where
  "live_rel tree F = {(a, b). \<exists>decl. (decl, b) \<in> set (children tree a) \<and> gate decl F \<noteq> FalseT}"

definition declares :: "module_tree \<Rightarrow> (path \<times> path) set" where
  "declares tree = {(a, b). b \<in> snd ` set (children tree a)}"

lemma module_file_exists: "module_file file owns decl exists = Some t \<Longrightarrow> exists t"
  by (auto simp: module_file_def bind_eq_Some_conv Let_def split: option.splits if_splits)

lemma declared_exists:
  assumes "(decl, t) \<in> set (declared_children read parse file owns exists)"
  shows "exists t"
proof -
  obtain alt where "(decl, t) \<in> set (case module_file file owns alt exists of None \<Rightarrow> [] | Some target \<Rightarrow> [(alt, target)])"
    using assms by (auto simp: declared_children_def split: option.splits if_splits)
  then show ?thesis by (auto split: option.splits intro: module_file_exists)
qed

lemma children_indexed: "(decl, b) \<in> set (children tree a) \<Longrightarrow> b \<in> indexed tree"
  unfolding children_def by (drule declared_exists)

lemma live_rel_declares: "live_rel tree F \<subseteq> declares tree"
  by (force simp: live_rel_def declares_def)

definition gated_targets :: "string set \<Rightarrow> (mod_decl \<times> path) list \<Rightarrow> path set" where
  "gated_targets F cs = snd ` {c \<in> set cs. gate (fst c) F = FalseT}"
definition live_targets :: "string set \<Rightarrow> (mod_decl \<times> path) list \<Rightarrow> path set" where
  "live_targets F cs = snd ` {c \<in> set cs. gate (fst c) F \<noteq> FalseT}"

lemma targets_Cons:
  "gated_targets F (c # cs) = (if gate (fst c) F = FalseT then insert (snd c) (gated_targets F cs) else gated_targets F cs)"
  "live_targets F (c # cs) = (if gate (fst c) F = FalseT then live_targets F cs else insert (snd c) (live_targets F cs))"
  by (auto simp: gated_targets_def live_targets_def)

lemma visit_child_simp [simp]:
  "visit_child F file (decl, t) (live, seeds, pushed) =
     (if gate decl F = FalseT then (live, seeds @ [(t, gate_detail decl file)], pushed)
      else if (t, F) \<in> live then (live, seeds, pushed)
      else (insert (t, F) live, seeds, pushed @ [t]))"
  by (simp add: visit_child_def)

lemma visit_children:
  "fold (visit_child F file) cs (live, seeds, pushed) = (live', seeds', pushed') \<Longrightarrow>
   live' = live \<union> (\<lambda>t. (t, F)) ` live_targets F cs \<and>
   fst ` set seeds' = fst ` set seeds \<union> gated_targets F cs \<and>
   set pushed' = set pushed \<union> {t \<in> live_targets F cs. (t, F) \<notin> live}"
proof (induction cs arbitrary: live seeds pushed)
  case (Cons c cs)
  obtain decl t where c: "c = (decl, t)" by (cases c)
  consider "gate decl F = FalseT" | "gate decl F \<noteq> FalseT" "(t, F) \<in> live" | "gate decl F \<noteq> FalseT" "(t, F) \<notin> live" by blast
  then show ?case
  proof cases
    case 1
    with Cons.prems c have "fold (visit_child F file) cs (live, seeds @ [(t, gate_detail decl file)], pushed) = (live', seeds', pushed')" by simp
    from Cons.IH[OF this] 1 show ?thesis by (auto simp: c targets_Cons)
  next
    case 2
    with Cons.prems c have "fold (visit_child F file) cs (live, seeds, pushed) = (live', seeds', pushed')" by simp
    from Cons.IH[OF this] 2 show ?thesis by (auto simp: c targets_Cons)
  next
    case 3
    with Cons.prems c have "fold (visit_child F file) cs (insert (t, F) live, seeds, pushed @ [t]) = (live', seeds', pushed')" by simp
    from Cons.IH[OF this] 3 show ?thesis by (auto simp: c targets_Cons)
  qed
qed (auto simp: live_targets_def gated_targets_def)

lemma live_targets_indexed: "live_targets F (children tree file) \<subseteq> indexed tree"
  by (auto simp: live_targets_def intro: children_indexed)

lemma live_rel_targets: "(a, b) \<in> live_rel tree F \<longleftrightarrow> b \<in> live_targets F (children tree a)"
  by (force simp: live_rel_def live_targets_def)

text \<open>A pair is settled when what its file declares is live, or a seed, as the gates say.\<close>

definition settled :: "module_tree \<Rightarrow> live_set \<Rightarrow> path set \<Rightarrow> path \<times> string set \<Rightarrow> bool" where
  "settled tree live S p \<longleftrightarrow>
     (\<lambda>t. (t, snd p)) ` live_targets (snd p) (children tree (fst p)) \<subseteq> live \<and>
     gated_targets (snd p) (children tree (fst p)) \<subseteq> S"

definition live_inv :: "module_tree \<Rightarrow> live_set \<Rightarrow> path set \<Rightarrow> (path \<times> string set) set \<Rightarrow> bool" where
  "live_inv tree live S todo \<longleftrightarrow>
     todo \<subseteq> live \<and> (\<forall>p \<in> live - todo. settled tree live S p) \<and>
     S \<subseteq> (\<Union>p \<in> live. gated_targets (snd p) (children tree (fst p)))"

lemma settled_mono: "settled tree live S p \<Longrightarrow> live \<subseteq> live' \<Longrightarrow> S \<subseteq> S' \<Longrightarrow> settled tree live' S' p"
  by (auto simp: settled_def)

lemma visit_live_inv:
  assumes inv: "live_inv tree live (fst ` set seeds) ((\<lambda>f. (f, F)) ` set (file # rest))"
    and v: "visit_live tree F (live, seeds) file = ((live', seeds'), pushed)"
  shows "live_inv tree live' (fst ` set seeds') ((\<lambda>f. (f, F)) ` set (rev pushed @ rest))"
proof -
  have "fold (visit_child F file) (children tree file) (live, seeds, []) = (live', seeds', pushed)"
    using v by (simp add: visit_live_def split: prod.splits)
  from visit_children[OF this]
  have live': "live' = live \<union> (\<lambda>t. (t, F)) ` live_targets F (children tree file)"
    and S': "fst ` set seeds' = fst ` set seeds \<union> gated_targets F (children tree file)"
    and pushed: "set pushed = {t \<in> live_targets F (children tree file). (t, F) \<notin> live}" by auto
  have here: "settled tree live' (fst ` set seeds') (file, F)" by (auto simp: settled_def live' S')
  have "settled tree live' (fst ` set seeds') p" if "p \<in> live'" "p \<notin> (\<lambda>f. (f, F)) ` set (rev pushed @ rest)" for p
  proof (cases "p = (file, F)")
    case False
    with that have "p \<in> live - (\<lambda>f. (f, F)) ` set (file # rest)" by (auto simp: live' pushed)
    with inv have "settled tree live (fst ` set seeds) p" unfolding live_inv_def by blast
    then show ?thesis by (rule settled_mono) (auto simp: live' S')
  qed (use here in simp)
  moreover have "(file, F) \<in> live" "(\<lambda>f. (f, F)) ` set rest \<subseteq> live"
    and "fst ` set seeds \<subseteq> (\<Union>p \<in> live. gated_targets (snd p) (children tree (fst p)))"
    using inv by (auto simp: live_inv_def)
  ultimately show ?thesis unfolding live_inv_def S' by (auto simp: live' pushed)
qed

lemma visit_live_cases:
  assumes "visit_live tree F (live, seeds) src = ((live', seeds'), pushed)"
  shows "live' = live \<union> (\<lambda>t. (t, F)) ` live_targets F (children tree src)"
    and "set pushed = {t \<in> live_targets F (children tree src). (t, F) \<notin> live}"
  using visit_children[of F src "children tree src" live seeds "[]" live' seeds' pushed] assms
  by (auto simp: visit_live_def split: prod.splits)

lemma live_walk_returns:
  assumes "finite (indexed tree)"
  shows "\<exists>t. worklist (visit_live tree F) st pending = Some t"
proof (rule worklist_returns[where P = "\<lambda>_. True" and U = UNIV and m = "\<lambda>st. card (indexed tree \<times> {F} - fst st)"])
  fix st src st' pushed
  assume v: "visit_live tree F st src = (st', pushed)"
  obtain live seeds live' seeds' where st: "st = (live, seeds)" "st' = (live', seeds')" by (cases st; cases st')
  note v' = visit_live_cases[OF v[unfolded st]]
  have fin: "finite (indexed tree \<times> {F} - live)" using assms by simp
  have sub: "indexed tree \<times> {F} - live' \<subseteq> indexed tree \<times> {F} - live" by (auto simp: v')
  have less: "card (indexed tree \<times> {F} - live') < card (indexed tree \<times> {F} - live)" if "pushed \<noteq> []"
  proof -
    from that obtain t where "t \<in> set pushed" by (cases pushed) auto
    then have "(t, F) \<in> indexed tree \<times> {F} - live" "(t, F) \<in> live'"
      using live_targets_indexed[of F tree src] by (auto simp: v')
    with sub have "indexed tree \<times> {F} - live' \<subset> indexed tree \<times> {F} - live" by blast
    then show ?thesis by (rule psubset_card_mono[OF fin])
  qed
  show "True \<and> set pushed \<subseteq> UNIV \<and> card (indexed tree \<times> {F} - fst st') \<le> card (indexed tree \<times> {F} - fst st) \<and>
      (pushed \<noteq> [] \<longrightarrow> card (indexed tree \<times> {F} - fst st') < card (indexed tree \<times> {F} - fst st))"
    using card_mono[OF fin sub] less by (simp add: st)
qed simp_all

definition reached_live :: "module_tree \<Rightarrow> crate_root \<Rightarrow> live_set" where
  "reached_live tree root =
     (if entry root \<in> indexed tree
      then {(f, F). F = default_features root \<and> (entry root, f) \<in> (live_rel tree F)\<^sup>*} else {})"

lemma walk_live_result:
  assumes fin: "finite (indexed tree)" and inv: "live_inv tree live (fst ` set seeds) {}"
  obtains live' seeds' where "walk_live tree root (live, seeds) = Some (live', seeds')"
    "live_inv tree live' (fst ` set seeds') {}" "live \<subseteq> live'" "live' \<subseteq> live \<union> reached_live tree root"
    "entry root \<in> indexed tree \<Longrightarrow> (entry root, default_features root) \<in> live'"
proof (cases "entry root \<notin> indexed tree \<or> (entry root, default_features root) \<in> live")
  case True
  with that[of live seeds] inv show thesis by (auto simp: walk_live_def)
next
  case False
  let ?F = "default_features root" and ?e = "entry root"
  let ?R = "(live_rel tree ?F)\<^sup>* `` {?e}"
  define J where "J st pending \<longleftrightarrow>
      live_inv tree (fst st) (fst ` set (snd st)) ((\<lambda>f. (f, ?F)) ` set pending) \<and> insert (?e, ?F) live \<subseteq> fst st \<and>
      fst st \<subseteq> live \<union> ?R \<times> {?F} \<and> set pending \<subseteq> ?R" for st :: "live_set \<times> seeds" and pending
  obtain st where st: "worklist (visit_live tree ?F) (insert (?e, ?F) live, seeds) [?e] = Some st"
    using live_walk_returns[OF fin] by blast
  have "J st []"
  proof (rule worklist_invariant[where I = J, OF _ st])
    have "live_inv tree (insert (?e, ?F) live) (fst ` set seeds) {(?e, ?F)}"
      using inv settled_mono[of tree live "fst ` set seeds" _ "insert (?e, ?F) live" "fst ` set seeds"]
      by (auto simp: live_inv_def)
    then show "J (insert (?e, ?F) live, seeds) [?e]" by (auto simp: J_def)
  next
    fix st src rest st' pushed
    assume J: "J st (src # rest)" and v: "visit_live tree ?F st src = (st', pushed)"
    obtain l s l' s' where st: "st = (l, s)" "st' = (l', s')" by (cases st; cases st')
    note v' = visit_live_cases[OF v[unfolded st]]
    have "live_targets ?F (children tree src) \<subseteq> ?R"
      using J by (auto simp: J_def live_rel_targets[symmetric] intro: rtrancl_into_rtrancl)
    moreover have "live_inv tree l' (fst ` set s') ((\<lambda>f. (f, ?F)) ` set (rev pushed @ rest))"
      using J v by (intro visit_live_inv[of tree l s _ src]) (simp_all add: J_def st)
    ultimately show "J st' (rev pushed @ rest)" using J by (auto simp: J_def st v')
  qed
  with st False show thesis by (intro that[of "fst st" "snd st"]) (auto simp: walk_live_def J_def reached_live_def)
qed

lemma walk_all_result:
  assumes fin: "finite (indexed tree)" and inv: "live_inv tree live (fst ` set seeds) {}"
  shows "\<exists>live' seeds'. walk_all tree roots (live, seeds) = Some (live', seeds') \<and>
    live_inv tree live' (fst ` set seeds') {} \<and> live \<subseteq> live' \<and> live' \<subseteq> live \<union> (\<Union>root \<in> set roots. reached_live tree root) \<and>
    (\<forall>root \<in> set roots. entry root \<in> indexed tree \<longrightarrow> (entry root, default_features root) \<in> live')"
  using inv
proof (induction roots arbitrary: live seeds)
  case (Cons root roots)
  obtain l s where w: "walk_live tree root (live, seeds) = Some (l, s)" and i: "live_inv tree l (fst ` set s) {}"
    and sub: "live \<subseteq> l" "l \<subseteq> live \<union> reached_live tree root"
    and e: "entry root \<in> indexed tree \<Longrightarrow> (entry root, default_features root) \<in> l"
    using walk_live_result[OF fin Cons.prems, of root] by blast
  from Cons.IH[OF i] obtain l' s' where "walk_all tree roots (l, s) = Some (l', s')"
    "live_inv tree l' (fst ` set s') {}" "l \<subseteq> l'" "l' \<subseteq> l \<union> (\<Union>root \<in> set roots. reached_live tree root)"
    "\<forall>root \<in> set roots. entry root \<in> indexed tree \<longrightarrow> (entry root, default_features root) \<in> l'" by blast
  with w sub e show ?case by (intro exI[of _ l'] exI[of _ s']) auto
qed simp

lemma live_closed:
  assumes "live_inv tree live S {}" and "(a, F) \<in> live" and "(a, b) \<in> (live_rel tree F)\<^sup>*"
  shows "(b, F) \<in> live"
  using assms(3,1,2)
proof (induction rule: rtrancl_induct)
  case (step b c)
  then have "settled tree live S (b, F)" by (auto simp: live_inv_def)
  with step.hyps(2) show ?case by (auto simp: settled_def live_rel_targets)
qed

lemma walk_all_live:
  assumes "finite (indexed tree)"
  obtains seeds where "walk_all tree roots ({}, []) = Some (\<Union>root \<in> set roots. reached_live tree root, seeds)"
    "live_inv tree (\<Union>root \<in> set roots. reached_live tree root) (fst ` set seeds) {}"
proof -
  have "live_inv tree {} (fst ` set []) {}" by (simp add: live_inv_def)
  from walk_all_result[OF assms this, of roots] obtain live seeds where w: "walk_all tree roots ({}, []) = Some (live, seeds)"
    and inv: "live_inv tree live (fst ` set seeds) {}" and sub: "live \<subseteq> (\<Union>root \<in> set roots. reached_live tree root)"
    and e: "\<forall>root \<in> set roots. entry root \<in> indexed tree \<longrightarrow> (entry root, default_features root) \<in> live" by auto
  have "(\<Union>root \<in> set roots. reached_live tree root) \<subseteq> live"
    using e live_closed[OF inv] by (auto simp: reached_live_def split: if_splits)
  with sub have "live = (\<Union>root \<in> set roots. reached_live tree root)" by blast
  with that w inv show thesis by simp
qed

section \<open>What is compiled out\<close>

lemma visit_gated_cases:
  assumes "visit_gated tree live g item = (g', pushed)"
  obtains "fst item \<in> fst ` live \<union> dom g" "g' = g" "pushed = []"
  | "fst item \<notin> fst ` live \<union> dom g" "g' = g(fst item \<mapsto> snd item)" "fst ` set pushed = snd ` set (children tree (fst item))"
proof -
  obtain src detail where i: "item = (src, detail)" by (cases item)
  show thesis
  proof (cases "src \<in> fst ` live \<or> g src \<noteq> None")
    case True
    then show ?thesis using assms by (intro that(1)) (auto simp: visit_gated_def i)
  next
    case False
    then have "g' = g(src \<mapsto> detail)"
      and p: "pushed = map (\<lambda>(_, target). (target, ''declared in '' @ id_of src @ '', itself '' @ detail)) (children tree src)"
      using assms by (auto simp: visit_gated_def i)
    moreover have "fst ` set pushed = snd ` set (children tree src)" by (force simp: p)
    ultimately show ?thesis using False by (intro that(2)) (auto simp: i)
  qed
qed

lemma declared_children_indexed: "snd ` set (children tree src) \<subseteq> indexed tree"
  by (auto intro: children_indexed)

lemma propagate_returns:
  assumes "finite (indexed tree)" and "fst ` set seeds \<subseteq> indexed tree"
  shows "\<exists>g. propagate_gated tree seeds live = Some g"
  unfolding propagate_gated_def
proof (rule worklist_returns[where P = "\<lambda>_. True" and U = "{i. fst i \<in> indexed tree}" and m = "\<lambda>g. card (indexed tree - dom g)"])
  fix g item g' pushed
  assume U: "item \<in> {i. fst i \<in> indexed tree}" and v: "visit_gated tree live g item = (g', pushed)"
  have fin: "finite (indexed tree - dom g)" using assms(1) by simp
  from v show "True \<and> set pushed \<subseteq> {i. fst i \<in> indexed tree} \<and> card (indexed tree - dom g') \<le> card (indexed tree - dom g) \<and>
      (pushed \<noteq> [] \<longrightarrow> card (indexed tree - dom g') < card (indexed tree - dom g))"
  proof (cases rule: visit_gated_cases)
    case 2
    have "indexed tree - dom g' \<subset> indexed tree - dom g" using U 2 by auto
    then have "card (indexed tree - dom g') < card (indexed tree - dom g)" by (rule psubset_card_mono[OF fin])
    moreover have "set pushed \<subseteq> {i. fst i \<in> indexed tree}" using 2(3) declared_children_indexed[of tree "fst item"] by blast
    ultimately show ?thesis by simp
  qed simp
qed (use assms in auto)

lemma propagate_result:
  assumes fin: "finite (indexed tree)" and inv: "live_inv tree live (fst ` set seeds) {}"
    and E: "E \<subseteq> fst ` live" and A: "fst ` live \<subseteq> (declares tree)\<^sup>* `` E"
  obtains g where "propagate_gated tree seeds live = Some g" "dom g = (declares tree)\<^sup>* `` E - fst ` live"
proof -
  let ?A = "(declares tree)\<^sup>* `` E" and ?S = "fst ` set seeds"
  have gt: "gated_targets F (children tree src) \<subseteq> snd ` set (children tree src)" for F src by (auto simp: gated_targets_def)
  have child: "snd ` set (children tree a) \<subseteq> ?A" if "a \<in> ?A" for a
    using that by (auto simp: declares_def intro: rtrancl_into_rtrancl)
  have S: "?S \<subseteq> (\<Union>p \<in> live. gated_targets (snd p) (children tree (fst p)))" using inv by (simp add: live_inv_def)
  have "?S \<subseteq> indexed tree" using S gt declared_children_indexed by blast
  then obtain g where g: "propagate_gated tree seeds live = Some g" using propagate_returns[OF fin] by blast
  define I where "I g pending \<longleftrightarrow> dom g \<inter> fst ` live = {} \<and> dom g \<union> fst ` set pending \<subseteq> ?A \<and>
      ?S \<subseteq> fst ` live \<union> dom g \<union> fst ` set pending \<and>
      (\<forall>a \<in> dom g. snd ` set (children tree a) \<subseteq> fst ` live \<union> dom g \<union> fst ` set pending)"
    for g :: "path \<rightharpoonup> string" and pending :: "(path \<times> string) list"
  have Ig: "I g []"
  proof (rule worklist_invariant[where I = I, OF _ g[unfolded propagate_gated_def]])
    have "?S \<subseteq> ?A"
    proof
      fix t assume "t \<in> ?S"
      then obtain p where "p \<in> live" "t \<in> snd ` set (children tree (fst p))" using S gt by blast
      with A child show "t \<in> ?A" by blast
    qed
    then show "I Map.empty (rev seeds)" by (auto simp: I_def)
  next
    fix g item rest g' pushed
    assume I: "I g (item # rest)" and "visit_gated tree live g item = (g', pushed)"
    from this(2) show "I g' (rev pushed @ rest)"
    proof (cases rule: visit_gated_cases)
      case 1
      then have "fst ` live \<union> dom g \<union> fst ` set (item # rest) = fst ` live \<union> dom g \<union> fst ` set rest" by auto
      with I 1 show ?thesis by (simp add: I_def)
    next
      case 2
      let ?W = "fst ` live \<union> dom g' \<union> fst ` set (rev pushed @ rest)"
      have W: "fst ` live \<union> dom g \<union> fst ` set (item # rest) \<subseteq> ?W" using 2 by auto
      have "snd ` set (children tree a) \<subseteq> ?W" if "a \<in> dom g'" for a
      proof (cases "a = fst item")
        case False
        then have "a \<in> dom g" using that 2 by auto
        with I have "snd ` set (children tree a) \<subseteq> fst ` live \<union> dom g \<union> fst ` set (item # rest)" by (simp add: I_def)
        with W show ?thesis by (rule order_trans[rotated])
      qed (use 2 in auto)
      moreover have "?S \<subseteq> ?W"
        by (rule order_trans[OF _ W]) (use I in \<open>simp add: I_def\<close>)
      moreover have "fst item \<in> ?A" "dom g \<union> fst ` set rest \<subseteq> ?A" "dom g \<inter> fst ` live = {}" using I by (auto simp: I_def)
      moreover from child[OF this(1)] have "fst ` set pushed \<subseteq> ?A" by (simp add: 2)
      ultimately show ?thesis using 2(1) unfolding I_def 2(2) by (simp add: image_Un)
    qed
  qed
  have "b \<in> fst ` live \<union> dom g" if "(a, b) \<in> (declares tree)\<^sup>*" "a \<in> E" for a b
    using that
  proof (induction rule: rtrancl_induct)
    case (step b c)
    then consider F where "(b, F) \<in> live" | "b \<in> dom g" by force
    then show ?case
    proof cases
      case 1
      then have "settled tree live ?S (b, F)" using inv by (auto simp: live_inv_def)
      moreover have "c \<in> live_targets F (children tree b) \<union> gated_targets F (children tree b)"
        using step.hyps(2) by (force simp: declares_def live_targets_def gated_targets_def)
      ultimately have "c \<in> fst ` live \<or> c \<in> ?S" by (force simp: settled_def)
      with Ig show ?thesis by (auto simp: I_def)
    next
      case 2
      with Ig have "snd ` set (children tree b) \<subseteq> fst ` live \<union> dom g" by (simp add: I_def)
      moreover have "c \<in> snd ` set (children tree b)" using step.hyps(2) by (simp add: declares_def)
      ultimately show ?thesis by blast
    qed
  qed (use E in auto)
  with Ig have "dom g = ?A - fst ` live" by (auto simp: I_def)
  with g that show thesis by blast
qed


text \<open>The files every declaration leads to, gated or not, and those live declarations lead to from one root.\<close>

definition declared_files :: "module_tree \<Rightarrow> crate_root list \<Rightarrow> path set" where
  "declared_files tree roots = (declares tree)\<^sup>* `` {e \<in> entry ` set roots. e \<in> indexed tree}"

definition live_features :: "module_tree \<Rightarrow> crate_root list \<Rightarrow> path \<Rightarrow> string set set" where
  "live_features tree roots f =
     default_features ` {root \<in> set roots. entry root \<in> indexed tree \<and>
       (entry root, f) \<in> (live_rel tree (default_features root))\<^sup>*}"

lemma features_by_pair: "snd ` Set.filter (\<lambda>p. fst p = f) (\<Union>root \<in> set roots. reached_live tree root) = live_features tree roots f"
  by (force simp: live_features_def reached_live_def split: if_splits)

lemma live_features_none: "live_features tree roots f = {} \<longleftrightarrow> f \<notin> fst ` (\<Union>root \<in> set roots. reached_live tree root)"
  unfolding features_by_pair[symmetric] by force

text \<open>
  C5: The feature analysis splits the module trees.  On every finite set of indexed files the walks return.  A
  file has an entry exactly when the declarations lead to it from the entry file of some target; it is compiled
  out exactly when, besides, no target reaches it through declarations its default features do not rule out; it
  has a set of features exactly when all the targets that reach it in that way have that one set.
\<close>

theorem feature_analysis_splits_the_trees:
  assumes "finite (indexed tree)"
  shows "\<exists>a. analyse_features tree (KnownTargets k) = Some a \<and>
    dom (features_of a) = declared_files tree (crate_roots k) \<and>
    dom (gated_files a) = {f \<in> declared_files tree (crate_roots k). live_features tree (crate_roots k) f = {}} \<and>
    {f. features_of a f = Some CompiledOut} = dom (gated_files a) \<and>
    {(f, F). features_of a f = Some (Enabled F)} = {(f, F). live_features tree (crate_roots k) f = {F}}"
proof -
  let ?roots = "crate_roots k" and ?live = "\<Union>root \<in> set (crate_roots k). reached_live tree root"
  let ?E = "{e \<in> entry ` set ?roots. e \<in> indexed tree}"
  obtain seeds where w: "walk_all tree ?roots ({}, []) = Some (?live, seeds)"
    and inv: "live_inv tree ?live (fst ` set seeds) {}" using walk_all_live[OF assms] .
  have "?E \<subseteq> fst ` ?live" by (force simp: reached_live_def)
  moreover have live: "fst ` ?live \<subseteq> (declares tree)\<^sup>* `` ?E"
  proof (clarsimp simp: reached_live_def split: if_splits)
    fix f root
    assume r: "root \<in> set ?roots" "entry root \<in> indexed tree"
      and f: "(entry root, f) \<in> (live_rel tree (default_features root))\<^sup>*"
    from rtrancl_mono[OF live_rel_declares] f have "(entry root, f) \<in> (declares tree)\<^sup>*" by blast
    with r show "f \<in> (declares tree)\<^sup>* `` ?E" by blast
  qed
  ultimately obtain g where g: "propagate_gated tree seeds ?live = Some g"
    and dom: "dom g = (declares tree)\<^sup>* `` ?E - fst ` ?live" by (rule propagate_result[OF assms inv])
  let ?a = "\<lparr>gated_files = g, features_of = (\<lambda>f. if g f \<noteq> None then Some CompiledOut else known_features ?live f)\<rparr>"
  have a: "analyse_features tree (KnownTargets k) = Some ?a" by (simp add: analyse_features_def w g)
  have known: "known_features ?live f =
      (let sets = live_features tree ?roots f in
       if sets = {} then None else if card sets = 1 then Some (Enabled (the_elem sets)) else Some Disagree)" for f
    by (simp only: known_features_def features_by_pair)
  have gated: "g f \<noteq> None \<longleftrightarrow> f \<in> declared_files tree ?roots \<and> live_features tree ?roots f = {}" for f
    by (simp only: domIff[symmetric] dom declared_files_def live_features_none Diff_iff)
  have livef: "f \<in> declared_files tree ?roots" if "live_features tree ?roots f \<noteq> {}" for f
    using that live by (auto simp: declared_files_def live_features_none)
  have "dom (features_of ?a) = declared_files tree ?roots"
    using gated livef by (auto simp: known Let_def split: if_splits)
  moreover have "dom (gated_files ?a) = {f \<in> declared_files tree ?roots. live_features tree ?roots f = {}}"
    using gated by (auto simp: dom_def)
  moreover have "{f. features_of ?a f = Some CompiledOut} = dom (gated_files ?a)"
    by (auto simp: known Let_def split: if_splits)
  moreover have "{(f, F). features_of ?a f = Some (Enabled F)} = {(f, F). live_features tree ?roots f = {F}}"
    using gated by (auto simp: known Let_def card_1_singleton_iff split: if_splits)
  ultimately show ?thesis using a by blast
qed

text \<open>
  A build of a package: its default features and any reading of the other options.  It compiles a declaration
  whose conditions hold; one whose condition did not parse may be compiled.
\<close>

definition build_rel :: "module_tree \<Rightarrow> string set \<Rightarrow> (string \<Rightarrow> string option \<Rightarrow> bool) \<Rightarrow> (path \<times> path) set" where
  "build_rel tree F opt =
     {(a, b). \<exists>decl. (decl, b) \<in> set (children tree a) \<and>
        (case decl_cfg decl of None \<Rightarrow> True | Some all \<Rightarrow> list_all (holds F opt) all)}"

lemma build_rel_live: "build_rel tree F opt \<subseteq> live_rel tree F"
proof (clarsimp simp: build_rel_def live_rel_def)
  fix a b decl
  assume d: "(decl, b) \<in> set (children tree a)" and h: "case decl_cfg decl of None \<Rightarrow> True | Some all \<Rightarrow> list_all (holds F opt) all"
  have "gate decl F \<noteq> FalseT"
  proof (cases "decl_cfg decl")
    case (Some all)
    then have "holds F opt (CfgAll all)" using h by (simp add: list_all_iff)
    then show ?thesis
      using eval_sound[of Map.empty opt F "CfgAll all"] Some by (auto simp: gate_def eval_features_def)
  qed (simp add: gate_def)
  with d show "\<exists>decl. (decl, b) \<in> set (children tree a) \<and> gate decl F \<noteq> FalseT" by blast
qed

text \<open>
  C3: A file reported as compiled out is in no default build.  Whatever the target, the platform and the other
  options are, a build with the default features of the target does not reach the file from the entry file of
  the target through declarations whose conditions hold.
\<close>

theorem compiled_out_is_in_no_default_build:
  assumes "finite (indexed tree)" and "analyse_features tree (KnownTargets k) = Some a"
    and "features_of a f = Some CompiledOut" and "root \<in> set (crate_roots k)" and "entry root \<in> indexed tree"
  shows "(entry root, f) \<notin> (build_rel tree (default_features root) opt)\<^sup>*"
proof
  assume "(entry root, f) \<in> (build_rel tree (default_features root) opt)\<^sup>*"
  then have "(entry root, f) \<in> (live_rel tree (default_features root))\<^sup>*"
    using rtrancl_mono[OF build_rel_live] by blast
  with assms(4,5) have "live_features tree (crate_roots k) f \<noteq> {}" by (auto simp: live_features_def)
  moreover from feature_analysis_splits_the_trees[OF assms(1), of k] assms(2)
  have dom: "dom (gated_files a) = {f \<in> declared_files tree (crate_roots k). live_features tree (crate_roots k) f = {}}"
    and out: "{f. features_of a f = Some CompiledOut} = dom (gated_files a)" by auto
  have "f \<in> {f. features_of a f = Some CompiledOut}" using assms(3) by simp
  then have "live_features tree (crate_roots k) f = {}" unfolding out dom by simp
  ultimately show False by simp
qed

definition plain_decl :: "string \<Rightarrow> cfg_predicate list \<Rightarrow> mod_decl" where
  "plain_decl n cfg = \<lparr>decl_name = n, path_attr = None, decl_cfg = Some cfg, cfg_text = [], alt_paths = []\<rparr>"

definition sample_tree :: module_tree where
  "sample_tree =
     \<lparr>read_source = (\<lambda>p. if p = [''src'', ''lib.rs''] then Some ''mod extra; mod plain;'' else if p = [''src'', ''extra.rs''] then Some ''mod deep;'' else Some []),
      mod_decls = (\<lambda>s. if s = ''mod deep;'' then [plain_decl ''deep'' []]
                       else [plain_decl ''extra'' [Feature ''extra''], plain_decl ''plain'' []]),
      indexed = {[''src'', ''lib.rs''], [''src'', ''extra.rs''], [''src'', ''plain.rs''], [''src'', ''extra'', ''deep.rs'']},
      crate_entries = {[''src'', ''lib.rs'']}\<rparr>"

definition sample_targets :: known_targets where
  "sample_targets =
     \<lparr>target_dirs = {[''src'']}, target_files = {[''src'', ''lib.rs'']},
      crate_roots = [\<lparr>entry = [''src'', ''lib.rs''], default_features = {''default''}, root_kind = ProductionTarget, lib_name = None\<rparr>],
      crate_names = {}, module_files = {}\<rparr>"

lemma sample_walk:
  "case walk_all sample_tree (crate_roots sample_targets) ({}, []) of None \<Rightarrow> False | Some (live, seeds) \<Rightarrow>
     (case propagate_gated sample_tree seeds live of None \<Rightarrow> False | Some g \<Rightarrow>
        g [''src'', ''extra'', ''deep.rs''] \<noteq> None \<and> g [''src'', ''plain.rs''] = None \<and>
        known_features live [''src'', ''plain.rs''] = Some (Enabled {''default''}))"
  by code_simp

lemma sample_analysis:
  obtains a where "analyse_features sample_tree (KnownTargets sample_targets) = Some a"
    "features_of a [''src'', ''extra'', ''deep.rs''] = Some CompiledOut"
    "features_of a [''src'', ''plain.rs''] = Some (Enabled {''default''})"
  using sample_walk by (auto simp: analyse_features_def split: option.splits prod.splits)

lemma sample_indexed: "finite (indexed sample_tree)" "[''src'', ''lib.rs''] \<in> indexed sample_tree"
  by (simp_all add: sample_tree_def)

lemma feature_analysis_splits_the_trees_witness:
  "[''src'', ''extra'', ''deep.rs''] \<in> declared_files sample_tree (crate_roots sample_targets) \<and>
   live_features sample_tree (crate_roots sample_targets) [''src'', ''plain.rs''] = {{''default''}}"
proof -
  obtain a where a: "analyse_features sample_tree (KnownTargets sample_targets) = Some a"
    and "features_of a [''src'', ''extra'', ''deep.rs''] = Some CompiledOut"
    and "features_of a [''src'', ''plain.rs''] = Some (Enabled {''default''})" using sample_analysis .
  then have out: "[''src'', ''extra'', ''deep.rs''] \<in> {f. features_of a f = Some CompiledOut}"
    and on: "([''src'', ''plain.rs''], {''default''}) \<in> {(f, F). features_of a f = Some (Enabled F)}" by simp_all
  from feature_analysis_splits_the_trees[OF sample_indexed(1), of sample_targets] a
  have d: "{f. features_of a f = Some CompiledOut} = dom (gated_files a)"
      "dom (gated_files a) = {f \<in> declared_files sample_tree (crate_roots sample_targets). live_features sample_tree (crate_roots sample_targets) f = {}}"
      "{(f, F). features_of a f = Some (Enabled F)} = {(f, F). live_features sample_tree (crate_roots sample_targets) f = {F}}"
    by auto
  from out on show ?thesis unfolding d by blast
qed

lemma compiled_out_is_in_no_default_build_witness:
  "([''src'', ''lib.rs''], [''src'', ''extra'', ''deep.rs'']) \<notin> (build_rel sample_tree {''default''} (\<lambda>_ _. True))\<^sup>*"
proof -
  obtain a where a: "analyse_features sample_tree (KnownTargets sample_targets) = Some a"
    and out: "features_of a [''src'', ''extra'', ''deep.rs''] = Some CompiledOut" using sample_analysis .
  have root: "hd (crate_roots sample_targets) \<in> set (crate_roots sample_targets)" by (simp add: sample_targets_def)
  have "entry (hd (crate_roots sample_targets)) = [''src'', ''lib.rs'']"
    "default_features (hd (crate_roots sample_targets)) = {''default''}" by (simp_all add: sample_targets_def)
  with compiled_out_is_in_no_default_build[OF sample_indexed(1) a out root, of "\<lambda>_ _. True"] sample_indexed(2)
  show ?thesis by simp
qed

section \<open>Owners and contexts\<close>

lemma owned_walk:
  assumes fin: "finite (indexed tree)" and e: "e \<in> indexed tree"
    and closed: "\<And>a. (a, e) \<in> owned \<Longrightarrow> (\<lambda>b. (b, e)) ` (declares tree `` {a}) \<subseteq> owned"
  shows "worklist (visit_owned tree e) owned [e] = Some (owned \<union> (\<lambda>b. (b, e)) ` ((declares tree)\<^sup>* `` {e}))"
proof -
  have rel: "{(a, b). b \<in> set (map snd (children tree a))} = declares tree" by (auto simp: declares_def)
  have "worklist (visit_owned tree e) owned [e] =
      Some (owned \<union> (\<lambda>b. (b, e)) ` ({(a, b). b \<in> set (map snd (children tree a))}\<^sup>* `` set [e]))"
  proof (rule worklist_reaches[where U = "indexed tree"])
    show "visit_owned tree e s x = (if (x, e) \<in> s then (s, []) else (insert (x, e) s, map snd (children tree x)))" for s x
      by (simp add: visit_owned_def)
    show "(\<lambda>b. (b, e)) ` set (map snd (children tree x)) \<subseteq> owned" if "(x, e) \<in> owned" for x
      using closed[OF that] by (simp add: declares_def Image_def)
  qed (use fin e declared_children_indexed in \<open>auto simp: inj_def\<close>)
  then show ?thesis by (simp only: rel list.set)
qed

definition owned_by :: "module_tree \<Rightarrow> crate_root list \<Rightarrow> (path \<times> path) set" where
  "owned_by tree roots = {(f, e). e \<in> entry ` set roots \<and> e \<in> indexed tree \<and> (e, f) \<in> (declares tree)\<^sup>*}"

lemma owned_by_Cons:
  "owned_by tree (root # roots) =
     (if entry root \<in> indexed tree then (\<lambda>b. (b, entry root)) ` ((declares tree)\<^sup>* `` {entry root}) else {}) \<union> owned_by tree roots"
  by (auto simp: owned_by_def)

lemma walk_owners_result:
  assumes fin: "finite (indexed tree)"
  shows "walk_owners tree roots (owned_by tree before) = Some (owned_by tree before \<union> owned_by tree roots)"
proof (induction roots arbitrary: before)
  case (Cons root roots)
  show ?case
  proof (cases "entry root \<in> indexed tree")
    case True
    have w: "worklist (visit_owned tree (entry root)) (owned_by tree before) [entry root] = Some (owned_by tree (root # before))"
      by (subst owned_walk[OF fin True]) (use True in \<open>auto simp: owned_by_def intro: rtrancl_into_rtrancl\<close>)
    have "owned_by tree (root # before) \<union> owned_by tree roots = owned_by tree before \<union> owned_by tree (root # roots)"
      unfolding owned_by_Cons[of tree root] by blast
    then show ?thesis using True by (simp add: w Cons.IH[of "root # before"] del: worklist_simps)
  qed (simp add: Cons.IH owned_by_Cons)
qed (simp add: owned_by_def)

text \<open>A file is owned by the targets whose entry file the declarations lead to it from.\<close>

lemma owners_result:
  "finite (indexed tree) \<Longrightarrow> owners tree (KnownTargets k) = Some (owned_by tree (crate_roots k))"
  using walk_owners_result[of tree "crate_roots k" "[]"] by (simp add: owners_def owned_by_def)

definition class_rel :: "module_tree \<Rightarrow> ((path \<times> target_class) \<times> (path \<times> target_class)) set" where
  "class_rel tree = {((a, c), (b, d)). \<exists>decl. (decl, b) \<in> set (children tree a) \<and> d = class_below c decl}"

definition class_starts :: "module_tree \<Rightarrow> crate_root list \<Rightarrow> (path \<times> target_class) set" where
  "class_starts tree roots = (\<lambda>root. (entry root, class_of (root_kind root))) ` {root \<in> set roots. entry root \<in> indexed tree}"

lemma finite_classes: "finite (UNIV :: target_class set)"
proof -
  have "(UNIV :: target_class set) = {ProductionClass, TestClass, BenchClass, ExampleClass, ProofClass}"
    by (auto intro: target_class.exhaust)
  then show ?thesis by (metis finite.emptyI finite_insert)
qed

lemma class_walk:
  assumes fin: "finite (indexed tree)" and e: "fst start \<in> indexed tree"
    and closed: "class_rel tree `` reached \<subseteq> reached"
  shows "worklist (visit_class tree) reached [start] = Some (reached \<union> (class_rel tree)\<^sup>* `` {start})"
proof -
  let ?succ = "\<lambda>i. map (\<lambda>(decl, target). (target, class_below (snd i) decl)) (children tree (fst i))"
  have rel: "{(a, b). b \<in> set (?succ a)} = class_rel tree" by (force simp: class_rel_def)
  have succ: "set (?succ i) = class_rel tree `` {i}" for i by (force simp: class_rel_def)
  have "worklist (visit_class tree) reached [start] = Some (reached \<union> id ` ({(a, b). b \<in> set (?succ a)}\<^sup>* `` set [start]))"
  proof (rule worklist_reaches[where U = "indexed tree \<times> UNIV"])
    show "visit_class tree s x = (if id x \<in> s then (s, []) else (insert (id x) s, ?succ x))" for s x
      by (simp add: visit_class_def)
    show "id ` set (?succ x) \<subseteq> reached" if "id x \<in> reached" for x
    proof -
      have "set (?succ x) \<subseteq> reached" unfolding succ using closed that by auto
      then show ?thesis by simp
    qed
    show "set (?succ x) \<subseteq> indexed tree \<times> UNIV" for x by (auto dest: children_indexed)
    show "set [start] \<subseteq> indexed tree \<times> UNIV" using e by (cases start) simp
  qed (use fin finite_classes in auto)
  then show ?thesis by (simp only: rel list.set image_id id_apply)
qed

lemma walk_classes_result:
  assumes fin: "finite (indexed tree)"
  shows "walk_classes tree roots ((class_rel tree)\<^sup>* `` class_starts tree before) =
    Some ((class_rel tree)\<^sup>* `` (class_starts tree before \<union> class_starts tree roots))"
proof (induction roots arbitrary: before)
  case (Cons root roots)
  show ?case
  proof (cases "entry root \<in> indexed tree")
    case True
    have w: "worklist (visit_class tree) ((class_rel tree)\<^sup>* `` class_starts tree before) [(entry root, class_of (root_kind root))] =
        Some ((class_rel tree)\<^sup>* `` class_starts tree (root # before))"
      by (subst class_walk[OF fin]) (use True in \<open>auto simp: class_starts_def intro: rtrancl_into_rtrancl\<close>)
    have "class_starts tree (root # before) \<union> class_starts tree roots = class_starts tree before \<union> class_starts tree (root # roots)"
      by (auto simp: class_starts_def)
    then show ?thesis using True by (simp add: w Cons.IH del: worklist_simps)
  next
    case False
    then have "class_starts tree (root # roots) = class_starts tree roots" by (auto simp: class_starts_def)
    with False show ?thesis by (simp add: Cons.IH)
  qed
qed (simp add: class_starts_def)

lemma contexts_result:
  assumes "finite (indexed tree)"
  shows "analyse_contexts tree (KnownTargets k) =
    Some (\<lambda>f. map_option class_name (decide_class {c. (f, c) \<in> (class_rel tree)\<^sup>* `` class_starts tree (crate_roots k)}))"
proof -
  have "walk_classes tree (crate_roots k) {} = Some ((class_rel tree)\<^sup>* `` class_starts tree (crate_roots k))"
    using walk_classes_result[OF assms, of "crate_roots k" "[]"] by (simp add: class_starts_def)
  moreover have "snd ` Set.filter (\<lambda>p. fst p = f) A = {c. (f, c) \<in> A}" for f and A :: "(path \<times> target_class) set" by force
  ultimately show ?thesis by (simp add: analyse_contexts_def)
qed


text \<open>What a production target reaches through declarations that need neither \<open>test\<close> nor \<open>kani\<close> is production code.\<close>

lemma production_path:
  "((a, c), (b, ProductionClass)) \<in> (class_rel tree)\<^sup>* \<longleftrightarrow>
     c = ProductionClass \<and>
     (a, b) \<in> {(a, b). \<exists>decl. (decl, b) \<in> set (children tree a) \<and> \<not> decl_requires decl ''test'' \<and> \<not> decl_requires decl ''kani''}\<^sup>*"
    (is "?classes \<longleftrightarrow> _ \<and> (a, b) \<in> ?plain\<^sup>*")
proof
  have step: "((x, d), (y, ProductionClass)) \<in> class_rel tree \<longleftrightarrow> d = ProductionClass \<and> (x, y) \<in> ?plain" for x d y
    by (auto simp: class_rel_def class_below_def)
  show "c = ProductionClass \<and> (a, b) \<in> ?plain\<^sup>*" if ?classes
    using that
  proof (induction "(a, c)" arbitrary: a c rule: converse_rtrancl_induct)
    case (step i)
    obtain x d where i: "i = (x, d)" by (cases i)
    with step.hyps(3) have "d = ProductionClass" "(x, b) \<in> ?plain\<^sup>*" by simp_all
    with step.hyps(1) i \<open>\<And>x d y. (((x, d), (y, ProductionClass)) \<in> class_rel tree) = (d = ProductionClass \<and> (x, y) \<in> ?plain)\<close>
    show ?case by (metis (no_types, lifting) converse_rtrancl_into_rtrancl)
  qed simp
  show ?classes if "c = ProductionClass \<and> (a, b) \<in> ?plain\<^sup>*"
  proof -
    from that have "(a, b) \<in> ?plain\<^sup>*" ..
    then have "((a, ProductionClass), (b, ProductionClass)) \<in> (class_rel tree)\<^sup>*"
      by (induction rule: rtrancl_induct) (use step in \<open>blast intro: rtrancl_into_rtrancl\<close>)+
    with that show ?thesis by simp
  qed
qed

section \<open>The walk of the module paths\<close>

lemma visit_way_cases:
  assumes "visit_way tree F st w = (st', pushed)"
  obtains "(w_file w, w_module_path w) \<in> snd st" "st' = st" "pushed = []"
  | "(w_file w, w_module_path w) \<notin> snd st" "snd st' = insert (w_file w, w_module_path w) (snd st)"
      "pushed = map (way_child w) (children tree (w_file w))"
  using assms by (cases st) (auto simp: visit_way_def Let_def split: if_splits)

lemma way_child_simps [simp]:
  "w_file (way_child w (decl, t)) = t" "w_module_path (way_child w (decl, t)) = w_module_path w @ ''::'' @ decl_name decl"
  by (simp_all add: way_child_def)

text \<open>The path of a module that declares itself again and again.\<close>

definition nested_path :: "string \<Rightarrow> string \<Rightarrow> nat \<Rightarrow> string" where
  "nested_path base name k = base @ concat (replicate k (''::'' @ name))"

lemma nested_path_Suc: "nested_path base name (Suc k) = nested_path base name k @ ''::'' @ name"
proof -
  have "concat (replicate (Suc k) xs) = concat (replicate k xs) @ xs" for xs :: string
    by (simp only: replicate_Suc replicate_append_same[symmetric] concat_append concat.simps append_Nil2)
  then show ?thesis by (simp add: nested_path_def)
qed

lemma inj_nested_path: "inj (nested_path base name)"
proof (rule injI)
  fix j k assume "nested_path base name j = nested_path base name k"
  then have "length (nested_path base name j) = length (nested_path base name k)" by simp
  moreover have "length (nested_path base name i) = length base + i * (length name + 2)" for i
    by (simp add: nested_path_def length_concat sum_list_replicate)
  ultimately show "j = k" by (simp del: mult_Suc_right add_2_eq_Suc')
qed

lemma way_walk_diverges:
  assumes decl: "(decl, w_file w) \<in> set (children tree (w_file w))" and w: "w \<in> set pending" and "finite (snd st)"
    and new: "(w_file w) \<notin> fst ` snd st"
  shows "worklist (visit_way tree F) st pending = None"
proof -
  let ?e = "w_file w" and ?p = "nested_path (w_module_path w) (decl_name decl)"
  let ?keys = "\<lambda>ws. (\<lambda>w. (w_file w, w_module_path w)) ` set ws"
  define R where "R seen W \<longleftrightarrow> finite seen \<and> (?e, ?p 0) \<in> W \<and> (\<forall>k. (?e, ?p k) \<in> seen \<longrightarrow> (?e, ?p (Suc k)) \<in> W)"
    for seen W :: "(path \<times> string) set"
  define Q where "Q st pending \<longleftrightarrow> R (snd st) (snd st \<union> ?keys pending)"
    for st :: "reaches \<times> (path \<times> string) set" and pending :: "way list"
  show ?thesis
  proof (rule worklist_diverges[where Q = Q])
    show "Q st pending" using assms by (force simp: Q_def R_def nested_path_def)
  next
    fix st :: "reaches \<times> (path \<times> string) set"
    show "\<not> Q st []"
    proof
      assume Q: "Q st []"
      have "(?e, ?p k) \<in> snd st" for k by (induction k) (use Q in \<open>auto simp: Q_def R_def\<close>)
      then have "(\<lambda>k. (?e, ?p k)) ` UNIV \<subseteq> snd st" by blast
      moreover have "inj (\<lambda>k. (?e, ?p k))" using inj_nested_path by (auto simp: inj_def)
      ultimately have "finite (UNIV :: nat set)" using Q finite_imageD finite_subset unfolding Q_def R_def by metis
      then show False by simp
    qed
  next
    fix st v rest st' pushed
    assume Q: "Q st (v # rest)" and "visit_way tree F st v = (st', pushed)"
    from this(2) show "Q st' (rev pushed @ rest)"
    proof (cases rule: visit_way_cases)
      case 1
      then have "snd st \<union> ?keys (v # rest) = snd st' \<union> ?keys (rev pushed @ rest)" by auto
      with Q 1 show ?thesis by (simp only: Q_def)
    next
      case 2
      have sub: "snd st \<union> ?keys (v # rest) \<subseteq> snd st' \<union> ?keys (rev pushed @ rest)" using 2 by auto
      have fin: "finite (snd st)" and p0: "(?e, ?p 0) \<in> snd st \<union> ?keys (v # rest)"
        and next_in: "\<And>k. (?e, ?p k) \<in> snd st \<Longrightarrow> (?e, ?p (Suc k)) \<in> snd st \<union> ?keys (v # rest)"
        using Q unfolding Q_def R_def by blast+
      have "(?e, ?p (Suc k)) \<in> snd st' \<union> ?keys (rev pushed @ rest)" if "(?e, ?p k) \<in> snd st'" for k
      proof (cases "(?e, ?p k) \<in> snd st")
        case True
        from subsetD[OF sub next_in[OF this]] show ?thesis .
      next
        case False
        then have v: "w_file v = ?e" "w_module_path v = ?p k" using that 2 by auto
        have "way_child v (decl, ?e) \<in> set pushed" using decl 2(3) v by auto
        then have "(?e, ?p (Suc k)) \<in> ?keys pushed" by (rule rev_image_eqI) (simp add: v nested_path_Suc)
        then show ?thesis by auto
      qed
      moreover have "finite (snd st')" "(?e, ?p 0) \<in> snd st' \<union> ?keys (rev pushed @ rest)" 
        using fin 2(2) subsetD[OF sub p0] by simp_all
      ultimately show ?thesis unfolding Q_def R_def by blast
    qed
  qed
qed


lemma acyclic_ways_return:
  assumes fin: "finite (indexed tree)" and acyclic: "acyclic (declares tree \<inter> indexed tree \<times> indexed tree)"
    and "w_file w \<in> indexed tree"
  shows "\<exists>t. worklist (visit_way tree F) st [w] = Some t"
proof -
  let ?r = "(declares tree \<inter> indexed tree \<times> indexed tree)\<inverse>"
  have "finite (declares tree \<inter> indexed tree \<times> indexed tree)" using fin by simp
  then have "wf ?r" using acyclic by (rule finite_acyclic_wf_converse)
  then have wf: "wf (inv_image ?r w_file)" by (rule wf_inv_image)
  show ?thesis
  proof (rule worklist_returns_wf[OF wf, where U = "{w. w_file w \<in> indexed tree}"])
    fix st v st' pushed
    assume v: "v \<in> {w. w_file w \<in> indexed tree}" and "visit_way tree F st v = (st', pushed)"
    from this(2) have sub: "set pushed \<subseteq> way_child v ` set (children tree (w_file v))"
      by (cases rule: visit_way_cases) auto
    show "\<forall>y \<in> set pushed. y \<in> {w. w_file w \<in> indexed tree} \<and> (y, v) \<in> inv_image ?r w_file"
    proof
      fix y assume "y \<in> set pushed"
      then obtain decl t where y: "y = way_child v (decl, t)" and c: "(decl, t) \<in> set (children tree (w_file v))"
        using sub by force
      from c have "(w_file v, t) \<in> declares tree" by (force simp: declares_def)
      with v children_indexed[OF c] show "y \<in> {w. w_file w \<in> indexed tree} \<and> (y, v) \<in> inv_image ?r w_file" by (simp add: y)
    qed
  qed (use assms(3) in auto)
qed

lemma walk_ways_returns:
  assumes "finite (indexed tree)" and "acyclic (declares tree \<inter> indexed tree \<times> indexed tree)"
  shows "\<exists>t. walk_ways tree roots reaches = Some t"
proof (induction roots arbitrary: reaches)
  case (Cons root roots)
  let ?w = "\<lparr>w_file = entry root, w_module_path = id_of (entry root), w_gates = Some [], w_placed = False\<rparr>"
  show ?case
  proof (cases "entry root \<in> indexed tree")
    case True
    have "\<exists>st. worklist (visit_way tree (default_features root)) (reaches, {}) [?w] = Some st"
      by (rule acyclic_ways_return[OF assms]) (simp add: True)
    then obtain st where "worklist (visit_way tree (default_features root)) (reaches, {}) [?w] = Some st" ..
    with True Cons show ?thesis by (cases st) (simp del: worklist_simps)
  qed (simp add: Cons)
qed simp

lemma module_path_walk:
  assumes "finite (indexed tree)"
  shows "acyclic (declares tree \<inter> indexed tree \<times> indexed tree) \<Longrightarrow>
      \<exists>facts. analyse_scopes tree (KnownTargets k) feats = Some facts"
    and "root = hd (crate_roots k) \<Longrightarrow> crate_roots k \<noteq> [] \<Longrightarrow> entry root \<in> indexed tree \<Longrightarrow>
      (entry root, entry root) \<in> declares tree \<Longrightarrow> analyse_scopes tree (KnownTargets k) feats = None"
proof -
  show "\<exists>facts. analyse_scopes tree (KnownTargets k) feats = Some facts"
    if "acyclic (declares tree \<inter> indexed tree \<times> indexed tree)"
    using walk_ways_returns[OF assms that, of "crate_roots k" "{}"] by (auto simp: analyse_scopes_def)
  show "analyse_scopes tree (KnownTargets k) feats = None"
    if "root = hd (crate_roots k)" "crate_roots k \<noteq> []" "entry root \<in> indexed tree" "(entry root, entry root) \<in> declares tree"
  proof -
    let ?w = "\<lparr>w_file = entry root, w_module_path = id_of (entry root), w_gates = Some [], w_placed = False\<rparr>"
    note prems = that
    obtain roots where roots: "crate_roots k = root # roots" using prems(1,2) by (cases "crate_roots k") auto
    from prems(4) obtain decl where "(decl, w_file ?w) \<in> set (children tree (w_file ?w))" by (auto simp: declares_def)
    then have "worklist (visit_way tree (default_features root)) ({}, {}) [?w] = None"
      by (rule way_walk_diverges) auto
    with prems(3) show ?thesis by (simp add: analyse_scopes_def roots del: worklist_simps)
  qed
qed

text \<open>
  C6: The walk of the module paths.  It returns on every finite set of indexed files in which no file declares
  itself, directly or through others.  It does not return when the entry file of a target resolves one of its
  own declarations to itself, as \<open>src/main.rs\<close> does with \<open>mod main;\<close>: each round is a longer module path, and
  only equal module paths are skipped.
\<close>

theorem module_path_walk_needs_acyclic_modules:
  assumes "finite (indexed tree)"
  shows "(acyclic (declares tree \<inter> indexed tree \<times> indexed tree) \<longrightarrow>
      (\<exists>facts. analyse_scopes tree (KnownTargets k) feats = Some facts)) \<and>
    (crate_roots k \<noteq> [] \<and> entry (hd (crate_roots k)) \<in> indexed tree \<and>
      (entry (hd (crate_roots k)), entry (hd (crate_roots k))) \<in> declares tree \<longrightarrow>
      analyse_scopes tree (KnownTargets k) feats = None)"
  using module_path_walk[OF assms, where k = k and feats = feats] by blast

definition looping_tree :: module_tree where
  "looping_tree =
     \<lparr>read_source = (\<lambda>p. Some ''mod main;''), mod_decls = (\<lambda>s. [plain_decl ''main'' []]),
      indexed = {[''src'', ''main.rs'']}, crate_entries = {[''src'', ''main.rs'']}\<rparr>"

definition looping_targets :: known_targets where
  "looping_targets =
     \<lparr>target_dirs = {}, target_files = {},
      crate_roots = [\<lparr>entry = [''src'', ''main.rs''], default_features = {}, root_kind = ProductionTarget, lib_name = None\<rparr>],
      crate_names = {}, module_files = {}\<rparr>"

lemma module_path_walk_needs_acyclic_modules_witness:
  "analyse_scopes looping_tree (KnownTargets looping_targets) Map.empty = None"
proof -
  have "finite (indexed looping_tree)" by (simp add: looping_tree_def)
  note walk = module_path_walk_needs_acyclic_modules[OF this, of looping_targets Map.empty]
  have "crate_roots looping_targets \<noteq> []" by (simp add: looping_targets_def)
  moreover have "entry (hd (crate_roots looping_targets)) \<in> indexed looping_tree" by (simp add: looping_targets_def looping_tree_def)
  moreover have "(map snd (children looping_tree [''src'', ''main.rs''])) = [[''src'', ''main.rs'']]" by code_simp
  then have "[''src'', ''main.rs''] \<in> snd ` set (children looping_tree [''src'', ''main.rs''])"
    by (metis list.set_intros(1) set_map)
  then have "(entry (hd (crate_roots looping_targets)), entry (hd (crate_roots looping_targets))) \<in> declares looping_tree"
    by (simp add: declares_def looping_targets_def)
  ultimately show ?thesis using walk by blast
qed

end
