(* ===== verification/Index_Coverage.thy ===== *)
theory Index_Coverage
  imports Change_Plan Module_Walks
begin

text \<open>
  What the index could not cover: \<open>src/indexer/coverage.rs\<close> (the records and the collector of a pass),
  \<open>cargo_attribution.rs\<close> (the buckets that derive from the Cargo targets), \<open>incremental/coverage.rs\<close> (what an
  incremental pass keeps of the previous report) and the recorders of \<open>mod.rs\<close> and \<open>incremental/mod.rs\<close>.
\<close>

section \<open>Cargo attribution\<close>

datatype cargo_status = KnownStatus | UnknownStatus string | NotApplicable string

definition status_name :: "cargo_status \<Rightarrow> string" where
  "status_name st = (case st of KnownStatus \<Rightarrow> ''known'' | UnknownStatus _ \<Rightarrow> ''unknown'' | NotApplicable _ \<Rightarrow> ''not_applicable'')"

definition status_detail :: "cargo_status \<Rightarrow> string option" where
  "status_detail st = (case st of KnownStatus \<Rightarrow> None | UnknownStatus d \<Rightarrow> Some d | NotApplicable d \<Rightarrow> Some d)"

record cargo_attributions =
  at_status :: cargo_status
  at_outside :: "string list"
  at_gated :: "(string \<times> string) list"
  at_crate_names :: "string set"
  at_features :: "path \<rightharpoonup> file_features"
  at_contexts :: "path \<rightharpoonup> string"
  at_targets :: "(string \<times> string option) list"
  at_owners :: "(path \<times> path) set"
  at_file_cfg :: "path \<rightharpoonup> file_cfg"

definition empty_attribution :: "cargo_status \<Rightarrow> cargo_attributions" where
  "empty_attribution st =
     \<lparr>at_status = st, at_outside = [], at_gated = [], at_crate_names = {}, at_features = Map.empty,
      at_contexts = Map.empty, at_targets = [], at_owners = {}, at_file_cfg = Map.empty\<rparr>"

definition targets_by_entry :: "crate_root list \<Rightarrow> (string \<times> string option) list" where
  "targets_by_entry roots = fold (\<lambda>root. btree_insert (id_of (entry root)) (lib_name root)) roots []"

definition attributed :: "module_tree \<Rightarrow> path set \<Rightarrow> known_targets \<Rightarrow> cargo_attributions option" where
  "attributed tree rust_files k =
     Option.bind (analyse_features tree (KnownTargets k)) (\<lambda>analysis.
     Option.bind (analyse_scopes tree (KnownTargets k) (features_of analysis)) (\<lambda>scopes.
     Option.bind (analyse_contexts tree (KnownTargets k)) (\<lambda>contexts.
     Option.bind (owners tree (KnownTargets k)) (\<lambda>owned.
       Some \<lparr>at_status = KnownStatus,
             at_outside = map id_of (filter (is_outside_targets (KnownTargets k)) (sorted_list_of_set rust_files)),
             at_gated = map (\<lambda>f. (id_of f, the (gated_files analysis f)))
                          (filter (\<lambda>f. gated_files analysis f \<noteq> None) (sorted_list_of_set rust_files)),
             at_crate_names = crate_names k,
             at_features = features_of analysis,
             at_contexts = contexts,
             at_targets = targets_by_entry (crate_roots k),
             at_owners = owned,
             at_file_cfg = scopes\<rparr>))))"

text \<open>\<open>tmap\<close> is what \<open>cargo metadata\<close> gives, \<open>read\<close> and \<open>parse\<close> the sources and their declarations.\<close>

definition attribute ::
  "bool \<Rightarrow> target_map \<Rightarrow> (path \<Rightarrow> string option) \<Rightarrow> (string \<Rightarrow> mod_decl list) \<Rightarrow> path set \<Rightarrow> cargo_attributions option" where
  "attribute has_manifest tmap read parse rust_files =
     (if \<not> has_manifest then Some (empty_attribution (NotApplicable ''no Cargo.toml at the analyzed root''))
      else if rust_files = {} then Some (empty_attribution (NotApplicable ''no .rs file indexed''))
      else
        (case tmap of
           UnknownTargets detail \<Rightarrow> Some (empty_attribution (UnknownStatus detail))
         | KnownTargets k \<Rightarrow> attributed (new_tree read parse rust_files (crate_roots k)) rust_files k))"

section \<open>Reports\<close>

definition COVERAGE_SCHEMA_VERSION :: nat where
  "COVERAGE_SCHEMA_VERSION = 1"

datatype coverage_kind = ParsePartial | Skipped | Quarantined | OutsideBuildTargets | UnlinkedFile | FeatureGated

record file_coverage =
  cov_kind :: coverage_kind
  cov_detail :: string
  error_ranges :: "(nat \<times> nat) list"

type_synonym gap_map = "(string \<times> file_coverage) list"

record coverage_report =
  cr_version :: nat
  index_mode :: string
  files_indexed :: nat
  gaps :: gap_map
  pruned_dirs :: "(string \<times> string) list"
  cargo_attribution :: "cargo_status option"

record coverage_counts =
  parse_partial :: nat
  skipped :: nat
  quarantined :: nat
  outside_build_targets :: nat
  unlinked_file :: nat
  feature_gated :: nat

definition new_report :: "string \<Rightarrow> nat \<Rightarrow> coverage_report" where
  "new_report mode n =
     \<lparr>cr_version = COVERAGE_SCHEMA_VERSION, index_mode = mode, files_indexed = n, gaps = [], pruned_dirs = [], cargo_attribution = None\<rparr>"

fun count_kind :: "file_coverage \<Rightarrow> coverage_counts \<Rightarrow> coverage_counts" where
  "count_kind c k =
     (case cov_kind c of
        ParsePartial \<Rightarrow> k\<lparr>parse_partial := parse_partial k + 1\<rparr>
      | Skipped \<Rightarrow> k\<lparr>skipped := skipped k + 1\<rparr>
      | Quarantined \<Rightarrow> k\<lparr>quarantined := quarantined k + 1\<rparr>
      | OutsideBuildTargets \<Rightarrow> k\<lparr>outside_build_targets := outside_build_targets k + 1\<rparr>
      | UnlinkedFile \<Rightarrow> k\<lparr>unlinked_file := unlinked_file k + 1\<rparr>
      | FeatureGated \<Rightarrow> k\<lparr>feature_gated := feature_gated k + 1\<rparr>)"

definition counts :: "coverage_report \<Rightarrow> coverage_counts" where
  "counts report =
     fold count_kind (map snd (gaps report))
       \<lparr>parse_partial = 0, skipped = 0, quarantined = 0, outside_build_targets = 0, unlinked_file = 0, feature_gated = 0\<rparr>"

text \<open>\<open>entry(rel).or_insert(gap)\<close>: what is recorded for a file stays.\<close>

definition or_insert :: "string \<Rightarrow> 'a \<Rightarrow> (string \<times> 'a) list \<Rightarrow> (string \<times> 'a) list" where
  "or_insert k v es = (if map_of es k = None then btree_insert k v es else es)"

abbreviation plain_gap :: "coverage_kind \<Rightarrow> string \<Rightarrow> file_coverage" where
  "plain_gap kind detail \<equiv> \<lparr>cov_kind = kind, cov_detail = detail, error_ranges = []\<rparr>"

definition record_unlinked_file :: "string \<Rightarrow> string \<Rightarrow> coverage_report \<Rightarrow> coverage_report" where
  "record_unlinked_file r detail report = report\<lparr>gaps := or_insert r (plain_gap UnlinkedFile detail) (gaps report)\<rparr>"

definition load_coverage :: "(string \<Rightarrow> coverage_report option) \<Rightarrow> string option \<Rightarrow> coverage_report option" where
  "load_coverage from_slice content =
     Option.bind content (\<lambda>bytes. Option.bind (from_slice bytes) (\<lambda>report.
       if COVERAGE_SCHEMA_VERSION < cr_version report then None else Some report))"

section \<open>The collector of a pass\<close>

record coverage_collector =
  col_files :: gap_map
  col_indexed :: nat
  col_pruned :: "(string \<times> string) list"
  col_cargo :: "cargo_status option"

definition new_collector :: coverage_collector where
  "new_collector = \<lparr>col_files = [], col_indexed = 0, col_pruned = [], col_cargo = None\<rparr>"

definition note_indexed :: "coverage_collector \<Rightarrow> coverage_collector" where
  "note_indexed c = c\<lparr>col_indexed := col_indexed c + 1\<rparr>"

definition record_partial :: "string \<Rightarrow> (nat \<times> nat) list \<Rightarrow> coverage_collector \<Rightarrow> coverage_collector" where
  "record_partial r ranges c =
     c\<lparr>col_files := btree_insert r
        \<lparr>cov_kind = ParsePartial, cov_detail = decimal (length ranges) @ '' error range(s)'', error_ranges = ranges\<rparr> (col_files c)\<rparr>"

definition record_skipped :: "string \<Rightarrow> string \<Rightarrow> coverage_collector \<Rightarrow> coverage_collector" where
  "record_skipped r reason c = c\<lparr>col_files := btree_insert r (plain_gap Skipped reason) (col_files c)\<rparr>"

definition record_pruned :: "string \<Rightarrow> string \<Rightarrow> coverage_collector \<Rightarrow> coverage_collector" where
  "record_pruned r reason c = c\<lparr>col_pruned := btree_insert r reason (col_pruned c)\<rparr>"

definition record_quarantined :: "string \<Rightarrow> string \<Rightarrow> coverage_collector \<Rightarrow> coverage_collector" where
  "record_quarantined r reason c = c\<lparr>col_files := btree_insert r (plain_gap Quarantined reason) (col_files c)\<rparr>"

definition record_outside_targets :: "string \<Rightarrow> string \<Rightarrow> coverage_collector \<Rightarrow> coverage_collector" where
  "record_outside_targets r detail c = c\<lparr>col_files := or_insert r (plain_gap OutsideBuildTargets detail) (col_files c)\<rparr>"

definition record_feature_gated :: "string \<Rightarrow> string \<Rightarrow> coverage_collector \<Rightarrow> coverage_collector" where
  "record_feature_gated r detail c = c\<lparr>col_files := or_insert r (plain_gap FeatureGated detail) (col_files c)\<rparr>"

definition set_cargo_attribution :: "cargo_status \<Rightarrow> coverage_collector \<Rightarrow> coverage_collector" where
  "set_cargo_attribution st c = c\<lparr>col_cargo := Some st\<rparr>"

datatype parse_outcome =
    Indexed
  | Partial "(nat \<times> nat) list"
  | NotIndexed string
  | Isolated string

definition record_outcome :: "string \<Rightarrow> parse_outcome \<Rightarrow> coverage_collector \<Rightarrow> coverage_collector" where
  "record_outcome r outcome c =
     (case outcome of
        Indexed \<Rightarrow> note_indexed c
      | Partial ranges \<Rightarrow> record_partial r ranges (note_indexed c)
      | NotIndexed reason \<Rightarrow> record_skipped r reason c
      | Isolated reason \<Rightarrow> record_quarantined r reason c)"

definition record_reparse_outcome :: "string \<Rightarrow> parse_outcome \<Rightarrow> coverage_collector \<Rightarrow> coverage_collector" where
  "record_reparse_outcome r outcome c =
     (case outcome of
        Indexed \<Rightarrow> c
      | Partial ranges \<Rightarrow> record_partial r ranges c
      | NotIndexed reason \<Rightarrow> record_skipped r reason c
      | Isolated reason \<Rightarrow> record_quarantined r reason c)"

definition fold_iac_gaps ::
  "(string \<times> (nat \<times> nat) list) list \<Rightarrow> (string \<times> string) list \<Rightarrow> coverage_collector \<Rightarrow> coverage_collector" where
  "fold_iac_gaps partials skips c =
     fold (\<lambda>(r, reason). record_skipped r reason) skips (fold (\<lambda>(r, ranges). record_partial r ranges) partials c)"

text \<open>The gaps of the walk: what the options excluded, what the policy pruned, what could not be read.\<close>

definition record_walk_gaps ::
  "string list \<Rightarrow> (string \<times> string) list \<Rightarrow> string list \<Rightarrow> coverage_collector \<Rightarrow> coverage_collector" where
  "record_walk_gaps excluded pruned unreadable c =
     fold (\<lambda>r. record_skipped r ''unreadable'') unreadable
       (fold (\<lambda>(r, reason). record_pruned r reason) pruned
          (fold (\<lambda>r. record_skipped r ''user_excluded'') excluded c))"

section \<open>The report of an incremental pass\<close>

record carry_forward =
  prior_report :: "coverage_report option"
  reparsed_rels :: "string set"
  current_rels :: "string set"

definition recomputed_kind :: "coverage_kind \<Rightarrow> bool" where
  "recomputed_kind k \<longleftrightarrow> k = OutsideBuildTargets \<or> k = UnlinkedFile \<or> k = FeatureGated"

definition carried :: "carry_forward \<Rightarrow> string \<times> file_coverage \<Rightarrow> bool" where
  "carried carry e \<longleftrightarrow>
     fst e \<in> current_rels carry \<and> fst e \<notin> reparsed_rels carry \<and> \<not> recomputed_kind (cov_kind (snd e))"

definition insert_all :: "(string \<times> 'a) list \<Rightarrow> (string \<times> 'a) list \<Rightarrow> (string \<times> 'a) list" where
  "insert_all new es = fold (\<lambda>(k, v). btree_insert k v) new es"

definition merge_coverage :: "carry_forward \<Rightarrow> gap_map \<Rightarrow> string \<Rightarrow> nat \<Rightarrow> coverage_report" where
  "merge_coverage carry reparsed_gaps mode n =
     (let old = (case prior_report carry of None \<Rightarrow> [] | Some prior \<Rightarrow> filter (carried carry) (gaps prior));
          report = (new_report mode n)\<lparr>gaps := insert_all reparsed_gaps (insert_all old [])\<rparr>;
          k = counts report
      in report\<lparr>files_indexed := n - (skipped k + quarantined k)\<rparr>)"

definition OUTSIDE_TARGETS_DETAIL :: string where
  "OUTSIDE_TARGETS_DETAIL =
     ''not in any Cargo target (cargo metadata --no-deps); declarations are indexed, calls cannot be resolved by the language server''"

definition overlay_cargo_attributions :: "cargo_attributions \<Rightarrow> coverage_report \<Rightarrow> coverage_report" where
  "overlay_cargo_attributions found report =
     report\<lparr>gaps := fold (\<lambda>(r, detail). or_insert r (plain_gap FeatureGated detail)) (at_gated found)
                     (fold (\<lambda>r. or_insert r (plain_gap OutsideBuildTargets OUTSIDE_TARGETS_DETAIL)) (at_outside found) (gaps report)),
            cargo_attribution := Some (at_status found)\<rparr>"

definition reparsed_of :: "change_set \<Rightarrow> string set" where
  "reparsed_of cs = rel ` set (changed cs) \<union> rel ` set (added cs) \<union> (\<lambda>r. rel (new_file r)) ` set (renamed cs)"

definition incremental_coverage ::
  "coverage_report option \<Rightarrow> discovered list \<Rightarrow> change_set \<Rightarrow> gap_map \<Rightarrow> (string \<times> string) list \<Rightarrow> string \<Rightarrow>
   cargo_attributions \<Rightarrow> coverage_report" where
  "incremental_coverage prior current cs reparsed_gaps pruned mode found =
     overlay_cargo_attributions found
       ((merge_coverage \<lparr>prior_report = prior, reparsed_rels = reparsed_of cs, current_rels = rel ` set current\<rparr>
           reparsed_gaps mode (length current))\<lparr>pruned_dirs := pruned\<rparr>)"

section \<open>What a report holds\<close>

lemma btree_or_insert: "btree es \<Longrightarrow> btree (or_insert k v es)"
  by (simp add: or_insert_def btree_insert)

lemma or_insert_lookup: "btree es \<Longrightarrow> map_of (or_insert k v es) = [k \<mapsto> v] ++ map_of es"
  by (auto simp: or_insert_def btree_insert_lookup fun_eq_iff map_add_def split: option.splits)

lemma insert_all_result:
  "btree es \<Longrightarrow> btree (insert_all new es) \<and> map_of (insert_all new es) = map_of es ++ map_of (rev new)"
proof (induction new arbitrary: es)
  case (Cons e new)
  obtain k v where e: "e = (k, v)" by (cases e)
  from Cons.IH[OF btree_insert[OF Cons.prems, of k v]] btree_insert_lookup[OF Cons.prems, of k v]
  show ?case by (auto simp: e insert_all_def fun_eq_iff map_add_def split: option.splits)
qed (simp add: insert_all_def)

lemma map_of_rev_btree: "btree es \<Longrightarrow> map_of (rev es) = map_of es"
  by (rule map_of_inject_set[THEN iffD2]) (auto simp: rev_map[symmetric] dest: btree_distinct)

lemma btree_filter: "btree es \<Longrightarrow> btree (filter P es)"
  by (induction es) auto

lemma map_of_filter_btree:
  "btree es \<Longrightarrow> map_of (filter P es) k = (case map_of es k of None \<Rightarrow> None | Some v \<Rightarrow> if P (k, v) then Some v else None)"
proof (induction es)
  case (Cons e es)
  obtain l w where e: "e = (l, w)" by (cases e)
  have "map_of es l = None" using Cons.prems by (auto simp: e map_of_eq_None_iff)
  with Cons show ?case by (auto simp: e split: option.splits)
qed simp

definition prior_gaps :: "carry_forward \<Rightarrow> gap_map" where
  "prior_gaps carry = (case prior_report carry of None \<Rightarrow> [] | Some r \<Rightarrow> gaps r)"

lemma merged_gaps:
  "gaps (merge_coverage carry reparsed mode n) = insert_all reparsed (insert_all (filter (carried carry) (prior_gaps carry)) [])"
  by (cases "prior_report carry") (simp_all add: merge_coverage_def prior_gaps_def Let_def new_report_def)

lemma merged_coverage_lookup:
  assumes "btree (prior_gaps carry)" and "btree reparsed"
  shows "map_of (gaps (merge_coverage carry reparsed mode n)) r =
    (case map_of reparsed r of
       Some gap \<Rightarrow> Some gap
     | None \<Rightarrow>
         if r \<notin> current_rels carry \<or> r \<in> reparsed_rels carry then None
         else
           (case map_of (prior_gaps carry) r of
              None \<Rightarrow> None
            | Some gap \<Rightarrow> if recomputed_kind (cov_kind gap) then None else Some gap))"
proof -
  let ?old = "filter (carried carry) (prior_gaps carry)"
  have old: "btree ?old" using assms(1) by (rule btree_filter)
  have e: "btree ([] :: gap_map)" by simp
  have "map_of (gaps (merge_coverage carry reparsed mode n)) = map_of ?old ++ map_of reparsed"
    using insert_all_result[OF e, of ?old] insert_all_result[of "insert_all ?old []" reparsed]
    by (simp add: merged_gaps map_of_rev_btree[OF old] map_of_rev_btree[OF assms(2)])
  then show ?thesis
    using map_of_filter_btree[OF assms(1), of "carried carry" r]
    by (auto simp: map_add_def carried_def split: option.splits)
qed

text \<open>
  The coverage of an incremental pass.  For a file that was parsed again the report holds the fresh gap and
  nothing else, so that a file that has become clean loses its gap; for another file of the tree it holds the
  gap of the previous report, unless it is of a kind that is computed anew; for a path that is not in the tree
  it holds a fresh gap only.
\<close>

theorem merged_coverage_is_that_of_the_tree:
  assumes "btree (prior_gaps carry)" and "btree reparsed"
  shows "map_of (gaps (merge_coverage carry reparsed mode n)) r =
    (case map_of reparsed r of
       Some gap \<Rightarrow> Some gap
     | None \<Rightarrow>
         if r \<notin> current_rels carry \<or> r \<in> reparsed_rels carry then None
         else
           (case map_of (prior_gaps carry) r of
              None \<Rightarrow> None
            | Some gap \<Rightarrow> if recomputed_kind (cov_kind gap) then None else Some gap))"
  using assms by (rule merged_coverage_lookup)

lemma overlay_keeps_gaps:
  assumes "btree (gaps report)" and "map_of (gaps report) r = Some gap"
  shows "map_of (gaps (overlay_cargo_attributions found report)) r = Some gap"
proof -
  have keep: "btree (fold (\<lambda>x. or_insert (f x) (g x)) xs es) \<and> map_of (fold (\<lambda>x. or_insert (f x) (g x)) xs es) r = Some gap"
    if "btree es" "map_of es r = Some gap" for f :: "'c \<Rightarrow> string" and g :: "'c \<Rightarrow> file_coverage" and xs es
    using that by (induction xs arbitrary: es) (simp_all add: btree_or_insert or_insert_lookup map_add_def)
  let ?mid = "fold (\<lambda>r. or_insert r (plain_gap OutsideBuildTargets OUTSIDE_TARGETS_DETAIL)) (at_outside found) (gaps report)"
  have "btree ?mid \<and> map_of ?mid r = Some gap" using keep[OF assms, of "\<lambda>r. r"] by simp
  then show ?thesis
    using keep[of ?mid fst "\<lambda>x. plain_gap FeatureGated (snd x)" "at_gated found"]
    by (simp add: overlay_cargo_attributions_def case_prod_unfold)
qed

text \<open>The buckets that derive from Cargo are empty unless its targets are known.\<close>

lemma buckets_only_when_known:
  "attribute has_manifest tmap read parse rust_files = Some a \<Longrightarrow> at_status a \<noteq> KnownStatus \<Longrightarrow>
   at_outside a = [] \<and> at_gated a = [] \<and> at_crate_names a = {} \<and> at_features a = Map.empty \<and> at_owners a = {}"
  by (auto simp: attribute_def attributed_def empty_attribution_def bind_eq_Some_conv split: if_splits target_map.splits)


definition sample_carry :: carry_forward where
  "sample_carry =
     \<lparr>prior_report = Some ((new_report ''full'' 2)\<lparr>gaps := [(''a.rs'', plain_gap Skipped ''oversized''), (''b.rs'', plain_gap ParsePartial []),
          (''c.rs'', plain_gap UnlinkedFile []), (''gone.rs'', plain_gap Quarantined [])]\<rparr>),
      reparsed_rels = {''a.rs''}, current_rels = {''a.rs'', ''b.rs'', ''c.rs''}\<rparr>"

lemma merged_coverage_is_that_of_the_tree_witness:
  "map_of (gaps (merge_coverage sample_carry [] ''incremental'' 3)) ''a.rs'' = None \<and>
   map_of (gaps (merge_coverage sample_carry [] ''incremental'' 3)) ''b.rs'' = Some (plain_gap ParsePartial [])"
proof -
  have b: "btree (prior_gaps sample_carry)" by code_simp
  have e: "btree ([] :: gap_map)" by simp
  note lookup = merged_coverage_is_that_of_the_tree[OF b e, of "''incremental''" 3]
  have "map_of (prior_gaps sample_carry) ''b.rs'' = Some (plain_gap ParsePartial [])"
    "''a.rs'' \<in> reparsed_rels sample_carry" "''b.rs'' \<in> current_rels sample_carry" "''b.rs'' \<notin> reparsed_rels sample_carry"
    by (simp_all add: sample_carry_def prior_gaps_def)
  then show ?thesis by (simp add: lookup recomputed_kind_def)
qed

text \<open>
  The number of indexed files an incremental pass reports takes the skipped entries from the number of files,
  and the directories the options exclude are entries, though they are not among the files; a full pass counts
  the files it indexed.
\<close>

lemma excluded_directory_counts_as_a_file:
  "col_indexed (record_outcome ''a.rs'' Indexed (record_walk_gaps [''vendor''] [] [] new_collector)) = 1 \<and>
   files_indexed (merge_coverage \<lparr>prior_report = None, reparsed_rels = {''a.rs''}, current_rels = {''a.rs''}\<rparr>
      (col_files (record_reparse_outcome ''a.rs'' Indexed (record_walk_gaps [''vendor''] [] [] new_collector)))
      ''incremental'' 1) = 0"
  by code_simp

section \<open>The incremental and the full report\<close>

text \<open>A run of the recorder over the files of the tree, with the outcome each of them has.\<close>

definition outcome_gap :: "parse_outcome \<Rightarrow> file_coverage option" where
  "outcome_gap outcome =
     (case outcome of
        Indexed \<Rightarrow> None
      | Partial ranges \<Rightarrow>
          Some \<lparr>cov_kind = ParsePartial, cov_detail = decimal (length ranges) @ '' error range(s)'', error_ranges = ranges\<rparr>
      | NotIndexed reason \<Rightarrow> Some (plain_gap Skipped reason)
      | Isolated reason \<Rightarrow> Some (plain_gap Quarantined reason))"

definition full_gaps :: "(string \<Rightarrow> parse_outcome) \<Rightarrow> string list \<Rightarrow> gap_map" where
  "full_gaps outcome rels = col_files (fold (\<lambda>r. record_outcome r (outcome r)) rels new_collector)"

definition fresh_gaps :: "(string \<Rightarrow> parse_outcome) \<Rightarrow> string list \<Rightarrow> gap_map" where
  "fresh_gaps outcome rels = col_files (fold (\<lambda>r. record_reparse_outcome r (outcome r)) rels new_collector)"

lemma record_files:
  "col_files (record_outcome r outcome c) = (case outcome_gap outcome of None \<Rightarrow> col_files c | Some gap \<Rightarrow> btree_insert r gap (col_files c))"
  "col_files (record_reparse_outcome r outcome c) = (case outcome_gap outcome of None \<Rightarrow> col_files c | Some gap \<Rightarrow> btree_insert r gap (col_files c))"
  by (simp_all add: record_outcome_def record_reparse_outcome_def outcome_gap_def note_indexed_def record_partial_def
      record_skipped_def record_quarantined_def split: parse_outcome.splits)

lemma fold_record_files:
  assumes step: "\<And>r c. col_files (f r c) = (case outcome_gap (outcome r) of None \<Rightarrow> col_files c | Some gap \<Rightarrow> btree_insert r gap (col_files c))"
  shows "btree (col_files c) \<Longrightarrow> btree (col_files (fold f rels c)) \<and>
    map_of (col_files (fold f rels c)) r =
      (if r \<in> set rels \<and> outcome_gap (outcome r) \<noteq> None then outcome_gap (outcome r) else map_of (col_files c) r)"
proof (induction rels arbitrary: c)
  case (Cons q rels)
  have b: "btree (col_files (f q c))" using Cons.prems by (auto simp: step btree_insert split: option.splits)
  have "map_of (col_files (f q c)) r = (if r = q \<and> outcome_gap (outcome q) \<noteq> None then outcome_gap (outcome q) else map_of (col_files c) r)"
    using Cons.prems by (auto simp: step btree_insert_lookup split: option.splits)
  with Cons.IH[OF b] show ?case by auto
qed simp

lemma gaps_by_outcome:
  "btree (full_gaps outcome rels)"
  "map_of (full_gaps outcome rels) r = (if r \<in> set rels then outcome_gap (outcome r) else None)"
  "btree (fresh_gaps outcome rels)"
  "map_of (fresh_gaps outcome rels) r = (if r \<in> set rels then outcome_gap (outcome r) else None)"
  using fold_record_files[of "\<lambda>r. record_outcome r (outcome r)" outcome new_collector rels r, OF record_files(1)]
    fold_record_files[of "\<lambda>r. record_reparse_outcome r (outcome r)" outcome new_collector rels r, OF record_files(2)]
  by (auto simp: full_gaps_def fresh_gaps_def new_collector_def)




end
