(* ===== verification/Mod_Decls.thy ===== *)
theory Mod_Decls
  imports Cargo_Modules Lsp_Protocol
begin

text \<open>
  Reading the attributes of a \<open>mod name;\<close> declaration: \<open>src/indexer/rust_mod_decls.rs\<close>.  The syntax tree is a
  parameter: an attribute is given by the texts the grammar finds in it, as lists of code points.  The parsing of
  a condition is that of the cfg predicates.
\<close>

record attribute_text =
  attr_name :: "nat list option"
  attr_arguments :: "nat list option"
  attr_value :: "nat list option"
  item_text :: "nat list"

definition codes :: "string \<Rightarrow> nat list" where
  "codes s = map code s"

definition strip_codes :: "nat list \<Rightarrow> nat list \<Rightarrow> nat list option" where
  "strip_codes s p = (if take (length p) s = p then Some (drop (length p) s) else None)"

definition strip_codes_end :: "nat list \<Rightarrow> nat list \<Rightarrow> nat list option" where
  "strip_codes_end s p = map_option rev (strip_codes (rev s) (rev p))"

text \<open>The loop over the characters; \<open>part\<close> is the text since the last comma outside, the last character first.\<close>

fun split_parts :: "int \<Rightarrow> bool \<Rightarrow> bool \<Rightarrow> nat list \<Rightarrow> nat list \<Rightarrow> nat list list" where
  "split_parts depth in_str escaped part [] =
     (let last = trim_codes (rev part) in if last = [] then [] else [last])"
| "split_parts depth in_str escaped part (c # cs) =
     (if in_str then
        (if escaped then split_parts depth True False (c # part) cs
         else if c = 92 then split_parts depth True True (c # part) cs
         else split_parts depth (c \<noteq> 34) False (c # part) cs)
      else if c = 34 then split_parts depth True escaped (c # part) cs
      else if c = 40 \<or> c = 91 then split_parts (depth + 1) False escaped (c # part) cs
      else if c = 41 \<or> c = 93 then split_parts (depth - 1) False escaped (c # part) cs
      else if c = 44 \<and> depth = 0 then trim_codes (rev part) # split_parts depth False escaped [] cs
      else split_parts depth False escaped (c # part) cs)"

definition split_top_level :: "nat list \<Rightarrow> nat list list" where
  "split_top_level s = split_parts 0 False False [] s"

definition path_value :: "nat list \<Rightarrow> nat list option" where
  "path_value part =
     Option.bind (strip_codes (trim_codes part) (codes ''path'')) (\<lambda>r1.
     Option.bind (strip_codes (dropWhile is_whitespace r1) (codes ''='')) (\<lambda>r2.
     Option.bind (strip_codes (trim_codes r2) [34]) (\<lambda>r3. strip_codes_end r3 [34])))"

lemma length_trim_codes: "length (trim_codes s) \<le> length s"
  unfolding trim_codes_def by (metis length_dropWhile_le length_rev order_trans)

lemma ifE_mem: "p \<in> set (if b then xs else ys) \<Longrightarrow> (b \<Longrightarrow> p \<in> set xs \<Longrightarrow> P) \<Longrightarrow> (\<not> b \<Longrightarrow> p \<in> set ys \<Longrightarrow> P) \<Longrightarrow> P"
  by (cases b) simp_all

lemma split_parts_length: "p \<in> set (split_parts depth in_str escaped part s) \<Longrightarrow> length p \<le> length part + length s"
proof (induction s arbitrary: depth in_str escaped part)
  case Nil
  then show ?case using length_trim_codes[of "rev part"] by (simp add: Let_def split: if_splits)
next
  case (Cons c cs)
  have longer: "length p \<le> length part + length (c # cs)" if "p \<in> set (split_parts d i e (c # part) cs)" for d i e
    using Cons.IH[OF that] by simp
  have fresh: "length p \<le> length part + length (c # cs)" if "p \<in> set (trim_codes (rev part) # split_parts d i e [] cs)" for d i e
    using that Cons.IH[of d i e "[]"] length_trim_codes[of "rev part"] by auto
  show ?case using Cons.prems unfolding split_parts.simps
    by (elim ifE_mem) (erule longer fresh)+
qed

lemma strip_codes_length: "strip_codes s p = Some t \<Longrightarrow> length t = length s - length p \<and> length p \<le> length s"
  by (auto simp: strip_codes_def split: if_splits) (metis length_take min.cobounded1)

text \<open>The arguments without their parentheses; nothing when there are none.\<close>

definition inner_arguments :: "nat list \<Rightarrow> nat list" where
  "inner_arguments arguments =
     (case Option.bind (strip_codes (trim_codes arguments) [40]) (\<lambda>t. strip_codes_end t [41]) of
        None \<Rightarrow> [] | Some t \<Rightarrow> t)"

lemma inner_arguments_length: "length (inner_arguments s) \<le> length s"
  using length_trim_codes[of s]
  by (auto simp: inner_arguments_def strip_codes_end_def bind_eq_Some_conv split: option.splits dest!: strip_codes_length)

function cfg_attr_paths :: "(nat \<Rightarrow> bool) \<Rightarrow> nat list \<Rightarrow> bool \<Rightarrow> alt_path list" where
  "cfg_attr_paths ua arguments outer =
     (case split_top_level (inner_arguments arguments) of
        [] \<Rightarrow> []
      | first # rest \<Rightarrow>
          let pred = (if outer then parse_cfg_arguments ua ([40] @ first @ [41]) else None) in
          concat (map (\<lambda>part.
            case path_value part of
              Some p \<Rightarrow> [\<lparr>alt_pred = pred, alt_file = utf8 p\<rparr>]
            | None \<Rightarrow>
                (case strip_codes (trim_codes part) (codes ''cfg_attr'') of
                   None \<Rightarrow> []
                 | Some nested \<Rightarrow> cfg_attr_paths ua nested False)) rest))"
  by pat_completeness auto

lemma cfg_attr_nested_shorter:
  assumes "split_top_level (inner_arguments arguments) = first # rest" and "part \<in> set rest"
    and "strip_codes (trim_codes part) (codes ''cfg_attr'') = Some nested"
  shows "length nested < length arguments"
proof -
  have "length part \<le> length (inner_arguments arguments)"
    using split_parts_length[of part 0 False False "[]" "inner_arguments arguments"] assms(1,2)
    by (simp add: split_top_level_def)
  also have "\<dots> \<le> length arguments" by (rule inner_arguments_length)
  finally show ?thesis using length_trim_codes[of part] strip_codes_length[OF assms(3)] by (simp add: codes_def) linarith
qed

termination cfg_attr_paths
  by (relation "measure (\<lambda>(ua, s, outer). length s)") (auto intro: cfg_attr_nested_shorter)

declare cfg_attr_paths.simps [simp del]

text \<open>\<open>trim_matches('"')\<close>: every quote at either end.\<close>

definition trim_quotes :: "nat list \<Rightarrow> nat list" where
  "trim_quotes s = rev (dropWhile (\<lambda>c. c = 34) (rev (dropWhile (\<lambda>c. c = 34) s)))"

definition record_attribute :: "(nat \<Rightarrow> bool) \<Rightarrow> attribute_text \<Rightarrow> mod_decl \<Rightarrow> mod_decl" where
  "record_attribute ua a decl =
     (case attr_name a of
        None \<Rightarrow> decl
      | Some name \<Rightarrow>
          if name = codes ''cfg'' then
            (let parsed = Option.bind (attr_arguments a) (parse_cfg_arguments ua) in
             decl\<lparr>decl_cfg := (case (parsed, decl_cfg decl) of (Some p, Some all) \<Rightarrow> Some (all @ [p]) | _ \<Rightarrow> None),
                  cfg_text := cfg_text decl @ (if cfg_text decl = [] then [] else '' '') @ utf8 (item_text a)\<rparr>)
          else if name = codes ''path'' then decl\<lparr>path_attr := map_option (\<lambda>v. utf8 (trim_quotes v)) (attr_value a)\<rparr>
          else if name = codes ''cfg_attr'' then
            (case attr_arguments a of
               None \<Rightarrow> decl
             | Some args \<Rightarrow> decl\<lparr>alt_paths := alt_paths decl @ cfg_attr_paths ua args True\<rparr>)
          else decl)"

definition mod_decl_of :: "(nat \<Rightarrow> bool) \<Rightarrow> string \<Rightarrow> attribute_text list \<Rightarrow> mod_decl" where
  "mod_decl_of ua name attributes =
     fold (record_attribute ua) attributes
       \<lparr>decl_name = name, path_attr = None, decl_cfg = Some [], cfg_text = [], alt_paths = []\<rparr>"

text \<open>The items of a file, as the loop over the children of its root sees them.\<close>

datatype source_item =
    AttributeItem attribute_text
  | CommentItem
  | ModItem "string option" bool
  | OtherItem

fun scan_items :: "(nat \<Rightarrow> bool) \<Rightarrow> attribute_text list \<Rightarrow> source_item list \<Rightarrow> mod_decl list" where
  "scan_items ua attributes [] = []"
| "scan_items ua attributes (AttributeItem a # items) = scan_items ua (attributes @ [a]) items"
| "scan_items ua attributes (CommentItem # items) = scan_items ua attributes items"
| "scan_items ua attributes (ModItem name has_body # items) =
     (if has_body then []
      else (case name of None \<Rightarrow> [] | Some n \<Rightarrow> [mod_decl_of ua n attributes])) @ scan_items ua [] items"
| "scan_items ua attributes (OtherItem # items) = scan_items ua [] items"

section \<open>Splitting\<close>

text \<open>
  A rendered argument list is read back: parts without quotes and brackets, trimmed and not empty, come back as
  they are from their text with commas between.
\<close>

definition plain_part :: "nat list \<Rightarrow> bool" where
  "plain_part p \<longleftrightarrow> p \<noteq> [] \<and> trim_codes p = p \<and> list_all (\<lambda>c. c \<notin> {34, 40, 41, 44, 91, 93}) p"

fun comma_separated :: "nat list list \<Rightarrow> nat list" where
  "comma_separated [] = []"
| "comma_separated [p] = p"
| "comma_separated (p # q # ps) = p @ 44 # comma_separated (q # ps)"

lemma split_plain_prefix:
  "list_all (\<lambda>c. c \<notin> {34, 40, 41, 44, 91, 93}) p \<Longrightarrow>
   split_parts 0 False False part (p @ s) = split_parts 0 False False (rev p @ part) s"
  by (induction p arbitrary: part) auto

lemma split_top_level_reads_back: "list_all plain_part ps \<Longrightarrow> split_top_level (comma_separated ps) = ps"
proof (induction ps rule: comma_separated.induct)
  case (2 p)
  then show ?case using split_plain_prefix[of p "[]" "[]"] by (simp add: split_top_level_def plain_part_def)
next
  case (3 p q ps)
  then show ?case using split_plain_prefix[of p "[]" "44 # comma_separated (q # ps)"]
    by (simp add: split_top_level_def plain_part_def)
qed (simp add: split_top_level_def trim_codes_def)

section \<open>Gates\<close>

text \<open>A condition that does not parse makes the gate undecidable, whatever the other attributes are.\<close>

lemma unparsed_cfg_stays: "decl_cfg decl = None \<Longrightarrow> decl_cfg (fold (record_attribute ua) attributes decl) = None"
proof (induction attributes arbitrary: decl)
  case (Cons a attributes)
  have "decl_cfg (record_attribute ua a decl) = None"
    using Cons.prems by (auto simp: record_attribute_def Let_def split: option.splits)
  then show ?case using Cons.IH by simp
qed simp

lemma unparsed_gate: "decl_cfg decl = None \<Longrightarrow> gate (fold (record_attribute ua) attributes decl) enabled = Unknown"
  by (simp add: gate_def unparsed_cfg_stays)

text \<open>
  The alternatives of a declaration cover it: in a build where every condition has a value, the declaration is
  compiled exactly when the condition of one of its alternatives holds.
\<close>

definition compiled :: "string set \<Rightarrow> (string \<Rightarrow> string option \<Rightarrow> bool) \<Rightarrow> mod_decl \<Rightarrow> bool" where
  "compiled fs opt decl = (case decl_cfg decl of None \<Rightarrow> False | Some all \<Rightarrow> list_all (holds fs opt) all)"

lemma those_Some: "list_all (\<lambda>x. x \<noteq> None) xs \<Longrightarrow> those xs = Some (map the xs)"
  by (induction xs) auto

lemma alternatives_cover:
  assumes "decl_cfg decl = Some all" and "list_all (\<lambda>a. alt_pred a \<noteq> None) (alt_paths decl)"
  shows "list_ex (compiled fs opt) (alternatives decl) \<longleftrightarrow> compiled fs opt decl"
proof -
  have those: "those (map alt_pred (alt_paths decl)) = Some (map (\<lambda>a. the (alt_pred a)) (alt_paths decl))"
    using those_Some[of "map alt_pred (alt_paths decl)"] assms(2) by (simp add: list_all_iff comp_def)
  have alt: "compiled fs opt (decl\<lparr>path_attr := Some (alt_file a),
        decl_cfg := Option.bind (decl_cfg decl) (\<lambda>all. map_option (\<lambda>p. all @ [p]) (alt_pred a)), alt_paths := []\<rparr>) \<longleftrightarrow>
      compiled fs opt decl \<and> holds fs opt (the (alt_pred a))" if "a \<in> set (alt_paths decl)" for a
    using assms that by (auto simp: compiled_def list_all_iff)
  have "list_ex (compiled fs opt) (alternatives decl) \<longleftrightarrow>
      (\<exists>a \<in> set (alt_paths decl). compiled fs opt decl \<and> holds fs opt (the (alt_pred a))) \<or>
      compiled fs opt decl \<and> (\<forall>a \<in> set (alt_paths decl). \<not> holds fs opt (the (alt_pred a)))"
    using alt by (auto simp: alternatives_def list_ex_iff those assms(1) compiled_def list_all_iff)
  then show ?thesis by blast
qed

end
