(* ===== verification/Graph_Schema.thy ===== *)
theory Graph_Schema
  imports Rust_Base
begin

text \<open>
  The schema of the code graph: \<open>src/graph_store/schema.rs\<close> (labels, relationship tables and the
  predicates on their names), \<open>columns.rs\<close> (the column types of bulk inserts) and \<open>ddl.rs\<close> (the text
  of the declarations).  \<open>declared_columns\<close> reads the columns back from such a text, and the lemmas say
  for which tables the two descriptions of the columns agree.
\<close>

section \<open>Node labels\<close>

definition NODE_DIRECTORY :: string where
  "NODE_DIRECTORY = ''Directory''"

definition NODE_FILE :: string where
  "NODE_FILE = ''File''"

definition NODE_MODULE :: string where
  "NODE_MODULE = ''Module''"

definition NODE_FUNCTION :: string where
  "NODE_FUNCTION = ''Function''"

definition NODE_METHOD :: string where
  "NODE_METHOD = ''Method''"

definition NODE_STRUCT :: string where
  "NODE_STRUCT = ''Struct''"

definition NODE_ENUM :: string where
  "NODE_ENUM = ''Enum''"

definition NODE_VARIANT :: string where
  "NODE_VARIANT = ''Variant''"

definition NODE_TRAIT :: string where
  "NODE_TRAIT = ''Trait''"

definition NODE_FIELD :: string where
  "NODE_FIELD = ''Field''"

definition NODE_CONSTANT :: string where
  "NODE_CONSTANT = ''Constant''"

definition NODE_TYPE_ALIAS :: string where
  "NODE_TYPE_ALIAS = ''TypeAlias''"

definition NODE_IMPORT :: string where
  "NODE_IMPORT = ''Import''"

definition NODE_CALL_SITE :: string where
  "NODE_CALL_SITE = ''CallSite''"

definition NODE_COMMUNITY :: string where
  "NODE_COMMUNITY = ''Community''"

definition NODE_PROCESS :: string where
  "NODE_PROCESS = ''Process''"

definition NODE_STDLIB_SYMBOL :: string where
  "NODE_STDLIB_SYMBOL = ''StdlibSymbol''"

definition NODE_COMMIT :: string where
  "NODE_COMMIT = ''Commit''"

definition NODE_VERSION :: string where
  "NODE_VERSION = ''Version''"

definition NODE_IAC_RESOURCE :: string where
  "NODE_IAC_RESOURCE = ''IacResource''"

definition NODE_IAC_MODULE :: string where
  "NODE_IAC_MODULE = ''IacModule''"

definition NODE_IAC_IMAGE :: string where
  "NODE_IAC_IMAGE = ''IacImage''"

definition NODE_AST_NODE :: string where
  "NODE_AST_NODE = ''AstNode''"

definition NODE_FILE_CONTENT :: string where
  "NODE_FILE_CONTENT = ''FileContent''"

lemmas node_label_defs =
  NODE_DIRECTORY_def
  NODE_FILE_def
  NODE_MODULE_def
  NODE_FUNCTION_def
  NODE_METHOD_def
  NODE_STRUCT_def
  NODE_ENUM_def
  NODE_VARIANT_def
  NODE_TRAIT_def
  NODE_FIELD_def
  NODE_CONSTANT_def
  NODE_TYPE_ALIAS_def
  NODE_IMPORT_def
  NODE_CALL_SITE_def
  NODE_COMMUNITY_def
  NODE_PROCESS_def
  NODE_STDLIB_SYMBOL_def
  NODE_COMMIT_def
  NODE_VERSION_def
  NODE_IAC_RESOURCE_def
  NODE_IAC_MODULE_def
  NODE_IAC_IMAGE_def
  NODE_AST_NODE_def
  NODE_FILE_CONTENT_def

definition NODE_LABELS :: "string list" where
  "NODE_LABELS =
    [NODE_DIRECTORY,
     NODE_FILE,
     NODE_MODULE,
     NODE_FUNCTION,
     NODE_METHOD,
     NODE_STRUCT,
     NODE_ENUM,
     NODE_VARIANT,
     NODE_TRAIT,
     NODE_FIELD,
     NODE_CONSTANT,
     NODE_TYPE_ALIAS,
     NODE_IMPORT,
     NODE_CALL_SITE,
     NODE_COMMUNITY,
     NODE_PROCESS,
     NODE_STDLIB_SYMBOL,
     NODE_COMMIT,
     NODE_VERSION,
     NODE_IAC_RESOURCE,
     NODE_IAC_MODULE,
     NODE_IAC_IMAGE,
     NODE_AST_NODE,
     NODE_FILE_CONTENT]"

section \<open>Relationship tables\<close>

definition REL_TABLES :: "(string \<times> string \<times> string) list" where
  "REL_TABLES =
    [(''Contains_Dir_File'', NODE_DIRECTORY, NODE_FILE),
     (''Contains_Dir_Dir'', NODE_DIRECTORY, NODE_DIRECTORY),
     (''Contains_File_Module'', NODE_FILE, NODE_MODULE),
     (''Defines_File_Function'', NODE_FILE, NODE_FUNCTION),
     (''Defines_File_Struct'', NODE_FILE, NODE_STRUCT),
     (''Defines_File_Enum'', NODE_FILE, NODE_ENUM),
     (''Defines_File_Trait'', NODE_FILE, NODE_TRAIT),
     (''Defines_File_Constant'', NODE_FILE, NODE_CONSTANT),
     (''Defines_File_TypeAlias'', NODE_FILE, NODE_TYPE_ALIAS),
     (''Defines_File_Import'', NODE_FILE, NODE_IMPORT),
     (''Defines_Module_Import'', NODE_MODULE, NODE_IMPORT),
     (''Defines_Module_Function'', NODE_MODULE, NODE_FUNCTION),
     (''Defines_Module_Struct'', NODE_MODULE, NODE_STRUCT),
     (''Defines_Module_Enum'', NODE_MODULE, NODE_ENUM),
     (''Defines_Module_Trait'', NODE_MODULE, NODE_TRAIT),
     (''Defines_Module_Constant'', NODE_MODULE, NODE_CONSTANT),
     (''Defines_Module_TypeAlias'', NODE_MODULE, NODE_TYPE_ALIAS),
     (''HasMethod_Struct_Method'', NODE_STRUCT, NODE_METHOD),
     (''HasMethod_Enum_Method'', NODE_ENUM, NODE_METHOD),
     (''HasMethod_Trait_Method'', NODE_TRAIT, NODE_METHOD),
     (''HasField_Struct_Field'', NODE_STRUCT, NODE_FIELD),
     (''HasField_Enum_Field'', NODE_ENUM, NODE_FIELD),
     (''HasVariant_Enum_Variant'', NODE_ENUM, NODE_VARIANT),
     (''Imports_File_File'', NODE_FILE, NODE_FILE),
     (''References_File_File'', NODE_FILE, NODE_FILE),
     (''Imports_File_Module'', NODE_FILE, NODE_MODULE),
     (''Imports_File_Function'', NODE_FILE, NODE_FUNCTION),
     (''Imports_File_Method'', NODE_FILE, NODE_METHOD),
     (''Imports_File_Struct'', NODE_FILE, NODE_STRUCT),
     (''Imports_File_Enum'', NODE_FILE, NODE_ENUM),
     (''Imports_File_Trait'', NODE_FILE, NODE_TRAIT),
     (''Imports_File_Constant'', NODE_FILE, NODE_CONSTANT),
     (''Imports_File_TypeAlias'', NODE_FILE, NODE_TYPE_ALIAS),
     (''Imports_Module_Function'', NODE_MODULE, NODE_FUNCTION),
     (''Imports_Module_Struct'', NODE_MODULE, NODE_STRUCT),
     (''Imports_Module_Enum'', NODE_MODULE, NODE_ENUM),
     (''Imports_Module_Trait'', NODE_MODULE, NODE_TRAIT),
     (''Imports_Module_Constant'', NODE_MODULE, NODE_CONSTANT),
     (''Imports_Module_TypeAlias'', NODE_MODULE, NODE_TYPE_ALIAS),
     (''Calls_Function_Function'', NODE_FUNCTION, NODE_FUNCTION),
     (''Calls_Function_Method'', NODE_FUNCTION, NODE_METHOD),
     (''Calls_Method_Function'', NODE_METHOD, NODE_FUNCTION),
     (''Calls_Method_Method'', NODE_METHOD, NODE_METHOD),
     (''Defines_Function_CallSite'', NODE_FUNCTION, NODE_CALL_SITE),
     (''Defines_Method_CallSite'', NODE_METHOD, NODE_CALL_SITE),
     (''Calls_CallSite_Function'', NODE_CALL_SITE, NODE_FUNCTION),
     (''Calls_CallSite_Method'', NODE_CALL_SITE, NODE_METHOD),
     (''Calls_CallSite_StdlibSymbol'', NODE_CALL_SITE, NODE_STDLIB_SYMBOL),
     (''Calls_CallSite_Struct'', NODE_CALL_SITE, NODE_STRUCT),
     (''Implements_Struct_Trait'', NODE_STRUCT, NODE_TRAIT),
     (''Implements_Enum_Trait'', NODE_ENUM, NODE_TRAIT),
     (''Extends_Trait_Trait'', NODE_TRAIT, NODE_TRAIT),
     (''Extends_Struct_Struct'', NODE_STRUCT, NODE_STRUCT),
     (''Extends_Enum_Enum'', NODE_ENUM, NODE_ENUM),
     (''Uses_Function_Struct'', NODE_FUNCTION, NODE_STRUCT),
     (''Uses_Function_Enum'', NODE_FUNCTION, NODE_ENUM),
     (''Uses_Function_Trait'', NODE_FUNCTION, NODE_TRAIT),
     (''Uses_Function_TypeAlias'', NODE_FUNCTION, NODE_TYPE_ALIAS),
     (''Uses_Method_Struct'', NODE_METHOD, NODE_STRUCT),
     (''Uses_Method_Enum'', NODE_METHOD, NODE_ENUM),
     (''Uses_Method_Trait'', NODE_METHOD, NODE_TRAIT),
     (''Uses_Method_TypeAlias'', NODE_METHOD, NODE_TYPE_ALIAS),
     (''Uses_Struct_Struct'', NODE_STRUCT, NODE_STRUCT),
     (''Uses_Struct_Enum'', NODE_STRUCT, NODE_ENUM),
     (''Uses_Struct_Trait'', NODE_STRUCT, NODE_TRAIT),
     (''Uses_Field_Struct'', NODE_FIELD, NODE_STRUCT),
     (''Uses_Field_Enum'', NODE_FIELD, NODE_ENUM),
     (''Uses_Field_Trait'', NODE_FIELD, NODE_TRAIT),
     (''Uses_Field_TypeAlias'', NODE_FIELD, NODE_TYPE_ALIAS),
     (''Calls_Function_StdlibSymbol'', NODE_FUNCTION, NODE_STDLIB_SYMBOL),
     (''Calls_Method_StdlibSymbol'', NODE_METHOD, NODE_STDLIB_SYMBOL),
     (''Implements_Struct_StdlibSymbol'', NODE_STRUCT, NODE_STDLIB_SYMBOL),
     (''Implements_Enum_StdlibSymbol'', NODE_ENUM, NODE_STDLIB_SYMBOL),
     (''MemberOf_Function_Community'', NODE_FUNCTION, NODE_COMMUNITY),
     (''MemberOf_Method_Community'', NODE_METHOD, NODE_COMMUNITY),
     (''MemberOf_Struct_Community'', NODE_STRUCT, NODE_COMMUNITY),
     (''MemberOf_Enum_Community'', NODE_ENUM, NODE_COMMUNITY),
     (''MemberOf_Trait_Community'', NODE_TRAIT, NODE_COMMUNITY),
     (''MemberOf_Constant_Community'', NODE_CONSTANT, NODE_COMMUNITY),
     (''MemberOf_TypeAlias_Community'', NODE_TYPE_ALIAS, NODE_COMMUNITY),
     (''MemberOf_Module_Community'', NODE_MODULE, NODE_COMMUNITY),
     (''EntryPointOf_Function_Process'', NODE_FUNCTION, NODE_PROCESS),
     (''EntryPointOf_Method_Process'', NODE_METHOD, NODE_PROCESS),
     (''ParticipatesIn_Function_Process'', NODE_FUNCTION, NODE_PROCESS),
     (''ParticipatesIn_Method_Process'', NODE_METHOD, NODE_PROCESS),
     (''PreviousVersion_Commit_Commit'', NODE_COMMIT, NODE_COMMIT),
     (''VersionOf_Version_File'', NODE_VERSION, NODE_FILE),
     (''VersionOf_Version_Function'', NODE_VERSION, NODE_FUNCTION),
     (''VersionOf_Version_Method'', NODE_VERSION, NODE_METHOD),
     (''VersionOf_Version_Struct'', NODE_VERSION, NODE_STRUCT),
     (''VersionOf_Version_Enum'', NODE_VERSION, NODE_ENUM),
     (''VersionOf_Version_Trait'', NODE_VERSION, NODE_TRAIT),
     (''ChangedIn_Version_Commit'', NODE_VERSION, NODE_COMMIT),
     (''PreviousVersion_Version_Version'', NODE_VERSION, NODE_VERSION),
     (''FILE_CHANGES_WITH'', NODE_FILE, NODE_FILE),
     (''OBSERVED_CALLS_Function_Function'', NODE_FUNCTION, NODE_FUNCTION),
     (''OBSERVED_CALLS_Function_Method'', NODE_FUNCTION, NODE_METHOD),
     (''OBSERVED_CALLS_Method_Function'', NODE_METHOD, NODE_FUNCTION),
     (''OBSERVED_CALLS_Method_Method'', NODE_METHOD, NODE_METHOD),
     (''Defines_File_IacResource'', NODE_FILE, NODE_IAC_RESOURCE),
     (''Defines_File_IacModule'', NODE_FILE, NODE_IAC_MODULE),
     (''Imports_IacResource_IacImage'', NODE_IAC_RESOURCE, NODE_IAC_IMAGE),
     (''Imports_IacResource_File'', NODE_IAC_RESOURCE, NODE_FILE),
     (''Imports_IacModule_File'', NODE_IAC_MODULE, NODE_FILE),
     (''Imports_IacModule_IacModule'', NODE_IAC_MODULE, NODE_IAC_MODULE),
     (''Defines_File_AstNode'', NODE_FILE, NODE_AST_NODE),
     (''AstChild_AstNode_AstNode'', NODE_AST_NODE, NODE_AST_NODE)]"

section \<open>Columns\<close>

datatype logical_type = TString | TInt64 | TBool | TDouble | TBlob | TStruct "(string \<times> logical_type) list"

type_synonym col_types = "(string \<times> logical_type) list"

definition COLS_DIRECTORY :: col_types where
  "COLS_DIRECTORY =
    [(''id'', TString),
     (''path'', TString),
     (''name'', TString)]"

definition COLS_FILE :: col_types where
  "COLS_FILE =
    [(''id'', TString),
     (''path'', TString),
     (''name'', TString),
     (''extension'', TString),
     (''size_bytes'', TInt64),
     (''parse_errors'', TInt64),
     (''target_context'', TString),
     (''cfg_gate'', TString),
     (''cfg_active'', TString),
     (''module_path'', TString)]"

definition COLS_MODULE :: col_types where
  "COLS_MODULE =
    [(''id'', TString),
     (''name'', TString),
     (''qualified_name'', TString),
     (''cfg_gate'', TString),
     (''cfg_active'', TString)]"

definition COLS_VARIANT :: col_types where
  "COLS_VARIANT =
    [(''id'', TString),
     (''name'', TString),
     (''qualified_name'', TString),
     (''start_line'', TInt64),
     (''end_line'', TInt64),
     (''language'', TString),
     (''cfg_gate'', TString),
     (''cfg_active'', TString)]"

definition COLS_FUNCTION :: col_types where
  "COLS_FUNCTION =
    [(''id'', TString),
     (''name'', TString),
     (''qualified_name'', TString),
     (''start_line'', TInt64),
     (''end_line'', TInt64),
     (''visibility'', TString),
     (''is_async'', TBool),
     (''return_type'', TString),
     (''constructed_types'', TString),
     (''language'', TString),
     (''entry_kind'', TString),
     (''cfg_gate'', TString),
     (''cfg_active'', TString),
     (''code_context'', TString),
     (''body_kind'', TString),
     (''linkage'', TString)]"

definition COLS_METHOD :: col_types where
  "COLS_METHOD =
    [(''id'', TString),
     (''name'', TString),
     (''qualified_name'', TString),
     (''start_line'', TInt64),
     (''end_line'', TInt64),
     (''visibility'', TString),
     (''is_async'', TBool),
     (''receiver_type'', TString),
     (''trait_name'', TString),
     (''return_type'', TString),
     (''constructed_types'', TString),
     (''language'', TString),
     (''cfg_gate'', TString),
     (''cfg_active'', TString),
     (''code_context'', TString),
     (''body_kind'', TString),
     (''linkage'', TString)]"

definition COLS_TYPEDECL :: col_types where
  "COLS_TYPEDECL =
    [(''id'', TString),
     (''name'', TString),
     (''qualified_name'', TString),
     (''start_line'', TInt64),
     (''end_line'', TInt64),
     (''visibility'', TString),
     (''language'', TString),
     (''bases'', TString),
     (''implements'', TString),
     (''cfg_gate'', TString),
     (''cfg_active'', TString)]"

definition COLS_FIELD :: col_types where
  "COLS_FIELD =
    [(''id'', TString),
     (''name'', TString),
     (''type_annotation'', TString),
     (''visibility'', TString),
     (''start_line'', TInt64),
     (''end_line'', TInt64),
     (''language'', TString),
     (''cfg_gate'', TString),
     (''cfg_active'', TString)]"

definition COLS_CONSTANT :: col_types where
  "COLS_CONSTANT =
    [(''id'', TString),
     (''name'', TString),
     (''qualified_name'', TString),
     (''type_annotation'', TString),
     (''start_line'', TInt64),
     (''end_line'', TInt64),
     (''language'', TString),
     (''cfg_gate'', TString),
     (''cfg_active'', TString)]"

definition COLS_TYPE_ALIAS :: col_types where
  "COLS_TYPE_ALIAS =
    [(''id'', TString),
     (''name'', TString),
     (''qualified_name'', TString),
     (''target_type'', TString),
     (''start_line'', TInt64),
     (''end_line'', TInt64),
     (''language'', TString),
     (''cfg_gate'', TString),
     (''cfg_active'', TString)]"

definition COLS_IMPORT :: col_types where
  "COLS_IMPORT =
    [(''id'', TString),
     (''path'', TString),
     (''alias'', TString),
     (''is_glob'', TBool),
     (''start_line'', TInt64),
     (''end_line'', TInt64),
     (''is_resolved'', TBool),
     (''language'', TString)]"

definition COLS_CALL_SITE :: col_types where
  "COLS_CALL_SITE =
    [(''id'', TString),
     (''callee_name'', TString),
     (''line'', TInt64),
     (''col'', TInt64),
     (''is_resolved'', TBool),
     (''language'', TString),
     (''unresolved_reason'', TString),
     (''receiver_hint'', TString),
     (''macro_arg_shape'', TString),
     (''receiver_hint_via'', TString),
     (''callee_shape'', TString)]"

definition COLS_COMMUNITY :: col_types where
  "COLS_COMMUNITY =
    [(''id'', TString),
     (''name'', TString),
     (''algorithm'', TString),
     (''resolution_param'', TDouble),
     (''member_count'', TInt64),
     (''modularity_contribution'', TDouble)]"

definition COLS_PROCESS :: col_types where
  "COLS_PROCESS =
    [(''id'', TString),
     (''name'', TString),
     (''entry_point_id'', TString),
     (''entry_kind'', TString),
     (''entry_confidence'', TDouble),
     (''depth'', TInt64),
     (''symbol_count'', TInt64)]"

definition COLS_COMMIT :: col_types where
  "COLS_COMMIT =
    [(''id'', TString),
     (''sha'', TString),
     (''author'', TString),
     (''author_email'', TString),
     (''committed_at'', TInt64),
     (''message'', TString)]"

definition COLS_VERSION :: col_types where
  "COLS_VERSION =
    [(''id'', TString),
     (''entity_id'', TString),
     (''entity_kind'', TString),
     (''qualified_name'', TString),
     (''change_type'', TString),
     (''commit_sha'', TString),
     (''committed_at'', TInt64),
     (''lines_changed'', TInt64)]"

definition COLS_IAC_RESOURCE :: col_types where
  "COLS_IAC_RESOURCE =
    [(''id'', TString),
     (''name'', TString),
     (''qualified_name'', TString),
     (''resource_kind'', TString),
     (''api_version'', TString),
     (''namespace'', TString),
     (''image'', TString),
     (''ports'', TString),
     (''entrypoint'', TString),
     (''workdir'', TString),
     (''source'', TString),
     (''path'', TString),
     (''start_line'', TInt64)]"

definition COLS_IAC_MODULE :: col_types where
  "COLS_IAC_MODULE =
    [(''id'', TString),
     (''name'', TString),
     (''qualified_name'', TString),
     (''resource_kind'', TString),
     (''source'', TString),
     (''path'', TString),
     (''start_line'', TInt64)]"

definition COLS_IAC_IMAGE :: col_types where
  "COLS_IAC_IMAGE =
    [(''id'', TString),
     (''reference'', TString),
     (''name'', TString),
     (''tag'', TString),
     (''registry'', TString)]"

definition COLS_AST_NODE :: col_types where
  "COLS_AST_NODE =
    [(''id'', TString),
     (''file_id'', TString),
     (''kind'', TString),
     (''is_named'', TBool),
     (''start_byte'', TInt64),
     (''end_byte'', TInt64),
     (''start_line'', TInt64),
     (''start_col'', TInt64),
     (''end_line'', TInt64),
     (''end_col'', TInt64),
     (''field_name'', TString),
     (''child_index'', TInt64),
     (''parent_id'', TString),
     (''language'', TString)]"

lemmas column_defs =
  COLS_DIRECTORY_def
  COLS_FILE_def
  COLS_MODULE_def
  COLS_VARIANT_def
  COLS_FUNCTION_def
  COLS_METHOD_def
  COLS_TYPEDECL_def
  COLS_FIELD_def
  COLS_CONSTANT_def
  COLS_TYPE_ALIAS_def
  COLS_IMPORT_def
  COLS_CALL_SITE_def
  COLS_COMMUNITY_def
  COLS_PROCESS_def
  COLS_COMMIT_def
  COLS_VERSION_def
  COLS_IAC_RESOURCE_def
  COLS_IAC_MODULE_def
  COLS_IAC_IMAGE_def
  COLS_AST_NODE_def

definition node_column_types :: "string \<Rightarrow> (col_types, string) result" where
  "node_column_types label =
    (if label = NODE_DIRECTORY then Ok COLS_DIRECTORY
     else if label = NODE_FILE then Ok COLS_FILE
     else if label = NODE_MODULE then Ok COLS_MODULE
     else if label = NODE_VARIANT then Ok COLS_VARIANT
     else if label = NODE_FUNCTION then Ok COLS_FUNCTION
     else if label = NODE_METHOD then Ok COLS_METHOD
     else if label = NODE_STRUCT \<or> label = NODE_ENUM \<or> label = NODE_TRAIT then Ok COLS_TYPEDECL
     else if label = NODE_FIELD then Ok COLS_FIELD
     else if label = NODE_CONSTANT then Ok COLS_CONSTANT
     else if label = NODE_TYPE_ALIAS then Ok COLS_TYPE_ALIAS
     else if label = NODE_IMPORT then Ok COLS_IMPORT
     else if label = NODE_CALL_SITE then Ok COLS_CALL_SITE
     else if label = NODE_COMMUNITY then Ok COLS_COMMUNITY
     else if label = NODE_PROCESS then Ok COLS_PROCESS
     else if label = NODE_COMMIT then Ok COLS_COMMIT
     else if label = NODE_VERSION then Ok COLS_VERSION
     else if label = NODE_IAC_RESOURCE then Ok COLS_IAC_RESOURCE
     else if label = NODE_IAC_MODULE then Ok COLS_IAC_MODULE
     else if label = NODE_IAC_IMAGE then Ok COLS_IAC_IMAGE
     else if label = NODE_AST_NODE then Ok COLS_AST_NODE
     else Err (''unknown node label for bulk insert: '' @ label))"

section \<open>The declared tables\<close>

definition MARKER_TABLE :: string where
  "MARKER_TABLE = ''GraphMarker''"

definition NODE_TABLE_SCHEMAS :: "(string \<times> string) list" where
  "NODE_TABLE_SCHEMAS =
    [(NODE_DIRECTORY,
        ''id STRING, path STRING, name STRING''),
     (NODE_FILE,
        ''id STRING, path STRING, name STRING, extension STRING, size_bytes INT64, parse_errors INT64, '' @
        ''target_context STRING DEFAULT '' @ [byte 39, byte 39] @ '', cfg_gate STRING DEFAULT '' @ [byte 39, byte 39] @ '', cfg_active STRING DEFAULT '' @ [byte 39, byte 39] @ '', '' @
        ''module_path STRING DEFAULT '' @ [byte 39, byte 39]),
     (NODE_MODULE,
        ''id STRING, name STRING, qualified_name STRING, cfg_gate STRING DEFAULT '' @ [byte 39, byte 39] @ '', '' @
        ''cfg_active STRING DEFAULT '' @ [byte 39, byte 39]),
     (NODE_FUNCTION,
        ''id STRING, name STRING, qualified_name STRING, start_line INT64, end_line INT64, '' @
        ''visibility STRING, is_async BOOLEAN, return_type STRING, constructed_types STRING, '' @
        ''language STRING, entry_kind STRING, cfg_gate STRING DEFAULT '' @ [byte 39, byte 39] @ '', cfg_active STRING DEFAULT '' @ [byte 39, byte 39] @ '', '' @
        ''code_context STRING DEFAULT '' @ [byte 39, byte 39] @ '', body_kind STRING DEFAULT '' @ [byte 39, byte 39] @ '', linkage STRING DEFAULT '' @ [byte 39, byte 39]),
     (NODE_METHOD,
        ''id STRING, name STRING, qualified_name STRING, start_line INT64, end_line INT64, '' @
        ''visibility STRING, is_async BOOLEAN, receiver_type STRING, trait_name STRING, '' @
        ''return_type STRING, constructed_types STRING, language STRING, cfg_gate STRING DEFAULT '' @ [byte 39, byte 39] @ '', '' @
        ''cfg_active STRING DEFAULT '' @ [byte 39, byte 39] @ '', code_context STRING DEFAULT '' @ [byte 39, byte 39] @ '', body_kind STRING DEFAULT '' @ [byte 39, byte 39] @ '', '' @
        ''linkage STRING DEFAULT '' @ [byte 39, byte 39]),
     (NODE_STRUCT,
        ''id STRING, name STRING, qualified_name STRING, start_line INT64, end_line INT64, '' @
        ''visibility STRING, language STRING, bases STRING, implements STRING, '' @
        ''cfg_gate STRING DEFAULT '' @ [byte 39, byte 39] @ '', cfg_active STRING DEFAULT '' @ [byte 39, byte 39]),
     (NODE_ENUM,
        ''id STRING, name STRING, qualified_name STRING, start_line INT64, end_line INT64, '' @
        ''visibility STRING, language STRING, bases STRING, implements STRING, '' @
        ''cfg_gate STRING DEFAULT '' @ [byte 39, byte 39] @ '', cfg_active STRING DEFAULT '' @ [byte 39, byte 39]),
     (NODE_VARIANT,
        ''id STRING, name STRING, qualified_name STRING, start_line INT64, end_line INT64, '' @
        ''language STRING, cfg_gate STRING DEFAULT '' @ [byte 39, byte 39] @ '', cfg_active STRING DEFAULT '' @ [byte 39, byte 39]),
     (NODE_TRAIT,
        ''id STRING, name STRING, qualified_name STRING, start_line INT64, end_line INT64, '' @
        ''visibility STRING, language STRING, bases STRING, implements STRING, '' @
        ''cfg_gate STRING DEFAULT '' @ [byte 39, byte 39] @ '', cfg_active STRING DEFAULT '' @ [byte 39, byte 39]),
     (NODE_FIELD,
        ''id STRING, name STRING, type_annotation STRING, visibility STRING, start_line INT64, '' @
        ''end_line INT64, language STRING, cfg_gate STRING DEFAULT '' @ [byte 39, byte 39] @ '', cfg_active STRING DEFAULT '' @ [byte 39, byte 39]),
     (NODE_CONSTANT,
        ''id STRING, name STRING, qualified_name STRING, type_annotation STRING, start_line INT64, '' @
        ''end_line INT64, language STRING, cfg_gate STRING DEFAULT '' @ [byte 39, byte 39] @ '', cfg_active STRING DEFAULT '' @ [byte 39, byte 39]),
     (NODE_TYPE_ALIAS,
        ''id STRING, name STRING, qualified_name STRING, target_type STRING, start_line INT64, '' @
        ''end_line INT64, language STRING, cfg_gate STRING DEFAULT '' @ [byte 39, byte 39] @ '', cfg_active STRING DEFAULT '' @ [byte 39, byte 39]),
     (NODE_IMPORT,
        ''id STRING, path STRING, alias STRING, is_glob BOOLEAN, start_line INT64, end_line INT64, '' @
        ''is_resolved BOOLEAN, language STRING''),
     (NODE_CALL_SITE,
        ''id STRING, callee_name STRING, line INT64, col INT64, is_resolved BOOLEAN, language STRING, '' @
        ''unresolved_reason STRING, receiver_hint STRING, macro_arg_shape STRING, '' @
        ''receiver_hint_via STRING, callee_shape STRING''),
     (NODE_COMMUNITY,
        ''id STRING, name STRING, algorithm STRING, resolution_param DOUBLE, member_count INT64, '' @
        ''modularity_contribution DOUBLE''),
     (NODE_PROCESS,
        ''id STRING, name STRING, entry_point_id STRING, entry_kind STRING, entry_confidence DOUBLE, '' @
        ''depth INT64, symbol_count INT64''),
     (NODE_STDLIB_SYMBOL,
        ''id STRING, name STRING, language STRING, receiver_type STRING, canonical_path STRING''),
     (NODE_COMMIT,
        ''id STRING, sha STRING, author STRING, author_email STRING, committed_at INT64, '' @
        ''message STRING''),
     (NODE_VERSION,
        ''id STRING, entity_id STRING, entity_kind STRING, qualified_name STRING, change_type STRING, '' @
        ''commit_sha STRING, committed_at INT64, lines_changed INT64''),
     (NODE_IAC_RESOURCE,
        ''id STRING, name STRING, qualified_name STRING, resource_kind STRING, api_version STRING, '' @
        ''namespace STRING, image STRING, ports STRING, entrypoint STRING, workdir STRING, '' @
        ''source STRING, path STRING, start_line INT64''),
     (NODE_IAC_MODULE,
        ''id STRING, name STRING, qualified_name STRING, resource_kind STRING, source STRING, '' @
        ''path STRING, start_line INT64''),
     (NODE_IAC_IMAGE,
        ''id STRING, reference STRING, name STRING, tag STRING, registry STRING''),
     (NODE_AST_NODE,
        ''id STRING, file_id STRING, kind STRING, is_named BOOLEAN, start_byte INT64, end_byte INT64, '' @
        ''start_line INT64, start_col INT64, end_line INT64, end_col INT64, field_name STRING, '' @
        ''child_index INT64, parent_id STRING, language STRING''),
     (NODE_FILE_CONTENT,
        ''id STRING, content_zstd BLOB, original_size INT64, compressed_size INT64''),
     (MARKER_TABLE,
        ''id STRING, value STRING'')]"

section \<open>Predicates on table names\<close>

definition is_resolution_rel :: "string \<Rightarrow> bool" where
  "is_resolution_rel name \<longleftrightarrow>
     starts_with name ''Imports_'' \<or> starts_with name ''Calls_'' \<or> starts_with name ''Implements_'' \<or>
     starts_with name ''Extends_'' \<or> starts_with name ''Uses_'' \<or> starts_with name ''References_''"

definition is_structural_provenance_rel :: "string \<Rightarrow> bool" where
  "is_structural_provenance_rel name \<longleftrightarrow>
     starts_with name ''Defines_'' \<or> starts_with name ''HasMethod_'' \<or> starts_with name ''HasField_'' \<or>
     starts_with name ''HasVariant_''"

definition is_entrypoint_rel :: "string \<Rightarrow> bool" where
  "is_entrypoint_rel name = starts_with name ''EntryPointOf_''"

definition is_participates_rel :: "string \<Rightarrow> bool" where
  "is_participates_rel name = starts_with name ''ParticipatesIn_''"

definition is_cochange_rel :: "string \<Rightarrow> bool" where
  "is_cochange_rel name \<longleftrightarrow> name = ''FILE_CHANGES_WITH''"

definition is_observed_calls_rel :: "string \<Rightarrow> bool" where
  "is_observed_calls_rel name = starts_with name ''OBSERVED_CALLS_''"

definition is_ast_child_rel :: "string \<Rightarrow> bool" where
  "is_ast_child_rel name \<longleftrightarrow> name = ''AstChild_AstNode_AstNode''"

definition is_observable_static_calls_rel :: "string \<Rightarrow> bool" where
  "is_observable_static_calls_rel name \<longleftrightarrow>
     name \<in> {''Calls_Function_Function'', ''Calls_Function_Method'', ''Calls_Method_Function'', ''Calls_Method_Method''}"

definition is_known_rel_table :: "string \<Rightarrow> bool" where
  "is_known_rel_table name = list_ex (\<lambda>(n, _, _). n = name) REL_TABLES"

definition call_rel_table :: "string \<Rightarrow> string \<Rightarrow> string option" where
  "call_rel_table caller_label target_label =
     (if caller_label \<in> {''Function'', ''Method''} \<and> target_label \<in> {''Function'', ''Method''}
      then Some (''Calls_'' @ caller_label @ ''_'' @ target_label)
      else if caller_label \<in> {''Function'', ''Method''} \<and> target_label \<in> {''Struct'', ''Enum'', ''Trait'', ''TypeAlias''}
      then Some (''Uses_'' @ caller_label @ ''_'' @ target_label)
      else None)"

definition call_site_rel_table :: "string \<Rightarrow> string option" where
  "call_site_rel_table target_label =
     (if target_label = NODE_FUNCTION then Some ''Calls_CallSite_Function''
      else if target_label = NODE_METHOD then Some ''Calls_CallSite_Method''
      else if target_label = NODE_STDLIB_SYMBOL then Some ''Calls_CallSite_StdlibSymbol''
      else if target_label = NODE_STRUCT then Some ''Calls_CallSite_Struct''
      else None)"

definition label_has_qualified_name :: "string \<Rightarrow> bool" where
  "label_has_qualified_name label \<longleftrightarrow>
     label \<in> {NODE_MODULE, NODE_FUNCTION, NODE_METHOD, NODE_STRUCT, NODE_ENUM, NODE_VARIANT, NODE_TRAIT,
              NODE_CONSTANT, NODE_TYPE_ALIAS, NODE_VERSION, NODE_IAC_RESOURCE, NODE_IAC_MODULE}"

definition label_declares_column :: "string \<Rightarrow> string \<Rightarrow> bool" where
  "label_declares_column label column =
     (case node_column_types label of Inl _ \<Rightarrow> False | Inr cols \<Rightarrow> list_ex (\<lambda>(name, _). name = column) cols)"

definition edge_column_types :: "string \<Rightarrow> col_types" where
  "edge_column_types rel_table =
     (if is_resolution_rel rel_table \<or> is_structural_provenance_rel rel_table
      then [(''confidence'', TDouble), (''resolution_method'', TString)]
      else if is_entrypoint_rel rel_table then [(''confidence'', TDouble)]
      else if is_participates_rel rel_table then [(''depth'', TInt64)]
      else if is_ast_child_rel rel_table then [(''child_index'', TInt64), (''field_name'', TString)]
      else [])"

definition CALLEE_SHAPE_DIRECT :: string where
  "CALLEE_SHAPE_DIRECT = ''direct''"

definition CALLEE_SHAPE_MEMBER :: string where
  "CALLEE_SHAPE_MEMBER = ''member''"

definition CALLEE_SHAPE_INDIRECT :: string where
  "CALLEE_SHAPE_INDIRECT = ''indirect''"

definition calls_through_a_pointer :: "string \<Rightarrow> string \<Rightarrow> bool" where
  "calls_through_a_pointer language shape \<longleftrightarrow>
     shape = CALLEE_SHAPE_INDIRECT \<or> language = ''c'' \<and> shape = CALLEE_SHAPE_MEMBER"

datatype rel_count_class = GraphEdge | CallSiteTarget

definition classify_rel :: "string \<Rightarrow> string \<Rightarrow> rel_count_class" where
  "classify_rel rel from_label =
     (if from_label = NODE_CALL_SITE \<and> starts_with rel ''Calls_'' then CallSiteTarget else GraphEdge)"

section \<open>Declarations\<close>

definition ddl_node :: "string \<Rightarrow> string \<Rightarrow> string" where
  "ddl_node label columns = ''CREATE NODE TABLE IF NOT EXISTS '' @ label @ ''('' @ columns @ '', PRIMARY KEY(id))''"

definition node_table_ddl :: "string list" where
  "node_table_ddl = map (\<lambda>(label, columns). ddl_node label columns) NODE_TABLE_SCHEMAS"

definition rel_properties :: "string \<Rightarrow> string" where
  "rel_properties name =
     (if is_cochange_rel name then
        '', cochange_count INT64, support INT64, coupling DOUBLE, jaccard DOUBLE, last_co_change INT64''
      else if is_observed_calls_rel name then '', observed_count INT64''
      else if is_observable_static_calls_rel name then
        '', confidence DOUBLE, resolution_method STRING, observed_count INT64''
      else if is_resolution_rel name \<or> is_structural_provenance_rel name then
        '', confidence DOUBLE, resolution_method STRING''
      else if is_entrypoint_rel name then '', confidence DOUBLE''
      else if is_participates_rel name then '', depth INT64''
      else if is_ast_child_rel name then '', child_index INT64, field_name STRING''
      else '''')"

definition rel_table_ddl :: "string list" where
  "rel_table_ddl =
     map (\<lambda>(name, from_label, to_label).
            ''CREATE REL TABLE IF NOT EXISTS '' @ name @ ''(FROM '' @ from_label @ '' TO '' @ to_label @
            rel_properties name @ '')'') REL_TABLES"

definition parse_rel_endpoints :: "string \<Rightarrow> (string \<times> string, string) result" where
  "parse_rel_endpoints rel_type =
     (case map_of REL_TABLES rel_type of
        Some endpoints \<Rightarrow> Ok endpoints
      | None \<Rightarrow> Err (''unknown relationship type: '' @ rel_type))"

section \<open>What a declaration declares\<close>

text \<open>The columns of a declaration, read from its text: a name, a type and whatever follows.\<close>

definition type_keyword :: "string \<Rightarrow> logical_type option" where
  "type_keyword s =
     map_of [(''STRING'', TString), (''INT64'', TInt64), (''BOOLEAN'', TBool), (''DOUBLE'', TDouble), (''BLOB'', TBlob)] s"

definition declared_column :: "string \<Rightarrow> (string \<times> logical_type) option" where
  "declared_column s =
     (case filter (\<lambda>w. w \<noteq> []) (split_on (\<lambda>c. c = CHR '' '') s) of
        name # type # _ \<Rightarrow> map_option (Pair name) (type_keyword type)
      | _ \<Rightarrow> None)"

definition declared_columns :: "string \<Rightarrow> col_types option" where
  "declared_columns s =
     those (map declared_column (filter (\<lambda>p. p \<noteq> []) (split_on (\<lambda>c. c = CHR '','') s)))"

definition bulk_columns :: "string \<Rightarrow> col_types option" where
  "bulk_columns label = (case node_column_types label of Inl _ \<Rightarrow> None | Inr cols \<Rightarrow> Some cols)"

section \<open>The tables\<close>

text \<open>Strings with different hashes differ, which spares comparing them character by character.\<close>

definition name_hash :: "string \<Rightarrow> int" where
  "name_hash s = foldl (\<lambda>n c. 3 * n + of_char c) 7 s"

lemma distinct_by_hash: "distinct (map name_hash xs) \<Longrightarrow> distinct xs"
  by (simp add: distinct_map)

lemma rel_names_distinct: "distinct (map fst REL_TABLES)"
  by (rule distinct_by_hash) code_simp

lemma labels_distinct: "distinct NODE_LABELS"
  by code_simp

lemma every_label_has_a_table: "map fst NODE_TABLE_SCHEMAS = NODE_LABELS @ [MARKER_TABLE]"
  by code_simp

lemma rel_endpoints_are_labels:
  "list_all (\<lambda>(_, from_label, to_label). from_label \<in> set NODE_LABELS \<and> to_label \<in> set NODE_LABELS) REL_TABLES"
  by code_simp

lemma parse_rel_endpoints_Ok:
  "parse_rel_endpoints rel = Ok e \<longleftrightarrow> (rel, e) \<in> set REL_TABLES"
  unfolding parse_rel_endpoints_def using map_of_eq_Some_iff [OF rel_names_distinct, of rel e]
  by (auto split: option.splits)

lemma known_rel_table: "is_known_rel_table rel \<longleftrightarrow> (\<exists>e. parse_rel_endpoints rel = Ok e)"
  unfolding parse_rel_endpoints_Ok is_known_rel_table_def list_ex_iff by force

text \<open>The tables the two call predicates name, and what they connect.\<close>

definition call_tables :: "(string \<times> string \<times> string) list" where
  "call_tables =
     [(''Calls_Function_Function'', ''Function'', ''Function''), (''Calls_Function_Method'', ''Function'', ''Method''),
      (''Calls_Method_Function'', ''Method'', ''Function''), (''Calls_Method_Method'', ''Method'', ''Method''),
      (''Uses_Function_Struct'', ''Function'', ''Struct''), (''Uses_Function_Enum'', ''Function'', ''Enum''),
      (''Uses_Function_Trait'', ''Function'', ''Trait''), (''Uses_Function_TypeAlias'', ''Function'', ''TypeAlias''),
      (''Uses_Method_Struct'', ''Method'', ''Struct''), (''Uses_Method_Enum'', ''Method'', ''Enum''),
      (''Uses_Method_Trait'', ''Method'', ''Trait''), (''Uses_Method_TypeAlias'', ''Method'', ''TypeAlias'')]"

lemma call_tables_declared: "filter (\<lambda>(n, c, t). call_rel_table c t = Some n) REL_TABLES = call_tables"
  by code_simp

lemma call_rel_table_in_call_tables:
  "list_all (\<lambda>c. list_all (\<lambda>t. case call_rel_table c t of None \<Rightarrow> False | Some r \<Rightarrow> (r, c, t) \<in> set call_tables)
     [''Function'', ''Method'', ''Struct'', ''Enum'', ''Trait'', ''TypeAlias'']) [''Function'', ''Method'']"
  by code_simp

lemma if_if_Some: "(if A \<and> B then Some x else if A \<and> C then Some y else None) = Some r \<Longrightarrow> A \<and> (B \<or> C)"
  by (auto split: if_splits)

lemma call_rel_table_declared:
  assumes "call_rel_table caller target = Some rel"
  shows "parse_rel_endpoints rel = Ok (caller, target)"
proof -
  note labels = if_if_Some [OF assms [unfolded call_rel_table_def]]
  have "caller \<in> set [''Function'', ''Method'']" "target \<in> set [''Function'', ''Method'', ''Struct'', ''Enum'', ''Trait'', ''TypeAlias'']"
    using labels unfolding list.set insert_iff empty_iff by argo+
  then have "(rel, caller, target) \<in> set call_tables"
    using call_rel_table_in_call_tables assms unfolding list_all_iff by (metis (no_types, lifting) option.simps(5))
  then show ?thesis
    unfolding call_tables_declared [symmetric] parse_rel_endpoints_Ok by simp
qed

definition site_tables :: "(string \<times> string \<times> string) list" where
  "site_tables =
     [(''Calls_CallSite_Function'', NODE_CALL_SITE, NODE_FUNCTION), (''Calls_CallSite_Method'', NODE_CALL_SITE, NODE_METHOD),
      (''Calls_CallSite_StdlibSymbol'', NODE_CALL_SITE, NODE_STDLIB_SYMBOL), (''Calls_CallSite_Struct'', NODE_CALL_SITE, NODE_STRUCT)]"

lemma site_tables_declared:
  "filter (\<lambda>(n, c, t). call_site_rel_table t = Some n) REL_TABLES = site_tables"
  "filter (\<lambda>(n, c, t). classify_rel n c = CallSiteTarget) REL_TABLES = site_tables"
  by code_simp+

lemma call_site_rel_table_declared:
  assumes "call_site_rel_table target = Some rel"
  shows "parse_rel_endpoints rel = Ok (NODE_CALL_SITE, target)" "classify_rel rel NODE_CALL_SITE = CallSiteTarget"
proof -
  have t: "(rel, NODE_CALL_SITE, target) \<in> set site_tables"
    using assms by (auto simp: call_site_rel_table_def site_tables_def split: if_splits)
  show "parse_rel_endpoints rel = Ok (NODE_CALL_SITE, target)"
    using t unfolding site_tables_declared(1) [symmetric] parse_rel_endpoints_Ok by simp
  show "classify_rel rel NODE_CALL_SITE = CallSiteTarget"
    using t unfolding site_tables_declared(2) [symmetric] by simp
qed

lemma qualified_name_column: "label_has_qualified_name label = label_declares_column label ''qualified_name''"
  unfolding label_has_qualified_name_def label_declares_column_def node_column_types_def
  by (simp add: node_label_defs column_defs)

section \<open>The two descriptions of the columns\<close>

lemma bulk_columns_mirror_node_tables:
  "map fst (filter (\<lambda>(label, columns). bulk_columns label \<noteq> declared_columns columns) NODE_TABLE_SCHEMAS) =
    [NODE_STDLIB_SYMBOL, NODE_FILE_CONTENT, MARKER_TABLE]"
  by code_simp

lemma bulk_columns_mirror_edge_tables:
  "map fst (filter (\<lambda>(name, _). Some (edge_column_types name) \<noteq> declared_columns (rel_properties name)) REL_TABLES) =
   [''Calls_Function_Function'', ''Calls_Function_Method'', ''Calls_Method_Function'', ''Calls_Method_Method'',
    ''FILE_CHANGES_WITH'', ''OBSERVED_CALLS_Function_Function'', ''OBSERVED_CALLS_Function_Method'',
    ''OBSERVED_CALLS_Method_Function'', ''OBSERVED_CALLS_Method_Method'']"
  by code_simp

text \<open>
  Everything a bulk insert may write is a column of the declared table with the same type, for nodes
  and for edges; the differences above only leave declared columns out.
\<close>

definition columns_of :: "string \<Rightarrow> (string \<times> logical_type) set" where
  "columns_of text = (case declared_columns text of Some cols \<Rightarrow> set cols | None \<Rightarrow> {})"

lemma bulk_columns_are_declared:
  "list_all (\<lambda>(label, text). case bulk_columns label of None \<Rightarrow> True | Some cols \<Rightarrow>
      (case declared_columns text of None \<Rightarrow> False | Some ds \<Rightarrow> list_all (\<lambda>c. c \<in> set ds) cols)) NODE_TABLE_SCHEMAS"
  "list_all (\<lambda>(name, _).
      (case declared_columns (rel_properties name) of None \<Rightarrow> False
       | Some ds \<Rightarrow> list_all (\<lambda>c. c \<in> set ds) (edge_column_types name))) REL_TABLES"
  by code_simp+

lemma bulk_labels_have_tables:
  assumes "node_column_types label = Ok cols"
  shows "label \<in> set NODE_LABELS" "distinct (map fst cols)"
  using assms
  by (auto simp: node_column_types_def NODE_LABELS_def column_defs split: if_splits)

lemma stdlib_columns_are_denied:
  "map_of NODE_TABLE_SCHEMAS NODE_STDLIB_SYMBOL = Some columns \<Longrightarrow>
   declared_columns columns =
     Some [(''id'', TString), (''name'', TString), (''language'', TString), (''receiver_type'', TString), (''canonical_path'', TString)]"
  "\<not> label_declares_column NODE_STDLIB_SYMBOL column"
proof -
  have "map_option declared_columns (map_of NODE_TABLE_SCHEMAS NODE_STDLIB_SYMBOL) =
     Some (Some [(''id'', TString), (''name'', TString), (''language'', TString), (''receiver_type'', TString), (''canonical_path'', TString)])"
    by code_simp
  then show "map_of NODE_TABLE_SCHEMAS NODE_STDLIB_SYMBOL = Some columns \<Longrightarrow> declared_columns columns =
     Some [(''id'', TString), (''name'', TString), (''language'', TString), (''receiver_type'', TString), (''canonical_path'', TString)]"
    by simp
  have "node_column_types NODE_STDLIB_SYMBOL = Err (''unknown node label for bulk insert: '' @ NODE_STDLIB_SYMBOL)"
    by code_simp
  then show "\<not> label_declares_column NODE_STDLIB_SYMBOL column" by (simp add: label_declares_column_def)
qed

end
