(* ===== verification/Git_Diff.thy ===== *)
theory Git_Diff
  imports Rust_Base Complex_Main
begin

text \<open>
  \<open>src/git_diff.rs\<close>: from the text of a unified diff to the changed symbols and their risk.  The graph
  database and the impact query of \<open>clustering\<close> are parameters.  Line counters are natural numbers:
  the guard of the source stops before a \<open>u64\<close> could wrap.  Scores are exact reals.
  \<open>cypher_str\<close>, the quoting of every value in a query, is from \<open>src/graph_store/mod.rs\<close>.
\<close>

section \<open>Quoting a value in a query\<close>

definition cypher_escape :: "char \<Rightarrow> string" where
  "cypher_escape c = (if c = CHR 0x5C then [CHR 0x5C, CHR 0x5C] else if c = CHR 0x27 then [CHR 0x5C, CHR 0x27] else [c])"

definition cypher_str :: "string \<Rightarrow> string" where
  "cypher_str raw = [CHR 0x27] @ concat (map cypher_escape raw) @ [CHR 0x27]"

text \<open>How a single-quoted literal is read: a backslash takes the next character, a quote ends it.\<close>

fun read_literal_body :: "string \<Rightarrow> (string \<times> string) option" where
  "read_literal_body [] = None"
| "read_literal_body (c # s) =
     (if c = CHR 0x27 then Some ([], s)
      else if c = CHR 0x5C then
        (case s of [] \<Rightarrow> None | d # s' \<Rightarrow> map_option (apfst (Cons d)) (read_literal_body s'))
      else map_option (apfst (Cons c)) (read_literal_body s))"

definition read_literal :: "string \<Rightarrow> (string \<times> string) option" where
  "read_literal s = (case s of [] \<Rightarrow> None | c # r \<Rightarrow> if c = CHR 0x27 then read_literal_body r else None)"

section \<open>References\<close>

datatype diff_err = InvalidRef | DiffTooLarge | GitFailed

definition validate_git_ref :: "string \<Rightarrow> (unit, diff_err) result" where
  "validate_git_ref r =
     (if r = [] then Err InvalidRef
      else if starts_with r ''-'' then Err InvalidRef
      else if byte 10 \<in> set r \<or> byte 0 \<in> set r then Err InvalidRef
      else Ok ())"

section \<open>Parsing a unified diff\<close>

definition DIFF_LINE_MAX :: nat where
  "DIFF_LINE_MAX = (2 ^ 64 - 1) div 2"

record file_hunk =
  file_path :: string
  changed_lines :: "nat list"
  is_new :: bool
  is_deleted :: bool

definition parse_hunk_header :: "string \<Rightarrow> nat option" where
  "parse_hunk_header line =
     Option.bind (find_index (\<lambda>c. c = CHR ''+'') line) (\<lambda>plus_pos.
       let rest = drop (plus_pos + 1) line in
       Option.bind (find_index (\<lambda>c. c = CHR '','' \<or> c = CHR '' '') rest) (\<lambda>e. parse_u64 (take e rest)))"

record diff_state =
  hunks :: "file_hunk list"
  current_file :: "string option"
  current_lines :: "nat list"
  current_line :: nat
  new_flag :: bool
  deleted_flag :: bool

definition flush :: "diff_state \<Rightarrow> diff_state" where
  "flush st = (case current_file st of
     None \<Rightarrow> st
   | Some fp \<Rightarrow> st\<lparr>hunks := hunks st @ [\<lparr>file_path = fp, changed_lines = current_lines st,
                     is_new = new_flag st, is_deleted = deleted_flag st\<rparr>],
                   current_file := None, current_lines := []\<rparr>)"

definition diff_line :: "string \<Rightarrow> diff_state \<Rightarrow> (diff_state, diff_err) result" where
  "diff_line line st =
     (if starts_with line ''diff --git'' then Ok ((flush st)\<lparr>new_flag := False, deleted_flag := False\<rparr>)
      else case strip_prefix line ''--- a/'' of
        Some stripped \<Rightarrow> Ok (if current_file st = None then st\<lparr>current_file := Some stripped\<rparr> else st)
      | None \<Rightarrow>
      if starts_with line ''--- /dev/null'' then Ok (st\<lparr>new_flag := True\<rparr>)
      else case strip_prefix line ''+++ b/'' of
        Some stripped \<Rightarrow> Ok (st\<lparr>current_file := Some stripped\<rparr>)
      | None \<Rightarrow>
      if starts_with line ''+++ /dev/null'' then Ok (st\<lparr>deleted_flag := True\<rparr>)
      else if starts_with line ''@@ '' then
        Ok (case parse_hunk_header line of Some new_range \<Rightarrow> st\<lparr>current_line := new_range\<rparr> | None \<Rightarrow> st)
      else if starts_with line ''+'' \<and> \<not> starts_with line ''+++'' then
        (if DIFF_LINE_MAX \<le> current_line st then Err DiffTooLarge
         else Ok (st\<lparr>current_lines := current_lines st @ [current_line st], current_line := current_line st + 1\<rparr>))
      else if starts_with line ''-'' \<and> \<not> starts_with line ''---'' then
        Ok (st\<lparr>current_lines := current_lines st @ [current_line st]\<rparr>)
      else if DIFF_LINE_MAX \<le> current_line st then Err DiffTooLarge
      else Ok (st\<lparr>current_line := current_line st + 1\<rparr>))"

fun diff_loop :: "string list \<Rightarrow> diff_state \<Rightarrow> (diff_state, diff_err) result" where
  "diff_loop [] st = Ok st"
| "diff_loop (line # ls) st = and_then (diff_line line st) (diff_loop ls)"

definition empty_diff :: diff_state where
  "empty_diff = \<lparr>hunks = [], current_file = None, current_lines = [], current_line = 0,
     new_flag = False, deleted_flag = False\<rparr>"

definition parse_unified_diff :: "string \<Rightarrow> (file_hunk list, diff_err) result" where
  "parse_unified_diff diff_text = and_then (diff_loop (str_lines diff_text) empty_diff) (\<lambda>st. Ok (hunks (flush st)))"

section \<open>Symbols of the changed lines\<close>

record changed_symbol =
  cs_qualified_name :: string
  cs_name :: string
  cs_label :: string
  cs_file_path :: string
  change_type :: string
  lines_changed :: nat
  community_id :: "string option"
  processes :: "string list"

text \<open>The part of an impact answer that is used: communities, processes, the confidences of the dependency
  edges, and the reasons when the answer is a lower bound.\<close>

record impact =
  imp_communities :: "string list"
  imp_processes :: "string list"
  edge_confidences :: "real list"
  lower_bound :: bool
  lower_bound_reasons :: "string list"

record store =
  run_query :: "string \<Rightarrow> string list list option"
  get_impact :: "string \<Rightarrow> impact option"

definition SYMBOL_LABELS_WITH_LINES :: "string list" where
  "SYMBOL_LABELS_WITH_LINES = [''Function'', ''Method'', ''Struct'', ''Enum'', ''Trait'']"

definition symbol_query :: "string \<Rightarrow> string \<Rightarrow> string" where
  "symbol_query label path =
     ''MATCH (f:File)-[:Defines_File_'' @ label @ '']->(n:'' @ label @ '') WHERE f.path = '' @ cypher_str path @
     '' RETURN n.id, n.name, n.qualified_name, n.start_line, n.end_line''"

definition number_or_zero :: "string \<Rightarrow> nat" where
  "number_or_zero s = (case parse_u64 s of Some n \<Rightarrow> n | None \<Rightarrow> 0)"

definition overlap_count :: "nat list \<Rightarrow> nat \<Rightarrow> nat \<Rightarrow> nat" where
  "overlap_count ls start e = length (filter (\<lambda>l. start \<le> l \<and> l \<le> e) ls)"

text \<open>\<open>end.saturating_sub(start) + 1\<close> would overflow only for a range of \<open>2 ^ 64\<close> lines.\<close>

definition changed_symbol_of :: "store \<Rightarrow> string \<Rightarrow> file_hunk \<Rightarrow> string list \<Rightarrow> changed_symbol" where
  "changed_symbol_of st label h row =
     (let start = number_or_zero (row ! 3); e = number_or_zero (row ! 4) in
      \<lparr>cs_qualified_name = row ! 2, cs_name = row ! 1, cs_label = label, cs_file_path = file_path h,
       change_type = (if is_new h then ''added'' else if is_deleted h then ''deleted'' else ''modified''),
       lines_changed = (if is_new h \<or> is_deleted h then (e - start) + 1 else overlap_count (changed_lines h) start e),
       community_id = (case get_impact st (row ! 2) of
          Some imp \<Rightarrow> (case imp_communities imp of [] \<Rightarrow> None | c # _ \<Rightarrow> Some c) | None \<Rightarrow> None),
       processes = (case get_impact st (row ! 2) of Some imp \<Rightarrow> imp_processes imp | None \<Rightarrow> [])\<rparr>)"

fun map_rows :: "store \<Rightarrow> string \<Rightarrow> file_hunk \<Rightarrow> string list list \<Rightarrow> string set \<Rightarrow> changed_symbol list \<times> string set" where
  "map_rows st label h [] seen = ([], seen)"
| "map_rows st label h (row # rows) seen =
     (if length row < 5 \<or> row ! 0 \<in> seen then map_rows st label h rows seen
      else if overlap_count (changed_lines h) (number_or_zero (row ! 3)) (number_or_zero (row ! 4)) = 0 \<and>
              \<not> is_new h \<and> \<not> is_deleted h
      then map_rows st label h rows seen
      else (case map_rows st label h rows (insert (row ! 0) seen) of
              (syms, seen') \<Rightarrow> (changed_symbol_of st label h row # syms, seen')))"

fun map_labels :: "store \<Rightarrow> string list \<Rightarrow> file_hunk \<Rightarrow> string set \<Rightarrow> changed_symbol list" where
  "map_labels st [] h seen = []"
| "map_labels st (label # labels) h seen =
     (case run_query st (symbol_query label (file_path h)) of
        None \<Rightarrow> map_labels st labels h seen
      | Some rows \<Rightarrow> (case map_rows st label h rows seen of (syms, seen') \<Rightarrow> syms @ map_labels st labels h seen'))"

definition map_lines_to_symbols :: "store \<Rightarrow> file_hunk \<Rightarrow> changed_symbol list" where
  "map_lines_to_symbols st h = map_labels st SYMBOL_LABELS_WITH_LINES h {}"

section \<open>Risk and confidence\<close>

definition process_count :: "changed_symbol \<Rightarrow> nat" where
  "process_count s = length (processes s)"

definition communities_of :: "changed_symbol list \<Rightarrow> string set" where
  "communities_of syms = set (concat (map (\<lambda>s. case community_id s of Some c \<Rightarrow> [c] | None \<Rightarrow> []) syms))"

definition compute_risk_score :: "changed_symbol list \<Rightarrow> nat \<Rightarrow> real" where
  "compute_risk_score symbols total_communities =
     (if symbols = [] then 0
      else
        let max_proc = max (Max (set (map process_count symbols))) 1;
            avg_proc_ratio = sum_list (map (\<lambda>s. real (process_count s) / real max_proc) symbols) / real (length symbols);
            total = max total_communities 1;
            community_ratio = real (card (communities_of symbols)) / real total in
        min (6 / 10 * avg_proc_ratio + 4 / 10 * community_ratio) 1)"

definition count_total_communities :: "store \<Rightarrow> nat" where
  "count_total_communities st =
     (case run_query st ''MATCH (c:Community) RETURN count(c)'' of
        Some ((val # _) # _) \<Rightarrow> number_or_zero val
      | _ \<Rightarrow> 0)"

definition assess_dependency_confidence :: "store \<Rightarrow> changed_symbol list \<Rightarrow> real \<times> bool \<times> string list" where
  "assess_dependency_confidence st symbols =
     (let impacts = List.map_filter (\<lambda>s. map_option (Pair s) (get_impact st (cs_qualified_name s))) symbols;
          confidences = concat (map (\<lambda>(_, imp). edge_confidences imp) impacts);
          low = filter (\<lambda>(_, imp). lower_bound imp) impacts in
      (if confidences = [] then 1 else sum_list confidences / real (length confidences),
       low \<noteq> [],
       concat (map (\<lambda>(s, imp). map (\<lambda>r. cs_qualified_name s @ '': '' @ r) (lower_bound_reasons imp)) low)))"

record diff_analysis =
  files_changed :: nat
  symbols_affected :: "changed_symbol list"
  communities_affected :: "string set"
  processes_affected :: "string set"
  risk_score :: real
  mean_dependency_confidence :: real
  is_lower_bound :: bool
  epistemic_reasons :: "string list"

definition build_analysis :: "store \<Rightarrow> file_hunk list \<Rightarrow> diff_analysis" where
  "build_analysis st hs =
     (let syms = concat (map (map_lines_to_symbols st) hs);
          (mean, low, reasons) = assess_dependency_confidence st syms in
      \<lparr>files_changed = length hs, symbols_affected = syms, communities_affected = communities_of syms,
       processes_affected = set (concat (map processes syms)),
       risk_score = compute_risk_score syms (count_total_communities st),
       mean_dependency_confidence = mean, is_lower_bound = low, epistemic_reasons = reasons\<rparr>)"

definition analyze_diff :: "store \<Rightarrow> string \<Rightarrow> (diff_analysis, diff_err) result" where
  "analyze_diff st diff_text = and_then (parse_unified_diff diff_text) (\<lambda>hs. Ok (build_analysis st hs))"

text \<open>\<open>git\<close> is the program run with its arguments in the directory of the code base, None when it fails.\<close>

definition analyze_git_diff ::
  "(string list \<Rightarrow> string option) \<Rightarrow> store \<Rightarrow> string \<Rightarrow> string \<Rightarrow> (diff_analysis, diff_err) result" where
  "analyze_git_diff git st base_ref head_ref =
     and_then (validate_git_ref base_ref) (\<lambda>_.
     and_then (validate_git_ref head_ref) (\<lambda>_.
     case git [''diff'', base_ref @ ''..'' @ head_ref, ''--''] of
       None \<Rightarrow> Err GitFailed
     | Some text \<Rightarrow> analyze_diff st text))"

section \<open>Quoted values are read back\<close>

lemma read_literal_body_escape:
  "read_literal_body (concat (map cypher_escape raw) @ CHR 0x27 # rest) = Some (raw, rest)"
  by (induction raw) (auto simp: cypher_escape_def)

section \<open>Writing a unified diff\<close>

datatype body_line = Context string | Added string | Deleted string

fun body_text :: "body_line \<Rightarrow> string" where
  "body_text (Context s) = '' '' @ s"
| "body_text (Added s) = ''+'' @ s"
| "body_text (Deleted s) = ''-'' @ s"

record diff_hunk =
  old_start :: nat
  old_count :: nat
  new_start :: nat
  new_count :: nat
  body :: "body_line list"

datatype file_change = Modified | Created | Removed

record file_diff =
  fd_path :: string
  fd_change :: file_change
  fd_index :: string
  fd_hunks :: "diff_hunk list"

definition hunk_lines :: "diff_hunk \<Rightarrow> string list" where
  "hunk_lines h =
     (''@@ -'' @ decimal (old_start h) @ '','' @ decimal (old_count h) @ '' +'' @ decimal (new_start h) @ '','' @
      decimal (new_count h) @ '' @@'') # map body_text (body h)"

definition header_lines :: "file_diff \<Rightarrow> string list" where
  "header_lines f =
     [''diff --git a/'' @ fd_path f @ '' b/'' @ fd_path f] @
     (case fd_change f of Modified \<Rightarrow> [] | Created \<Rightarrow> [''new file mode 100644''] | Removed \<Rightarrow> [''deleted file mode 100644'']) @
     [''index '' @ fd_index f,
      case fd_change f of Created \<Rightarrow> ''--- /dev/null'' | _ \<Rightarrow> ''--- a/'' @ fd_path f,
      case fd_change f of Removed \<Rightarrow> ''+++ /dev/null'' | _ \<Rightarrow> ''+++ b/'' @ fd_path f]"

definition diff_lines :: "file_diff list \<Rightarrow> string list" where
  "diff_lines fs = concat (map (\<lambda>f. header_lines f @ concat (map hunk_lines (fd_hunks f))) fs)"

definition diff_text :: "file_diff list \<Rightarrow> string" where
  "diff_text fs = concat (map (\<lambda>l. l @ [byte 10]) (diff_lines fs))"

text \<open>The lines of the new file that a hunk touches: a deletion counts for the line that follows it.\<close>

fun touched :: "nat \<Rightarrow> body_line list \<Rightarrow> nat list" where
  "touched n [] = []"
| "touched n (Context s # b) = touched (n + 1) b"
| "touched n (Added s # b) = n # touched (n + 1) b"
| "touched n (Deleted s # b) = n # touched n b"

definition expected_hunk :: "file_diff \<Rightarrow> file_hunk" where
  "expected_hunk f =
     \<lparr>file_path = fd_path f, changed_lines = concat (map (\<lambda>h. touched (new_start h) (body h)) (fd_hunks f)),
      is_new = (fd_change f = Created), is_deleted = (fd_change f = Removed)\<rparr>"

definition one_line :: "string \<Rightarrow> bool" where
  "one_line s \<longleftrightarrow> byte 10 \<notin> set s \<and> (s \<noteq> [] \<longrightarrow> last s \<noteq> byte 13)"

text \<open>Added text that begins with two plus signs and deleted text that begins with two minus signs look like file headers.\<close>

fun body_ok :: "body_line \<Rightarrow> bool" where
  "body_ok (Context s) \<longleftrightarrow> one_line s"
| "body_ok (Added s) \<longleftrightarrow> one_line s \<and> \<not> starts_with s ''++''"
| "body_ok (Deleted s) \<longleftrightarrow> one_line s \<and> \<not> starts_with s ''--''"

definition hunk_ok :: "diff_hunk \<Rightarrow> bool" where
  "hunk_ok h \<longleftrightarrow> list_all body_ok (body h) \<and> new_start h + length (body h) + 2 \<le> DIFF_LINE_MAX"

definition file_ok :: "file_diff \<Rightarrow> bool" where
  "file_ok f \<longleftrightarrow> one_line (fd_path f) \<and> one_line (fd_index f) \<and> list_all hunk_ok (fd_hunks f)"

section \<open>Reading it back\<close>

lemma diff_loop_append: "diff_loop (xs @ ys) st = and_then (diff_loop xs st) (diff_loop ys)"
proof (induction xs arbitrary: st)
  case (Cons x xs)
  then show ?case by (cases "diff_line x st") simp_all
qed simp

lemma not_starts_longer: "\<not> starts_with s p \<Longrightarrow> \<not> starts_with s (p @ q)"
  by (metis append_assoc starts_with_iff)

lemma strip_prefix_None: "\<not> starts_with s p \<Longrightarrow> strip_prefix s p = None"
  by (simp add: strip_prefix_def)

fun line_after :: "nat \<Rightarrow> body_line list \<Rightarrow> nat" where
  "line_after n [] = n"
| "line_after n (Deleted s # b) = line_after n b"
| "line_after n (_ # b) = line_after (n + 1) b"

lemma line_after_le: "line_after n b \<le> n + length b"
  by (induction n b rule: line_after.induct) auto

lemma diff_line_body:
  assumes "body_ok l" "current_line st < DIFF_LINE_MAX"
  shows "diff_line (body_text l) st = Ok (st\<lparr>current_lines := current_lines st @ touched (current_line st) [l],
    current_line := line_after (current_line st) [l]\<rparr>)"
proof (cases l)
  case (Context s)
  then show ?thesis using assms(2) by (simp add: diff_line_def strip_prefix_None)
next
  case (Added s)
  then have "\<not> starts_with s ''++''" using assms(1) by simp
  then have "\<not> starts_with s (''++'' @ q)" for q by (rule not_starts_longer)
  from this [of "'' b/''"] this [of "'' /dev/null''"] this [of "[]"] show ?thesis
    using Added assms(2) by (simp add: diff_line_def strip_prefix_None)
next
  case (Deleted s)
  then have "\<not> starts_with s ''--''" using assms(1) by simp
  then have "\<not> starts_with s (''--'' @ q)" for q by (rule not_starts_longer)
  from this [of "'' a/''"] this [of "'' /dev/null''"] this [of "[]"] show ?thesis
    using Deleted by (simp add: diff_line_def strip_prefix_None)
qed

lemma diff_loop_body:
  assumes "list_all body_ok b" "current_line st + length b \<le> DIFF_LINE_MAX"
  shows "diff_loop (map body_text b) st = Ok (st\<lparr>current_lines := current_lines st @ touched (current_line st) b,
    current_line := line_after (current_line st) b\<rparr>)"
  using assms
proof (induction b arbitrary: st)
  case (Cons l b)
  then have one: "diff_line (body_text l) st = Ok (st\<lparr>current_lines := current_lines st @ touched (current_line st) [l],
    current_line := line_after (current_line st) [l]\<rparr>)" (is "_ = Ok ?st")
    by (intro diff_line_body) auto
  have "diff_loop (map body_text b) ?st = Ok (?st\<lparr>current_lines := current_lines ?st @ touched (current_line ?st) b,
    current_line := line_after (current_line ?st) b\<rparr>)"
    using Cons.prems line_after_le [of "current_line st" "[l]"] by (intro Cons.IH) auto
  then show ?case using one by (cases l) simp_all
qed simp

lemma find_index_append:
  "\<forall>x \<in> set xs. \<not> P x \<Longrightarrow> P y \<Longrightarrow> find_index P (xs @ y # ys) = Some (length xs)"
  by (induction xs) auto

lemma decimal_not: "c \<in> {CHR ''+'', CHR '','', CHR '' ''} \<Longrightarrow> c \<notin> set (decimal n)"
  using decimal_digits [of c n] by (auto simp: is_digit_def code_def)

lemma drop_after: "drop (length xs + 1) (xs @ y # ys) = ys"
  by simp

lemma parse_hunk_header_written:
  assumes "ns < 2 ^ 64"
  shows "parse_hunk_header (''@@ -'' @ decimal os @ '','' @ decimal oc @ '' +'' @ decimal ns @ '','' @ decimal nc @ '' @@'') = Some ns"
proof -
  let ?pre = "''@@ -'' @ decimal os @ '','' @ decimal oc @ '' ''" and ?rest = "decimal ns @ CHR '','' # decimal nc @ '' @@''"
  have 1: "find_index (\<lambda>c. c = CHR ''+'') (?pre @ CHR ''+'' # ?rest) = Some (length ?pre)"
    by (rule find_index_append) (use decimal_not in auto)
  have 2: "find_index (\<lambda>c. c = CHR '','' \<or> c = CHR '' '') ?rest = Some (length (decimal ns))"
    by (rule find_index_append) (use decimal_not in auto)
  have "drop (length ?pre + 1) (?pre @ CHR ''+'' # ?rest) = ?rest" by (rule drop_after)
  then have "parse_hunk_header (?pre @ CHR ''+'' # ?rest) = Some ns"
    unfolding parse_hunk_header_def unfolding 1 Option.bind.bind_lunit Let_def
    by (simp only: 2 Option.bind.bind_lunit append_eq_conv_conj [THEN iffD1, OF refl] take_append diff_self_eq_0 take_0 append_Nil2 take_all order_refl parse_u64_decimal [OF assms])
  then show ?thesis by simp
qed

definition pending :: "diff_state \<Rightarrow> file_hunk list \<Rightarrow> file_diff \<Rightarrow> nat list \<Rightarrow> bool" where
  "pending st hs f ls \<longleftrightarrow>
     hunks st = hs \<and> current_file st = Some (fd_path f) \<and> current_lines st = ls \<and>
     new_flag st = (fd_change f = Created) \<and> deleted_flag st = (fd_change f = Removed)"

lemma flush_lines: "current_file st \<noteq> None \<or> current_lines st = [] \<Longrightarrow> current_file (flush st) = None \<and> current_lines (flush st) = []"
  by (auto simp: flush_def split: option.splits)

lemma flush_line: "current_line (flush st) = current_line st"
  by (simp add: flush_def split: option.splits)

lemma header_loop:
  assumes "current_line st + 2 \<le> DIFF_LINE_MAX" "current_file st \<noteq> None \<or> current_lines st = []"
  shows "\<exists>st'. diff_loop (header_lines f) st = Ok st' \<and> pending st' (hunks (flush st)) f []"
proof -
  have m: "\<not> DIFF_LINE_MAX \<le> current_line st" "\<not> DIFF_LINE_MAX \<le> Suc (current_line st)" using assms(1) by auto
  note fl = flush_lines [OF assms(2)] flush_line [of st]
  show ?thesis
    by (cases "fd_change f")
      (auto simp: header_lines_def diff_line_def strip_prefix_def pending_def fl m)
qed

lemma hunk_loop:
  assumes "hunk_ok h" "pending st hs f ls"
  shows "\<exists>st'. diff_loop (hunk_lines h) st = Ok st' \<and> pending st' hs f (ls @ touched (new_start h) (body h)) \<and>
    current_line st' + 2 \<le> DIFF_LINE_MAX"
proof -
  have ns: "new_start h < 2 ^ 64" using assms(1) by (auto simp: hunk_ok_def DIFF_LINE_MAX_def)
  let ?line = "''@@ -'' @ decimal (old_start h) @ '','' @ decimal (old_count h) @ '' +'' @ decimal (new_start h) @ '','' @
      decimal (new_count h) @ '' @@''"
  have "diff_line ?line st = Ok (st\<lparr>current_line := new_start h\<rparr>)"
    using parse_hunk_header_written [OF ns, of "old_start h" "old_count h" "new_count h"]
    by (simp add: diff_line_def strip_prefix_def)
  moreover have "list_all body_ok (body h)" "new_start h + length (body h) \<le> DIFF_LINE_MAX"
    using assms(1) by (simp_all add: hunk_ok_def)
  ultimately show ?thesis
    using diff_loop_body [of "body h" "st\<lparr>current_line := new_start h\<rparr>"] assms line_after_le [of "new_start h" "body h"]
    by (simp add: hunk_lines_def pending_def hunk_ok_def)
qed

lemma hunks_loop:
  assumes "list_all hunk_ok hks" "pending st hs f ls" "hks \<noteq> [] \<or> current_line st + 2 \<le> DIFF_LINE_MAX"
  shows "\<exists>st'. diff_loop (concat (map hunk_lines hks)) st = Ok st' \<and>
    pending st' hs f (ls @ concat (map (\<lambda>h. touched (new_start h) (body h)) hks)) \<and> current_line st' + 2 \<le> DIFF_LINE_MAX"
  using assms
proof (induction hks arbitrary: st ls)
  case (Cons h hks)
  then obtain st1 where st1: "diff_loop (hunk_lines h) st = Ok st1"
      "pending st1 hs f (ls @ touched (new_start h) (body h))" "current_line st1 + 2 \<le> DIFF_LINE_MAX"
    using hunk_loop [of h st hs f ls] by auto
  then show ?case using Cons.IH [OF _ st1(2)] Cons.prems(1) by (simp add: diff_loop_append)
qed simp

lemma files_loop:
  assumes "list_all (\<lambda>f. file_ok f \<and> fd_hunks f \<noteq> []) fs" "current_line st + 2 \<le> DIFF_LINE_MAX"
    "current_file st \<noteq> None \<or> current_lines st = []"
  shows "\<exists>st'. diff_loop (diff_lines fs) st = Ok st' \<and> hunks (flush st') = hunks (flush st) @ map expected_hunk fs"
  using assms
proof (induction fs arbitrary: st)
  case Nil
  then show ?case by (simp add: diff_lines_def)
next
  case (Cons f fs)
  obtain st1 where st1: "diff_loop (header_lines f) st = Ok st1" "pending st1 (hunks (flush st)) f []"
    using header_loop [OF Cons.prems(2,3)] by blast
  obtain st2 where st2: "diff_loop (concat (map hunk_lines (fd_hunks f))) st1 = Ok st2"
      "pending st2 (hunks (flush st)) f (changed_lines (expected_hunk f))" "current_line st2 + 2 \<le> DIFF_LINE_MAX"
    using hunks_loop [OF _ st1(2), of "fd_hunks f"] Cons.prems(1) by (auto simp: file_ok_def expected_hunk_def)
  have "hunks (flush st2) = hunks (flush st) @ [expected_hunk f]"
    using st2(2) by (simp add: pending_def flush_def expected_hunk_def)
  then show ?case
    using Cons.IH [of st2] Cons.prems(1) st1(1) st2 by (simp add: diff_lines_def diff_loop_append pending_def)
qed

lemma str_lines_written:
  assumes "\<forall>l \<in> set ls. byte 10 \<notin> set l \<and> strip_cr l = l"
  shows "str_lines (concat (map (\<lambda>l. l @ [byte 10]) ls)) = ls"
proof -
  have sp: "split_on (\<lambda>c. c = byte 10) (concat (map (\<lambda>l. l @ [byte 10]) ls)) = ls @ [[]]"
    using assms
  proof (induction ls)
    case (Cons l ls)
    then have "split_on (\<lambda>c. c = byte 10) l = [l]" by (intro split_on_none) auto
    then show ?case using Cons split_on_append [of "\<lambda>c. c = byte 10" "byte 10" l] by simp
  qed simp
  have "lines_of (ls @ [[]]) = ls" if "\<forall>l \<in> set ls. strip_cr l = l" for ls
    using that
  proof (induction ls)
    case (Cons l ls)
    then show ?case by (cases ls) auto
  qed simp
  then show ?thesis using assms by (simp add: str_lines_def sp)
qed

lemma one_line_ok: "one_line l \<Longrightarrow> byte 10 \<notin> set l \<and> strip_cr l = l"
  by (auto simp: one_line_def strip_cr_def)

lemma one_line_append: "one_line p \<Longrightarrow> one_line s \<Longrightarrow> one_line (p @ s)"
  by (cases "s = []") (auto simp: one_line_def)

lemma one_line_decimal: "one_line (decimal n)"
proof -
  have d: "code c \<noteq> 10 \<and> code c \<noteq> 13" if "c \<in> set (decimal n)" for c
    using decimal_digits [OF that] by (auto simp: is_digit_def)
  show ?thesis
    using d [of "byte 10"] d [of "last (decimal n)"] last_in_set [OF decimal_nonempty [of n]]
    by (auto simp: one_line_def)
qed

lemma one_line_literals:
  "one_line ''diff --git a/''" "one_line '' b/''" "one_line ''new file mode 100644''" "one_line ''deleted file mode 100644''"
  "one_line ''index ''" "one_line ''--- /dev/null''" "one_line ''--- a/''" "one_line ''+++ /dev/null''" "one_line ''+++ b/''"
  "one_line ''@@ -''" "one_line '',''" "one_line '' +''" "one_line '' @@''" "one_line '' ''" "one_line ''+''" "one_line ''-''"
  by (simp_all add: one_line_def byte_eq eq_byte code_def)

lemma hunk_lines_one_line: "hunk_ok h \<Longrightarrow> l \<in> set (hunk_lines h) \<Longrightarrow> one_line l"
proof -
  assume h: "hunk_ok h" and l: "l \<in> set (hunk_lines h)"
  have "one_line (body_text b)" if "body_ok b" for b
    using that by (cases b) (auto simp del: append_Cons intro: one_line_append one_line_literals)
  then have "one_line l" if "l \<in> set (map body_text (body h))"
    using h that by (auto simp: hunk_ok_def list_all_iff)
  then show ?thesis
    using l unfolding hunk_lines_def
    by (auto simp del: append_Cons intro!: one_line_append one_line_literals one_line_decimal)
qed

lemma header_lines_one_line: "file_ok f \<Longrightarrow> l \<in> set (header_lines f) \<Longrightarrow> one_line l"
  unfolding header_lines_def file_ok_def
  by (cases "fd_change f") (auto simp del: append_Cons intro!: one_line_append one_line_literals)

lemma diff_lines_one_line:
  assumes "list_all file_ok fs" "l \<in> set (diff_lines fs)"
  shows "one_line l"
proof -
  obtain f where f: "f \<in> set fs" "l \<in> set (header_lines f) \<or> (\<exists>h \<in> set (fd_hunks f). l \<in> set (hunk_lines h))"
    using assms(2) unfolding diff_lines_def by auto
  have "file_ok f" using assms(1) f(1) by (simp add: list_all_iff)
  moreover from this have "\<forall>h \<in> set (fd_hunks f). hunk_ok h" by (simp add: file_ok_def list_all_iff)
  ultimately show ?thesis using f(2) hunk_lines_one_line header_lines_one_line by blast
qed

section \<open>Risk\<close>

lemma ratio_bounds:
  fixes xs :: "real list"
  assumes "\<forall>x \<in> set xs. 0 \<le> x"
  shows "0 \<le> sum_list xs / real (length xs)" "xs \<noteq> [] \<Longrightarrow> sum_list xs / real (length xs) = 0 \<longleftrightarrow> (\<forall>x \<in> set xs. x = 0)"
  using assms by (auto simp: sum_list_nonneg sum_list_nonneg_eq_0_iff)

section \<open>Properties\<close>



text \<open>A deleted comment of SQL, Lua or Haskell, whose text begins with two minus signs, shifts every later position.\<close>

lemma deleted_comment_shifts_positions:
  assumes "n + 2 \<le> DIFF_LINE_MAX" "current_line st = n" "current_lines st = []"
  shows "\<exists>st'. diff_loop [''-'' @ ''-- old note'', ''+'' @ ''new''] st = Ok st' \<and> current_lines st' = [n + 1]"
  using assms by (simp add: diff_line_def strip_prefix_def)

text \<open>
  C24: A value quoted for a query cannot leave its quotes.  Read as a query literal, the quoted form of
  any string gives back that string, and what follows it is left untouched: no path or name in the
  indexed repository can add to a query.
\<close>

theorem quoted_value_is_read_back:
  "read_literal (cypher_str raw @ rest) = Some (raw, rest)"
  by (simp add: read_literal_def cypher_str_def read_literal_body_escape)

text \<open>
  The risk score is a number between zero and one, whatever the graph answers, and it is zero
  exactly when no changed symbol belongs to a process or a community.
\<close>

theorem risk_score_is_bounded:
  "0 \<le> compute_risk_score symbols n \<and> compute_risk_score symbols n \<le> 1 \<and>
   (compute_risk_score symbols n = 0 \<longleftrightarrow> list_all (\<lambda>s. processes s = [] \<and> community_id s = None) symbols)"
proof (cases "symbols = []")
  case True
  then show ?thesis by (simp add: compute_risk_score_def)
next
  case False
  let ?m = "max (Max (set (map process_count symbols))) 1"
  let ?xs = "map (\<lambda>s. real (process_count s) / real ?m) symbols"
  let ?r = "real (card (communities_of symbols)) / real (max n 1)"
  have a: "0 \<le> sum_list ?xs / real (length symbols)"
    "sum_list ?xs / real (length symbols) = 0 \<longleftrightarrow> (\<forall>s \<in> set symbols. processes s = [])"
    using ratio_bounds [of ?xs] False by (auto simp: process_count_def)
  have "finite (communities_of symbols)" by (simp only: communities_of_def finite_set)
  then have "?r = 0 \<longleftrightarrow> communities_of symbols = {}" by (simp add: max_def)
  also have "\<dots> \<longleftrightarrow> (\<forall>s \<in> set symbols. community_id s = None)"
    by (auto simp: communities_of_def split: option.splits) (metis option.exhaust)
  finally have b: "0 \<le> ?r" "?r = 0 \<longleftrightarrow> (\<forall>s \<in> set symbols. community_id s = None)" by auto
  have eq: "compute_risk_score symbols n = min (6 / 10 * (sum_list ?xs / real (length symbols)) + 4 / 10 * ?r) 1"
    using False by (simp only: compute_risk_score_def Let_def if_False)
  have "6 / 10 * (sum_list ?xs / real (length symbols)) + 4 / 10 * ?r = 0 \<longleftrightarrow>
      sum_list ?xs / real (length symbols) = 0 \<and> ?r = 0"
    using a(1) b(1) by (simp add: add_nonneg_eq_0_iff)
  then show ?thesis
    unfolding eq a(2) b(2) using a(1) b(1) by (auto simp: list_all_iff min_def)
qed

end
