(* ===== verification/Graph_Store.thy ===== *)
theory Graph_Store
  imports Graph_Schema Git_Diff Lsp_Protocol Complex_Main "HOL-Library.Word"
begin

text \<open>
  Writing to the graph store: \<open>src/graph_store/serialize.rs\<close> (typed rows of a bulk insert) and
  \<open>writes.rs\<close> (the write operations), with the statement cache of \<open>mod.rs\<close>.  The database engine is a
  parameter: what it answers to a query, to the preparation and to the execution of a statement.
  A \<open>DOUBLE\<close> is the exact value of its literal.
\<close>

section \<open>Values\<close>

datatype f64 = Finite rat | Infinite bool | NotANumber

datatype db_value =
    VNull logical_type
  | VString string
  | VInt64 "64 word"
  | VUInt64 "64 word"
  | VBool bool
  | VDouble f64
  | VBlob string
  | VStruct "(string \<times> db_value) list"
  | VList logical_type "db_value list"

datatype int_error = EmptyInt | InvalidDigit | PosOverflow | NegOverflow

datatype column_error =
    ExpectedInt64 string string int_error
  | ExpectedBool string string
  | ExpectedDouble string string
  | UnsupportedType string logical_type

datatype store_error = StoreMessage string | BadColumn column_error

section \<open>Literals\<close>

text \<open>\<open>str::parse::<i64>\<close>: digits are folded from the left and the first fault is reported.\<close>

fun i64_digits :: "bool \<Rightarrow> int \<Rightarrow> string \<Rightarrow> (int, int_error) result" where
  "i64_digits negative acc [] = Ok acc"
| "i64_digits negative acc (c # cs) =
     (if \<not> is_digit c then Err InvalidDigit
      else
        let d = int (code c) - 48; n = (if negative then 10 * acc - d else 10 * acc + d) in
        if 2 ^ 63 \<le> n then Err PosOverflow
        else if n < - (2 ^ 63) then Err NegOverflow
        else i64_digits negative n cs)"

definition parse_i64 :: "string \<Rightarrow> (int, int_error) result" where
  "parse_i64 s =
     (case s of
        [] \<Rightarrow> Err EmptyInt
      | c # cs \<Rightarrow>
          if cs = [] \<and> (c = CHR ''+'' \<or> c = CHR ''-'') then Err InvalidDigit
          else if c = CHR ''+'' then i64_digits False 0 cs
          else if c = CHR ''-'' then i64_digits True 0 cs
          else i64_digits False 0 s)"

text \<open>
  \<open>str::parse::<f64>\<close>: an optional sign, then \<open>inf\<close>, \<open>infinity\<close> or \<open>nan\<close> in any case, or digits with an
  optional point and an optional exponent, with a digit before or after the point.
\<close>

definition split_sign :: "string \<Rightarrow> bool \<times> string" where
  "split_sign s =
     (case s of
        [] \<Rightarrow> (False, [])
      | c # cs \<Rightarrow> if c = CHR ''-'' then (True, cs) else if c = CHR ''+'' then (False, cs) else (False, s))"

definition parse_exponent :: "string \<Rightarrow> int option" where
  "parse_exponent s =
     (case s of
        [] \<Rightarrow> Some 0
      | c # cs \<Rightarrow>
          if c = CHR ''e'' \<or> c = CHR ''E'' then
            (case split_sign cs of (negative, ds) \<Rightarrow>
               if ds = [] \<or> \<not> list_all is_digit ds then None
               else Some (if negative then - int (digits_value ds) else int (digits_value ds)))
          else None)"

definition decimal_value :: "string \<Rightarrow> string \<Rightarrow> int \<Rightarrow> rat" where
  "decimal_value whole decimals e =
     of_nat (digits_value (whole @ decimals)) *
       (let k = e - int (length decimals) in if 0 \<le> k then 10 ^ nat k else 1 / 10 ^ nat (- k))"

definition parse_number :: "string \<Rightarrow> rat option" where
  "parse_number s =
     (let whole = takeWhile is_digit s; rest = dropWhile is_digit s;
          (decimals, tail) =
            (case rest of
               c # r \<Rightarrow> if c = CHR ''.'' then (takeWhile is_digit r, dropWhile is_digit r) else ([], rest)
             | [] \<Rightarrow> ([], []))
      in if whole = [] \<and> decimals = [] then None
         else map_option (decimal_value whole decimals) (parse_exponent tail))"

definition parse_f64 :: "string \<Rightarrow> f64 option" where
  "parse_f64 s =
     (case split_sign s of (negative, t) \<Rightarrow>
        if ascii_lower t = ''inf'' \<or> ascii_lower t = ''infinity'' then Some (Infinite negative)
        else if ascii_lower t = ''nan'' then Some NotANumber
        else map_option (\<lambda>x. Finite (if negative then - x else x)) (parse_number t))"

fun unescape_cypher :: "string \<Rightarrow> string" where
  "unescape_cypher [] = []"
| "unescape_cypher (c # s) =
     (if c = CHR 0x5C then
        (case s of
           [] \<Rightarrow> [CHR 0x5C]
         | d # s' \<Rightarrow>
             if d = CHR 0x5C then CHR 0x5C # unescape_cypher s'
             else if d = CHR 0x27 then CHR 0x27 # unescape_cypher s'
             else CHR 0x5C # d # unescape_cypher s')
      else c # unescape_cypher s)"

definition unwrap_cypher_string :: "string \<Rightarrow> string" where
  "unwrap_cypher_string s =
     (if 2 \<le> length s \<and> starts_with s [CHR 0x27] \<and> ends_with s [CHR 0x27]
      then unescape_cypher (butlast (tl s)) else s)"

definition literal_to_value :: "string option \<Rightarrow> logical_type \<Rightarrow> string \<Rightarrow> (db_value, column_error) result" where
  "literal_to_value lit ty col =
     (case lit of
        None \<Rightarrow> Ok (VNull ty)
      | Some raw \<Rightarrow>
          let trimmed = str_trim raw in
          if trimmed = [] then Ok (VNull ty)
          else
            (case ty of
               TString \<Rightarrow> Ok (VString (unwrap_cypher_string trimmed))
             | TInt64 \<Rightarrow>
                 (case parse_i64 trimmed of
                    Inl e \<Rightarrow> Err (ExpectedInt64 col raw e)
                  | Inr n \<Rightarrow> Ok (VInt64 (word_of_int n)))
             | TBool \<Rightarrow>
                 (if ascii_lower trimmed = ''true'' then Ok (VBool True)
                  else if ascii_lower trimmed = ''false'' \<or> ascii_lower trimmed = [] then Ok (VBool False)
                  else Err (ExpectedBool col raw))
             | TDouble \<Rightarrow>
                 (case parse_f64 trimmed of None \<Rightarrow> Err (ExpectedDouble col raw) | Some x \<Rightarrow> Ok (VDouble x))
             | other \<Rightarrow> Err (UnsupportedType col other)))"

section \<open>Rows of a bulk insert\<close>

type_synonym props = "(string \<times> string) list"
type_synonym prop_edge = "string \<times> string \<times> props"

definition format_props :: "props \<Rightarrow> string" where
  "format_props properties = join_with '', '' (map (\<lambda>(k, v). k @ '': '' @ v) properties)"

definition node_prop_order :: "props list \<Rightarrow> col_types \<Rightarrow> col_types" where
  "node_prop_order rows schema = filter (\<lambda>(col, _). col \<in> set (concat (map (map fst) rows))) schema"

definition edge_prop_order :: "prop_edge list \<Rightarrow> col_types \<Rightarrow> col_types" where
  "edge_prop_order edges schema =
     filter (\<lambda>(col, _). col \<in> set (concat (map (\<lambda>e. map fst (snd (snd e))) edges))) schema"

definition assigns :: "col_types \<Rightarrow> string" where
  "assigns prop_order = join_with '', '' (map (\<lambda>(k, _). k @ '': row.'' @ k) prop_order)"

definition build_node_unwind :: "string \<Rightarrow> col_types \<Rightarrow> string \<times> logical_type" where
  "build_node_unwind label prop_order =
     (''UNWIND $rows AS row CREATE (:'' @ label @ '' {'' @ assigns prop_order @ ''})'', TStruct prop_order)"

definition build_edge_unwind :: "string \<Rightarrow> string \<Rightarrow> string \<Rightarrow> col_types \<Rightarrow> string \<times> logical_type" where
  "build_edge_unwind rel_table from_label to_label prop_order =
     (let props_clause = (if prop_order = [] then [] else '' {'' @ assigns prop_order @ ''}'') in
      (''UNWIND $rows AS row MATCH (a:'' @ from_label @ '' {id: row.from}) MATCH (b:'' @ to_label @
       '' {id: row.to}) CREATE (a)-[:'' @ rel_table @ props_clause @ '']->(b)'',
       TStruct ([(''from'', TString), (''to'', TString)] @ prop_order)))"

fun collect_results :: "('b, 'e) result list \<Rightarrow> ('b list, 'e) result" where
  "collect_results [] = Ok []"
| "collect_results (r # rs) = and_then r (\<lambda>y. and_then (collect_results rs) (\<lambda>ys. Ok (y # ys)))"

definition typed_fields :: "col_types \<Rightarrow> props \<Rightarrow> ((string \<times> db_value) list, column_error) result" where
  "typed_fields prop_order row =
     collect_results (map (\<lambda>(col, ty). and_then (literal_to_value (map_of row col) ty col) (\<lambda>v. Ok (col, v))) prop_order)"

definition build_struct_rows :: "props list \<Rightarrow> col_types \<Rightarrow> (db_value list, column_error) result" where
  "build_struct_rows chunk prop_order =
     collect_results (map (\<lambda>row. and_then (typed_fields prop_order row) (\<lambda>fs. Ok (VStruct fs))) chunk)"

definition build_edge_struct_rows :: "prop_edge list \<Rightarrow> col_types \<Rightarrow> (db_value list, column_error) result" where
  "build_edge_struct_rows edges prop_order =
     collect_results (map (\<lambda>(from_id, to_id, props).
        and_then (typed_fields prop_order props)
          (\<lambda>fs. Ok (VStruct ([(''from'', VString from_id), (''to'', VString to_id)] @ fs)))) edges)"

definition value_to_u64 :: "db_value \<Rightarrow> 64 word" where
  "value_to_u64 v = (case v of VInt64 n \<Rightarrow> n | VUInt64 n \<Rightarrow> n | _ \<Rightarrow> 0)"

section \<open>The store\<close>

type_synonym parameters = "(string \<times> db_value) list"

record ('s, 'd) engine =
  prepare :: "string \<Rightarrow> ('s, string) result"
  query :: "string \<Rightarrow> 'd \<Rightarrow> (string list list, string) result \<times> 'd"
  execute :: "'s \<Rightarrow> parameters \<Rightarrow> 'd \<Rightarrow> (unit, string) result \<times> 'd"

record ('s, 'd) graph_store =
  stmt_cache :: "string \<Rightarrow> 's option option"
  db :: 'd

type_synonym ('s, 'd, 'a) action = "('s, 'd) graph_store \<Rightarrow> ('a, store_error) result \<times> ('s, 'd) graph_store"

definition act_return :: "'a \<Rightarrow> ('s, 'd, 'a) action" where
  "act_return x st = (Ok x, st)"

definition act_fail :: "store_error \<Rightarrow> ('s, 'd, 'a) action" where
  "act_fail e st = (Err e, st)"

definition act_bind :: "('s, 'd, 'a) action \<Rightarrow> ('a \<Rightarrow> ('s, 'd, 'b) action) \<Rightarrow> ('s, 'd, 'b) action" where
  "act_bind m f st = (case m st of (Inl e, st') \<Rightarrow> (Err e, st') | (Inr x, st') \<Rightarrow> f x st')"

definition execute_query :: "('s, 'd) engine \<Rightarrow> string \<Rightarrow> ('s, 'd, string list list) action" where
  "execute_query eng cypher st =
     (case query eng cypher (db st) of
        (Inl e, d) \<Rightarrow> (Err (StoreMessage (''query failed ['' @ cypher @ '']: '' @ e)), st\<lparr>db := d\<rparr>)
      | (Inr rows, d) \<Rightarrow> (Ok rows, st\<lparr>db := d\<rparr>))"

definition run :: "('s, 'd) engine \<Rightarrow> string \<Rightarrow> ('s, 'd, unit) action" where
  "run eng cypher = act_bind (execute_query eng cypher) (\<lambda>_. act_return ())"

definition exec_ddl :: "('s, 'd) engine \<Rightarrow> string \<Rightarrow> ('s, 'd, unit) action" where
  "exec_ddl eng ddl st =
     (case query eng ddl (db st) of
        (Inl e, d) \<Rightarrow> (Err (StoreMessage (''DDL failed ['' @ ddl @ '']: '' @ e)), st\<lparr>db := d\<rparr>)
      | (Inr _, d) \<Rightarrow> (Ok (), st\<lparr>db := d\<rparr>))"

definition take_cached_stmt :: "('s, 'd) engine \<Rightarrow> string \<Rightarrow> ('s, 'd, 's) action" where
  "take_cached_stmt eng cypher st =
     (case stmt_cache st cypher of
        Some (Some cached) \<Rightarrow> (Ok cached, st\<lparr>stmt_cache := (stmt_cache st)(cypher \<mapsto> None)\<rparr>)
      | _ \<Rightarrow>
          (case prepare eng cypher of
             Inl e \<Rightarrow> (Err (StoreMessage (''prepare failed ['' @ cypher @ '']: '' @ e)), st)
           | Inr stmt \<Rightarrow> (Ok stmt, st)))"

definition return_cached_stmt :: "string \<Rightarrow> 's \<Rightarrow> ('s, 'd) graph_store \<Rightarrow> ('s, 'd) graph_store" where
  "return_cached_stmt cypher stmt st = st\<lparr>stmt_cache := (stmt_cache st)(cypher \<mapsto> Some stmt)\<rparr>"

definition run_prepared_params :: "('s, 'd) engine \<Rightarrow> string \<Rightarrow> parameters \<Rightarrow> ('s, 'd, unit) action" where
  "run_prepared_params eng cypher params =
     act_bind (take_cached_stmt eng cypher) (\<lambda>stmt st.
       (case execute eng stmt params (db st) of
          (outcome, d) \<Rightarrow>
            ((case outcome of
                Inl e \<Rightarrow> Err (StoreMessage (''execute ['' @ cypher @ '']: '' @ e))
              | Inr _ \<Rightarrow> Ok ()),
             return_cached_stmt cypher stmt (st\<lparr>db := d\<rparr>))))"

definition run_prepared :: "('s, 'd) engine \<Rightarrow> string \<Rightarrow> db_value \<Rightarrow> ('s, 'd, unit) action" where
  "run_prepared eng cypher rows = run_prepared_params eng cypher [(''rows'', rows)]"

section \<open>Write operations\<close>

definition BULK_BATCH_SIZE :: nat where
  "BULK_BATCH_SIZE = 500"

text \<open>\<open>slice::chunks\<close> for a positive size.\<close>

function slice_chunks :: "nat \<Rightarrow> 'a list \<Rightarrow> 'a list list" where
  "slice_chunks n xs = (if xs = [] \<or> n = 0 then [] else take n xs # slice_chunks n (drop n xs))"
  by pat_completeness auto

termination slice_chunks
  by (relation "measure (length \<circ> snd)") auto

declare slice_chunks.simps [simp del]

definition insert_node :: "('s, 'd) engine \<Rightarrow> string \<Rightarrow> props \<Rightarrow> ('s, 'd, unit) action" where
  "insert_node eng label properties = run eng (''CREATE (:'' @ label @ '' {'' @ format_props properties @ ''})'')"

definition execute_failed :: "string \<Rightarrow> store_error \<Rightarrow> store_error" where
  "execute_failed what e = (case e of StoreMessage m \<Rightarrow> StoreMessage (what @ '' execute: '' @ m) | _ \<Rightarrow> e)"

text \<open>The loop over the chunks that the two bulk inserts share; \<open>build\<close> types the rows of a chunk.\<close>

fun insert_chunks ::
  "('s, 'd) engine \<Rightarrow> string \<Rightarrow> string \<Rightarrow> logical_type \<Rightarrow> ('r list \<Rightarrow> (db_value list, column_error) result) \<Rightarrow>
   'r list list \<Rightarrow> nat \<Rightarrow> ('s, 'd, nat) action" where
  "insert_chunks eng what cypher row_type build [] inserted st = (Ok inserted, st)"
| "insert_chunks eng what cypher row_type build (chunk # chunks) inserted st =
     (case build chunk of
        Inl e \<Rightarrow> (Err (BadColumn e), st)
      | Inr vals \<Rightarrow>
          (case run_prepared eng cypher (VList row_type vals) st of
             (Inl e, st') \<Rightarrow> (Err (execute_failed what e), st')
           | (Inr _, st') \<Rightarrow> insert_chunks eng what cypher row_type build chunks (inserted + length chunk) st'))"

definition bulk_insert_nodes :: "('s, 'd) engine \<Rightarrow> string \<Rightarrow> props list \<Rightarrow> ('s, 'd, nat) action" where
  "bulk_insert_nodes eng label rows =
     (if rows = [] then act_return 0
      else
        (case node_column_types label of
           Inl e \<Rightarrow> act_fail (StoreMessage e)
         | Inr schema \<Rightarrow>
             let prop_order = node_prop_order rows schema;
                 (cypher, row_type) = build_node_unwind label prop_order
             in insert_chunks eng ''bulk_insert_nodes'' cypher row_type (\<lambda>chunk. build_struct_rows chunk prop_order)
                  (slice_chunks BULK_BATCH_SIZE rows) 0))"

definition bulk_insert_edges :: "('s, 'd) engine \<Rightarrow> string \<Rightarrow> prop_edge list \<Rightarrow> ('s, 'd, nat) action" where
  "bulk_insert_edges eng rel_table edges =
     (if edges = [] then act_return 0
      else
        (case parse_rel_endpoints rel_table of
           Inl e \<Rightarrow> act_fail (StoreMessage e)
         | Inr (from_label, to_label) \<Rightarrow>
             let prop_order = edge_prop_order edges (edge_column_types rel_table);
                 (cypher, row_type) = build_edge_unwind rel_table from_label to_label prop_order
             in insert_chunks eng ''bulk_insert_edges'' cypher row_type (\<lambda>chunk. build_edge_struct_rows chunk prop_order)
                  (slice_chunks BULK_BATCH_SIZE edges) 0))"

definition with_endpoints :: "string \<Rightarrow> (string \<Rightarrow> string \<Rightarrow> ('s, 'd, 'a) action) \<Rightarrow> ('s, 'd, 'a) action" where
  "with_endpoints rel_type f =
     (case parse_rel_endpoints rel_type of
        Inl e \<Rightarrow> act_fail (StoreMessage e)
      | Inr (from_label, to_label) \<Rightarrow> f from_label to_label)"

definition insert_edge :: "('s, 'd) engine \<Rightarrow> string \<Rightarrow> string \<Rightarrow> string \<Rightarrow> props \<Rightarrow> ('s, 'd, unit) action" where
  "insert_edge eng rel_type from_id to_id properties =
     with_endpoints rel_type (\<lambda>from_label to_label.
       let props_clause = (if properties = [] then [] else '' {'' @ format_props properties @ ''}'') in
       run eng (''MATCH (a:'' @ from_label @ '' {id: '' @ cypher_str from_id @ ''}) MATCH (b:'' @ to_label @
                '' {id: '' @ cypher_str to_id @ ''}) CREATE (a)-[:'' @ rel_type @ props_clause @ '']->(b)''))"

definition edge_exists :: "('s, 'd) engine \<Rightarrow> string \<Rightarrow> string \<Rightarrow> string \<Rightarrow> ('s, 'd, bool) action" where
  "edge_exists eng rel_type from_id to_id =
     with_endpoints rel_type (\<lambda>from_label to_label.
       act_bind
         (execute_query eng (''MATCH (a:'' @ from_label @ '' {id: '' @ cypher_str from_id @ ''})-[r:'' @ rel_type @
            '']->(b:'' @ to_label @ '' {id: '' @ cypher_str to_id @ ''}) RETURN r LIMIT 1''))
         (\<lambda>rows. act_return (rows \<noteq> [])))"

definition insert_edge_if_absent :: "('s, 'd) engine \<Rightarrow> string \<Rightarrow> string \<Rightarrow> string \<Rightarrow> props \<Rightarrow> ('s, 'd, unit) action" where
  "insert_edge_if_absent eng rel_type from_id to_id properties =
     act_bind (edge_exists eng rel_type from_id to_id) (\<lambda>found.
       if found then act_return () else insert_edge eng rel_type from_id to_id properties)"

definition row_names_column :: "string \<Rightarrow> string list \<Rightarrow> bool" where
  "row_names_column column row = (case row of _ # name # _ \<Rightarrow> name = column | _ \<Rightarrow> False)"

definition require_entry_metadata :: "('s, 'd) engine \<Rightarrow> ('s, 'd, unit) action" where
  "require_entry_metadata eng =
     act_bind (execute_query eng (''CALL table_info('' @ [CHR 0x27] @ ''Function'' @ [CHR 0x27] @ '') RETURN *'')) (\<lambda>info.
       if list_ex (row_names_column ''entry_kind'') info then act_return ()
       else act_fail (StoreMessage ''graph lacks Rust entry attribute metadata; full reindex required (index_codebase with full: true)''))"

definition node_column_exists :: "('s, 'd) engine \<Rightarrow> string \<Rightarrow> string \<Rightarrow> ('s, 'd, bool) action" where
  "node_column_exists eng label column =
     act_bind (execute_query eng (''CALL table_info('' @ cypher_str label @ '') RETURN *''))
       (\<lambda>info. act_return (list_ex (row_names_column column) info))"

definition ensure_node_column :: "('s, 'd) engine \<Rightarrow> string \<Rightarrow> string \<Rightarrow> string \<Rightarrow> ('s, 'd, bool) action" where
  "ensure_node_column eng label column defn =
     act_bind (node_column_exists eng label column) (\<lambda>found.
       if found then act_return False
       else act_bind (run eng (''ALTER TABLE '' @ label @ '' ADD '' @ column @ '' '' @ defn)) (\<lambda>_. act_return True))"

definition insert_file_content :: "('s, 'd) engine \<Rightarrow> string \<Rightarrow> string \<Rightarrow> 64 word \<Rightarrow> ('s, 'd, unit) action" where
  "insert_file_content eng file_id content_zstd original_size =
     run_prepared_params eng
       ''CREATE (:FileContent {id: $id, content_zstd: $content, original_size: $original_size, compressed_size: $compressed_size})''
       [(''id'', VString file_id), (''content'', VBlob content_zstd), (''original_size'', VInt64 original_size),
        (''compressed_size'', VInt64 (of_nat (length content_zstd)))]"

text \<open>The loop that binds the ids of a chunk as strings, shared by the three flag writers.\<close>

fun run_id_chunks :: "('s, 'd) engine \<Rightarrow> string \<Rightarrow> string list list \<Rightarrow> ('s, 'd, unit) action" where
  "run_id_chunks eng cypher [] = act_return ()"
| "run_id_chunks eng cypher (chunk # chunks) =
     act_bind (run_prepared eng cypher (VList TString (map VString chunk))) (\<lambda>_. run_id_chunks eng cypher chunks)"

definition mark_nodes_resolved :: "('s, 'd) engine \<Rightarrow> string \<Rightarrow> string list \<Rightarrow> ('s, 'd, unit) action" where
  "mark_nodes_resolved eng label ids =
     (if ids = [] then act_return ()
      else run_id_chunks eng (''UNWIND $rows AS rid MATCH (n:'' @ label @ '' {id: rid}) SET n.is_resolved = true'')
             (slice_chunks BULK_BATCH_SIZE ids))"

definition set_callsite_unresolved_reason :: "('s, 'd) engine \<Rightarrow> string list \<Rightarrow> string \<Rightarrow> ('s, 'd, unit) action" where
  "set_callsite_unresolved_reason eng ids reason =
     (if ids = [] then act_return ()
      else
        act_bind (ensure_node_column eng ''CallSite'' ''unresolved_detail'' (''STRING DEFAULT '' @ [CHR 0x27, CHR 0x27])) (\<lambda>_.
          run_id_chunks eng
            (''UNWIND $rows AS rid MATCH (n:CallSite {id: rid}) SET n.unresolved_reason = '' @ cypher_str reason @
             '', n.unresolved_detail = '' @ [CHR 0x27, CHR 0x27])
            (slice_chunks BULK_BATCH_SIZE ids)))"

definition mark_callsites_unresolved :: "('s, 'd) engine \<Rightarrow> string list \<Rightarrow> ('s, 'd, unit) action" where
  "mark_callsites_unresolved eng ids =
     (if ids = [] then act_return ()
      else run_id_chunks eng ''UNWIND $rows AS rid MATCH (n:CallSite {id: rid}) SET n.is_resolved = false''
             (slice_chunks BULK_BATCH_SIZE ids))"

fun exec_ddls :: "('s, 'd) engine \<Rightarrow> string list \<Rightarrow> ('s, 'd, unit) action" where
  "exec_ddls eng [] = act_return ()"
| "exec_ddls eng (ddl # ddls) = act_bind (exec_ddl eng ddl) (\<lambda>_. exec_ddls eng ddls)"

definition create_schema :: "('s, 'd) engine \<Rightarrow> ('s, 'd, unit) action" where
  "create_schema eng = act_bind (exec_ddls eng node_table_ddl) (\<lambda>_. exec_ddls eng rel_table_ddl)"

fun create_missing ::
  "('s, 'd) engine \<Rightarrow> string set \<Rightarrow> ((string \<times> string \<times> string) \<times> string) list \<Rightarrow> nat \<Rightarrow> ('s, 'd, nat) action" where
  "create_missing eng present [] created = act_return created"
| "create_missing eng present (((name, _, _), ddl) # tables) created =
     (if name \<in> present then create_missing eng present tables created
      else act_bind (exec_ddl eng ddl) (\<lambda>_. create_missing eng present tables (created + 1)))"

definition ensure_rel_tables :: "('s, 'd) engine \<Rightarrow> ('s, 'd, nat) action" where
  "ensure_rel_tables eng =
     act_bind (execute_query eng ''CALL show_tables() RETURN *'') (\<lambda>listed.
       let present = set (concat (map (\<lambda>row. case row of _ # name # _ \<Rightarrow> [name] | _ \<Rightarrow> []) listed)) in
       create_missing eng present (zip REL_TABLES rel_table_ddl) 0)"

section \<open>Literals are read back\<close>

lemma str_trim_quoted: "str_trim (CHR 0x27 # s @ [CHR 0x27]) = CHR 0x27 # s @ [CHR 0x27]"
proof (cases "from_utf8 (CHR 0x27 # s @ [CHR 0x27])")
  case None
  then show ?thesis unfolding str_trim_def by simp
next
  case (Some cs)
  have q: "code (CHR 0x27) = 39" by (simp add: code_def)
  have "utf8_valid ((CHR 0x27 # s) @ [CHR 0x27])" using Some by (simp add: utf8_valid_def)
  then have "utf8_valid (CHR 0x27 # s)" by (rule utf8_valid_prefix) (simp add: cont_def q)
  then obtain ds where "from_utf8 s = Some ds" by (auto simp: utf8_valid_def q)
  then have "from_utf8 (s @ [CHR 0x27]) = Some (ds @ [39])" by (rule from_utf8_append) (simp add: q)
  then have "cs = 39 # ds @ [39]" using Some by (simp add: q)
  then have "trim_codes cs = cs" by (simp add: trim_codes_def is_whitespace_def)
  then show ?thesis using utf8_from_utf8 [OF Some] Some unfolding str_trim_def by simp
qed
lemma unescape_cypher_escape: "unescape_cypher (concat (map cypher_escape s)) = s"
  by (induction s) (simp_all add: cypher_escape_def)

lemma unwrap_cypher_str: "unwrap_cypher_string (cypher_str s) = s"
proof -
  have "ends_with (cypher_str s) [CHR 0x27]" by (simp add: ends_with_def cypher_str_def)
  then show ?thesis
    by (simp add: unwrap_cypher_string_def cypher_str_def butlast_append unescape_cypher_escape)
qed

lemma string_literal_is_read_back: "literal_to_value (Some (cypher_str s)) TString col = Ok (VString s)"
  using unwrap_cypher_str [of s] by (simp add: literal_to_value_def str_trim_quoted cypher_str_def)

section \<open>Typed rows\<close>

text \<open>When a value has a type; no column is a list.\<close>

fun has_type :: "db_value \<Rightarrow> logical_type \<Rightarrow> bool" where
  "has_type (VNull t') t \<longleftrightarrow> t' = t"
| "has_type (VString _) t \<longleftrightarrow> t = TString"
| "has_type (VInt64 _) t \<longleftrightarrow> t = TInt64"
| "has_type (VUInt64 _) t \<longleftrightarrow> False"
| "has_type (VBool _) t \<longleftrightarrow> t = TBool"
| "has_type (VDouble _) t \<longleftrightarrow> t = TDouble"
| "has_type (VBlob _) t \<longleftrightarrow> t = TBlob"
| "has_type (VStruct fs) t \<longleftrightarrow>
     (case t of TStruct ts \<Rightarrow> list_all2 (\<lambda>f c. fst f = fst c \<and> has_type (snd f) (snd c)) fs ts | _ \<Rightarrow> False)"
| "has_type (VList _ _) t \<longleftrightarrow> False"

lemma literal_has_type: "literal_to_value lit ty col = Ok v \<Longrightarrow> has_type v ty"
  by (auto simp: literal_to_value_def Let_def split: option.splits if_splits logical_type.splits sum.splits)

lemma collect_results_Ok: "collect_results (map f xs) = Ok ys \<longleftrightarrow> list_all2 (\<lambda>x y. f x = Ok y) xs ys"
proof (induction xs arbitrary: ys)
  case (Cons x xs)
  then show ?case by (cases ys) (auto simp: and_then_Inr)
qed auto

lemma list_all2_result: "list_all2 P xs ys \<Longrightarrow> (\<And>x y. P x y \<Longrightarrow> Q y) \<Longrightarrow> list_all Q ys \<and> length ys = length xs"
  by (induction xs ys rule: list_all2_induct) auto

lemma typed_fields_type:
  assumes "typed_fields prop_order row = Ok fs"
  shows "list_all2 (\<lambda>f c. fst f = fst c \<and> has_type (snd f) (snd c)) fs prop_order"
proof -
  have "list_all2 (\<lambda>(col, ty) y. and_then (literal_to_value (map_of row col) ty col) (\<lambda>v. Ok (col, v)) = Ok y) prop_order fs"
    using assms unfolding typed_fields_def collect_results_Ok by (simp add: case_prod_beta')
  then have "list_all2 (\<lambda>c f. fst f = fst c \<and> has_type (snd f) (snd c)) prop_order fs"
    by (rule list_all2_mono) (auto simp: and_then_Inr dest: literal_has_type)
  then show ?thesis by (simp add: list_all2_conv_all_nth)
qed

lemma row_type:
  assumes "typed_fields prop_order row = Ok fs"
  shows "has_type (VStruct fs) (TStruct prop_order)"
    "has_type (VStruct ([(''from'', VString a), (''to'', VString b)] @ fs)) (TStruct ([(''from'', TString), (''to'', TString)] @ prop_order))"
  using typed_fields_type [OF assms] by simp_all

lemma struct_rows_type:
  assumes "build_struct_rows chunk prop_order = Ok vs"
  shows "list_all (\<lambda>v. has_type v (TStruct prop_order)) vs \<and> length vs = length chunk"
  using assms unfolding build_struct_rows_def collect_results_Ok
proof (rule list_all2_result)
  fix row v assume "and_then (typed_fields prop_order row) (\<lambda>fs. Ok (VStruct fs)) = Ok v"
  then show "has_type v (TStruct prop_order)" using row_type(1) unfolding and_then_Inr by blast
qed

lemma edge_struct_rows_type:
  assumes "build_edge_struct_rows edges prop_order = Ok vs"
  shows "list_all (\<lambda>v. has_type v (TStruct ([(''from'', TString), (''to'', TString)] @ prop_order))) vs \<and> length vs = length edges"
  using assms unfolding build_edge_struct_rows_def collect_results_Ok
proof (rule list_all2_result)
  fix e v
  assume "(case e of (from_id, to_id, props) \<Rightarrow> and_then (typed_fields prop_order props)
      (\<lambda>fs. Ok (VStruct ([(''from'', VString from_id), (''to'', VString to_id)] @ fs)))) = Ok v"
  then show "has_type v (TStruct ([(''from'', TString), (''to'', TString)] @ prop_order))"
    using row_type(2) unfolding case_prod_beta and_then_Inr by blast
qed

section \<open>Chunks\<close>

lemma slice_chunks_simps [simp]: "slice_chunks n [] = []" "slice_chunks 0 xs = []"
  "0 < n \<Longrightarrow> xs \<noteq> [] \<Longrightarrow> slice_chunks n xs = take n xs # slice_chunks n (drop n xs)"
  by (simp_all add: slice_chunks.simps [of n] slice_chunks.simps [of 0])

lemma concat_slice_chunks: "0 < n \<Longrightarrow> concat (slice_chunks n xs) = xs"
proof (induction n xs rule: slice_chunks.induct)
  case (1 n xs)
  then show ?case by (cases "xs = []") simp_all
qed

lemma slice_chunks_length: "c \<in> set (slice_chunks n xs) \<Longrightarrow> 0 < length c \<and> length c \<le> n"
proof (induction n xs rule: slice_chunks.induct)
  case (1 n xs)
  show ?case
  proof (cases "xs = [] \<or> n = 0")
    case True
    then show ?thesis using 1(2) by auto
  next
    case False
    then show ?thesis using 1 by (auto simp: slice_chunks.simps [of n xs])
  qed
qed

lemma take_slice_chunks: "0 < n \<Longrightarrow> concat (take k (slice_chunks n xs)) = take (n * k) xs"
proof (induction n xs arbitrary: k rule: slice_chunks.induct)
  case (1 n xs)
  show ?case
  proof (cases "xs = []")
    case False
    then show ?thesis using 1 by (cases k) (simp_all add: take_add)
  qed simp
qed

section \<open>What a bulk insert writes\<close>

text \<open>
  An engine that is watched keeps, beside the database, the calls that were carried out: the text of the
  statement and its parameters.
\<close>

type_synonym calls = "(string \<times> parameters) list"

definition watched :: "('s, 'd) engine \<Rightarrow> (string \<times> 's, 'd \<times> calls) engine" where
  "watched eng =
     \<lparr>prepare = (\<lambda>c. and_then (prepare eng c) (\<lambda>s. Ok (c, s))),
      query = (\<lambda>c (d, made). case query eng c d of (r, d') \<Rightarrow> (r, (d', made))),
      execute = (\<lambda>(c, s) ps (d, made). case execute eng s ps d of
        (Inl e, d') \<Rightarrow> (Err e, (d', made)) | (Inr u, d') \<Rightarrow> (Ok u, (d', made @ [(c, ps)])))\<rparr>"

definition opened :: "'d \<Rightarrow> (string \<times> 's, 'd \<times> calls) graph_store" where
  "opened d = \<lparr>stmt_cache = Map.empty, db = (d, [])\<rparr>"

abbreviation log_of :: "(string \<times> 's, 'd \<times> calls) graph_store \<Rightarrow> calls" where
  "log_of st \<equiv> snd (db st)"

definition cache_named :: "(string \<times> 's, 'd \<times> calls) graph_store \<Rightarrow> bool" where
  "cache_named st \<longleftrightarrow> (\<forall>c s. stmt_cache st c = Some (Some s) \<longrightarrow> fst s = c)"

lemma cache_named_opened [simp]: "cache_named (opened d)"
  by (simp add: cache_named_def opened_def)

lemma log_of_opened [simp]: "log_of (opened d) = []"
  by (simp add: opened_def)

lemma run_prepared_watched:
  assumes "run_prepared (watched eng) cypher v st = (r, st')" "cache_named st"
  shows "cache_named st' \<and> log_of st' = log_of st @ (case r of Inl _ \<Rightarrow> [] | Inr _ \<Rightarrow> [(cypher, [(''rows'', v)])])"
proof -
  obtain cache d made where st: "st = \<lparr>stmt_cache = cache, db = (d, made)\<rparr>" by (metis graph_store.surjective old.unit.exhaust surj_pair)
  show ?thesis
    using assms
    by (auto simp: run_prepared_def run_prepared_params_def act_bind_def take_cached_stmt_def watched_def
          return_cached_stmt_def cache_named_def st and_then_Inr and_then_Inl
          split: option.splits sum.splits prod.splits if_splits)
qed

lemma insert_chunks_watched:
  assumes "insert_chunks (watched eng) what cypher ty build chunks n st = (r, st')" "cache_named st"
  shows "\<exists>dn vss. prefix dn chunks \<and> list_all2 (\<lambda>c vs. build c = Ok vs) dn vss \<and>
           log_of st' = log_of st @ map (\<lambda>vs. (cypher, [(''rows'', VList ty vs)])) vss \<and>
           (case r of Inl _ \<Rightarrow> True | Inr m \<Rightarrow> dn = chunks \<and> m = n + length (concat chunks))"
  using assms
proof (induction chunks arbitrary: n st)
  case Nil
  then show ?case by auto
next
  case (Cons chunk chunks)
  show ?case
  proof (cases "build chunk")
    case (Inl e)
    then show ?thesis using Cons.prems by (intro exI [of _ "[]"]) auto
  next
    case (Inr vs)
    obtain r1 st1 where run: "run_prepared (watched eng) cypher (VList ty vs) st = (r1, st1)" by fastforce
    note log1 = run_prepared_watched [OF run Cons.prems(2)]
    show ?thesis
    proof (cases r1)
      case (Inl e)
      then show ?thesis using Cons.prems Inr run log1 by (intro exI [of _ "[]"]) auto
    next
      case (Inr u)
      then have rest: "insert_chunks (watched eng) what cypher ty build chunks (n + length chunk) st1 = (r, st')"
        using Cons.prems(1) \<open>build chunk = Inr vs\<close> run by simp
      from Cons.IH [OF rest] log1 obtain dn vss where
        "prefix dn chunks" "list_all2 (\<lambda>c vs. build c = Ok vs) dn vss"
        "log_of st' = log_of st1 @ map (\<lambda>vs. (cypher, [(''rows'', VList ty vs)])) vss"
        "case r of Inl _ \<Rightarrow> True | Inr m \<Rightarrow> dn = chunks \<and> m = n + length chunk + length (concat chunks)" by blast
      then show ?thesis using log1 Inr \<open>build chunk = Inr vs\<close>
        by (intro exI [of _ "chunk # dn"] exI [of _ "vs # vss"]) (auto split: sum.splits)
    qed
  qed
qed

text \<open>The rows that were handed over by the calls of a log.\<close>

definition rows_of_call :: "string \<times> parameters \<Rightarrow> db_value list" where
  "rows_of_call call = (case snd call of [(_, VList _ vs)] \<Rightarrow> vs | _ \<Rightarrow> [])"

definition written_rows :: "calls \<Rightarrow> db_value list" where
  "written_rows made = concat (map rows_of_call made)"

lemma collect_results_append:
  "collect_results (map f xs) = Ok us \<Longrightarrow> collect_results (map f ys) = Ok vs \<Longrightarrow> collect_results (map f (xs @ ys)) = Ok (us @ vs)"
  unfolding collect_results_Ok by (rule list_all2_appendI)

lemma collect_results_concat:
  "list_all2 (\<lambda>c vs. collect_results (map f c) = Ok vs) cs vss \<Longrightarrow> collect_results (map f (concat cs)) = Ok (concat vss)"
proof (induction cs vss rule: list_all2_induct)
  case (Cons c cs vs vss)
  then show ?case using collect_results_append [of f c vs "concat cs" "concat vss"] by simp
qed simp

lemma insert_slices_watched:
  assumes "insert_chunks (watched eng) what cypher ty (\<lambda>c. collect_results (map f c)) (slice_chunks BULK_BATCH_SIZE xs) 0 (opened d) = (r, st)"
  shows "collect_results (map f (take (BULK_BATCH_SIZE * length (log_of st)) xs)) = Ok (written_rows (log_of st))"
    and "case r of Inl _ \<Rightarrow> True | Inr m \<Rightarrow> m = length xs \<and> length xs \<le> BULK_BATCH_SIZE * length (log_of st)"
    and "call \<in> set (log_of st) \<Longrightarrow>
      \<exists>c vs. call = (cypher, [(''rows'', VList ty vs)]) \<and> collect_results (map f c) = Ok vs \<and> length c \<le> BULK_BATCH_SIZE"
proof -
  let ?chunks = "slice_chunks BULK_BATCH_SIZE xs"
  have pos: "0 < BULK_BATCH_SIZE" by (simp add: BULK_BATCH_SIZE_def)
  obtain dn vss where h: "prefix dn ?chunks" "list_all2 (\<lambda>c vs. collect_results (map f c) = Ok vs) dn vss"
    "log_of st = map (\<lambda>vs. (cypher, [(''rows'', VList ty vs)])) vss"
    "case r of Inl _ \<Rightarrow> True | Inr m \<Rightarrow> dn = ?chunks \<and> m = length (concat ?chunks)"
    using insert_chunks_watched [OF assms cache_named_opened] unfolding log_of_opened append_Nil add_0 by blast
  have len: "length (log_of st) = length dn" using h(2,3) by (simp add: list_all2_lengthD)
  have dn: "dn = take (length dn) ?chunks" using h(1) by (auto simp: prefix_def)
  have "written_rows (log_of st) = concat vss"
    unfolding h(3) by (simp add: written_rows_def rows_of_call_def comp_def)
  moreover have "concat dn = take (BULK_BATCH_SIZE * length (log_of st)) xs"
    using take_slice_chunks [OF pos, of "length dn" xs] dn unfolding len by simp
  ultimately show rows: "collect_results (map f (take (BULK_BATCH_SIZE * length (log_of st)) xs)) = Ok (written_rows (log_of st))"
    using collect_results_concat [OF h(2)] by simp
  show "case r of Inl _ \<Rightarrow> True | Inr m \<Rightarrow> m = length xs \<and> length xs \<le> BULK_BATCH_SIZE * length (log_of st)"
  proof (cases r)
    case (Inr m)
    then have m: "dn = ?chunks" "m = length xs" using h(4) concat_slice_chunks [OF pos, of xs] by simp_all
    have "xs = take (BULK_BATCH_SIZE * length (log_of st)) xs"
      using \<open>concat dn = _\<close> concat_slice_chunks [OF pos, of xs] m(1) by simp
    then have "length xs = min (length xs) (BULK_BATCH_SIZE * length (log_of st))" by (metis length_take min.commute)
    then show ?thesis using m(2) Inr by simp
  qed simp
  show "\<exists>c vs. call = (cypher, [(''rows'', VList ty vs)]) \<and> collect_results (map f c) = Ok vs \<and> length c \<le> BULK_BATCH_SIZE"
    if call: "call \<in> set (log_of st)"
  proof -
    obtain vs where vs: "vs \<in> set vss" "call = (cypher, [(''rows'', VList ty vs)])" using call unfolding h(3) by auto
    from vs(1) obtain i where i: "i < length vss" "vss ! i = vs" by (auto simp: in_set_conv_nth)
    then obtain c where "c \<in> set dn" "collect_results (map f c) = Ok vs"
      using list_all2_nthD2 [OF h(2) i(1)] list_all2_lengthD [OF h(2)] nth_mem by metis
    moreover have "length c \<le> BULK_BATCH_SIZE"
      using slice_chunks_length [of c BULK_BATCH_SIZE xs] \<open>c \<in> set dn\<close> h(1) set_mono_prefix by blast
    ultimately show ?thesis using vs(2) by blast
  qed
qed

text \<open>The columns that the declarations give to a node label and to the edges of a relationship table.\<close>

definition table_columns :: "string \<Rightarrow> col_types" where
  "table_columns label =
     (case map_of NODE_TABLE_SCHEMAS label of None \<Rightarrow> [] | Some text \<Rightarrow> (case declared_columns text of None \<Rightarrow> [] | Some cols \<Rightarrow> cols))"

definition edge_columns :: "string \<Rightarrow> col_types" where
  "edge_columns rel_table =
     [(''from'', TString), (''to'', TString)] @
     (case declared_columns (rel_properties rel_table) of None \<Rightarrow> [] | Some cols \<Rightarrow> cols)"

lemma node_columns_are_declared:
  assumes "node_column_types label = Ok cols"
  shows "set cols \<subseteq> set (table_columns label)"
proof -
  have "label \<in> fst ` set NODE_TABLE_SCHEMAS"
    using bulk_labels_have_tables(1) [OF assms] every_label_has_a_table by (metis Un_iff list.set_map set_append)
  then obtain columns where columns: "map_of NODE_TABLE_SCHEMAS label = Some columns"
    by (metis map_of_eq_None_iff not_None_eq)
  have "list_all (\<lambda>(label, text). case bulk_columns label of None \<Rightarrow> True | Some cols \<Rightarrow>
      (case declared_columns text of None \<Rightarrow> False | Some ds \<Rightarrow> list_all (\<lambda>c. c \<in> set ds) cols)) NODE_TABLE_SCHEMAS"
    by (rule bulk_columns_are_declared)
  from bspec [OF this [unfolded list_all_iff [where xs = NODE_TABLE_SCHEMAS]] map_of_SomeD [OF columns]]
  have "case bulk_columns label of None \<Rightarrow> True | Some cols \<Rightarrow>
      (case declared_columns columns of None \<Rightarrow> False | Some ds \<Rightarrow> list_all (\<lambda>c. c \<in> set ds) cols)"
    by simp
  then obtain ds where "declared_columns columns = Some ds" "list_all (\<lambda>c. c \<in> set ds) cols"
    by (cases "declared_columns columns") (simp_all add: bulk_columns_def assms)
  then show ?thesis unfolding table_columns_def columns list_all_iff by auto
qed

lemma edge_columns_are_declared:
  assumes "parse_rel_endpoints rel = Ok e"
  shows "set ([(''from'', TString), (''to'', TString)] @ edge_column_types rel) \<subseteq> set (edge_columns rel)"
proof -
  have "case declared_columns (rel_properties rel) of None \<Rightarrow> False | Some ds \<Rightarrow> list_all (\<lambda>c. c \<in> set ds) (edge_column_types rel)"
    using bulk_columns_are_declared(2) assms unfolding parse_rel_endpoints_Ok list_all_iff by (cases e) blast
  then show ?thesis by (auto simp: edge_columns_def list_all_iff split: option.splits)
qed

definition typed_call :: "col_types \<Rightarrow> string \<times> parameters \<Rightarrow> bool" where
  "typed_call cols call =
     (case snd call of
        [(name, VList (TStruct ts) vs)] \<Rightarrow>
          name = ''rows'' \<and> length vs \<le> BULK_BATCH_SIZE \<and> list_all (\<lambda>c. c \<in> set cols) ts \<and>
          list_all (\<lambda>v. has_type v (TStruct ts)) vs
      | _ \<Rightarrow> False)"

lemma bulk_insert_nodes_cases:
  obtains (fails) e where "bulk_insert_nodes eng label rows st = (Err e, st)" | (none) "rows = []" "bulk_insert_nodes eng label rows st = (Ok 0, st)"
  | (runs) schema cypher where "node_column_types label = Ok schema"
      "bulk_insert_nodes eng label rows st =
        insert_chunks eng ''bulk_insert_nodes'' cypher (TStruct (node_prop_order rows schema))
          (\<lambda>c. build_struct_rows c (node_prop_order rows schema)) (slice_chunks BULK_BATCH_SIZE rows) 0 st"
  by (cases "rows = []"; cases "node_column_types label")
     (auto simp: bulk_insert_nodes_def act_return_def act_fail_def build_node_unwind_def Let_def)

lemma bulk_insert_edges_cases:
  obtains (fails) e where "bulk_insert_edges eng rel edges st = (Err e, st)" | (none) "edges = []" "bulk_insert_edges eng rel edges st = (Ok 0, st)"
  | (runs) e cypher where "parse_rel_endpoints rel = Ok e"
      "bulk_insert_edges eng rel edges st =
        insert_chunks eng ''bulk_insert_edges'' cypher
          (TStruct ([(''from'', TString), (''to'', TString)] @ edge_prop_order edges (edge_column_types rel)))
          (\<lambda>c. build_edge_struct_rows c (edge_prop_order edges (edge_column_types rel))) (slice_chunks BULK_BATCH_SIZE edges) 0 st"
  by (cases "edges = []"; cases "parse_rel_endpoints rel")
     (auto simp: bulk_insert_edges_def act_return_def act_fail_def build_edge_unwind_def Let_def)

lemma typed_callI:
  "call = (cypher, [(''rows'', VList (TStruct ts) vs)]) \<Longrightarrow> list_all (\<lambda>v. has_type v (TStruct ts)) vs \<Longrightarrow>
   length vs \<le> BULK_BATCH_SIZE \<Longrightarrow> set ts \<subseteq> set cols \<Longrightarrow> typed_call cols call"
  by (auto simp: typed_call_def list_all_iff)

text \<open>
  C12: Whatever rows it is given and whatever the engine answers, a bulk insert only ever binds one list of
  at most \<open>BULK_BATCH_SIZE\<close> rows, the rows have exactly the struct type that is passed with them, and every
  field of that type is a column that the table of the label (of the relationship, with its two endpoints)
  declares with this type.
\<close>

theorem bulk_writes_are_typed:
  "list_all (typed_call (table_columns label)) (log_of (snd (bulk_insert_nodes (watched eng) label rows (opened d)))) \<and>
   list_all (typed_call (edge_columns rel)) (log_of (snd (bulk_insert_edges (watched eng) rel edges (opened d))))"
proof
  show "list_all (typed_call (table_columns label)) (log_of (snd (bulk_insert_nodes (watched eng) label rows (opened d))))"
  proof (cases rule: bulk_insert_nodes_cases [of "watched eng" label rows "opened d"])
    case (runs schema cypher)
    obtain r st where run: "bulk_insert_nodes (watched eng) label rows (opened d) = (r, st)" by fastforce
    note calls = insert_slices_watched(3) [OF run [unfolded runs(2) build_struct_rows_def]]
    have "set (node_prop_order rows schema) \<subseteq> set (table_columns label)"
      using node_columns_are_declared [OF runs(1)] by (auto simp: node_prop_order_def)
    then have "typed_call (table_columns label) call" if "call \<in> set (log_of st)" for call
      using calls [OF that] struct_rows_type [unfolded build_struct_rows_def] by (metis typed_callI)
    then show ?thesis by (simp add: run list_all_iff)
  qed simp_all
  show "list_all (typed_call (edge_columns rel)) (log_of (snd (bulk_insert_edges (watched eng) rel edges (opened d))))"
  proof (cases rule: bulk_insert_edges_cases [of "watched eng" rel edges "opened d"])
    case (runs e cypher)
    obtain r st where run: "bulk_insert_edges (watched eng) rel edges (opened d) = (r, st)" by fastforce
    note calls = insert_slices_watched(3) [OF run [unfolded runs(2) build_edge_struct_rows_def]]
    have "set ([(''from'', TString), (''to'', TString)] @ edge_prop_order edges (edge_column_types rel)) \<subseteq> set (edge_columns rel)"
      using edge_columns_are_declared [OF runs(1)] by (auto simp: edge_prop_order_def)
    then have "typed_call (edge_columns rel) call" if "call \<in> set (log_of st)" for call
      using calls [OF that] edge_struct_rows_type [unfolded build_edge_struct_rows_def] by (metis typed_callI)
    then show ?thesis by (simp add: run list_all_iff)
  qed simp_all
qed

definition bulk_schema :: "string \<Rightarrow> col_types" where
  "bulk_schema label = (case node_column_types label of Inl _ \<Rightarrow> [] | Inr cols \<Rightarrow> cols)"

text \<open>
  However a bulk insert of nodes ends, the rows that have reached the database are exactly the first of
  the given ones, each once, in their order and converted to the types of their columns: after an error
  the whole chunks before it, after a success all of them, and only then is their number returned.
\<close>

theorem bulk_insert_writes_a_prefix:
  "let (r, st) = bulk_insert_nodes (watched eng) label rows (opened d);
       order = node_prop_order rows (bulk_schema label); chunks = length (log_of st)
   in build_struct_rows (take (BULK_BATCH_SIZE * chunks) rows) order = Ok (written_rows (log_of st)) \<and>
      (case r of Inl _ \<Rightarrow> True | Inr n \<Rightarrow> n = length rows \<and> length rows \<le> BULK_BATCH_SIZE * chunks)"
proof (cases rule: bulk_insert_nodes_cases [of "watched eng" label rows "opened d"])
  case (runs schema cypher)
  obtain r st where run: "bulk_insert_nodes (watched eng) label rows (opened d) = (r, st)" by fastforce
  note slices = insert_slices_watched(1,2) [OF run [unfolded runs(2) build_struct_rows_def]]
  show ?thesis using slices by (simp add: run bulk_schema_def runs(1) build_struct_rows_def)
qed (simp_all add: build_struct_rows_def written_rows_def)

section \<open>The statement cache\<close>

fun run_calls :: "('s, 'd) engine \<Rightarrow> calls \<Rightarrow> ('s, 'd) graph_store \<Rightarrow> (unit, store_error) result list \<times> ('s, 'd) graph_store" where
  "run_calls eng [] st = ([], st)"
| "run_calls eng ((cypher, params) # rest) st =
     (case run_prepared_params eng cypher params st of (r, st1) \<Rightarrow>
      (case run_calls eng rest st1 of (rs, st2) \<Rightarrow> (r # rs, st2)))"

text \<open>The same calls without a cache: every statement is prepared for its own execution.\<close>

definition run_uncached :: "('s, 'd) engine \<Rightarrow> string \<Rightarrow> parameters \<Rightarrow> 'd \<Rightarrow> (unit, store_error) result \<times> 'd" where
  "run_uncached eng cypher params d =
     (case prepare eng cypher of
        Inl e \<Rightarrow> (Err (StoreMessage (''prepare failed ['' @ cypher @ '']: '' @ e)), d)
      | Inr stmt \<Rightarrow>
          (case execute eng stmt params d of
             (Inl e, d') \<Rightarrow> (Err (StoreMessage (''execute ['' @ cypher @ '']: '' @ e)), d')
           | (Inr _, d') \<Rightarrow> (Ok (), d')))"

fun run_all_uncached :: "('s, 'd) engine \<Rightarrow> calls \<Rightarrow> 'd \<Rightarrow> (unit, store_error) result list \<times> 'd" where
  "run_all_uncached eng [] d = ([], d)"
| "run_all_uncached eng ((cypher, params) # rest) d =
     (case run_uncached eng cypher params d of (r, d1) \<Rightarrow>
      (case run_all_uncached eng rest d1 of (rs, d2) \<Rightarrow> (r # rs, d2)))"

definition cache_ok :: "('s, 'd) engine \<Rightarrow> string set \<Rightarrow> ('s, 'd) graph_store \<Rightarrow> bool" where
  "cache_ok eng texts st \<longleftrightarrow>
     (\<forall>c. stmt_cache st c = (if c \<in> texts then (case prepare eng c of Inl _ \<Rightarrow> None | Inr s \<Rightarrow> Some (Some s)) else None))"

lemma run_prepared_uncached:
  assumes "cache_ok eng texts st"
  shows "fst (run_prepared_params eng cypher params st) = fst (run_uncached eng cypher params (db st))"
    "db (snd (run_prepared_params eng cypher params st)) = snd (run_uncached eng cypher params (db st))"
    "cache_ok eng (insert cypher texts) (snd (run_prepared_params eng cypher params st))"
proof -
  have slot: "stmt_cache st c = (if c \<in> texts then (case prepare eng c of Inl _ \<Rightarrow> None | Inr s \<Rightarrow> Some (Some s)) else None)" for c
    using assms by (simp add: cache_ok_def)
  note defs = run_prepared_params_def act_bind_def take_cached_stmt_def run_uncached_def return_cached_stmt_def slot [of cypher]
  show "fst (run_prepared_params eng cypher params st) = fst (run_uncached eng cypher params (db st))"
    "db (snd (run_prepared_params eng cypher params st)) = snd (run_uncached eng cypher params (db st))"
    by (cases "cypher \<in> texts"; cases "prepare eng cypher"; simp add: defs split: prod.splits sum.splits)+
  show "cache_ok eng (insert cypher texts) (snd (run_prepared_params eng cypher params st))"
    unfolding cache_ok_def
    by (cases "cypher \<in> texts"; cases "prepare eng cypher"; simp add: defs slot split: prod.splits sum.splits)
qed

lemma run_calls_uncached:
  assumes "cache_ok eng texts st"
  shows "fst (run_calls eng made st) = fst (run_all_uncached eng made (db st)) \<and>
    db (snd (run_calls eng made st)) = snd (run_all_uncached eng made (db st)) \<and>
    cache_ok eng (texts \<union> fst ` set made) (snd (run_calls eng made st))"
  using assms
proof (induction made arbitrary: texts st)
  case (Cons call rest)
  obtain cypher params where call: "call = (cypher, params)" by fastforce
  note step = run_prepared_uncached [OF Cons.prems, of cypher params]
  show ?case using Cons.IH [OF step(3)] step(1,2) by (simp add: call case_prod_beta Un_commute)
qed simp


end
