(* ===== verification/Process_Trace.thy ===== *)
theory Process_Trace
  imports Graph_Store "HOL-Library.Multiset"
begin

text \<open>
  Entry points and call chains, \<open>src/clustering/process.rs\<close>: the rules that find entry points, the
  breadth-first search along the call edges, and what is stored for each process.  A hash map that is
  iterated over is the list of its entries in the order of their insertion; nothing stated here depends
  on that order.  A confidence is the text that \<open>to_string\<close> gives.
\<close>

section \<open>Entry points\<close>

record process_info =
  name :: string
  entry_point :: string
  entry_kind :: string
  depth :: nat
  node_count :: nat

record entry_point_row =
  entry_id :: string
  entry_label :: string
  entry_name :: string
  qualified_name :: string
  kind :: string
  confidence :: string

abbreviation quoted :: "string \<Rightarrow> string" where
  "quoted s \<equiv> [CHR 0x27] @ s @ [CHR 0x27]"

abbreviation not_rust :: string where
  "not_rust \<equiv> ''(f.language IS NULL OR f.language <> '' @ quoted ''rust'' @ '') AND ''"

text \<open>A predicate over the function \<open>f\<close>, the kind it assigns and how much to trust it.\<close>

definition ENTRY_RULES :: "(string \<times> string \<times> string) list" where
  "ENTRY_RULES =
     [(''f.language = '' @ quoted ''rust'' @ '' AND f.entry_kind = '' @ quoted ''proof'', ''proof'', ''1''),
      (''f.language = '' @ quoted ''rust'' @ '' AND f.entry_kind = '' @ quoted ''test'', ''test'', ''1''),
      (''f.name = '' @ quoted ''main'', ''main'', ''1''),
      (''f.language = '' @ quoted ''go'' @ '' AND f.name = '' @ quoted ''Main'', ''main'', ''0.9''),
      (not_rust @ ''f.name STARTS WITH '' @ quoted ''test_'', ''test'', ''1''),
      (''f.name STARTS WITH '' @ quoted ''do_'', ''handler'', ''0.8''),
      (''f.name =~ '' @ quoted ''^on[A-Z][A-Za-z]*$'', ''android_lifecycle'', ''0.95''),
      (''f.name IN ['' @ join_with '', '' [quoted ''query'', quoted ''insert'', quoted ''update'', quoted ''delete'',
         quoted ''getType'', quoted ''openFile''] @ '']'', ''android_provider'', ''0.85''),
      (''f.name IN ['' @ quoted ''doWork'' @ '', '' @ quoted ''createWork'' @ '']'', ''android_worker'', ''0.95''),
      (''f.name =~ '' @ quoted ''^[A-Z][a-zA-Z0-9]{1,40}$'' @ '' AND f.visibility IN ['' @ quoted ''public'' @ '', '' @
         quoted ''pub'' @ '']'', ''composable_candidate'', ''0.5''),
      (not_rust @ ''f.name STARTS WITH '' @ quoted ''test'' @ '' AND NOT f.name STARTS WITH '' @ quoted ''test_'', ''test'', ''1''),
      (not_rust @ ''f.name ENDS WITH '' @ quoted ''Test'', ''test'', ''1''),
      (''f.name ENDS WITH '' @ quoted ''_handler'' @ '' OR f.name ENDS WITH '' @ quoted ''Handler'', ''handler'', ''0.8'')]"

definition PUBLIC_VISIBILITY_VALUES :: "string list" where
  "PUBLIC_VISIBILITY_VALUES = [''pub'', ''export'', ''public'', ''open'']"

definition LIB_ENTRY_FILE_EXTENSIONS :: "string list" where
  "LIB_ENTRY_FILE_EXTENSIONS =
     [''.rs'', ''.ts'', ''.tsx'', ''.js'', ''.mjs'', ''.cjs'', ''.jsx'', ''.py'', ''.java'', ''.kt'', ''.kts'', ''.swift'', ''.go'',
      ''.c'', ''.h'', ''.cc'', ''.cpp'', ''.cxx'', ''.hpp'', ''.m'', ''.mm'']"

definition ends_with_any :: "string \<Rightarrow> string list \<Rightarrow> bool" where
  "ends_with_any s sufs = list_ex (ends_with s) sufs"

text \<open>\<open>split("::")\<close>.\<close>

fun split_colons :: "string \<Rightarrow> string list" where
  "split_colons (a # b # s) =
     (if a = CHR '':'' \<and> b = CHR '':'' then [] # split_colons s
      else (case split_colons (b # s) of [] \<Rightarrow> [[a]] | seg # segs \<Rightarrow> (a # seg) # segs))"
| "split_colons s = [s]"

definition entry_of_row :: "string \<Rightarrow> string \<Rightarrow> string list \<Rightarrow> entry_point_row list" where
  "entry_of_row knd conf row =
     (case row of
        i # n # qn # _ \<Rightarrow>
          [\<lparr>entry_id = i, entry_label = ''Function'', entry_name = n, qualified_name = qn, kind = knd, confidence = conf\<rparr>]
      | _ \<Rightarrow> [])"

definition query_entries ::
  "('s, 'd) engine \<Rightarrow> string \<Rightarrow> string \<Rightarrow> string \<Rightarrow> entry_point_row list \<Rightarrow> ('s, 'd, entry_point_row list) action" where
  "query_entries eng rule knd conf out =
     act_bind (execute_query eng (''MATCH (f:Function) WHERE '' @ rule @ '' RETURN f.id, f.name, f.qualified_name''))
       (\<lambda>rows. act_return (out @ concat (map (entry_of_row knd conf) rows)))"

fun query_rules ::
  "('s, 'd) engine \<Rightarrow> (string \<times> string \<times> string) list \<Rightarrow> entry_point_row list \<Rightarrow> ('s, 'd, entry_point_row list) action" where
  "query_rules eng [] out = act_return out"
| "query_rules eng ((rule, knd, conf) # rules) out =
     act_bind (query_entries eng rule knd conf out) (query_rules eng rules)"

definition add_lib_entry :: "string list \<Rightarrow> entry_point_row list \<Rightarrow> entry_point_row list" where
  "add_lib_entry row entries =
     (case row of
        i # n # qn # _ \<Rightarrow>
          (let segments = split_colons qn in
           if length segments = 2 \<and> ends_with_any (hd segments) LIB_ENTRY_FILE_EXTENSIONS \<and>
              \<not> list_ex (\<lambda>e. entry_id e = i) entries
           then entries @ entry_of_row ''lib_entry'' ''0.6'' row else entries)
      | _ \<Rightarrow> entries)"

definition detect_lib_entries :: "('s, 'd) engine \<Rightarrow> entry_point_row list \<Rightarrow> ('s, 'd, entry_point_row list) action" where
  "detect_lib_entries eng entries =
     act_bind
       (execute_query eng (''MATCH (f:Function) WHERE f.visibility IN ['' @
          join_with '','' (map (\<lambda>v. quoted v) PUBLIC_VISIBILITY_VALUES) @ ''] RETURN f.id, f.name, f.qualified_name''))
       (\<lambda>rows. act_return (fold add_lib_entry rows entries))"

text \<open>\<open>retain\<close> with a set of the ids seen: the first entry of every id is kept.\<close>

fun retain_first :: "string set \<Rightarrow> entry_point_row list \<Rightarrow> entry_point_row list" where
  "retain_first seen [] = []"
| "retain_first seen (e # es) =
     (if entry_id e \<in> seen then retain_first seen es else e # retain_first (insert (entry_id e) seen) es)"

definition detect_entry_points :: "('s, 'd) engine \<Rightarrow> ('s, 'd, entry_point_row list) action" where
  "detect_entry_points eng =
     act_bind (query_rules eng ENTRY_RULES []) (\<lambda>entries.
       act_bind (detect_lib_entries eng entries) (\<lambda>all. act_return (retain_first {} all)))"

section \<open>The search\<close>

definition MAX_BFS_DEPTH :: nat where
  "MAX_BFS_DEPTH = 20"

type_synonym call_edges = "string \<Rightarrow> string list option"
type_synonym depths = "(string \<times> nat) list"

definition visit_target :: "nat \<Rightarrow> string \<Rightarrow> depths \<times> depths \<Rightarrow> depths \<times> depths" where
  "visit_target d target acc =
     (case acc of (ds, queue) \<Rightarrow>
        if target \<in> fst ` set ds then acc else (ds @ [(target, d)], queue @ [(target, d)]))"

definition expand_node :: "call_edges \<Rightarrow> string \<Rightarrow> nat \<Rightarrow> depths \<times> depths \<Rightarrow> depths \<times> depths" where
  "expand_node edges node d acc =
     (if MAX_BFS_DEPTH \<le> d then acc
      else (case edges node of None \<Rightarrow> acc | Some targets \<Rightarrow> fold (visit_target (d + 1)) targets acc))"

lemma visit_targets:
  "\<exists>new. fold (visit_target d) targets (ds, queue) = (ds @ new, queue @ new) \<and> (\<forall>x \<in> set new. snd x = d) \<and>
     fst ` set (ds @ new) = fst ` set ds \<union> set targets \<and> fst ` set new \<subseteq> set targets \<and>
     (distinct (map fst ds) \<longrightarrow> distinct (map fst (ds @ new)))"
proof (induction targets arbitrary: ds queue)
  case Nil
  then show ?case by (intro exI [of _ "[]"]) simp
next
  case (Cons t targets)
  show ?case
  proof (cases "t \<in> fst ` set ds")
    case True
    have "fst ` set ds \<union> set (t # targets) = fst ` set ds \<union> set targets" using True by auto
    moreover have "visit_target d t (ds, queue) = (ds, queue)" using True by (simp add: visit_target_def)
    ultimately show ?thesis using Cons.IH [of ds queue] by (metis (no_types, lifting) fold_simps(2) set_subset_Cons subset_trans)
  next
    case False
    from Cons.IH [of "ds @ [(t, d)]" "queue @ [(t, d)]"] obtain new where
      "fold (visit_target d) targets (ds @ [(t, d)], queue @ [(t, d)]) = (ds @ (t, d) # new, queue @ (t, d) # new)"
      "\<forall>x \<in> set new. snd x = d" "fst ` set (ds @ (t, d) # new) = fst ` set (ds @ [(t, d)]) \<union> set targets"
      "fst ` set new \<subseteq> set targets" "distinct (map fst (ds @ [(t, d)])) \<longrightarrow> distinct (map fst (ds @ (t, d) # new))"
      by auto
    moreover have "distinct (map fst ds) \<longrightarrow> distinct (map fst (ds @ [(t, d)]))" using False by simp
    moreover have "visit_target d t (ds, queue) = (ds @ [(t, d)], queue @ [(t, d)])" using False by (simp add: visit_target_def)
    ultimately show ?thesis using False by (intro exI [of _ "(t, d) # new"]) auto
  qed
qed

lemma expand_node_appends:
  "\<exists>new. expand_node edges node d (ds, queue) = (ds @ new, queue @ new) \<and> (\<forall>x \<in> set new. snd x = Suc d) \<and>
     (new \<noteq> [] \<longrightarrow> d < MAX_BFS_DEPTH)"
proof (cases "MAX_BFS_DEPTH \<le> d \<or> edges node = None")
  case True
  then show ?thesis by (intro exI [of _ "[]"]) (auto simp: expand_node_def)
next
  case False
  then obtain targets where "edges node = Some targets" by auto
  then show ?thesis using visit_targets [of "d + 1" targets ds queue] False by (auto simp: expand_node_def)
qed

text \<open>
  Every round replaces the first entry of the queue by entries that are one deeper, and none below the
  bound: the multiset of what the depths leave to the bound decreases.
\<close>

function bfs_loop :: "call_edges \<Rightarrow> depths \<Rightarrow> depths \<Rightarrow> depths" where
  "bfs_loop edges ds [] = ds"
| "bfs_loop edges ds ((node, d) # queue) =
     (case expand_node edges node d (ds, queue) of (ds', queue') \<Rightarrow> bfs_loop edges ds' queue')"
  by pat_completeness auto

termination bfs_loop
proof (relation "inv_image (mult less_than) (\<lambda>(edges, ds, queue). mset (map (\<lambda>(_, d). Suc MAX_BFS_DEPTH - d) queue))")
  show "wf (inv_image (mult less_than) (\<lambda>(edges, ds, queue). mset (map (\<lambda>(_, d). Suc MAX_BFS_DEPTH - d) queue)))"
    by (intro wf_inv_image wf_mult wf_less_than)
next
  fix edges :: call_edges and ds queue ds' queue' :: depths and node d
  assume p: "(ds', queue') = expand_node edges node d (ds, queue)"
  obtain new where new: "queue' = queue @ new" "\<forall>x \<in> set new. snd x = Suc d" "new \<noteq> [] \<longrightarrow> d < MAX_BFS_DEPTH"
    using expand_node_appends [of edges node d ds queue] unfolding p [symmetric] by auto
  let ?m = "\<lambda>q. mset (map (\<lambda>(_, d). Suc MAX_BFS_DEPTH - d) q)"
  have "(?m queue + ?m new, ?m queue + {#Suc MAX_BFS_DEPTH - d#}) \<in> mult less_than"
    using new(2,3) by (intro one_step_implies_mult) force+
  then show "((edges, ds', queue'), (edges, ds, (node, d) # queue)) \<in>
      inv_image (mult less_than) (\<lambda>(edges, ds, queue). ?m queue)"
    by (simp add: new(1))
qed

definition bfs_from_entry :: "string \<Rightarrow> call_edges \<Rightarrow> depths" where
  "bfs_from_entry start edges = bfs_loop edges [(start, 0)] [(start, 0)]"


section \<open>The depth is the distance\<close>

definition calls_rel :: "call_edges \<Rightarrow> (string \<times> string) set" where
  "calls_rel edges = {(a, b). \<exists>ts. edges a = Some ts \<and> b \<in> set ts}"

text \<open>The least number of calls that lead from one function to another.\<close>

definition call_distance :: "call_edges \<Rightarrow> string \<Rightarrow> string \<Rightarrow> nat \<Rightarrow> bool" where
  "call_distance edges s x k \<longleftrightarrow> (s, x) \<in> calls_rel edges ^^ k \<and> (\<forall>j < k. (s, x) \<notin> calls_rel edges ^^ j)"

text \<open>
  The invariant of the search: recorded depths are lengths of paths, the queue holds recorded nodes in the
  order of their depths, nothing is more than one deeper than its head, and the targets of a node that has
  left the queue are recorded at most one deeper.
\<close>

definition bfs_inv :: "call_edges \<Rightarrow> string \<Rightarrow> depths \<Rightarrow> depths \<Rightarrow> bool" where
  "bfs_inv edges s ds queue \<longleftrightarrow>
     distinct (map fst ds) \<and> (s, 0) \<in> set ds \<and> set queue \<subseteq> set ds \<and> sorted (map snd queue) \<and>
     (\<forall>(x, k) \<in> set ds. k \<le> MAX_BFS_DEPTH \<and> (s, x) \<in> calls_rel edges ^^ k) \<and>
     (\<forall>h q. queue = h # q \<longrightarrow> (\<forall>(x, k) \<in> set ds. k \<le> Suc (snd h))) \<and>
     (\<forall>(x, k) \<in> set ds - set queue. k < MAX_BFS_DEPTH \<longrightarrow>
        (\<forall>y. (x, y) \<in> calls_rel edges \<longrightarrow> (\<exists>j \<le> Suc k. (y, j) \<in> set ds)))"

lemma expand_node_result:
  assumes "expand_node edges node d (ds, queue) = (ds', queue')"
  obtains new where "ds' = ds @ new" "queue' = queue @ new" "\<forall>(x, k) \<in> set new. k = Suc d \<and> (node, x) \<in> calls_rel edges"
    "distinct (map fst ds) \<Longrightarrow> distinct (map fst ds')" "d < MAX_BFS_DEPTH \<or> new = []"
    "d < MAX_BFS_DEPTH \<Longrightarrow> (node, y) \<in> calls_rel edges \<Longrightarrow> y \<in> fst ` set ds'"
proof (cases "d < MAX_BFS_DEPTH")
  case False
  then show thesis using assms that [of "[]"] by (simp add: expand_node_def)
next
  case less: True
  show thesis
  proof (cases "edges node")
    case None
    then show thesis using assms that [of "[]"] by (auto simp: expand_node_def calls_rel_def split: if_splits)
  next
    case (Some targets)
    obtain new where new: "fold (visit_target (d + 1)) targets (ds, queue) = (ds @ new, queue @ new)"
      "\<forall>x \<in> set new. snd x = d + 1" "fst ` set (ds @ new) = fst ` set ds \<union> set targets" "fst ` set new \<subseteq> set targets"
      "distinct (map fst ds) \<longrightarrow> distinct (map fst (ds @ new))"
      using visit_targets [of "d + 1" targets ds queue] by blast
    then have "ds' = ds @ new" "queue' = queue @ new" using assms less Some by (simp_all add: expand_node_def)
    moreover have "(node, y) \<in> calls_rel edges \<longleftrightarrow> y \<in> set targets" for y using Some by (simp add: calls_rel_def)
    ultimately show thesis using new less by (intro that [of new]) (auto simp: subset_iff image_iff)
  qed
qed

lemma bfs_inv_step:
  assumes inv: "bfs_inv edges s ds ((node, d) # queue)" and step: "expand_node edges node d (ds, queue) = (ds', queue')"
  shows "bfs_inv edges s ds' queue'"
proof -
  obtain new where new: "ds' = ds @ new" "queue' = queue @ new" "\<forall>(x, k) \<in> set new. k = Suc d \<and> (node, x) \<in> calls_rel edges"
    "distinct (map fst ds) \<Longrightarrow> distinct (map fst ds')" "d < MAX_BFS_DEPTH \<or> new = []"
    "\<And>y. d < MAX_BFS_DEPTH \<Longrightarrow> (node, y) \<in> calls_rel edges \<Longrightarrow> y \<in> fst ` set ds'"
    using expand_node_result [OF step] by metis
  have i1: "distinct (map fst ds)" "(s, 0) \<in> set ds" "(node, d) \<in> set ds" "set queue \<subseteq> set ds"
      "sorted (map snd ((node, d) # queue))"
    using inv unfolding bfs_inv_def by simp_all
  have i6: "k \<le> MAX_BFS_DEPTH \<and> (s, x) \<in> calls_rel edges ^^ k" if "(x, k) \<in> set ds" for x k
    using inv that unfolding bfs_inv_def by fast
  have i7: "k \<le> Suc d" if "(x, k) \<in> set ds" for x k
    using inv that unfolding bfs_inv_def by fastforce
  have i8: "\<exists>j \<le> Suc k. (y, j) \<in> set ds"
    if "(x, k) \<in> set ds" "(x, k) \<notin> set ((node, d) # queue)" "k < MAX_BFS_DEPTH" "(x, y) \<in> calls_rel edges" for x k y
    using inv that unfolding bfs_inv_def by fast
  note i = i1 i6 i7 i8
  have deep: "k = Suc d \<and> d < MAX_BFS_DEPTH \<and> (s, x) \<in> calls_rel edges ^^ k" if "(x, k) \<in> set new" for x k
    using new(3,5) that i(6) [OF i(3)] by (auto intro: relpow_Suc_I)
  have le: "k \<le> Suc d" if "(x, k) \<in> set ds'" for x k
    using that i(7) deep unfolding new(1) by fastforce
  have "sorted (map snd queue')"
  proof -
    have "map snd new = replicate (length new) (Suc d)" using deep by (intro replicate_eqI) auto
    then have "sorted (map snd new)" by simp
    moreover have "x \<le> y" if "x \<in> set (map snd queue)" "y \<in> set (map snd new)" for x y
    proof -
      have "y = Suc d" using that(2) deep by auto
      moreover have "x \<le> Suc d" using that(1) i1(4) i7 by auto
      ultimately show ?thesis by simp
    qed
    ultimately show ?thesis using i1(5) unfolding new(2) map_append sorted_append by simp
  qed
  moreover have "\<forall>h q. queue' = h # q \<longrightarrow> (\<forall>(x, k) \<in> set ds'. k \<le> Suc (snd h))"
  proof (intro allI impI)
    fix h q assume "queue' = h # q"
    then have "h \<in> set queue \<or> h \<in> set new" unfolding new(2) by (metis list.set_intros(1) Un_iff set_append)
    then have "d \<le> snd h" using i(5) deep [of "fst h" "snd h"] by auto
    then show "\<forall>(x, k) \<in> set ds'. k \<le> Suc (snd h)" using le by fastforce
  qed
  moreover have "\<forall>(x, k) \<in> set ds' - set queue'. k < MAX_BFS_DEPTH \<longrightarrow>
        (\<forall>y. (x, y) \<in> calls_rel edges \<longrightarrow> (\<exists>j \<le> Suc k. (y, j) \<in> set ds'))"
  proof (clarify)
    fix x k y assume h: "(x, k) \<in> set ds'" "(x, k) \<notin> set queue'" "k < MAX_BFS_DEPTH" "(x, y) \<in> calls_rel edges"
    show "\<exists>j \<le> Suc k. (y, j) \<in> set ds'"
    proof (cases "(x, k) = (node, d)")
      case True
      then obtain j where "(y, j) \<in> set ds'" using new(6) h by force
      then show ?thesis using le True by blast
    next
      case False
      then have "(x, k) \<in> set ds" "(x, k) \<notin> set ((node, d) # queue)" using h(1,2) unfolding new(1,2) by auto
      then show ?thesis using i(8) h(3,4) unfolding new(1) by (metis UnI1 set_append)
    qed
  qed
  ultimately show ?thesis
    using new(4) [OF i(1)] i(2,4,6) deep unfolding bfs_inv_def new(1,2) by (auto, fastforce)
qed

lemma bfs_loop_inv: "bfs_inv edges s ds queue \<Longrightarrow> bfs_inv edges s (bfs_loop edges ds queue) []"
proof (induction edges ds queue rule: bfs_loop.induct)
  case (2 edges ds node d queue)
  then show ?case using bfs_inv_step by (auto split: prod.splits)
qed simp

text \<open>
  C15: The search from an entry point ends and records every function that can be reached from it by at
  most \<open>MAX_BFS_DEPTH\<close> calls exactly once, with its distance: the least number of calls that lead to it.
\<close>

theorem bfs_records_the_call_distance:
  "distinct (map fst (bfs_from_entry start edges)) \<and>
   set (bfs_from_entry start edges) = {(x, k). call_distance edges start x k \<and> k \<le> MAX_BFS_DEPTH}"
proof -
  let ?ds = "bfs_from_entry start edges"
  have "bfs_inv edges start [(start, 0)] [(start, 0)]" by (simp add: bfs_inv_def)
  then have inv: "bfs_inv edges start ?ds []" unfolding bfs_from_entry_def by (rule bfs_loop_inv)
  have path: "k \<le> MAX_BFS_DEPTH \<and> (start, x) \<in> calls_rel edges ^^ k" if "(x, k) \<in> set ?ds" for x k
    using inv that unfolding bfs_inv_def by fast
  have near: "\<exists>j \<le> k. (x, j) \<in> set ?ds" if "(start, x) \<in> calls_rel edges ^^ k" "k \<le> MAX_BFS_DEPTH" for x k
    using that
  proof (induction k arbitrary: x)
    case 0
    then show ?case using inv by (auto simp: bfs_inv_def)
  next
    case (Suc k)
    then obtain y where y: "(start, y) \<in> calls_rel edges ^^ k" "(y, x) \<in> calls_rel edges" by (meson relpow_Suc_E)
    then obtain j where j: "j \<le> k" "(y, j) \<in> set ?ds" using Suc by fastforce
    then obtain i where "i \<le> Suc j" "(x, i) \<in> set ?ds"
      using inv y(2) Suc.prems(2) unfolding bfs_inv_def by fastforce
    then show ?case using j(1) by (meson Suc_le_mono le_trans)
  qed
  have uniq: "j = k" if "(x, j) \<in> set ?ds" "(x, k) \<in> set ?ds" for x j k
    using inv that eq_key_imp_eq_value unfolding bfs_inv_def by fast
  have "(x, k) \<in> set ?ds \<longleftrightarrow> call_distance edges start x k \<and> k \<le> MAX_BFS_DEPTH" for x k
  proof
    assume k: "(x, k) \<in> set ?ds"
    have "(start, x) \<notin> calls_rel edges ^^ j" if "j < k" for j
    proof
      assume "(start, x) \<in> calls_rel edges ^^ j"
      then obtain i where "i \<le> j" "(x, i) \<in> set ?ds" using near [of x j] path [OF k] \<open>j < k\<close> by auto
      then show False using uniq [OF k] \<open>j < k\<close> by fastforce
    qed
    then show "call_distance edges start x k \<and> k \<le> MAX_BFS_DEPTH" using path [OF k] by (simp add: call_distance_def)
  next
    assume k: "call_distance edges start x k \<and> k \<le> MAX_BFS_DEPTH"
    then obtain j where "j \<le> k" "(x, j) \<in> set ?ds" using near unfolding call_distance_def by blast
    moreover from this have "\<not> j < k" using k path unfolding call_distance_def by blast
    ultimately show "(x, k) \<in> set ?ds" by simp
  qed
  moreover have "distinct (map fst ?ds)" using inv by (simp add: bfs_inv_def)
  ultimately show ?thesis by auto
qed

section \<open>What is stored\<close>

definition process_id :: "entry_point_row \<Rightarrow> string" where
  "process_id entry = ''process::'' @ qualified_name entry"

definition persist_process_node :: "('s, 'd) engine \<Rightarrow> entry_point_row \<Rightarrow> string \<Rightarrow> nat \<Rightarrow> nat \<Rightarrow> ('s, 'd, unit) action" where
  "persist_process_node eng entry pid symbol_count max_depth =
     act_bind
       (insert_node eng ''Process''
          [(''id'', cypher_str pid), (''name'', cypher_str pid), (''entry_point_id'', cypher_str (entry_id entry)),
           (''entry_kind'', cypher_str (kind entry)), (''entry_confidence'', confidence entry),
           (''depth'', decimal max_depth), (''symbol_count'', decimal symbol_count)])
       (\<lambda>_.
          let ep_rel = ''EntryPointOf_'' @ entry_label entry @ ''_Process'' in
          if \<not> is_known_rel_table ep_rel then act_return ()
          else insert_edge eng ep_rel (entry_id entry) pid [(''confidence'', confidence entry)])"

text \<open>The participation edges, grouped by their table in the order in which a table is met first.\<close>

fun group_edge :: "string \<Rightarrow> prop_edge \<Rightarrow> (string \<times> prop_edge list) list \<Rightarrow> (string \<times> prop_edge list) list" where
  "group_edge rel e [] = [(rel, [e])]"
| "group_edge rel e ((r, es) # groups) = (if r = rel then (r, es @ [e]) # groups else (r, es) # group_edge rel e groups)"

definition participation :: "string \<Rightarrow> (string \<Rightarrow> string option) \<Rightarrow> string \<times> nat \<Rightarrow> (string \<times> prop_edge) option" where
  "participation pid id_to_label n =
     (case id_to_label (fst n) of
        None \<Rightarrow> None
      | Some lbl \<Rightarrow>
          let rel = ''ParticipatesIn_'' @ lbl @ ''_Process'' in
          if is_known_rel_table rel then Some (rel, (fst n, pid, [(''depth'', decimal (snd n))])) else None)"

definition participation_groups :: "string \<Rightarrow> (string \<Rightarrow> string option) \<Rightarrow> depths \<Rightarrow> (string \<times> prop_edge list) list" where
  "participation_groups pid id_to_label ds =
     fold (\<lambda>n groups. case participation pid id_to_label n of None \<Rightarrow> groups | Some (rel, e) \<Rightarrow> group_edge rel e groups) ds []"

fun insert_groups :: "('s, 'd) engine \<Rightarrow> (string \<times> prop_edge list) list \<Rightarrow> ('s, 'd, unit) action" where
  "insert_groups eng [] = act_return ()"
| "insert_groups eng ((rel, edges) # groups) = act_bind (bulk_insert_edges eng rel edges) (\<lambda>_. insert_groups eng groups)"

definition persist_participates_in ::
  "('s, 'd) engine \<Rightarrow> depths \<Rightarrow> string \<Rightarrow> (string \<Rightarrow> string option) \<Rightarrow> ('s, 'd, unit) action" where
  "persist_participates_in eng ds pid id_to_label = insert_groups eng (participation_groups pid id_to_label ds)"

definition max_depth_of :: "depths \<Rightarrow> nat" where
  "max_depth_of ds = fold max (map snd ds) 0"

definition trace_one_process ::
  "('s, 'd) engine \<Rightarrow> entry_point_row \<Rightarrow> call_edges \<Rightarrow> (string \<Rightarrow> string option) \<Rightarrow> ('s, 'd, process_info) action" where
  "trace_one_process eng entry edges id_to_label =
     (let pid = process_id entry; ds = bfs_from_entry (entry_id entry) edges;
          max_depth = max_depth_of ds; symbol_count = length ds
      in act_bind (persist_process_node eng entry pid symbol_count max_depth) (\<lambda>_.
         act_bind (persist_participates_in eng ds pid id_to_label) (\<lambda>_.
         act_return \<lparr>name = pid, entry_point = qualified_name entry, entry_kind = kind entry,
           depth = max_depth, node_count = symbol_count\<rparr>)))"

text \<open>A query that fails is passed over.\<close>

definition query_or_skip :: "('s, 'd) engine \<Rightarrow> string \<Rightarrow> ('s, 'd, string list list) action" where
  "query_or_skip eng cypher st = (case execute_query eng cypher st of (Inl _, st') \<Rightarrow> (Ok [], st') | (Inr rows, st') \<Rightarrow> (Ok rows, st'))"

fun build_call_target_labels ::
  "('s, 'd) engine \<Rightarrow> string list \<Rightarrow> (string \<Rightarrow> string option) \<Rightarrow> ('s, 'd, string \<Rightarrow> string option) action" where
  "build_call_target_labels eng [] m = act_return m"
| "build_call_target_labels eng (label # labels) m =
     act_bind (query_or_skip eng (''MATCH (n:'' @ label @ '') RETURN n.id'')) (\<lambda>rows.
       build_call_target_labels eng labels
         (fold (\<lambda>row m. case row of [] \<Rightarrow> m | i # _ \<Rightarrow> m(i \<mapsto> label)) rows m))"

definition call_rels :: "(string \<times> string \<times> string) list" where
  "call_rels =
     [(''Calls_Function_Function'', ''Function'', ''Function''), (''Calls_Function_Method'', ''Function'', ''Method''),
      (''Calls_Method_Function'', ''Method'', ''Function''), (''Calls_Method_Method'', ''Method'', ''Method'')]"

definition add_call :: "string list \<Rightarrow> call_edges \<Rightarrow> call_edges" where
  "add_call row edges =
     (case row of
        a # b # _ \<Rightarrow> edges(a \<mapsto> (case edges a of None \<Rightarrow> [] | Some ts \<Rightarrow> ts) @ [b])
      | _ \<Rightarrow> edges)"

fun collect_call_edges :: "('s, 'd) engine \<Rightarrow> (string \<times> string \<times> string) list \<Rightarrow> call_edges \<Rightarrow> ('s, 'd, call_edges) action" where
  "collect_call_edges eng [] edges = act_return edges"
| "collect_call_edges eng ((rel, from_label, to_label) # rels) edges =
     act_bind (query_or_skip eng (''MATCH (a:'' @ from_label @ '')-[:'' @ rel @ '']->(b:'' @ to_label @ '') RETURN a.id, b.id''))
       (\<lambda>rows. collect_call_edges eng rels (fold add_call rows edges))"

fun trace_entries ::
  "('s, 'd) engine \<Rightarrow> entry_point_row list \<Rightarrow> call_edges \<Rightarrow> (string \<Rightarrow> string option) \<Rightarrow> nat \<Rightarrow> ('s, 'd, nat) action" where
  "trace_entries eng [] edges id_to_label traced = act_return traced"
| "trace_entries eng (entry # entries) edges id_to_label traced =
     act_bind (trace_one_process eng entry edges id_to_label) (\<lambda>_. trace_entries eng entries edges id_to_label (traced + 1))"

definition trace_processes :: "('s, 'd) engine \<Rightarrow> ('s, 'd, nat) action" where
  "trace_processes eng =
     act_bind (require_entry_metadata eng) (\<lambda>_.
     act_bind (detect_entry_points eng) (\<lambda>entries.
     act_bind (collect_call_edges eng call_rels Map.empty) (\<lambda>edges.
     act_bind (build_call_target_labels eng [''Function'', ''Method''] Map.empty) (\<lambda>id_to_label.
       trace_entries eng entries edges id_to_label 0))))"

definition process_of_row :: "string list \<Rightarrow> process_info list" where
  "process_of_row row =
     (case row of
        _ # n # entry # knd # dep # cnt # _ \<Rightarrow>
          if n = [] then []
          else [\<lparr>name = n, entry_point = entry, entry_kind = knd,
                 depth = (case parse_u64 dep of Some k \<Rightarrow> k | None \<Rightarrow> 0),
                 node_count = (case parse_u64 cnt of Some k \<Rightarrow> k | None \<Rightarrow> 0)\<rparr>]
      | _ \<Rightarrow> [])"

definition get_processes :: "('s, 'd) engine \<Rightarrow> ('s, 'd, process_info list) action" where
  "get_processes eng =
     act_bind (execute_query eng ''MATCH (p:Process) RETURN p.id, p.name, p.entry_point_id, p.entry_kind, p.depth, p.symbol_count'')
       (\<lambda>rows. act_return (concat (map process_of_row rows)))"

section \<open>Entry points are distinct, the most specific first\<close>

lemma retain_first_keys:
  "distinct (map entry_id (retain_first seen es)) \<and> entry_id ` set (retain_first seen es) = entry_id ` set es - seen"
  by (induction es arbitrary: seen) auto

lemma retain_first_find:
  "i \<notin> seen \<Longrightarrow> find (\<lambda>e. entry_id e = i) (retain_first seen es) = find (\<lambda>e. entry_id e = i) es"
  by (induction es arbitrary: seen) auto

section \<open>Participants\<close>

lemma group_edge_flat:
  "mset (concat (map (\<lambda>(r, es). map (Pair r) es) (group_edge rel e groups))) =
   add_mset (rel, e) (mset (concat (map (\<lambda>(r, es). map (Pair r) es) groups)))"
  by (induction rel e groups rule: group_edge.induct) auto

lemma group_edge_keys:
  "fst ` set (group_edge rel e groups) = insert rel (fst ` set groups)"
  "distinct (map fst groups) \<Longrightarrow> distinct (map fst (group_edge rel e groups))"
  by (induction rel e groups rule: group_edge.induct) auto

lemma participation_groups_flat:
  "mset (concat (map (\<lambda>(r, es). map (Pair r) es) (participation_groups pid lbl ds))) =
   mset (List.map_filter (participation pid lbl) ds)"
proof -
  have "mset (concat (map (\<lambda>(r, es). map (Pair r) es)
      (fold (\<lambda>n groups. case participation pid lbl n of None \<Rightarrow> groups | Some (rel, e) \<Rightarrow> group_edge rel e groups) ds groups))) =
    mset (concat (map (\<lambda>(r, es). map (Pair r) es) groups)) + mset (List.map_filter (participation pid lbl) ds)" for groups
    by (induction ds arbitrary: groups) (auto simp: group_edge_flat map_filter_simps split: option.splits)
  from this [of "[]"] show ?thesis by (simp add: participation_groups_def)
qed

lemma max_depth_of_le: "max_depth_of ds \<le> n \<longleftrightarrow> (\<forall>(x, k) \<in> set ds. k \<le> n)"
proof -
  have "fold max ks m \<le> n \<longleftrightarrow> m \<le> n \<and> (\<forall>k \<in> set ks. k \<le> n)" for ks m
    by (induction ks arbitrary: m) auto
  then show ?thesis by (auto simp: max_depth_of_def)
qed

end
