(* ===== verification/Incremental_Graph.thy ===== *)
theory Incremental_Graph
  imports Process_Trace Change_Plan
begin

text \<open>
  Changing the graph for a set of changed files: \<open>src/indexer/incremental/mutate.rs\<close> (the purge),
  \<open>edges.rs\<close> (the edges of other files that the purge takes away and that are put back), \<open>stale_sites.rs\<close> (the
  call sites that are reopened) and \<open>apply_changes\<close> of \<open>mod.rs\<close>.  The passes that parse a file and write its
  symbols, and those that link the files again, are the arguments of \<open>apply_changes\<close>.  A panic ends an action as
  an error does; what was written stays.
\<close>

section \<open>Purging\<close>

definition LIGHT_LINK_TABLES :: "string list" where
  "LIGHT_LINK_TABLES = [''Imports_File_File'', ''References_File_File'']"

definition symbol_prefix :: "string \<Rightarrow> string" where
  "symbol_prefix r = r @ ''::''"

definition symbols_query :: "string \<Rightarrow> string" where
  "symbols_query r = ''MATCH (n) WHERE starts_with(n.id, '' @ cypher_str (symbol_prefix r) @ '') DETACH DELETE n''"

definition file_node_query :: "string \<Rightarrow> string" where
  "file_node_query r = ''MATCH (f:File) WHERE f.id = '' @ cypher_str r @ '' DETACH DELETE f''"

definition file_content_query :: "string \<Rightarrow> string" where
  "file_content_query r = ''MATCH (fc:FileContent) WHERE fc.id = '' @ cypher_str r @ '' DETACH DELETE fc''"

definition light_links_query :: "string \<Rightarrow> string \<Rightarrow> string" where
  "light_links_query r table = ''MATCH (a:File)-[r:'' @ table @ '']->(:File) WHERE a.id = '' @ cypher_str r @ '' DELETE r''"

definition purge_file_symbols :: "('s, 'd) engine \<Rightarrow> string \<Rightarrow> ('s, 'd, unit) action" where
  "purge_file_symbols eng r = run eng (symbols_query r)"

definition purge_file_node :: "('s, 'd) engine \<Rightarrow> string \<Rightarrow> ('s, 'd, unit) action" where
  "purge_file_node eng r = run eng (file_node_query r)"

definition purge_file_content :: "('s, 'd) engine \<Rightarrow> string \<Rightarrow> ('s, 'd, unit) action" where
  "purge_file_content eng r = run eng (file_content_query r)"

fun each :: "('a \<Rightarrow> ('s, 'd, unit) action) \<Rightarrow> 'a list \<Rightarrow> ('s, 'd, unit) action" where
  "each f [] = act_return ()"
| "each f (x # xs) = act_bind (f x) (\<lambda>_. each f xs)"

definition purge_outbound_light_links :: "('s, 'd) engine \<Rightarrow> string \<Rightarrow> ('s, 'd, unit) action" where
  "purge_outbound_light_links eng r = each (\<lambda>table. run eng (light_links_query r table)) LIGHT_LINK_TABLES"

definition existing_directory_ids :: "('s, 'd) engine \<Rightarrow> ('s, 'd, string set) action" where
  "existing_directory_ids eng =
     act_bind (execute_query eng ''MATCH (d:Directory) RETURN d.id'') (\<lambda>rows.
       act_return (set (concat (map (\<lambda>row. case row of [] \<Rightarrow> [] | i # _ \<Rightarrow> [i]) rows))))"

definition MAX_DEPTH :: nat where
  "MAX_DEPTH = 64"

fun prune_rounds :: "nat \<Rightarrow> ('s, 'd) engine \<Rightarrow> ('s, 'd, unit) action" where
  "prune_rounds 0 eng = act_return ()"
| "prune_rounds (Suc n) eng =
     act_bind (execute_query eng ''MATCH (d:Directory) OPTIONAL MATCH (d)-[e]->() WITH d, count(e) AS c WHERE c = 0 RETURN d.id'')
       (\<lambda>orphans.
          if orphans = [] then act_return ()
          else
            act_bind
              (each (\<lambda>row. case row of
                   [] \<Rightarrow> act_return ()
                 | i # _ \<Rightarrow> run eng (''MATCH (d:Directory) WHERE d.id = '' @ cypher_str i @ '' DETACH DELETE d'')) orphans)
              (\<lambda>_. prune_rounds n eng))"

definition prune_orphan_directories :: "('s, 'd) engine \<Rightarrow> ('s, 'd, unit) action" where
  "prune_orphan_directories eng = prune_rounds MAX_DEPTH eng"

section \<open>Inbound edges\<close>

record saved_edge =
  se_table :: string
  se_source :: string
  se_target :: string
  se_confidence :: string
  se_method :: string

definition RESOLUTION_PREFIXES :: "string list" where
  "RESOLUTION_PREFIXES = [''Imports_'', ''Calls_'', ''Implements_'', ''Extends_'', ''Uses_'', ''References_'']"

definition is_resolution_table :: "string \<Rightarrow> bool" where
  "is_resolution_table tbl \<longleftrightarrow> list_ex (starts_with tbl) RESOLUTION_PREFIXES"

definition owning_file :: "string \<Rightarrow> string" where
  "owning_file i = (case find_sub ''::'' i of Some k \<Rightarrow> take k i | None \<Rightarrow> i)"

definition target_predicate :: "string list \<Rightarrow> string" where
  "target_predicate rels =
     join_with '' OR '' (map (\<lambda>r. ''starts_with(t.id, '' @ cypher_str (symbol_prefix r) @ '')'') rels)"

definition saved_of_row :: "string \<Rightarrow> string set \<Rightarrow> string list \<Rightarrow> saved_edge list" where
  "saved_of_row tbl reparsed_set row =
     (if length row < 2 then []
      else if owning_file (row ! 0) \<in> reparsed_set then []
      else [\<lparr>se_table = tbl, se_source = row ! 0, se_target = row ! 1,
             se_confidence = (if 2 < length row then row ! 2 else []),
             se_method = (if 3 < length row then row ! 3 else [])\<rparr>])"

definition snapshot_query :: "string \<Rightarrow> string \<Rightarrow> string" where
  "snapshot_query tbl predicate =
     ''MATCH (s)-[r:'' @ tbl @ '']->(t) WHERE '' @ predicate @ '' RETURN s.id, t.id, r.confidence, r.resolution_method''"

fun snapshot_tables ::
  "('s, 'd) engine \<Rightarrow> string \<Rightarrow> string set \<Rightarrow> (string \<times> string \<times> string) list \<Rightarrow> ('s, 'd, saved_edge list) action" where
  "snapshot_tables eng predicate reparsed_set [] = act_return []"
| "snapshot_tables eng predicate reparsed_set ((tbl, from_label, to_label) # tables) =
     (if \<not> is_resolution_table tbl \<or> to_label = ''File'' \<or> to_label = ''Directory''
      then snapshot_tables eng predicate reparsed_set tables
      else
        act_bind (execute_query eng (snapshot_query tbl predicate)) (\<lambda>rows.
        act_bind (snapshot_tables eng predicate reparsed_set tables) (\<lambda>saved.
          act_return (concat (map (saved_of_row tbl reparsed_set) rows) @ saved))))"

definition snapshot_inbound_edges :: "('s, 'd) engine \<Rightarrow> string list \<Rightarrow> string set \<Rightarrow> ('s, 'd, saved_edge list) action" where
  "snapshot_inbound_edges eng changed_rels reparsed_set =
     (if changed_rels = [] then act_return []
      else snapshot_tables eng (target_predicate changed_rels) reparsed_set REL_TABLES)"

text \<open>An error of one edge is written to the log and forgotten.\<close>

definition attempt :: "('s, 'd, 'a) action \<Rightarrow> ('s, 'd, unit) action" where
  "attempt m st = (Ok (), snd (m st))"

definition relink_edge :: "('s, 'd) engine \<Rightarrow> saved_edge \<Rightarrow> ('s, 'd, unit) action" where
  "relink_edge eng e =
     attempt (insert_edge eng (se_table e) (se_source e) (se_target e)
       [(''confidence'', if str_trim (se_confidence e) = [] then ''1.0'' else se_confidence e),
        (''resolution_method'', cypher_str (se_method e))])"

definition relink_inbound_edges :: "('s, 'd) engine \<Rightarrow> saved_edge list \<Rightarrow> ('s, 'd, unit) action" where
  "relink_inbound_edges eng saved = each (relink_edge eng) saved"

section \<open>Call sites\<close>

definition call_site_tables :: "string list" where
  "call_site_tables = map fst (filter (\<lambda>(tbl, from_label, _). from_label = ''CallSite'' \<and> starts_with tbl ''Calls_'') REL_TABLES)"

definition act_panic :: "('s, 'd, 'a) action" where
  "act_panic = act_fail (StoreMessage ''panic: index out of bounds'')"

text \<open>The first cells of the rows; a row without one is indexed out of its bounds.\<close>

definition first_cells :: "string list list \<Rightarrow> ('s, 'd, string list) action" where
  "first_cells rows = (if [] \<in> set rows then act_panic else act_return (map hd rows))"

fun collect_cells :: "('s, 'd) engine \<Rightarrow> string list \<Rightarrow> ('s, 'd, string list) action" where
  "collect_cells eng [] = act_return []"
| "collect_cells eng (cypher # cyphers) =
     act_bind (execute_query eng cypher) (\<lambda>rows.
     act_bind (first_cells rows) (\<lambda>cells.
     act_bind (collect_cells eng cyphers) (\<lambda>rest. act_return (cells @ rest))))"

definition reopen_sites_resolved_into :: "('s, 'd) engine \<Rightarrow> string list \<Rightarrow> string set \<Rightarrow> ('s, 'd, string list) action" where
  "reopen_sites_resolved_into eng purged_rels skip =
     (if purged_rels = [] then act_return []
      else
        act_bind
          (collect_cells eng (map (\<lambda>table. ''MATCH (c:CallSite)-[r:'' @ table @ '']->(t) WHERE '' @ target_predicate purged_rels @ '' RETURN c.id'')
             call_site_tables))
          (\<lambda>cells.
             let ids = sorted_list_of_set (set (filter (\<lambda>i. hd (split_colons i) \<notin> skip) cells)) in
             act_bind (mark_callsites_unresolved eng ids) (\<lambda>_.
               if ids = [] then act_return ids
               else
                 act_bind (ensure_node_column eng ''CallSite'' ''unresolved_reason'' (''STRING DEFAULT '' @ [CHR 0x27, CHR 0x27])) (\<lambda>_.
                 act_bind (set_callsite_unresolved_reason eng ids []) (\<lambda>_. act_return ids)))))"

definition restore_sites_with_edge :: "('s, 'd) engine \<Rightarrow> string list \<Rightarrow> ('s, 'd, unit) action" where
  "restore_sites_with_edge eng ids =
     act_bind
       (collect_cells eng (concat (map (\<lambda>chunk.
          map (\<lambda>table. ''MATCH (c:CallSite)-[r:'' @ table @ '']->() WHERE c.id IN ['' @ join_with '', '' (map cypher_str chunk) @ ''] RETURN c.id'')
            call_site_tables) (slice_chunks 500 ids))))
       (\<lambda>cells. mark_nodes_resolved eng ''CallSite'' (sorted_list_of_set (set cells)))"

section \<open>Applying a change set\<close>

record ('s, 'd) passes =
  reparse_symbols :: "discovered \<Rightarrow> ('s, 'd, unit) action"
  index_new_file :: "discovered \<Rightarrow> string set \<Rightarrow> ('s, 'd, string set) action"
  link_imports :: "discovered list \<Rightarrow> discovered list \<Rightarrow> ('s, 'd, unit) action"
  iac_pass :: "discovered list \<Rightarrow> discovered list \<Rightarrow> ('s, 'd, unit) action"

definition reparse_modified_file :: "('s, 'd) engine \<Rightarrow> ('s, 'd) passes \<Rightarrow> discovered \<Rightarrow> ('s, 'd, unit) action" where
  "reparse_modified_file eng ps d =
     act_bind (run eng (''MATCH (f:File) WHERE f.id = '' @ cypher_str (rel d) @ '' SET f.parse_errors = 0, f.size_bytes = '' @ decimal (d_size d)))
       (\<lambda>_. reparse_symbols ps d)"

definition reparsed_rels_of :: "change_set \<Rightarrow> string set" where
  "reparsed_rels_of cs = rel ` (set (changed cs) \<union> set (added cs) \<union> new_file ` set (renamed cs))"

definition purged_rels_of :: "change_set \<Rightarrow> string list" where
  "purged_rels_of cs = map rel (changed cs) @ deleted cs @ map old_rel (renamed cs)"

definition purge_changed :: "('s, 'd) engine \<Rightarrow> string \<Rightarrow> ('s, 'd, unit) action" where
  "purge_changed eng r =
     act_bind (purge_file_symbols eng r) (\<lambda>_. act_bind (purge_outbound_light_links eng r) (\<lambda>_. purge_file_content eng r))"

definition purge_gone :: "('s, 'd) engine \<Rightarrow> string \<Rightarrow> ('s, 'd, unit) action" where
  "purge_gone eng r =
     act_bind (purge_file_symbols eng r) (\<lambda>_. act_bind (purge_file_node eng r) (\<lambda>_. purge_file_content eng r))"

definition purge_phase :: "('s, 'd) engine \<Rightarrow> change_set \<Rightarrow> ('s, 'd, unit) action" where
  "purge_phase eng cs =
     act_bind (each (\<lambda>d. purge_changed eng (rel d)) (changed cs)) (\<lambda>_.
     act_bind (each (purge_gone eng) (deleted cs)) (\<lambda>_.
       each (\<lambda>r. purge_gone eng (old_rel r)) (renamed cs)))"

fun index_new_files :: "('s, 'd) passes \<Rightarrow> discovered list \<Rightarrow> string set \<Rightarrow> ('s, 'd, string set) action" where
  "index_new_files ps [] dirs = act_return dirs"
| "index_new_files ps (d # ds) dirs = act_bind (index_new_file ps d dirs) (index_new_files ps ds)"

definition reparse_phase :: "('s, 'd) engine \<Rightarrow> ('s, 'd) passes \<Rightarrow> change_set \<Rightarrow> ('s, 'd, unit) action" where
  "reparse_phase eng ps cs =
     act_bind (existing_directory_ids eng) (\<lambda>dirs.
     act_bind (each (reparse_modified_file eng ps) (changed cs)) (\<lambda>_.
     act_bind (index_new_files ps (added cs) dirs) (\<lambda>dirs.
     act_bind (index_new_files ps (map new_file (renamed cs)) dirs) (\<lambda>_. act_return ()))))"

definition apply_changes :: "('s, 'd) engine \<Rightarrow> ('s, 'd) passes \<Rightarrow> change_set \<Rightarrow> discovered list \<Rightarrow> ('s, 'd, nat) action" where
  "apply_changes eng ps cs all_current =
     (let reparsed_set = reparsed_rels_of cs; purged = purged_rels_of cs;
          reparsed_files = filter (\<lambda>d. rel d \<in> reparsed_set) all_current in
      act_bind (snapshot_inbound_edges eng (map rel (changed cs)) reparsed_set) (\<lambda>saved.
      act_bind (reopen_sites_resolved_into eng purged (reparsed_set \<union> set purged)) (\<lambda>reopened.
      act_bind (purge_phase eng cs) (\<lambda>_.
      act_bind (reparse_phase eng ps cs) (\<lambda>_.
      act_bind (if deleted cs \<noteq> [] \<or> renamed cs \<noteq> [] then prune_orphan_directories eng else act_return ()) (\<lambda>_.
      act_bind (if reparsed_files = [] then act_return () else attempt (link_imports ps reparsed_files all_current)) (\<lambda>_.
      act_bind (if reparsed_files = [] then act_return () else attempt (iac_pass ps reparsed_files all_current)) (\<lambda>_.
      act_bind (relink_inbound_edges eng saved) (\<lambda>_.
      act_bind (restore_sites_with_edge eng reopened) (\<lambda>_.
        act_return (card reparsed_set)))))))))))"

section \<open>Owners of nodes\<close>

text \<open>A path whose symbols are told by their prefix: no two colons in it, and no colon at its end.\<close>

definition plain_path :: "string \<Rightarrow> bool" where
  "plain_path r \<longleftrightarrow> \<not> contains (r @ '':'') ''::''"

lemma find_sub_colons_append:
  "find_sub ''::'' (r @ '':'') = None \<Longrightarrow> find_sub ''::'' (r @ ''::'' @ s) = Some (length r)"
proof (induction r)
  case (Cons c r)
  then show ?case by (cases r) (auto split: if_splits)
qed simp

lemma owner_of_symbol:
  assumes "plain_path r"
  shows "starts_with i (symbol_prefix r) \<longleftrightarrow> owning_file i = r \<and> i \<noteq> r"
proof
  assume "starts_with i (symbol_prefix r)"
  then obtain s where i: "i = r @ ''::'' @ s" by (auto simp: starts_with_iff symbol_prefix_def)
  have "find_sub ''::'' i = Some (length r)"
    unfolding i by (rule find_sub_colons_append) (use assms in \<open>simp add: plain_path_def contains_def\<close>)
  then show "owning_file i = r \<and> i \<noteq> r" by (simp add: owning_file_def i)
next
  assume i: "owning_file i = r \<and> i \<noteq> r"
  then obtain k where k: "find_sub ''::'' i = Some k" by (auto simp: owning_file_def split: option.splits)
  with i have "take k i = r" by (simp add: owning_file_def)
  with find_sub_Some[OF k] show "starts_with i (symbol_prefix r)"
    by (metis append_assoc append_take_drop_id starts_with_iff symbol_prefix_def)
qed

text \<open>The purge of a file takes the nodes of a file whose path goes on with two colons.\<close>

lemma purge_prefix_is_not_the_owner:
  "starts_with ''a::b.rs::f'' (symbol_prefix ''a'') \<and> starts_with ''a::b.rs'' (symbol_prefix ''a'') \<and>
   owning_file ''a:::f'' = ''a'' \<and> starts_with ''a:::f'' (symbol_prefix ''a:'')"
  by code_simp

section \<open>What the purge removes\<close>

text \<open>
  What the statements of the purge are documented to do to the nodes of the graph, given as pairs of a label and
  an id: a statement that succeeds deletes the nodes it matches, and one that fails deletes none.
\<close>

definition deletes :: "('s, 'd) engine \<Rightarrow> ('d \<Rightarrow> (string \<times> string) set) \<Rightarrow> string \<Rightarrow> (string \<times> string \<Rightarrow> bool) \<Rightarrow> bool" where
  "deletes eng nodes cypher P \<longleftrightarrow>
     (\<forall>d. nodes (snd (query eng cypher d)) =
        (case fst (query eng cypher d) of Inl _ \<Rightarrow> nodes d | Inr _ \<Rightarrow> {n \<in> nodes d. \<not> P n}))"

definition purging_engine :: "('s, 'd) engine \<Rightarrow> ('d \<Rightarrow> (string \<times> string) set) \<Rightarrow> bool" where
  "purging_engine eng nodes \<longleftrightarrow>
     (\<forall>r. deletes eng nodes (symbols_query r) (\<lambda>n. starts_with (snd n) (symbol_prefix r)) \<and>
          deletes eng nodes (file_node_query r) (\<lambda>n. n = (''File'', r)) \<and>
          deletes eng nodes (file_content_query r) (\<lambda>n. n = (''FileContent'', r)) \<and>
          (\<forall>table \<in> set LIGHT_LINK_TABLES. deletes eng nodes (light_links_query r table) (\<lambda>_. False)))"

definition removes :: "('d \<Rightarrow> (string \<times> string) set) \<Rightarrow> ('s, 'd, 'a) action \<Rightarrow> (string \<times> string \<Rightarrow> bool) \<Rightarrow> bool" where
  "removes nodes m P \<longleftrightarrow>
     (\<forall>st. nodes (db (snd (m st))) \<subseteq> nodes (db st) \<and> {n \<in> nodes (db st). \<not> P n} \<subseteq> nodes (db (snd (m st))) \<and>
        (\<forall>x. fst (m st) = Inr x \<longrightarrow> nodes (db (snd (m st))) = {n \<in> nodes (db st). \<not> P n}))"

lemma removes_run:
  fixes eng :: "('s, 'd) engine"
  assumes "deletes eng nodes cypher P"
  shows "removes nodes (run eng cypher) P"
  unfolding removes_def
proof
  fix st :: "('s, 'd) graph_store"
  obtain res d where q: "query eng cypher (db st) = (res, d)" by fastforce
  have "nodes d = (case res of Inl _ \<Rightarrow> nodes (db st) | Inr _ \<Rightarrow> {n \<in> nodes (db st). \<not> P n})"
    using assms[unfolded deletes_def, rule_format, of "db st"] by (simp add: q)
  then show "nodes (db (snd (run eng cypher st))) \<subseteq> nodes (db st) \<and> {n \<in> nodes (db st). \<not> P n} \<subseteq> nodes (db (snd (run eng cypher st))) \<and>
      (\<forall>x. fst (run eng cypher st) = Inr x \<longrightarrow> nodes (db (snd (run eng cypher st))) = {n \<in> nodes (db st). \<not> P n})"
    by (cases res) (auto simp: run_def act_bind_def execute_query_def act_return_def q)
qed

lemma removes_return: "removes nodes (act_return x) (\<lambda>_. False)"
  by (simp add: removes_def act_return_def)

lemma removes_bind:
  assumes "removes nodes m P" and "\<And>x. removes nodes (k x) Q"
  shows "removes nodes (act_bind m k) (\<lambda>n. P n \<or> Q n)"
  unfolding removes_def
proof
  fix st
  obtain r st' where m: "m st = (r, st')" by fastforce
  have 1: "nodes (db st') \<subseteq> nodes (db st)" "{n \<in> nodes (db st). \<not> P n} \<subseteq> nodes (db st')"
      "\<And>x. r = Inr x \<Longrightarrow> nodes (db st') = {n \<in> nodes (db st). \<not> P n}"
    using assms(1) m unfolding removes_def by (metis fst_conv snd_conv)+
  show "nodes (db (snd (act_bind m k st))) \<subseteq> nodes (db st) \<and>
      {n \<in> nodes (db st). \<not> (P n \<or> Q n)} \<subseteq> nodes (db (snd (act_bind m k st))) \<and>
      (\<forall>x. fst (act_bind m k st) = Inr x \<longrightarrow> nodes (db (snd (act_bind m k st))) = {n \<in> nodes (db st). \<not> (P n \<or> Q n)})"
  proof (cases r)
    case (Inl e)
    with m 1 show ?thesis by (auto simp: act_bind_def)
  next
    case (Inr x)
    have k: "act_bind m k st = k x st'" by (simp add: act_bind_def m Inr)
    have 2: "nodes (db (snd (k x st'))) \<subseteq> nodes (db st')" "{n \<in> nodes (db st'). \<not> Q n} \<subseteq> nodes (db (snd (k x st')))"
        "\<forall>y. fst (k x st') = Inr y \<longrightarrow> nodes (db (snd (k x st'))) = {n \<in> nodes (db st'). \<not> Q n}"
      using assms(2)[of x] unfolding removes_def by blast+
    have eq: "nodes (db st') = {n \<in> nodes (db st). \<not> P n}" using 1(3) Inr .
    show ?thesis using 2 unfolding k eq by auto
  qed
qed

lemma removes_each:
  "(\<And>x. x \<in> set xs \<Longrightarrow> removes nodes (f x) (P x)) \<Longrightarrow> removes nodes (each f xs) (\<lambda>n. \<exists>x \<in> set xs. P x n)"
proof (induction xs)
  case (Cons x xs)
  have "removes nodes (each f (x # xs)) (\<lambda>n. P x n \<or> (\<exists>x \<in> set xs. P x n))"
    unfolding each.simps by (rule removes_bind) (use Cons in auto)
  then show ?case by simp
qed (simp add: removes_return)

lemma removes_cong: "removes nodes m P \<Longrightarrow> (\<And>n. P n = Q n) \<Longrightarrow> removes nodes m Q"
  by (simp add: removes_def)

text \<open>The nodes the purge of a change set is for.\<close>

definition purged_node :: "change_set \<Rightarrow> string \<times> string \<Rightarrow> bool" where
  "purged_node cs n \<longleftrightarrow>
     list_ex (\<lambda>r. starts_with (snd n) (symbol_prefix r)) (purged_rels_of cs) \<or>
     (fst n = ''File'' \<and> snd n \<in> set (deleted cs @ map old_rel (renamed cs))) \<or>
     (fst n = ''FileContent'' \<and> snd n \<in> set (purged_rels_of cs))"

lemma removes_purge_changed:
  assumes "purging_engine eng nodes"
  shows "removes nodes (purge_changed eng r) (\<lambda>n. starts_with (snd n) (symbol_prefix r) \<or> n = (''FileContent'', r))"
proof -
  have links: "removes nodes (purge_outbound_light_links eng r) (\<lambda>n. \<exists>t \<in> set LIGHT_LINK_TABLES. False)"
    unfolding purge_outbound_light_links_def
    by (intro removes_each removes_run) (use assms in \<open>simp add: purging_engine_def\<close>)
  have "removes nodes (purge_changed eng r)
      (\<lambda>n. starts_with (snd n) (symbol_prefix r) \<or> ((\<exists>t \<in> set LIGHT_LINK_TABLES. False) \<or> n = (''FileContent'', r)))"
    unfolding purge_changed_def purge_file_symbols_def purge_file_content_def
    by (intro removes_bind links removes_run) (use assms in \<open>simp_all add: purging_engine_def\<close>)
  then show ?thesis by simp
qed

lemma removes_purge_gone:
  assumes "purging_engine eng nodes"
  shows "removes nodes (purge_gone eng r)
    (\<lambda>n. starts_with (snd n) (symbol_prefix r) \<or> (n = (''File'', r) \<or> n = (''FileContent'', r)))"
  unfolding purge_gone_def purge_file_symbols_def purge_file_content_def purge_file_node_def
  by (intro removes_bind removes_run) (use assms in \<open>simp_all add: purging_engine_def\<close>)

lemma removes_purge_phase:
  assumes "purging_engine eng nodes"
  shows "removes nodes (purge_phase eng cs) (purged_node cs)"
proof -
  have "removes nodes (purge_phase eng cs)
     (\<lambda>n. (\<exists>d \<in> set (changed cs). starts_with (snd n) (symbol_prefix (rel d)) \<or> n = (''FileContent'', rel d)) \<or>
          ((\<exists>r \<in> set (deleted cs). starts_with (snd n) (symbol_prefix r) \<or> (n = (''File'', r) \<or> n = (''FileContent'', r))) \<or>
           (\<exists>x \<in> set (renamed cs). starts_with (snd n) (symbol_prefix (old_rel x)) \<or> (n = (''File'', old_rel x) \<or> n = (''FileContent'', old_rel x)))))"
    unfolding purge_phase_def
    by (intro removes_bind removes_each removes_purge_changed removes_purge_gone assms)
  then show ?thesis
    by (rule removes_cong) (auto simp: purged_node_def purged_rels_of_def list_ex_iff)
qed

lemma removes_at:
  "removes nodes m P \<Longrightarrow> nodes (db (snd (m st))) \<subseteq> nodes (db st) \<and> {n \<in> nodes (db st). \<not> P n} \<subseteq> nodes (db (snd (m st))) \<and>
     (\<forall>x. fst (m st) = Inr x \<longrightarrow> nodes (db (snd (m st))) = {n \<in> nodes (db st). \<not> P n})"
  by (simp add: removes_def)

lemma purge_effect:
  assumes "purging_engine eng nodes" and "list_all plain_path (purged_rels_of cs)"
    and "purge_phase eng cs st = (r, st')"
  shows "nodes (db st') \<subseteq> nodes (db st)"
    and "n \<in> nodes (db st) \<Longrightarrow> owning_file (snd n) \<notin> set (purged_rels_of cs) \<Longrightarrow> n \<in> nodes (db st')"
    and "r = Ok () \<Longrightarrow> nodes (db st') = {n \<in> nodes (db st). \<not> purged_node cs n}"
proof -
  have rem: "nodes (db st') \<subseteq> nodes (db st)" "{n \<in> nodes (db st). \<not> purged_node cs n} \<subseteq> nodes (db st')"
      "\<And>x. r = Inr x \<Longrightarrow> nodes (db st') = {n \<in> nodes (db st). \<not> purged_node cs n}"
    using removes_at[OF removes_purge_phase[OF assms(1), of cs], of st] by (auto simp: assms(3))
  show "nodes (db st') \<subseteq> nodes (db st)" by (rule rem)
  show "r = Ok () \<Longrightarrow> nodes (db st') = {n \<in> nodes (db st). \<not> purged_node cs n}" by (rule rem)
  assume n: "n \<in> nodes (db st)" and other: "owning_file (snd n) \<notin> set (purged_rels_of cs)"
  have plain: "owning_file q = q" if "q \<in> set (purged_rels_of cs)" for q
  proof -
    have "\<not> starts_with q (symbol_prefix q)" by (auto simp: symbol_prefix_def starts_with_iff)
    have "plain_path q" using assms(2) that by (simp add: list_all_iff)
    then have "find_sub ''::'' q = None"
      unfolding plain_path_def contains_def by (induction q) (auto split: if_splits elim!: starts_with.elims)
    then show ?thesis by (simp add: owning_file_def)
  qed
  have "\<not> purged_node cs n"
    using other plain owner_of_symbol assms(2)
    by (auto simp: purged_node_def list_ex_iff list_all_iff purged_rels_of_def)
  with n rem show "n \<in> nodes (db st')" by blast
qed


text \<open>An engine that keeps a set of nodes and answers the purge as documented.\<close>

definition between :: "string \<Rightarrow> string \<Rightarrow> string \<Rightarrow> string option" where
  "between pre suf c =
     (case strip_prefix c pre of
        None \<Rightarrow> None
      | Some t \<Rightarrow> if ends_with t suf then Some (unwrap_cypher_string (take (length t - length suf) t)) else None)"

definition node_engine :: "(unit, (string \<times> string) set) engine" where
  "node_engine =
     \<lparr>prepare = (\<lambda>_. Ok ()),
      query = (\<lambda>c d. (Ok [],
        case between ''MATCH (n) WHERE starts_with(n.id, '' '') DETACH DELETE n'' c of
          Some p \<Rightarrow> {n \<in> d. \<not> starts_with (snd n) p}
        | None \<Rightarrow>
            (case between ''MATCH (f:File) WHERE f.id = '' '' DETACH DELETE f'' c of
               Some i \<Rightarrow> d - {(''File'', i)}
             | None \<Rightarrow>
                 (case between ''MATCH (fc:FileContent) WHERE fc.id = '' '' DETACH DELETE fc'' c of
                    Some i \<Rightarrow> d - {(''FileContent'', i)}
                  | None \<Rightarrow> d)))),
      execute = (\<lambda>_ _ d. (Ok (), d))\<rparr>"

lemma between_same: "between pre suf (pre @ cypher_str s @ suf) = Some s"
  by (simp add: between_def ends_with_def unwrap_cypher_str)

lemma between_other: "strip_prefix c pre = None \<Longrightarrow> between pre suf c = None"
  by (simp add: between_def)

lemma node_engine_purges: "purging_engine node_engine (\<lambda>d. d)"
proof -
  have symbols: "deletes node_engine (\<lambda>d. d) (symbols_query r) (\<lambda>n. starts_with (snd n) (symbol_prefix r))" for r
    using between_same[of "''MATCH (n) WHERE starts_with(n.id, ''" "'') DETACH DELETE n''" "symbol_prefix r"]
    by (simp add: deletes_def node_engine_def symbols_query_def)
  have file_node: "deletes node_engine (\<lambda>d. d) (file_node_query r) (\<lambda>n. n = (''File'', r))" for r
    using between_same[of "''MATCH (f:File) WHERE f.id = ''" "'' DETACH DELETE f''" r]
    by (auto simp: deletes_def node_engine_def file_node_query_def between_other strip_prefix_def)
  have file_content: "deletes node_engine (\<lambda>d. d) (file_content_query r) (\<lambda>n. n = (''FileContent'', r))" for r
    using between_same[of "''MATCH (fc:FileContent) WHERE fc.id = ''" "'' DETACH DELETE fc''" r]
    by (auto simp: deletes_def node_engine_def file_content_query_def between_other strip_prefix_def)
  have links: "deletes node_engine (\<lambda>d. d) (light_links_query r table) (\<lambda>_. False)" for r table
    by (simp add: deletes_def node_engine_def light_links_query_def between_other strip_prefix_def)
  show ?thesis using symbols file_node file_content links by (simp add: purging_engine_def)
qed

definition sample_changes :: change_set where
  "sample_changes = \<lparr>changed = [\<lparr>rel = ''a.rs'', abs_path = ''/a.rs'', d_mtime_ns = 0, d_size = 0\<rparr>], added = [], deleted = [''b.rs''], renamed = []\<rparr>"

definition sample_store :: "(unit, (string \<times> string) set) graph_store" where
  "sample_store = \<lparr>stmt_cache = Map.empty,
     db = {(''File'', ''a.rs''), (''Function'', ''a.rs::f''), (''File'', ''b.rs''), (''Function'', ''b.rs::g''), (''Function'', ''c.rs::h'')}\<rparr>"


section \<open>Edges that are put back\<close>

text \<open>
  A saved edge comes from a file that is not parsed again, and is of a resolution table whose targets are symbols.
\<close>

lemma saved_row_owner: "e \<in> set (saved_of_row tbl rs row) \<Longrightarrow> owning_file (se_source e) \<notin> rs \<and> se_table e = tbl"
  by (auto simp: saved_of_row_def split: if_splits)

lemma snapshot_tables_saved:
  "fst (snapshot_tables eng predicate rs tables st) = Inr saved \<Longrightarrow> e \<in> set saved \<Longrightarrow>
   owning_file (se_source e) \<notin> rs \<and>
   (\<exists>f t. (se_table e, f, t) \<in> set tables \<and> is_resolution_table (se_table e) \<and> t \<noteq> ''File'' \<and> t \<noteq> ''Directory'')"
proof (induction eng predicate rs tables arbitrary: st saved rule: snapshot_tables.induct)
  case (2 eng predicate rs tbl f t tables)
  show ?case
  proof (cases "\<not> is_resolution_table tbl \<or> t = ''File'' \<or> t = ''Directory''")
    case True
    with "2.IH"(1)[OF True] "2.prems" show ?thesis by fastforce
  next
    case False
    then obtain rows st1 rest st2 where rows: "execute_query eng (snapshot_query tbl predicate) st = (Inr rows, st1)"
      and rest: "snapshot_tables eng predicate rs tables st1 = (Inr rest, st2)"
      and saved: "saved = concat (map (saved_of_row tbl rs) rows) @ rest"
      using "2.prems"(1) by (auto simp: act_bind_def act_return_def split: prod.splits sum.splits)
    from "2.prems"(2) saved consider "e \<in> set (concat (map (saved_of_row tbl rs) rows))" | "e \<in> set rest" by auto
    then show ?thesis
    proof cases
      case 1
      then obtain row where "e \<in> set (saved_of_row tbl rs row)" by auto
      from saved_row_owner[OF this] False show ?thesis by auto
    next
      case e: 2
      have "fst (snapshot_tables eng predicate rs tables st1) = Inr rest" by (simp add: rest)
      from "2.IH"(2)[OF False this e] show ?thesis by auto
    qed
  qed
qed (simp add: act_return_def)

text \<open>Putting the edges back never fails, whatever the engine answers.\<close>

lemma each_attempts: "(\<And>x st. fst (f x st) = Ok ()) \<Longrightarrow> fst (each f xs st) = Ok ()"
proof (induction xs arbitrary: st)
  case (Cons x xs)
  obtain r st' where "f x st = (r, st')" by fastforce
  moreover have "r = Ok ()" using Cons.prems[of x st] calculation by simp
  ultimately show ?case using Cons.IH[OF Cons.prems] by (simp add: act_bind_def)
qed (simp add: act_return_def)

lemma relink_never_fails: "fst (relink_inbound_edges eng saved st) = Ok ()"
  unfolding relink_inbound_edges_def by (rule each_attempts) (simp add: relink_edge_def attempt_def)

end
