(* ===== verification/Read_Gate.thy ===== *)
theory Read_Gate
  imports Utf8
begin

text \<open>
  \<open>src/query_handlers/read_only_gate.rs\<close>: the lexical read-only gate of \<open>query_graph\<close>.  A query
  is its UTF-8 bytes.  An index loop over \<open>bytes[i]\<close> that only moves forward is recursion on the
  bytes from \<open>i\<close>; the scans that report positions keep the indices.
\<close>

section \<open>Constants\<close>

definition FORBIDDEN_CYPHER_KEYWORDS :: "string list" where
  "FORBIDDEN_CYPHER_KEYWORDS =
     [''CREATE'', ''DELETE'', ''MERGE'', ''SET'', ''REMOVE'', ''DROP'', ''ALTER'', ''LOAD'', ''COPY'', ''EXPORT'',
      ''IMPORT'', ''ATTACH'', ''DETACH'', ''USE'']"

definition READ_ONLY_PROCEDURES :: "string list" where
  "READ_ONLY_PROCEDURES = [''TABLE_INFO'', ''SHOW_TABLES'']"

definition MASKED_TOKEN :: char where
  "MASKED_TOKEN = byte 1"

definition is_separator :: "char \<Rightarrow> bool" where
  "is_separator b \<longleftrightarrow> is_space b"

definition is_ident_char :: "char \<Rightarrow> bool" where
  "is_ident_char b \<longleftrightarrow> is_alnum b \<or> b = CHR ''_''"

section \<open>Masking\<close>

text \<open>
  \<open>skip_quoted\<close> returns the bytes after the closing quote instead of their index; a backslash
  escapes the next byte except in a backticked identifier.
\<close>

fun skip_quoted :: "char \<Rightarrow> string \<Rightarrow> string option" where
  "skip_quoted q [] = None"
| "skip_quoted q [b] = (if b = q then Some [] else None)"
| "skip_quoted q (b # c # s) =
     (if b = CHR 0x5C \<and> q \<noteq> CHR 0x60 then skip_quoted q s
      else if b = q then Some (c # s)
      else skip_quoted q (c # s))"

text \<open>The two comment loops: the bytes left after the comment, \<open>None\<close> when a block never closes.\<close>

fun skip_line_comment :: "string \<Rightarrow> string" where
  "skip_line_comment [] = []"
| "skip_line_comment (b # s) = (if b = byte 10 then b # s else skip_line_comment s)"

fun skip_block :: "string \<Rightarrow> string option" where
  "skip_block (b # c # s) = (if b = CHR ''*'' \<and> c = CHR ''/'' then Some s else skip_block (c # s))"
| "skip_block _ = None"

definition is_quote :: "char \<Rightarrow> bool" where
  "is_quote b \<longleftrightarrow> b = CHR 0x27 \<or> b = CHR 0x22 \<or> b = CHR 0x60"

lemma skip_quoted_length: "skip_quoted q s = Some r \<Longrightarrow> length r < length s"
  by (induction q s rule: skip_quoted.induct) (auto split: if_splits)

lemma skip_line_comment_length: "length (skip_line_comment s) \<le> length s"
  by (induction s) auto

lemma skip_block_length: "skip_block s = Some r \<Longrightarrow> length r < length s"
  by (induction s rule: skip_block.induct) (auto split: if_splits)

function mask_bytes :: "string \<Rightarrow> string option" where
  "mask_bytes [] = Some []"
| "mask_bytes (b # s) =
     (if is_quote b then
        (case skip_quoted b s of
           None \<Rightarrow> None
         | Some r \<Rightarrow> map_option (append (replicate (Suc (length s) - length r) MASKED_TOKEN)) (mask_bytes r))
      else if b = CHR ''/'' \<and> s \<noteq> [] \<and> hd s = CHR ''/'' then
        map_option (append (replicate (Suc (length s) - length (skip_line_comment s)) (CHR '' '')))
          (mask_bytes (skip_line_comment s))
      else if b = CHR ''/'' \<and> s \<noteq> [] \<and> hd s = CHR ''*'' then
        (case skip_block (tl s) of
           None \<Rightarrow> None
         | Some r \<Rightarrow> map_option (append (replicate (Suc (length s) - length r) (CHR '' ''))) (mask_bytes r))
      else map_option (Cons b) (mask_bytes s))"
  by pat_completeness auto
termination
proof (relation "measure length", goal_cases)
  case 4
  then show ?case by (auto dest!: skip_block_length)
qed (auto simp: le_imp_less_Suc skip_line_comment_length dest: skip_quoted_length)

declare mask_bytes.simps(2) [simp del]

text \<open>The source ends with \<open>String::from_utf8(out).ok()\<close>.\<close>

definition mask_non_executable :: "string \<Rightarrow> string option" where
  "mask_non_executable query =
     (case mask_bytes query of
        Some out \<Rightarrow> if utf8_valid out then Some out else None
      | None \<Rightarrow> None)"

section \<open>Keyword scans\<close>

datatype identifier_exemption = SigilOnly | SigilOrAlias

fun skip_separators_back :: "string \<Rightarrow> nat \<Rightarrow> nat" where
  "skip_separators_back bytes 0 = 0"
| "skip_separators_back bytes (Suc j) =
     (if is_separator (bytes ! j) then skip_separators_back bytes j else Suc j)"

definition in_identifier_position :: "string \<Rightarrow> nat \<Rightarrow> identifier_exemption \<Rightarrow> bool" where
  "in_identifier_position bytes start exemption =
     (let j = skip_separators_back bytes start in
      if j = 0 then False
      else if bytes ! (j - 1) = CHR ''.'' \<or> bytes ! (j - 1) = CHR '':'' then True
      else if exemption = SigilOnly then False
      else 2 \<le> j \<and> lower (bytes ! (j - 2)) = CHR ''a'' \<and> lower (bytes ! (j - 1)) = CHR ''s'' \<and>
           (j = 2 \<or> \<not> is_ident_char (bytes ! (j - 3))))"

definition keyword_at :: "string \<Rightarrow> string \<Rightarrow> nat \<Rightarrow> bool" where
  "keyword_at haystack needle i \<longleftrightarrow>
     starts_with (drop i haystack) needle \<and>
     (i = 0 \<or> \<not> is_ident_char (haystack ! (i - 1))) \<and>
     (i + length needle = length haystack \<or> \<not> is_ident_char (haystack ! (i + length needle)))"

definition keyword_token_positions :: "string \<Rightarrow> string \<Rightarrow> identifier_exemption \<Rightarrow> nat list" where
  "keyword_token_positions haystack needle exemption =
     (if needle = [] \<or> length haystack < length needle then []
      else filter (\<lambda>i. keyword_at haystack needle i \<and> \<not> in_identifier_position haystack i exemption)
             [0..<length haystack - length needle + 1])"

definition contains_keyword_token :: "string \<Rightarrow> string \<Rightarrow> bool" where
  "contains_keyword_token haystack needle \<longleftrightarrow> keyword_token_positions haystack needle SigilOnly \<noteq> []"

definition procedure_name_at :: "string \<Rightarrow> nat \<Rightarrow> string" where
  "procedure_name_at bytes j = takeWhile is_ident_char (dropWhile is_space (drop j bytes))"

definition carries_unlisted_procedure :: "string \<Rightarrow> bool" where
  "carries_unlisted_procedure executable_upper \<longleftrightarrow>
     (\<exists>start \<in> set (keyword_token_positions executable_upper ''CALL'' SigilOnly).
        procedure_name_at executable_upper (start + 4) \<notin> set READ_ONLY_PROCEDURES)"

definition forbidden_cypher_keyword :: "string \<Rightarrow> string option" where
  "forbidden_cypher_keyword query =
     (case mask_non_executable query of
        None \<Rightarrow> Some ''UNTERMINATED_LITERAL''
      | Some executable \<Rightarrow>
          (let upper_text = ascii_upper executable in
           case List.find (contains_keyword_token upper_text) FORBIDDEN_CYPHER_KEYWORDS of
             Some kw \<Rightarrow> Some kw
           | None \<Rightarrow> if carries_unlisted_procedure upper_text then Some ''CALL'' else None))"

definition is_multi_statement :: "string \<Rightarrow> bool" where
  "is_multi_statement query =
     (case mask_non_executable query of
        None \<Rightarrow> True
      | Some executable \<Rightarrow>
          (case split_once (CHR '';'') executable of
             Some (_, rest) \<Rightarrow> \<not> is_blank rest
           | None \<Rightarrow> False))"

section \<open>Regions of a query\<close>

text \<open>
  The specification of the mask: a query is a sequence of regions, executable bytes and the three
  kinds of text that cannot execute, each with its source text and its mask.
\<close>

datatype region = Plain char | Quoted char string | LineComment string | BlockComment string

fun region_src :: "region \<Rightarrow> string" where
  "region_src (Plain c) = [c]"
| "region_src (Quoted q s) = q # s"
| "region_src (LineComment s) = ''//'' @ s"
| "region_src (BlockComment s) = ''/*'' @ s"

fun region_mask :: "region \<Rightarrow> string" where
  "region_mask (Plain c) = [c]"
| "region_mask (Quoted q s) = replicate (Suc (length s)) MASKED_TOKEN"
| "region_mask (LineComment s) = replicate (2 + length s) (CHR '' '')"
| "region_mask (BlockComment s) = replicate (2 + length s) (CHR '' '')"

fun region_ok :: "region \<Rightarrow> bool" where
  "region_ok (Plain c) = (\<not> is_quote c)"
| "region_ok (Quoted q s) = (is_quote q \<and> skip_quoted q s = Some [])"
| "region_ok (LineComment s) = (byte 10 \<notin> set s)"
| "region_ok (BlockComment s) = (skip_block s = Some [])"

text \<open>A line comment runs to the end of its line, and a lone slash opens no comment.\<close>

fun region_ends :: "region \<Rightarrow> string \<Rightarrow> bool" where
  "region_ends (LineComment s) r = (r = [] \<or> hd r = byte 10)"
| "region_ends (Plain c) r = (c = CHR ''/'' \<longrightarrow> r = [] \<or> hd r \<noteq> CHR ''/'' \<and> hd r \<noteq> CHR ''*'')"
| "region_ends _ r = True"

definition src_of :: "region list \<Rightarrow> string" where
  "src_of rs = concat (map region_src rs)"

definition mask_of :: "region list \<Rightarrow> string" where
  "mask_of rs = concat (map region_mask rs)"

fun regions_ok :: "region list \<Rightarrow> bool" where
  "regions_ok [] = True"
| "regions_ok (g # rs) = (region_ok g \<and> region_ends g (src_of rs) \<and> regions_ok rs)"

lemma regions_simps [simp]:
  "src_of [] = []" "mask_of [] = []"
  "src_of (g # rs) = region_src g @ src_of rs" "mask_of (g # rs) = region_mask g @ mask_of rs"
  by (simp_all add: src_of_def mask_of_def)

lemma length_region_mask [simp]: "length (region_mask g) = length (region_src g)"
  by (cases g) simp_all

lemma skip_quoted_splits:
  "skip_quoted q s = Some r \<Longrightarrow> is_quote q \<Longrightarrow>
   \<exists>p. s = p @ r \<and> (\<forall>r'. skip_quoted q (p @ r') = Some r')"
proof (induction q s rule: skip_quoted.induct)
  case (1 q)
  then show ?case by simp
next
  case (2 q b)
  then have b: "b = q" "r = []" by (auto split: if_splits)
  have "skip_quoted q (b # r') = Some r'" for r'
    using 2(2) b by (cases r') (auto simp: is_quote_def)
  then show ?case using b by (intro exI [of _ "[b]"]) simp
next
  case (3 q b c s)
  consider (esc) "b = CHR 0x5C" "q \<noteq> CHR 0x60" | (close) "b = q" "\<not> (b = CHR 0x5C \<and> q \<noteq> CHR 0x60)"
    | (other) "b \<noteq> q" "\<not> (b = CHR 0x5C \<and> q \<noteq> CHR 0x60)"
    by blast
  then show ?case
  proof cases
    case esc
    then obtain p where "s = p @ r" "\<forall>r'. skip_quoted q (p @ r') = Some r'" using 3 by auto
    then show ?thesis using esc by (intro exI [of _ "b # c # p"]) simp
  next
    case close
    then have r: "r = c # s" using 3(3) by auto
    have "skip_quoted q (b # r') = Some r'" for r' using close by (cases r') auto
    then show ?thesis using r by (intro exI [of _ "[b]"]) simp
  next
    case other
    then obtain p where p: "c # s = p @ r" "\<forall>r'. skip_quoted q (p @ r') = Some r'" using 3 by auto
    then obtain p' where p': "p = c # p'"
      using skip_quoted_length [of q "c # s" r] 3(3) other by (cases p) (auto split: if_splits)
    have "skip_quoted q (b # p @ r') = Some r'" for r' using other p(2) p' by auto
    then show ?thesis using p by (intro exI [of _ "b # p"]) simp
  qed
qed

lemma skip_block_splits:
  "skip_block s = Some r \<Longrightarrow> \<exists>p. s = p @ r \<and> (\<forall>r'. skip_block (p @ r') = Some r')"
proof (induction s rule: skip_block.induct)
  case (1 b c s)
  show ?case
  proof (cases "b = CHR ''*'' \<and> c = CHR ''/''")
    case True
    then show ?thesis using 1 by (intro exI [of _ "[b, c]"]) auto
  next
    case False
    then obtain p where p: "c # s = p @ r" "\<forall>r'. skip_block (p @ r') = Some r'" using 1 by auto
    then obtain p' where p': "p = c # p'"
      using skip_block_length [of "c # s" r] 1(2) False by (cases p) (auto split: if_splits)
    have "skip_block (b # p @ r') = Some r'" for r' using False p(2) p' by auto
    then show ?thesis using p by (intro exI [of _ "b # p"]) simp
  qed
qed simp_all

lemma skip_line_comment_splits:
  "\<exists>p. s = p @ skip_line_comment s \<and> byte 10 \<notin> set p \<and> (skip_line_comment s = [] \<or> hd (skip_line_comment s) = byte 10)"
proof (induction s)
  case (Cons b s)
  then obtain p where "s = p @ skip_line_comment s" "byte 10 \<notin> set p"
    "skip_line_comment s = [] \<or> hd (skip_line_comment s) = byte 10" by blast
  then show ?case
    by (cases "b = byte 10") (simp, intro exI [of _ "if b = byte 10 then [] else b # p"], auto)
qed simp

lemma skip_line_comment_append:
  "byte 10 \<notin> set p \<Longrightarrow> r = [] \<or> hd r = byte 10 \<Longrightarrow> skip_line_comment (p @ r) = r"
  by (induction p) (cases r; auto)+

lemma slash_not_newline: "CHR ''/'' \<noteq> byte 10"
  by (simp add: eq_byte code_def)

lemma mask_bytes_region:
  assumes "region_ok g" "region_ends g r"
  shows "mask_bytes (region_src g @ r) = map_option (append (region_mask g)) (mask_bytes r)"
proof (cases g)
  case (Plain c)
  moreover have "mask_bytes (c # r) = map_option (Cons c) (mask_bytes r)"
    using Plain assms by (auto simp: mask_bytes.simps(2))
  moreover have "Cons c = append [c]" by auto
  ultimately show ?thesis by simp
next
  case (Quoted q s)
  then have "skip_quoted q (s @ r) = Some r"
    using assms skip_quoted_splits [of q s "[]"] by auto
  then show ?thesis using Quoted assms by (simp add: mask_bytes.simps(2))
next
  case (LineComment s)
  then have "skip_line_comment (s @ r) = r"
    using assms by (auto intro: skip_line_comment_append)
  then show ?thesis
    using LineComment by (simp add: mask_bytes.simps(2) is_quote_def slash_not_newline)
next
  case (BlockComment s)
  then have "skip_block (s @ r) = Some r"
    using assms skip_block_splits [of s "[]"] by auto
  then show ?thesis
    using BlockComment by (simp add: mask_bytes.simps(2) is_quote_def)
qed

lemma mask_bytes_cases:
  assumes "mask_bytes (b # s) = Some m"
  obtains g r m' where "b # s = region_src g @ r" "region_ok g" "region_ends g r" "mask_bytes r = Some m'"
proof -
  consider (quoted) "is_quote b" | (line) "b = CHR ''/''" "s \<noteq> []" "hd s = CHR ''/''"
    | (block) "b = CHR ''/''" "s \<noteq> []" "hd s = CHR ''*''"
    | (plain) "\<not> is_quote b" "\<not> (b = CHR ''/'' \<and> s \<noteq> [] \<and> (hd s = CHR ''/'' \<or> hd s = CHR ''*''))"
    by blast
  then show thesis
  proof cases
    case quoted
    then obtain r where r: "skip_quoted b s = Some r" "mask_bytes r \<noteq> None"
      using assms by (auto simp: mask_bytes.simps(2) split: option.splits)
    then obtain p where "s = p @ r" "skip_quoted b (p @ []) = Some []"
      using skip_quoted_splits quoted by blast
    then show thesis using that [of "Quoted b p" r] quoted r by auto
  next
    case line
    then obtain t where t: "s = CHR ''/'' # t" by (cases s) auto
    let ?r = "skip_line_comment t"
    have r: "skip_line_comment s = ?r" using t by (simp add: slash_not_newline)
    obtain p where p: "t = p @ ?r" "byte 10 \<notin> set p" "?r = [] \<or> hd ?r = byte 10"
      using skip_line_comment_splits by blast
    have "mask_bytes ?r \<noteq> None"
      using assms line r by (auto simp: mask_bytes.simps(2) is_quote_def)
    then show thesis using that [of "LineComment p" ?r] line t p by auto
  next
    case block
    then obtain t where t: "s = CHR ''*'' # t" by (cases s) auto
    then obtain r where r: "skip_block t = Some r" "mask_bytes r \<noteq> None"
      using assms block by (auto simp: mask_bytes.simps(2) is_quote_def split: option.splits)
    then obtain p where "t = p @ r" "skip_block (p @ []) = Some []"
      using skip_block_splits by blast
    then show thesis using that [of "BlockComment p" r] block t r by auto
  next
    case plain
    then have "mask_bytes s \<noteq> None" using assms by (auto simp: mask_bytes.simps(2) split: if_splits)
    then show thesis using that [of "Plain b" s] plain by auto
  qed
qed


theorem mask_bytes_regions:
  "mask_bytes q = Some m \<longleftrightarrow> (\<exists>rs. regions_ok rs \<and> q = src_of rs \<and> m = mask_of rs)"
proof
  show "mask_bytes q = Some m \<Longrightarrow> \<exists>rs. regions_ok rs \<and> q = src_of rs \<and> m = mask_of rs"
  proof (induction "length q" arbitrary: q m rule: less_induct)
    case less
    show ?case
    proof (cases q)
      case Nil
      then show ?thesis using less(2) by (intro exI [of _ "[]"]) simp
    next
      case (Cons b s)
      then obtain g r m' where g: "q = region_src g @ r" "region_ok g" "region_ends g r" "mask_bytes r = Some m'"
        using less(2) mask_bytes_cases by metis
      moreover have "region_src g \<noteq> []" by (cases g) auto
      ultimately obtain rs where "regions_ok rs \<and> r = src_of rs \<and> m' = mask_of rs"
        using less(1) [of r m'] by auto
      then show ?thesis using g less(2) mask_bytes_region [OF g(2,3)] by (intro exI [of _ "g # rs"]) auto
    qed
  qed
next
  assume "\<exists>rs. regions_ok rs \<and> q = src_of rs \<and> m = mask_of rs"
  then obtain rs where "regions_ok rs" "q = src_of rs" "m = mask_of rs" by blast
  then show "mask_bytes q = Some m"
    by (induction rs arbitrary: q m) (simp_all add: mask_bytes_region)
qed

lemma mask_bytes_cont: "\<forall>b \<in> set u. cont b \<Longrightarrow> mask_bytes (u @ v) = map_option (append u) (mask_bytes v)"
proof (induction u)
  case Nil
  then show ?case by (simp add: option.map_ident)
next
  case (Cons b u)
  then have "region_ok (Plain b)" "region_ends (Plain b) (u @ v)"
    by (auto simp: cont_def is_quote_def code_def)
  from mask_bytes_region [OF this] Cons show ?case
    by (simp add: option.map_comp comp_def)
qed

lemma skip_quoted_last: "skip_quoted q s = Some [] \<Longrightarrow> s \<noteq> [] \<and> last s = q"
  by (induction q s rule: skip_quoted.induct) (auto split: if_splits)

lemma skip_block_last: "skip_block s = Some [] \<Longrightarrow> s \<noteq> [] \<and> last s = CHR ''/''"
  by (induction s rule: skip_block.induct) (auto split: if_splits)

lemma utf8_valid_Cons_ascii: "code c < 128 \<Longrightarrow> utf8_valid (c # y) = utf8_valid y"
  by (simp add: utf8_valid_def)

lemma utf8_valid_after_region:
  assumes "utf8_valid (region_src g @ r)" "region_ok g" "region_ends g r" "\<forall>c. g \<noteq> Plain c"
  shows "utf8_valid r"
proof -
  have cut: "utf8_valid r" if "region_src g \<noteq> []" "code (last (region_src g)) < 128"
    using utf8_valid_after_ascii [of "butlast (region_src g)" "last (region_src g)" r] assms(1) that
      append_butlast_last_id [OF that(1)] by (metis append.assoc append_Cons append_Nil)
  show ?thesis
  proof (cases g)
    case (Quoted q s)
    then show ?thesis
      using cut skip_quoted_last [of q s] assms(2) by (auto simp: is_quote_def code_def)
  next
    case (LineComment s)
    then show ?thesis
      using assms(1,3) utf8_valid_after_ascii [of "''//'' @ s" "byte 10" "tl r"]
      by (cases r) (auto simp: utf8_valid_Cons_ascii utf8_valid_def)
  next
    case (BlockComment s)
    then show ?thesis
      using cut skip_block_last [of s] assms(2) by (auto simp: code_def)
  qed (use assms(4) in simp)
qed

lemma ascii_region_mask: "\<forall>c. g \<noteq> Plain c \<Longrightarrow> \<forall>c \<in> set (region_mask g). code c < 128"
  by (cases g) (auto simp: MASKED_TOKEN_def code_def [of "CHR '' ''"])

lemma utf8_valid_mask_bytes: "mask_bytes q = Some m \<Longrightarrow> utf8_valid q \<Longrightarrow> utf8_valid m"
proof (induction "length q" arbitrary: q m rule: less_induct)
  case less
  show ?case
  proof (cases q)
    case Nil
    then show ?thesis using less(2,3) by simp
  next
    case (Cons b s)
    then obtain g r m' where g: "q = region_src g @ r" "region_ok g" "region_ends g r" "mask_bytes r = Some m'"
      using less(2) mask_bytes_cases by metis
    have m: "m = region_mask g @ m'" using less(2) mask_bytes_region [OF g(2,3)] g by simp
    have "region_src g \<noteq> []" by (cases g) auto
    show ?thesis
    proof (cases "\<exists>c. g = Plain c")
      case True
      then obtain c where c: "g = Plain c" by blast
      then have "from_utf8 (c # r) \<noteq> None" using less(3) g by (simp add: utf8_valid_def)
      then obtain u v where uv: "r = u @ v" "\<forall>b \<in> set u. cont b" "from_utf8 v \<noteq> None"
        "\<And>w. from_utf8 w \<noteq> None \<Longrightarrow> from_utf8 (c # u @ w) \<noteq> None"
        using from_utf8_step by blast
      obtain mv where mv: "mask_bytes v = Some mv" "m' = u @ mv"
        using g(4) mask_bytes_cont [OF uv(2), of v] uv(1) by auto
      then have "utf8_valid mv" using less(1) [of v mv] g(1) c uv by (auto simp: utf8_valid_def)
      then show ?thesis using uv(4) m c mv by (simp add: utf8_valid_def)
    next
      case False
      then have "utf8_valid m'"
        using less(1) [of r m'] less(3) g utf8_valid_after_region [of g r] \<open>region_src g \<noteq> []\<close> by auto
      then show ?thesis using m ascii_region_mask [of g] False by (simp add: utf8_valid_ascii_append)
    qed
  qed
qed

lemma mask_non_executable_valid: "utf8_valid q \<Longrightarrow> mask_non_executable q = mask_bytes q"
  using utf8_valid_mask_bytes [of q] by (auto simp: mask_non_executable_def split: option.splits)

text \<open>
  The mask of a query.  A UTF-8 query is masked exactly when it divides into executable bytes,
  terminated literals and comments; the mask keeps every executable byte at its offset, writes one
  non-separator byte per byte of a literal and one space per byte of a comment, and is UTF-8 again:
  the final conversion of the source never refuses.
\<close>

theorem mask_is_by_regions:
  assumes "utf8_valid q"
  shows "mask_non_executable q = Some m \<longleftrightarrow> (\<exists>rs. regions_ok rs \<and> q = src_of rs \<and> m = mask_of rs)"
  by (simp only: mask_non_executable_valid [OF assms] mask_bytes_regions)

theorem mask_is_by_regions_witness:
  "mask_non_executable ''a'' = Some ''a''"
proof -
  have "\<exists>rs. regions_ok rs \<and> ''a'' = src_of rs \<and> ''a'' = mask_of rs"
    by (rule exI [of _ "[Plain (CHR ''a'')]"]) (simp add: is_quote_def)
  moreover have "utf8_valid ''a''" by (rule utf8_valid_ascii) (simp add: code_def)
  ultimately show ?thesis using mask_is_by_regions by blast
qed

section \<open>What the gate admits\<close>

text \<open>
  The specification of a clause keyword, on the executable text alone: \<open>w\<close> stands as a word between
  \<open>a\<close> and \<open>b\<close>, in any case, and is not introduced by \<open>.\<close> or \<open>:\<close> across separators.
\<close>

definition standalone :: "string \<Rightarrow> string \<Rightarrow> bool" where
  "standalone a b \<longleftrightarrow> (a = [] \<or> \<not> is_ident_char (last a)) \<and> (b = [] \<or> \<not> is_ident_char (hd b))"

definition sigil_before :: "string \<Rightarrow> bool" where
  "sigil_before a \<longleftrightarrow> (\<exists>x c sp. a = x @ c # sp \<and> (c = CHR ''.'' \<or> c = CHR '':'') \<and> list_all is_separator sp)"

definition clause_between :: "string \<Rightarrow> string \<Rightarrow> bool" where
  "clause_between a b \<longleftrightarrow> standalone a b \<and> \<not> sigil_before a"

lemma skip_separators_back_split:
  "n \<le> length bs \<Longrightarrow> skip_separators_back bs n = j \<Longrightarrow>
   j \<le> n \<and> list_all is_separator (drop j (take n bs)) \<and> (0 < j \<longrightarrow> \<not> is_separator (bs ! (j - 1)))"
proof (induction n arbitrary: j)
  case (Suc n)
  then have "take (Suc n) bs = take n bs @ [bs ! n]" by (simp add: take_Suc_conv_app_nth)
  with Suc show ?case by (auto split: if_splits)
qed simp

lemma in_identifier_position_sigil:
  assumes "n \<le> length bs"
  shows "in_identifier_position bs n SigilOnly \<longleftrightarrow> sigil_before (take n bs)"
proof -
  define j where "j = skip_separators_back bs n"
  have j: "j \<le> n" "list_all is_separator (drop j (take n bs))" "0 < j \<Longrightarrow> \<not> is_separator (bs ! (j - 1))"
    using skip_separators_back_split [OF assms, of j] by (simp_all add: j_def)
  have eq: "in_identifier_position bs n SigilOnly \<longleftrightarrow> 0 < j \<and> (bs ! (j - 1) = CHR ''.'' \<or> bs ! (j - 1) = CHR '':'')"
    by (simp add: in_identifier_position_def j_def [symmetric] Let_def)
  show ?thesis
  proof
    assume "in_identifier_position bs n SigilOnly"
    with eq have h: "0 < j" "bs ! (j - 1) = CHR ''.'' \<or> bs ! (j - 1) = CHR '':''" by auto
    have "take n bs = take (j - 1) (take n bs) @ drop (j - 1) (take n bs)"
      by (simp only: append_take_drop_id)
    also have "drop (j - 1) (take n bs) = take n bs ! (j - 1) # drop j (take n bs)"
      using Cons_nth_drop_Suc [of "j - 1" "take n bs"] h j assms by simp
    finally have "take n bs = take (j - 1) (take n bs) @ bs ! (j - 1) # drop j (take n bs)"
      using h j by simp
    then show "sigil_before (take n bs)" using h(2) j(2) unfolding sigil_before_def by blast
  next
    assume "sigil_before (take n bs)"
    then obtain x c sp where s: "take n bs = x @ c # sp" "c = CHR ''.'' \<or> c = CHR '':''" "list_all is_separator sp"
      by (auto simp: sigil_before_def)
    have len: "n = length x + 1 + length sp" using arg_cong [OF s(1), of length] assms by simp
    have sep: "is_separator (bs ! i)" if "length x < i" "i < n" for i
    proof -
      have "bs ! i = take n bs ! i" using that assms by simp
      also have "\<dots> = sp ! (i - length x - 1)" using that unfolding s(1) by (simp add: nth_append nth_Cons')
      finally show ?thesis using s(3) that len by (simp add: list_all_length)
    qed
    have "bs ! length x = take n bs ! length x" using len by simp
    also have "\<dots> = c" unfolding s(1) by simp
    finally have c: "bs ! length x = c" .
    have nosep: "\<not> is_separator c" using s(2) by (auto simp: is_separator_def ascii_simps code_def)
    have "j = length x + 1"
    proof (rule ccontr)
      assume "j \<noteq> length x + 1"
      then consider "length x + 1 < j" | "j \<le> length x" by linarith
      then show False
      proof cases
        case 1
        then have "length x < j - 1" "j - 1 < n" "0 < j" using j(1) by linarith+
        then show False using j(3) sep [of "j - 1"] by blast
      next
        case 2
        have "length x - j < length (drop j (take n bs))" using 2 len assms by simp
        moreover have "drop j (take n bs) ! (length x - j) = c" using 2 len assms c by simp
        ultimately show False using j(2) nosep by (auto simp: list_all_length)
      qed
    qed
    then show "in_identifier_position bs n SigilOnly" using eq c s(2) by simp
  qed
qed

lemma keyword_at_split:
  "keyword_at h w i \<and> i + length w \<le> length h \<longleftrightarrow> (\<exists>a b. h = a @ w @ b \<and> length a = i \<and> standalone a b)"
proof
  assume k: "keyword_at h w i \<and> i + length w \<le> length h"
  then obtain b where b: "drop i h = w @ b" by (auto simp: keyword_at_def starts_with_iff)
  then have h: "h = take i h @ w @ b" by (metis append_take_drop_id)
  have len: "length (take i h) = i" using k by simp
  have "standalone (take i h) b"
  proof -
    have "take i h = [] \<or> \<not> is_ident_char (last (take i h))"
      using k len by (cases i) (auto simp: keyword_at_def last_conv_nth)
    moreover have "b = [] \<or> \<not> is_ident_char (hd b)"
    proof (cases b)
      case (Cons c t)
      have "length h = i + length w + Suc (length t)" using arg_cong [OF h, of length] Cons len by simp
      moreover have "h ! (i + length w) = c"
        using arg_cong [OF h, of "\<lambda>l. l ! (i + length w)"] len Cons by (simp add: nth_append)
      ultimately show ?thesis using k Cons by (simp add: keyword_at_def)
    qed simp
    ultimately show ?thesis by (simp add: standalone_def)
  qed
  then show "\<exists>a b. h = a @ w @ b \<and> length a = i \<and> standalone a b" using h len by blast
next
  assume "\<exists>a b. h = a @ w @ b \<and> length a = i \<and> standalone a b"
  then obtain a b where ab: "h = a @ w @ b" "length a = i" "standalone a b" by blast
  have "i = 0 \<or> \<not> is_ident_char (h ! (i - 1))"
    using ab by (cases a rule: rev_cases) (auto simp: standalone_def nth_append)
  moreover have "i + length w = length h \<or> \<not> is_ident_char (h ! (i + length w))"
    using ab by (cases b) (auto simp: standalone_def nth_append)
  ultimately show "keyword_at h w i \<and> i + length w \<le> length h"
    using ab by (simp add: keyword_at_def starts_with_iff)
qed


lemma keyword_token_positions_iff:
  assumes "w \<noteq> []"
  shows "i \<in> set (keyword_token_positions h w SigilOnly) \<longleftrightarrow>
           (\<exists>a b. h = a @ w @ b \<and> length a = i \<and> clause_between a b)"
proof -
  have "i \<in> set (keyword_token_positions h w SigilOnly) \<longleftrightarrow>
      (keyword_at h w i \<and> i + length w \<le> length h) \<and> \<not> in_identifier_position h i SigilOnly"
    using assms by (auto simp: keyword_token_positions_def less_Suc_eq_le simp del: upt_Suc)
  also have "\<dots> \<longleftrightarrow> (\<exists>a b. h = a @ w @ b \<and> length a = i \<and> clause_between a b)"
    unfolding keyword_at_split by (fastforce simp: clause_between_def in_identifier_position_sigil)
  finally show ?thesis .
qed

lemma contains_keyword_token_iff:
  "w \<noteq> [] \<Longrightarrow> contains_keyword_token h w \<longleftrightarrow> (\<exists>a b. h = a @ w @ b \<and> clause_between a b)"
  using keyword_token_positions_iff [of w _ h] unfolding contains_keyword_token_def
  by (metis list.set_intros(1) neq_Nil_conv empty_iff list.set(1))

lemma upper_class [simp]:
  "is_ident_char (upper c) = is_ident_char c" "is_separator (upper c) = is_separator c" "is_space (upper c) = is_space c"
  by (auto simp: is_ident_char_def is_separator_def ascii_simps eq_char_code code_literal code_upper simp del: code_inject)

lemma upper_sigil [simp]: "upper c = CHR ''.'' \<longleftrightarrow> c = CHR ''.''" "upper c = CHR '':'' \<longleftrightarrow> c = CHR '':''"
  by (auto simp: eq_char_code code_literal code_upper ascii_simps simp del: code_inject)

lemma clause_between_upper: "clause_between (ascii_upper a) (ascii_upper b) = clause_between a b"
proof -
  have "sigil_before (ascii_upper a) = sigil_before a"
  proof
    assume "sigil_before (ascii_upper a)"
    then obtain x c sp where "map upper a = x @ c # sp" "c = CHR ''.'' \<or> c = CHR '':''" "list_all is_separator sp"
      by (auto simp: sigil_before_def ascii_upper_def)
    then show "sigil_before a"
      unfolding sigil_before_def map_eq_append_conv map_eq_Cons_conv
      by (force simp: list_all_iff)
  next
    assume "sigil_before a"
    then show "sigil_before (ascii_upper a)"
      unfolding sigil_before_def ascii_upper_def by (fastforce simp: list_all_iff)
  qed
  moreover have "standalone (ascii_upper a) (ascii_upper b) = standalone a b"
    by (auto simp: standalone_def ascii_upper_def last_map hd_map)
  ultimately show ?thesis by (simp add: clause_between_def)
qed

definition executes :: "string \<Rightarrow> string \<Rightarrow> bool" where
  "executes m kw \<longleftrightarrow> (\<exists>a w b. m = a @ w @ b \<and> ascii_upper w = kw \<and> clause_between a b)"

definition next_word :: "string \<Rightarrow> string" where
  "next_word b = takeWhile is_ident_char (dropWhile is_space b)"

lemma upper_split:
  "(\<exists>a b. ascii_upper m = a @ kw @ b \<and> P a b) \<longleftrightarrow>
   (\<exists>a w b. m = a @ w @ b \<and> ascii_upper w = kw \<and> P (ascii_upper a) (ascii_upper b))"
  (is "?L \<longleftrightarrow> ?R")
proof
  assume ?L
  then obtain a b where "map upper m = a @ kw @ b" and P: "P a b"
    by (auto simp: ascii_upper_def)
  then obtain x y where "m = x @ y" "map upper x = a" "map upper y = kw @ b"
    using map_eq_append_conv [of upper m a "kw @ b"] by metis
  moreover from this(3) obtain w z where "y = w @ z" "map upper w = kw" "map upper z = b"
    using map_eq_append_conv [of upper y kw b] by metis
  ultimately show ?R using P unfolding ascii_upper_def by blast
next
  assume ?R
  then obtain a w b where "m = a @ w @ b" "ascii_upper w = kw" "P (ascii_upper a) (ascii_upper b)" by blast
  then have "ascii_upper m = ascii_upper a @ kw @ ascii_upper b" "P (ascii_upper a) (ascii_upper b)"
    by (simp_all add: ascii_upper_def)
  then show ?L by blast
qed

lemma executes_upper: "kw \<noteq> [] \<Longrightarrow> contains_keyword_token (ascii_upper m) kw \<longleftrightarrow> executes m kw"
  by (simp add: contains_keyword_token_iff upper_split clause_between_upper executes_def)

lemma next_word_upper: "next_word (ascii_upper b) = ascii_upper (next_word b)"
  by (simp add: next_word_def ascii_upper_def dropWhile_map takeWhile_map comp_def)

lemma unlisted_procedure_upper:
  "carries_unlisted_procedure (ascii_upper m) \<longleftrightarrow>
     (\<exists>a w b. m = a @ w @ b \<and> ascii_upper w = ''CALL'' \<and> clause_between a b \<and>
        ascii_upper (next_word b) \<notin> set READ_ONLY_PROCEDURES)"
proof -
  have "carries_unlisted_procedure h \<longleftrightarrow>
      (\<exists>a b. h = a @ ''CALL'' @ b \<and> clause_between a b \<and> next_word b \<notin> set READ_ONLY_PROCEDURES)"
    (is "?L \<longleftrightarrow> ?R") for h
  proof
    assume ?L
    then obtain i where i: "i \<in> set (keyword_token_positions h ''CALL'' SigilOnly)"
      "procedure_name_at h (i + 4) \<notin> set READ_ONLY_PROCEDURES"
      by (auto simp: carries_unlisted_procedure_def)
    then obtain a b where "h = a @ ''CALL'' @ b" "length a = i" "clause_between a b"
      using keyword_token_positions_iff [of "''CALL''" i h] by auto
    then show ?R using i(2) by (auto simp: procedure_name_at_def next_word_def)
  next
    assume ?R
    then obtain a b where ab: "h = a @ ''CALL'' @ b" "clause_between a b" "next_word b \<notin> set READ_ONLY_PROCEDURES"
      by blast
    then have "length a \<in> set (keyword_token_positions h ''CALL'' SigilOnly)"
      using keyword_token_positions_iff [of "''CALL''" "length a" h] by blast
    moreover have "procedure_name_at h (length a + 4) = next_word b"
      using ab by (simp add: procedure_name_at_def next_word_def)
    ultimately show ?L using ab(3) unfolding carries_unlisted_procedure_def by metis
  qed
  then have "carries_unlisted_procedure (ascii_upper m) \<longleftrightarrow>
      (\<exists>a b. ascii_upper m = a @ ''CALL'' @ b \<and> clause_between a b \<and> next_word b \<notin> set READ_ONLY_PROCEDURES)"
    by blast
  also note upper_split [of m "''CALL''" "\<lambda>a b. clause_between a b \<and> next_word b \<notin> set READ_ONLY_PROCEDURES"]
  finally show ?thesis
    by (simp only: clause_between_upper next_word_upper)
qed

lemma keywords_nonempty: "kw \<in> set FORBIDDEN_CYPHER_KEYWORDS \<Longrightarrow> kw \<noteq> []"
  by (auto simp: FORBIDDEN_CYPHER_KEYWORDS_def)

text \<open>Executable text that changes nothing: no clause keyword of the list, and only listed procedures called.\<close>

definition read_only_text :: "string \<Rightarrow> bool" where
  "read_only_text m \<longleftrightarrow>
     (\<forall>kw \<in> set FORBIDDEN_CYPHER_KEYWORDS. \<not> executes m kw) \<and>
     (\<forall>a w b. m = a @ w @ b \<and> ascii_upper w = ''CALL'' \<and> clause_between a b \<longrightarrow>
        ascii_upper (next_word b) \<in> set READ_ONLY_PROCEDURES)"

lemma gate_on_mask:
  "forbidden_cypher_keyword q = None \<longleftrightarrow>
   (\<exists>m. mask_non_executable q = Some m \<and> read_only_text m)"
proof (cases "mask_non_executable q")
  case (Some m)
  have "List.find (contains_keyword_token (ascii_upper m)) FORBIDDEN_CYPHER_KEYWORDS = None \<longleftrightarrow>
      (\<forall>kw \<in> set FORBIDDEN_CYPHER_KEYWORDS. \<not> executes m kw)"
    using keywords_nonempty by (auto simp: find_None_iff executes_upper)
  moreover have "\<not> carries_unlisted_procedure (ascii_upper m) \<longleftrightarrow>
      (\<forall>a w b. m = a @ w @ b \<and> ascii_upper w = ''CALL'' \<and> clause_between a b \<longrightarrow>
        ascii_upper (next_word b) \<in> set READ_ONLY_PROCEDURES)"
    unfolding unlisted_procedure_upper by blast
  ultimately have "read_only_text m \<longleftrightarrow>
      List.find (contains_keyword_token (ascii_upper m)) FORBIDDEN_CYPHER_KEYWORDS = None \<and>
      \<not> carries_unlisted_procedure (ascii_upper m)"
    unfolding read_only_text_def by (simp only:)
  then show ?thesis
    using Some by (auto simp: forbidden_cypher_keyword_def Let_def split: option.splits)
qed (simp add: forbidden_cypher_keyword_def)

text \<open>
  C20: The gate is exact.  It admits a UTF-8 query precisely when every literal and block comment of
  the query is closed, no forbidden keyword stands as a clause in the executable text in any case
  (a word there, not a property, label or key introduced by a dot or a colon), and every \<open>CALL\<close> clause
  names a procedure of the allow list.  Text in literals and comments never decides.
\<close>

theorem gate_admits_exactly:
  assumes "utf8_valid q"
  shows "forbidden_cypher_keyword q = None \<longleftrightarrow>
    (\<exists>rs. regions_ok rs \<and> q = src_of rs \<and> read_only_text (mask_of rs))"
  unfolding gate_on_mask mask_non_executable_valid [OF assms] mask_bytes_regions by blast

theorem gate_admits_exactly_witness:
  "\<exists>rs. regions_ok rs \<and> ''RETURN n.set'' = src_of rs \<and> read_only_text (mask_of rs)"
proof -
  have "utf8_valid ''RETURN n.set''" by (rule utf8_valid_ascii) (simp add: code_def)
  moreover have "forbidden_cypher_keyword ''RETURN n.set'' = None" by code_simp
  ultimately show ?thesis by (rule gate_admits_exactly [THEN iffD1])
qed

end
