(* ===== verification/Query_Limits.thy ===== *)
theory Query_Limits
  imports Read_Gate "HOL-Library.Word"
begin

text \<open>
  \<open>src/query_handlers.rs\<close>: the bounds \<open>query_graph\<close> puts on a query that passed the gate.  A
  \<open>u64\<close> is a \<^typ>\<open>64 word\<close>; \<open>usize\<close> is 64 bits, so the conversion in \<open>clip_probe_row\<close> never fails.
\<close>

section \<open>Requests\<close>

definition query_failure_reason :: "string \<Rightarrow> string" where
  "query_failure_reason msg =
     (case List.find (contains msg) [''read_only_query_required'', ''multi_statement_not_supported''] of
        Some reason \<Rightarrow> reason
      | None \<Rightarrow> ''query_failed'')"

datatype request_error =
  MissingQuery
| ReadOnlyQueryRequired string
| MultiStatementNotSupported
| GraphPathMissing

text \<open>
  The \<open>query\<close> and \<open>offset\<close> arguments are options (absent, or of another JSON type); the errors stand for
  the messages of the source, and \<open>exists\<close> is what the file system answers.
\<close>

definition gated_cypher_request :: "string option \<Rightarrow> 64 word option \<Rightarrow> bool \<Rightarrow> (string \<times> 64 word, request_error) result" where
  "gated_cypher_request query_arg offset_arg graph_exists =
     (case query_arg of
        None \<Rightarrow> Err MissingQuery
      | Some query \<Rightarrow>
          (case forbidden_cypher_keyword query of
             Some bad \<Rightarrow> Err (ReadOnlyQueryRequired bad)
           | None \<Rightarrow>
               if is_multi_statement query then Err MultiStatementNotSupported
               else if \<not> graph_exists then Err GraphPathMissing
               else Ok (query, case offset_arg of Some off \<Rightarrow> off | None \<Rightarrow> 0)))"

section \<open>The row limit\<close>

definition QUERY_GRAPH_ROW_LIMIT :: "64 word" where
  "QUERY_GRAPH_ROW_LIMIT = 500"

definition saturating_add :: "'a::len word \<Rightarrow> 'a word \<Rightarrow> 'a word" where
  "saturating_add a b = (if unat a + unat b < 2 ^ LENGTH('a) then a + b else - 1)"

definition injected_fetch_limit :: "64 word \<Rightarrow> 64 word" where
  "injected_fetch_limit offset = saturating_add offset (QUERY_GRAPH_ROW_LIMIT + 1)"

definition clip_probe_row :: "'a list \<Rightarrow> 64 word \<Rightarrow> 'a list \<times> bool" where
  "clip_probe_row rows offset =
     (let window_end = unat (saturating_add offset QUERY_GRAPH_ROW_LIMIT) in
      (take window_end rows, window_end < length rows))"

definition executable_or_empty :: "string \<Rightarrow> string" where
  "executable_or_empty query = (case mask_non_executable query of Some m \<Rightarrow> m | None \<Rightarrow> [])"

definition has_limit_clause :: "string \<Rightarrow> bool" where
  "has_limit_clause query \<longleftrightarrow>
     keyword_token_positions (ascii_lower (executable_or_empty query)) ''limit'' SigilOrAlias \<noteq> []"

definition executable_end :: "string \<Rightarrow> nat" where
  "executable_end masked =
     (let e = skip_separators_back masked (length masked) in
      if 0 < e \<and> masked ! (e - 1) = CHR '';'' then e - 1 else e)"

definition executable_prefix :: "string \<Rightarrow> string" where
  "executable_prefix query =
     (case mask_non_executable query of
        None \<Rightarrow> query
      | Some masked \<Rightarrow>
          (case get_prefix query (executable_end masked) of Some p \<Rightarrow> p | None \<Rightarrow> query))"

definition limit_clause :: "64 word \<Rightarrow> string" where
  "limit_clause limit = byte 10 # ''LIMIT '' @ decimal (unat limit)"

definition inject_limit_if_absent :: "string \<Rightarrow> 64 word \<Rightarrow> string \<times> bool" where
  "inject_limit_if_absent query limit =
     (if has_limit_clause query then (query, False)
      else (executable_prefix query @ limit_clause limit, True))"

definition by_follows :: "string \<Rightarrow> nat \<Rightarrow> bool" where
  "by_follows lower_text start =
     (let rest = drop (start + 5) lower_text;
          tail = dropWhile is_space rest in
      rest \<noteq> [] \<and> is_space (hd rest) \<and> starts_with tail ''by'' \<and>
      (length tail \<le> 2 \<or> \<not> is_ident_char (tail ! 2)))"

definition has_order_by_clause :: "string \<Rightarrow> bool" where
  "has_order_by_clause query \<longleftrightarrow>
     (let lower_text = ascii_lower (executable_or_empty query) in
      \<exists>start \<in> set (keyword_token_positions lower_text ''order'' SigilOrAlias). by_follows lower_text start)"

definition format_query_result :: "string list \<Rightarrow> string list list \<Rightarrow> string" where
  "format_query_result columns rows =
     join_with '' | '' columns @ concat (map (\<lambda>row. byte 10 # join_with '' | '' row) rows)"

section \<open>Cutting a query where its executable text ends\<close>

lemma src_mask_append [simp]:
  "src_of (rs @ rs') = src_of rs @ src_of rs'" "mask_of (rs @ rs') = mask_of rs @ mask_of rs'"
  by (simp_all add: src_of_def mask_of_def)

lemma length_mask_of [simp]: "length (mask_of rs) = length (src_of rs)"
  by (induction rs) simp_all

lemma region_src_nonempty [simp]: "region_src g \<noteq> []"
  by (cases g) simp_all

definition cut_ok :: "string \<Rightarrow> nat \<Rightarrow> bool" where
  "cut_ok m k \<longleftrightarrow> k = length m \<or> m ! k = CHR '';'' \<or>
     (m ! k \<noteq> MASKED_TOKEN \<and> (k = 0 \<or> \<not> is_separator (m ! (k - 1))))"

lemma region_uncut:
  assumes "0 < k" "k < length (region_src g)" "cut_ok (region_mask g @ m) k"
  shows False
proof (cases g)
  case (Quoted q s)
  then have "k < length (replicate (Suc (length s)) MASKED_TOKEN)" using assms by simp
  then have "(replicate (Suc (length s)) MASKED_TOKEN @ m) ! k = MASKED_TOKEN"
    by (simp only: nth_append if_True nth_replicate length_replicate)
  moreover have "MASKED_TOKEN \<noteq> CHR '';''" by (simp add: MASKED_TOKEN_def byte_eq code_def)
  ultimately show ?thesis using assms Quoted by (simp add: cut_ok_def)
qed (use assms in \<open>auto simp: cut_ok_def nth_append nth_Cons' is_separator_def ascii_simps code_def split: if_splits\<close>)

lemma cut_regions:
  "k \<le> length (src_of rs) \<Longrightarrow> cut_ok (mask_of rs) k \<Longrightarrow>
   \<exists>rs1 rs2. rs = rs1 @ rs2 \<and> length (src_of rs1) = k"
proof (induction rs arbitrary: k)
  case Nil
  then show ?case by simp
next
  case (Cons g rs)
  let ?n = "length (region_src g)"
  consider "k = 0" | "0 < k" "k < ?n" | "?n \<le> k" by linarith
  then show ?case
  proof cases
    case 1
    then show ?thesis by (intro exI [of _ "[]"] exI [of _ "g # rs"]) simp
  next
    case 2
    then show ?thesis using region_uncut [of k g "mask_of rs"] Cons(3) by simp
  next
    case 3
    then obtain j where k: "k = ?n + j" by (metis le_add_diff_inverse)
    then have "cut_ok (mask_of rs) j"
      using Cons(3) by (cases j) (auto simp: cut_ok_def nth_append)
    then obtain rs1 rs2 where "rs = rs1 @ rs2 \<and> length (src_of rs1) = j"
      using Cons(1) [of j] Cons(2) k by auto
    then show ?thesis using k by (intro exI [of _ "g # rs1"] exI [of _ rs2]) auto
  qed
qed

lemma mask_bytes_cut:
  "regions_ok (rs1 @ rs2) \<Longrightarrow>
   mask_bytes (src_of rs1 @ byte 10 # t) = map_option (append (mask_of rs1)) (mask_bytes (byte 10 # t))"
proof (induction rs1)
  case Nil
  then show ?case by (simp add: option.map_ident)
next
  case (Cons g rs1)
  have "region_ends g (src_of rs1 @ byte 10 # t)"
  proof (cases "src_of rs1 = []")
    case True
    then show ?thesis by (cases g) (auto simp: byte_eq code_def)
  next
    case False
    then have "hd (src_of rs1 @ x) = hd (src_of rs1)" for x by simp
    then show ?thesis using Cons(2) False by (cases g) auto
  qed
  with Cons show ?case
    using mask_bytes_region [of g "src_of rs1 @ byte 10 # t"] by (simp add: option.map_comp comp_def)
qed

lemma mask_bytes_plain:
  "\<forall>c \<in> set t. \<not> is_quote c \<and> c \<noteq> CHR ''/'' \<Longrightarrow> mask_bytes t = Some t"
proof (induction t)
  case (Cons c t)
  then show ?case using mask_bytes_region [of "Plain c" t] by simp
qed simp

lemma mask_limit_clause: "mask_bytes (limit_clause l) = Some (limit_clause l)"
proof (rule mask_bytes_plain, rule ballI)
  fix c
  assume "c \<in> set (limit_clause l)"
  then have "c = byte 10 \<or> c \<in> set ''LIMIT '' \<or> is_digit c"
    using decimal_digits [of c "unat l"] by (auto simp: limit_clause_def)
  then show "\<not> is_quote c \<and> c \<noteq> CHR ''/''"
    by (elim disjE) (auto simp: is_quote_def ascii_simps code_def eq_byte)
qed

lemma skip_separators_back_end:
  assumes "skip_separators_back m (length m) = e"
  shows "e \<le> length m" "list_all is_separator (drop e m)" "0 < e \<Longrightarrow> \<not> is_separator (m ! (e - 1))"
  using skip_separators_back_split [of "length m" m e] assms by simp_all

lemma executable_end_cut: "executable_end m \<le> length m \<and> cut_ok m (executable_end m)"
proof -
  define e where "e = skip_separators_back m (length m)"
  note e = skip_separators_back_end [OF e_def [symmetric]]
  have "m ! e \<noteq> MASKED_TOKEN" if "e < length m"
  proof -
    have "is_separator (m ! e)" using e(2) that by (auto simp: list_all_length Cons_nth_drop_Suc [symmetric])
    then show ?thesis by (auto simp: is_separator_def ascii_simps MASKED_TOKEN_def)
  qed
  then show ?thesis using e by (auto simp: executable_end_def e_def [symmetric] Let_def cut_ok_def)
qed

text \<open>What the cut drops: separators, and at most one terminator.\<close>

lemma executable_end_drops:
  "\<exists>u. drop (executable_end m) m = u \<and> (list_all is_separator u \<or> (\<exists>v. u = CHR '';'' # v \<and> list_all is_separator v))"
proof -
  define e where "e = skip_separators_back m (length m)"
  note e = skip_separators_back_end [OF e_def [symmetric]]
  show ?thesis
    using e Cons_nth_drop_Suc [of "e - 1" m]
    by (auto simp: executable_end_def e_def [symmetric] Let_def)
qed


lemma quote_not_cont: "is_quote c \<Longrightarrow> \<not> cont c"
  by (auto simp: is_quote_def cont_def code_def)

lemma slash_not_cont: "\<not> cont (CHR ''/'')"
  by (simp add: cont_def code_def)

lemma ascii_separator: "is_separator c \<or> c = CHR '';'' \<Longrightarrow> \<not> cont c"
  by (auto simp: is_separator_def ascii_simps cont_def code_def)

lemma regions_ok_appendD: "regions_ok (rs1 @ rs2) \<Longrightarrow> regions_ok rs2"
  by (induction rs1) auto

lemma executable_prefix_cut:
  assumes "utf8_valid q" "mask_non_executable q = Some m"
  defines "e \<equiv> executable_end m"
  shows "executable_prefix q = take e q \<and> utf8_valid (take e q) \<and>
    mask_bytes (take e q @ limit_clause l) = Some (take e m @ limit_clause l)"
proof -
  obtain rs where rs: "regions_ok rs" "q = src_of rs" "m = mask_of rs"
    using assms(1,2) by (auto simp: mask_non_executable_valid mask_bytes_regions)
  have e: "e \<le> length m" "cut_ok m e" using executable_end_cut [of m] by (simp_all add: e_def)
  then obtain rs1 rs2 where split: "rs = rs1 @ rs2" "length (src_of rs1) = e"
    using cut_regions [of e rs] rs by auto
  then have takes: "take e q = src_of rs1" "take e m = mask_of rs1" "drop e q = src_of rs2" "drop e m = mask_of rs2"
    using rs by simp_all
  have nc: "drop e q = [] \<or> \<not> cont (hd (drop e q))"
  proof (cases rs2)
    case (Cons g gs)
    then have hd: "hd (drop e q) = hd (region_src g)" "hd (drop e m) = hd (region_mask g)" "drop e m \<noteq> []"
      using takes by (cases g; simp)+
    then have "is_separator (hd (drop e m)) \<or> hd (drop e m) = CHR '';''"
      using executable_end_drops [of m] hd_in_set [OF hd(3)] unfolding list_all_iff e_def by fastforce
    then have "\<not> cont (hd (region_mask g))" using ascii_separator hd by simp
    then show ?thesis
      using hd regions_ok_appendD [of rs1 rs2] rs(1) split Cons quote_not_cont slash_not_cont by (cases g) auto
  qed (use takes in simp)
  have get: "get_prefix q e = Some (take e q)"
    using nc e(1) rs by (auto simp: get_prefix_def hd_drop_conv_nth)
  have valid: "utf8_valid (take e q)"
    using utf8_valid_prefix [of "take e q" "drop e q"] assms(1) nc by simp
  have "mask_bytes (take e q @ limit_clause l) = Some (take e m @ limit_clause l)"
    using mask_bytes_cut [of rs1 rs2 "''LIMIT '' @ decimal (unat l)"] mask_limit_clause [of l] rs(1) split takes
    by (simp add: limit_clause_def)
  then show ?thesis using get valid assms(2) by (simp add: executable_prefix_def e_def)
qed


section \<open>The injected limit\<close>

text \<open>
  The executable text ends where a name is expected, so a word put after it would be read as a name:
  after a dot, a colon or the word \<open>AS\<close>.
\<close>

definition expects_name :: "string \<Rightarrow> bool" where
  "expects_name m \<longleftrightarrow> in_identifier_position m (length m) SigilOrAlias"

lemma lower_class [simp]:
  "is_ident_char (lower c) = is_ident_char c" "is_separator (lower c) = is_separator c"
  by (auto simp: is_ident_char_def is_separator_def ascii_simps eq_char_code code_literal code_lower simp del: code_inject)

lemma lower_sigil [simp]:
  "lower c = CHR ''.'' \<longleftrightarrow> c = CHR ''.''" "lower c = CHR '':'' \<longleftrightarrow> c = CHR '':''" "lower (lower c) = lower c"
  by (auto simp: eq_char_code code_literal code_lower ascii_simps simp del: code_inject)
    (simp add: lower_def ascii_simps)

lemma skip_separators_back_lower: "n \<le> length m \<Longrightarrow> skip_separators_back (ascii_lower m) n = skip_separators_back m n"
  by (induction n) (auto simp: ascii_lower_def)

lemma skip_separators_back_le: "skip_separators_back m n \<le> n"
  by (induction n) (auto intro: le_SucI)

lemma in_identifier_position_lower:
  assumes "n \<le> length m"
  shows "in_identifier_position (ascii_lower m) n ex = in_identifier_position m n ex"
proof -
  have "i < n \<Longrightarrow> ascii_lower m ! i = lower (m ! i)" for i
    using assms by (simp add: ascii_lower_def)
  moreover have "skip_separators_back m n \<le> n" by (rule skip_separators_back_le)
  ultimately show ?thesis
    using assms by (auto simp: in_identifier_position_def skip_separators_back_lower Let_def)
qed

lemma skip_separators_back_append:
  "n \<le> length m \<Longrightarrow> skip_separators_back (m @ t) n = skip_separators_back m n"
  by (induction n) (auto simp: nth_append)

lemma in_identifier_position_newline:
  "in_identifier_position (m @ byte 10 # t) (Suc (length m)) ex = in_identifier_position m (length m) ex"
proof -
  have "is_separator (byte 10)" by (simp add: is_separator_def ascii_simps)
  then have skip: "skip_separators_back (m @ byte 10 # t) (Suc (length m)) = skip_separators_back m (length m)"
    by (simp add: skip_separators_back_append)
  define j where "j = skip_separators_back m (length m)"
  have "j \<le> length m" unfolding j_def by (rule skip_separators_back_le)
  then have nth: "i < j \<Longrightarrow> (m @ byte 10 # t) ! i = m ! i" for i by (simp add: nth_append)
  show ?thesis
    unfolding in_identifier_position_def Let_def skip j_def [symmetric]
    using nth [of "j - 1"] nth [of "j - 2"] nth [of "j - 3"] by (cases "j = 0") simp_all
qed

lemma lower_limit: "ascii_lower ''LIMIT '' = ''limit ''"
  by code_simp

lemma limit_clause_detected:
  assumes "\<not> expects_name m"
  shows "keyword_token_positions (ascii_lower (m @ limit_clause l)) ''limit'' SigilOrAlias \<noteq> []"
proof -
  let ?h = "m @ limit_clause l"
  have nl: "lower (byte 10) = byte 10" by (simp add: lower_def ascii_simps)
  have low: "ascii_lower ?h = ascii_lower m @ byte 10 # ''limit '' @ map lower (decimal (unat l))"
    using lower_limit by (simp add: limit_clause_def ascii_lower_def nl)
  have len: "length (ascii_lower m) = length m" by (simp add: ascii_lower_def)
  have "keyword_at (ascii_lower ?h) ''limit'' (Suc (length m))"
    unfolding keyword_at_def low
    by (simp add: len nth_append is_ident_char_def ascii_simps byte_eq code_def [of "CHR ''_''"] code_def [of "CHR '' ''"])
  moreover have "\<not> in_identifier_position (ascii_lower ?h) (Suc (length m)) SigilOrAlias"
    using assms in_identifier_position_lower [of "Suc (length m)" ?h]
      in_identifier_position_newline [of m "''LIMIT '' @ decimal (unat l)"]
    by (simp add: limit_clause_def expects_name_def)
  ultimately have "Suc (length m) \<in> set (keyword_token_positions (ascii_lower ?h) ''limit'' SigilOrAlias)"
    by (simp add: keyword_token_positions_def less_Suc_eq_le low len del: upt_Suc)
  then show ?thesis by auto
qed

section \<open>The bounded query stays read-only\<close>

lemma keyword_letters:
  "kw \<in> set FORBIDDEN_CYPHER_KEYWORDS \<or> kw = ''CALL'' \<Longrightarrow> kw \<noteq> [] \<and> list_all is_upper kw"
  by (auto simp: FORBIDDEN_CYPHER_KEYWORDS_def is_upper_def code_def)

lemma upper_letters: "list_all is_upper (ascii_upper w) \<Longrightarrow> list_all is_alpha w"
  by (induction w) (auto simp: ascii_upper_def ascii_simps code_upper split: if_splits)

lemma alpha_ident: "is_alpha c \<Longrightarrow> is_ident_char c" "is_alpha c \<Longrightarrow> \<not> is_space c" "is_digit c \<Longrightarrow> is_ident_char c"
  by (auto simp: is_ident_char_def ascii_simps)

text \<open>A keyword that stands as a clause in a text that goes on with a separator lies before or after it.\<close>

lemma append_cut_at:
  assumes "x @ c # y = a @ w @ b" "c \<notin> set w"
  shows "(\<exists>b1. x = a @ w @ b1 \<and> b = b1 @ c # y) \<or> (\<exists>a1. a = x @ c # a1 \<and> y = a1 @ w @ b)"
  using assms by (auto simp: append_eq_append_conv2 append_eq_Cons_conv Cons_eq_append_conv)


lemma no_clause_in_limit:
  assumes "kw \<in> set FORBIDDEN_CYPHER_KEYWORDS \<or> kw = ''CALL''" "ascii_upper w = kw"
    and "''LIMIT '' @ decimal n = a1 @ w @ b" "standalone (x @ byte 10 # a1) b"
  shows False
proof -
  have w: "w \<noteq> []" "list_all is_alpha w"
    using keyword_letters [OF assms(1)] upper_letters [of w] assms(2) by (auto simp: ascii_upper_def)
  have "CHR '' '' \<notin> set w" using w(2) by (auto simp: list_all_iff ascii_simps code_def)
  moreover have "''LIMIT'' @ CHR '' '' # decimal n = a1 @ w @ b" using assms(3) by simp
  ultimately consider b1 where "''LIMIT'' = a1 @ w @ b1" "b = b1 @ CHR '' '' # decimal n"
    | a2 where "decimal n = a2 @ w @ b"
    using append_cut_at [of "''LIMIT''" "CHR '' ''" "decimal n" a1 w b] by blast
  then show False
  proof cases
    case (1 b1)
    have letters: "\<forall>c \<in> set ''LIMIT''. is_ident_char c" by (simp add: is_ident_char_def ascii_simps code_def)
    then have idents: "\<forall>c \<in> set a1 \<union> set b1. is_ident_char c" unfolding 1(1) by auto
    have "a1 = []" using assms(4) idents by (cases a1 rule: rev_cases) (auto simp: standalone_def)
    moreover have "b1 = []" using assms(4) idents 1(2) by (cases b1) (auto simp: standalone_def)
    ultimately have "w = ''LIMIT''" using 1 by simp
    moreover have "ascii_upper ''LIMIT'' \<notin> set (''CALL'' # FORBIDDEN_CYPHER_KEYWORDS)" by code_simp
    ultimately show False using assms(1,2) by auto
  next
    case (2 a2)
    obtain c t where c: "w = c # t" using w(1) by (cases w) auto
    then have "c \<in> set (decimal n)" using 2 by simp
    then have "is_digit c" by (rule decimal_digits)
    then show False using w(2) c by (auto simp: ascii_simps)
  qed
qed

text \<open>Where the executable text of the bounded query ends, only text that starts no word follows.\<close>

lemma after_cut:
  "drop (executable_end m) m = [] \<or> \<not> is_ident_char (hd (drop (executable_end m) m)) \<and>
     (is_space (hd (drop (executable_end m) m)) \<or> hd (drop (executable_end m) m) = CHR '';'')"
proof -
  let ?d = "drop (executable_end m) m"
  have "is_space c \<or> c = CHR '';'' \<Longrightarrow> \<not> is_ident_char c" for c
    by (auto simp: is_ident_char_def ascii_simps code_def)
  moreover have "?d = [] \<or> is_space (hd ?d) \<or> hd ?d = CHR '';''"
    using executable_end_drops [of m] hd_in_set [of ?d] unfolding list_all_iff is_separator_def by fastforce
  ultimately show ?thesis by blast
qed

lemma next_word_cut:
  assumes "next_word (b1 @ d) \<noteq> []" 
    and "d = [] \<or> list_all is_separator d \<or> (\<exists>v. d = CHR '';'' # v)"
    and "e = [] \<or> \<not> is_ident_char (hd e)"
  shows "next_word (b1 @ e) = next_word (b1 @ d)"
proof -
  have semi: "\<not> is_ident_char (CHR '';'')" "\<not> is_space (CHR '';'')"
    by (simp_all add: is_ident_char_def ascii_simps code_def)
  have "dropWhile is_space b1 \<noteq> []"
  proof
    assume "dropWhile is_space b1 = []"
    then have "next_word (b1 @ d) = takeWhile is_ident_char (dropWhile is_space d)"
      by (simp add: next_word_def dropWhile_append)
    moreover have "takeWhile is_ident_char (dropWhile is_space d) = []"
      using assms(2)
    proof (elim disjE exE)
      assume "list_all is_separator d"
      then have "dropWhile is_space d = []" by (simp add: is_separator_def list_all_iff)
      then show ?thesis by (simp only: takeWhile.simps)
    qed (use semi in auto)
    ultimately show False using assms(1) by simp
  qed
  then have drop: "dropWhile is_space (b1 @ z) = dropWhile is_space b1 @ z" for z
    by (auto simp: dropWhile_append)
  have stop: "takeWhile is_ident_char (x @ z) = takeWhile is_ident_char x" if "z = [] \<or> \<not> is_ident_char (hd z)" for x z
    using that by (induction x) (cases z; auto)+
  have "is_separator c \<Longrightarrow> \<not> is_ident_char c" for c
    by (auto simp: is_separator_def is_ident_char_def ascii_simps code_def)
  then have "d = [] \<or> \<not> is_ident_char (hd d)"
    using assms(2) semi by (cases d) auto
  then show ?thesis using stop assms(3) by (simp add: next_word_def drop)
qed


lemma nl_not_ident: "\<not> is_ident_char (byte 10)"
  by (simp add: is_ident_char_def ascii_simps eq_char_code code_literal del: code_inject)

lemma standalone_cut:
  assumes "standalone a (b1 @ e)" "d = [] \<or> \<not> is_ident_char (hd d)"
  shows "standalone a (b1 @ d)"
  using assms by (cases b1) (auto simp: standalone_def)

lemma read_only_text_bounded:
  assumes "read_only_text m"
  shows "read_only_text (take (executable_end m) m @ limit_clause l)"
proof -
  define x where "x = take (executable_end m) m"
  define d where "d = drop (executable_end m) m"
  define y where "y = ''LIMIT '' @ decimal (unat l)"
  have m: "m = x @ d" by (simp add: x_def d_def)
  have d: "d = [] \<or> \<not> is_ident_char (hd d)" "d = [] \<or> list_all is_separator d \<or> (\<exists>v. d = CHR '';'' # v)"
    using after_cut [of m] executable_end_drops [of m] by (auto simp: d_def)
  have inside: "\<exists>b1. x = a @ w @ b1 \<and> b = b1 @ byte 10 # y \<and> clause_between a (b1 @ d)"
    if kw: "kw \<in> set FORBIDDEN_CYPHER_KEYWORDS \<or> kw = ''CALL''" and w: "ascii_upper w = kw"
      and eq: "x @ byte 10 # y = a @ w @ b" and cl: "clause_between a b" for kw a w b
  proof -
    have "list_all is_alpha w" using keyword_letters [OF kw] upper_letters [of w] w by simp
    then have "byte 10 \<notin> set w" by (auto simp: list_all_iff ascii_simps)
    then consider b1 where "x = a @ w @ b1" "b = b1 @ byte 10 # y" | a1 where "a = x @ byte 10 # a1" "y = a1 @ w @ b"
      using append_cut_at [OF eq] by blast
    then show ?thesis
    proof cases
      case (1 b1)
      then show ?thesis using cl standalone_cut [of a b1 "byte 10 # y" d] d(1) by (simp add: clause_between_def)
    next
      case (2 a1)
      then show ?thesis
        using no_clause_in_limit [OF kw w, of "unat l" a1 b x] cl by (simp add: y_def clause_between_def)
    qed
  qed
  have no_kw: "\<not> executes (x @ byte 10 # y) kw" if kw: "kw \<in> set FORBIDDEN_CYPHER_KEYWORDS" for kw
  proof
    assume "executes (x @ byte 10 # y) kw"
    then obtain a w b where e: "x @ byte 10 # y = a @ w @ b" "ascii_upper w = kw" "clause_between a b"
      by (auto simp: executes_def)
    then obtain b1 where "x = a @ w @ b1" "clause_between a (b1 @ d)" using inside kw by blast
    then have "executes m kw" unfolding executes_def m using e(2) by (intro exI [of _ a] exI [of _ w] exI [of _ "b1 @ d"]) simp
    then show False using assms kw by (simp add: read_only_text_def)
  qed
  have call: "ascii_upper (next_word b) \<in> set READ_ONLY_PROCEDURES"
    if e: "x @ byte 10 # y = a @ w @ b" "ascii_upper w = ''CALL''" "clause_between a b" for a w b
  proof -
    obtain b1 where b1: "x = a @ w @ b1" "b = b1 @ byte 10 # y" "clause_between a (b1 @ d)"
      using inside e by blast
    have "m = a @ w @ (b1 @ d)" using m b1(1) by simp
    then have ok: "ascii_upper (next_word (b1 @ d)) \<in> set READ_ONLY_PROCEDURES"
      using assms e(2) b1(3) unfolding read_only_text_def by blast
    then have "next_word (b1 @ d) \<noteq> []" by (auto simp: READ_ONLY_PROCEDURES_def ascii_upper_def)
    from next_word_cut [OF this d(2), of "byte 10 # y"] ok b1(2) show ?thesis by (simp add: nl_not_ident)
  qed
  have "x @ limit_clause l = x @ byte 10 # y" by (simp add: limit_clause_def y_def)
  then show ?thesis using no_kw call unfolding read_only_text_def x_def [symmetric] by metis
qed

section \<open>Properties\<close>

lemma utf8_valid_limit_clause: "utf8_valid (limit_clause l)"
proof (rule utf8_valid_ascii, rule ballI)
  fix c
  assume "c \<in> set (limit_clause l)"
  then have "c = byte 10 \<or> c \<in> set ''LIMIT '' \<or> is_digit c"
    using decimal_digits [of c "unat l"] by (auto simp: limit_clause_def)
  then show "code c < 128"
    by (elim disjE) (auto simp: ascii_simps, auto simp: code_def)
qed

lemma injected_query:
  assumes "utf8_valid q" "mask_non_executable q = Some m"
  shows "utf8_valid (executable_prefix q @ limit_clause l) \<and>
    mask_non_executable (executable_prefix q @ limit_clause l) = Some (take (executable_end m) m @ limit_clause l)"
  using executable_prefix_cut [OF assms, of l] utf8_valid_append [OF _ utf8_valid_limit_clause]
  by (simp add: mask_non_executable_valid)

text \<open>
  The injected limit bounds the query.  When a UTF-8 query declares no limit, the returned query
  is its executable prefix followed by the limit on a line of its own, and in the mask of the result
  the whole clause is executable text: no trailing comment, literal or terminator swallows it.  It is
  then detected as the declared limit, so a second pass injects nothing, unless the query ends where
  a name is expected.
\<close>

theorem limit_is_injected:
  assumes "utf8_valid q" "mask_non_executable q = Some m" "\<not> has_limit_clause q"
    and "inject_limit_if_absent q l = (r, injected)"
  shows "injected \<and>
    mask_non_executable r = Some (take (executable_end m) m @ limit_clause l) \<and>
    (expects_name (take (executable_end m) m) \<or>
     has_limit_clause r \<and> inject_limit_if_absent r l' = (r, False))"
proof -
  have r: "r = executable_prefix q @ limit_clause l" "injected"
    using assms(3,4) by (auto simp: inject_limit_if_absent_def)
  then have m: "mask_non_executable r = Some (take (executable_end m) m @ limit_clause l)"
    using injected_query [OF assms(1,2)] by simp
  then have "expects_name (take (executable_end m) m) \<or> has_limit_clause r"
    using limit_clause_detected [of "take (executable_end m) m" l]
    by (auto simp: has_limit_clause_def executable_or_empty_def)
  then show ?thesis using r m by (auto simp: inject_limit_if_absent_def)
qed

lemma example_query:
  "utf8_valid ''RETURN 1 // c''" "mask_non_executable ''RETURN 1 // c'' = Some ''RETURN 1     ''"
  "\<not> has_limit_clause ''RETURN 1 // c''"
  by code_simp+

theorem limit_is_injected_witness:
  "has_limit_clause (fst (inject_limit_if_absent ''RETURN 1 // c'' 501)) \<and> \<not> expects_name ''RETURN 1''"
proof -
  have e: "executable_end ''RETURN 1     '' = 8" "\<not> expects_name ''RETURN 1''" by code_simp+
  show ?thesis
    using limit_is_injected [OF example_query, of 501 "fst (inject_limit_if_absent ''RETURN 1 // c'' 501)"
        "snd (inject_limit_if_absent ''RETURN 1 // c'' 501)"] e
    by simp
qed

text \<open>
  C22: Bounding a query keeps it read-only: whatever the request handler accepts is still admitted by
  the gate after the limit has been injected, so what reaches the engine passed the gate as it is.
\<close>

theorem bounded_request_stays_admitted:
  assumes "utf8_valid q" "gated_cypher_request (Some q) off ex = Ok (q', offset)"
  shows "forbidden_cypher_keyword (fst (inject_limit_if_absent q' l)) = None"
proof -
  have q: "q' = q" "forbidden_cypher_keyword q = None"
    using assms(2) by (auto simp: gated_cypher_request_def split: option.splits if_splits)
  then obtain m where m: "mask_non_executable q = Some m" "read_only_text m"
    using gate_on_mask by blast
  show ?thesis
  proof (cases "has_limit_clause q")
    case True
    then show ?thesis using q by (simp add: inject_limit_if_absent_def)
  next
    case False
    then show ?thesis
      using injected_query [OF assms(1) m(1), of l] read_only_text_bounded [OF m(2), of l] q(1)
      by (simp add: inject_limit_if_absent_def gate_on_mask)
  qed
qed

theorem bounded_request_stays_admitted_witness:
  "forbidden_cypher_keyword (fst (inject_limit_if_absent ''RETURN 1 // c'' 501)) = None"
proof -
  have "gated_cypher_request (Some ''RETURN 1 // c'') None True = Ok (''RETURN 1 // c'', 0)"
    by code_simp
  from bounded_request_stays_admitted [OF example_query(1) this, of 501] show ?thesis .
qed

text \<open>
  The probe row.  When the engine returns the first rows of a result up to the injected limit,
  the page keeps exactly the rows below the end of the page window, and reports the cut exactly when
  the result has a row beyond it, for every offset whose window fits 64 bits.
\<close>

theorem probe_row_detects_the_cut:
  assumes "unat offset + 501 < 2 ^ 64"
  shows "clip_probe_row (take (unat (injected_fetch_limit offset)) rows) offset =
    (take (unat offset + 500) rows, unat offset + 500 < length rows)"
proof -
  have "unat (injected_fetch_limit offset) = unat offset + 501"
    using assms unat_add_lem [of offset 501]
    by (simp add: injected_fetch_limit_def saturating_add_def QUERY_GRAPH_ROW_LIMIT_def)
  moreover have "unat (saturating_add offset QUERY_GRAPH_ROW_LIMIT) = unat offset + 500"
    using assms unat_add_lem [of offset 500]
    by (simp add: saturating_add_def QUERY_GRAPH_ROW_LIMIT_def)
  ultimately show ?thesis
    by (auto simp: clip_probe_row_def Let_def min_def)
qed

theorem probe_row_detects_the_cut_witness:
  "clip_probe_row (take (unat (injected_fetch_limit 0)) (replicate 519 (0::nat))) 0 = (replicate 500 0, True)"
  using probe_row_detects_the_cut [of 0 "replicate 519 (0::nat)"] by simp

text \<open>
  A vertical tab after the terminator counts as blank for \<open>is_multi_statement\<close> (Unicode white space)
  and as text for \<open>executable_prefix\<close> (ASCII white space without it): the request is accepted, and
  the limit is appended as a second statement.
\<close>

lemma limit_after_terminator:
  "gated_cypher_request (Some (''RETURN 1;'' @ [byte 11])) None True = Ok (''RETURN 1;'' @ [byte 11], 0)"
  "is_multi_statement (fst (inject_limit_if_absent (''RETURN 1;'' @ [byte 11]) 501))"
  by code_simp+

end
