(* ===== verification/Response_Budget.thy ===== *)
theory Response_Budget
  imports Utf8 Complex_Main
begin

text \<open>
  \<open>src/response_budget.rs\<close>: bounding a list of serialized vals.  \<open>sz\<close> is the length of
  \<open>serde_json::to_string\<close> of a value, a parameter; sums of sizes are natural numbers, since the
  vals they measure are in memory together.
\<close>

section \<open>Constants\<close>

definition MAX_RESPONSE_CHARS :: nat where
  "MAX_RESPONSE_CHARS = 100000"

definition PER_SECTION_FRACTION :: rat where
  "PER_SECTION_FRACTION = 40 / 100"

definition per_section_chars :: nat where
  "per_section_chars = nat \<lfloor>of_nat MAX_RESPONSE_CHARS * PER_SECTION_FRACTION\<rfloor>"

lemma per_section_chars: "per_section_chars = 40000"
  by (simp add: per_section_chars_def MAX_RESPONSE_CHARS_def PER_SECTION_FRACTION_def)

text \<open>
  Three full sections exceed the cap: the sum of sections is bounded by it for two sections only,
  although the comment on the fraction claims it for any number.
\<close>

lemma three_sections_exceed_the_cap: "2 * per_section_chars \<le> MAX_RESPONSE_CHARS \<and> MAX_RESPONSE_CHARS < 3 * per_section_chars"
  by (simp add: per_section_chars MAX_RESPONSE_CHARS_def)

section \<open>Pages\<close>

record 'v bounded =
  items :: "'v list"
  total_count :: nat
  truncated :: bool

record 'v bounded_page = "'v bounded" +
  next_offset :: "nat option"

text \<open>The loop both functions share; \<open>fresh\<close> says that no item is on the page yet.\<close>

fun fill :: "('v \<Rightarrow> nat) \<Rightarrow> nat \<Rightarrow> bool \<Rightarrow> nat \<Rightarrow> 'v list \<Rightarrow> 'v list" where
  "fill sz budget fresh used [] = []"
| "fill sz budget fresh used (v # vs) =
     (if \<not> fresh \<and> used + sz v > budget then []
      else v # fill sz budget False (used + sz v) vs)"

definition bound_values_paged :: "('v \<Rightarrow> nat) \<Rightarrow> 'v list \<Rightarrow> nat \<Rightarrow> nat \<Rightarrow> 'v bounded_page" where
  "bound_values_paged sz vals offset char_budget =
     (let start = min offset (length vals);
          page = fill sz char_budget True 0 (drop start vals);
          next_index = start + length page;
          more_remain = next_index < length vals in
      \<lparr>items = page, total_count = length vals, truncated = more_remain,
       next_offset = (if more_remain then Some next_index else None)\<rparr>)"

definition bound_values :: "('v \<Rightarrow> nat) \<Rightarrow> 'v list \<Rightarrow> nat \<Rightarrow> 'v bounded" where
  "bound_values sz vals char_budget =
     (let kept = fill sz char_budget True 0 vals in
      \<lparr>items = kept, total_count = length vals, truncated = length kept < length vals\<rparr>)"

section \<open>What the loop keeps\<close>

lemma fill_prefix: "fill sz budget fresh used vs = take (length (fill sz budget fresh used vs)) vs"
  by (induction sz budget fresh used vs rule: fill.induct) auto

lemma fill_nonempty: "vs \<noteq> [] \<Longrightarrow> fill sz budget True used vs \<noteq> []"
  by (cases vs) auto

lemma fill_length: "length (fill sz budget fresh used vs) \<le> length vs"
  by (induction sz budget fresh used vs rule: fill.induct) auto

lemma fill_within: "used \<le> budget \<Longrightarrow> used + sum_list (map sz (fill sz budget False used vs)) \<le> budget"
  by (induction sz budget False used vs rule: fill.induct) auto

lemma fill_stops_late:
  "length (fill sz budget fresh used vs) < length vs \<Longrightarrow>
   budget < used + sum_list (map sz (take (Suc (length (fill sz budget fresh used vs))) vs))"
proof (induction sz budget fresh used vs rule: fill.induct)
  case (2 sz budget fresh used v vs)
  then show ?case by (auto split: if_splits)
qed simp

lemma fill_fits:
  "sum_list (map sz (fill sz budget True 0 vs)) \<le> budget \<or> length (fill sz budget True 0 vs) = 1"
proof (cases vs)
  case (Cons v vs')
  show ?thesis
  proof (cases "sz v \<le> budget")
    case True
    then show ?thesis using fill_within [of "sz v" budget sz vs'] Cons by simp
  next
    case False
    then have "fill sz budget False (sz v) vs' = []" by (cases vs') auto
    then show ?thesis using Cons by simp
  qed
qed simp

section \<open>Paging through a list\<close>

text \<open>
  The client of a pager: it asks for the page at an offset and follows the cursor.  The fuel bounds
  the number of requests; running out of it is \<open>None\<close>.
\<close>

fun page_through :: "(nat \<Rightarrow> 'a list \<times> nat option) \<Rightarrow> nat \<Rightarrow> nat \<Rightarrow> 'a list option" where
  "page_through page 0 offset = None"
| "page_through page (Suc fuel) offset =
     (case page offset of
        (rows, None) \<Rightarrow> Some rows
      | (rows, Some nxt) \<Rightarrow> map_option (append rows) (page_through page fuel nxt))"

text \<open>
  The contract of a pager over a fixed list: a page is the piece of the list from its offset to its
  cursor, a page with a cursor is not empty, and a page without one is the rest of the list.
\<close>

locale pager =
  fixes page :: "nat \<Rightarrow> 'a list \<times> nat option"
    and all :: "'a list"
  assumes last_page: "page offset = (rows, None) \<Longrightarrow> offset \<le> length all \<Longrightarrow> rows = drop offset all"
    and next_page: "page offset = (rows, Some nxt) \<Longrightarrow> offset \<le> length all \<Longrightarrow>
      rows \<noteq> [] \<and> nxt = offset + length rows \<and> nxt \<le> length all \<and> rows = take (length rows) (drop offset all)"
begin

lemma pages_from:
  "offset \<le> length all \<Longrightarrow> length all - offset < fuel \<Longrightarrow> page_through page fuel offset = Some (drop offset all)"
proof (induction fuel arbitrary: offset)
  case 0
  then show ?case by simp
next
  case (Suc fuel)
  obtain rows cursor where p: "page offset = (rows, cursor)" by fastforce
  show ?case
  proof (cases cursor)
    case None
    then show ?thesis using p last_page Suc.prems by simp
  next
    case (Some nxt)
    note n = next_page [OF p [unfolded Some] Suc.prems(1)]
    then have "page_through page fuel nxt = Some (drop nxt all)"
      using Suc by (intro Suc.IH) (auto simp: neq_Nil_conv)
    moreover have "rows @ drop nxt all = drop offset all"
      using n append_take_drop_id [of "length rows" "drop offset all"] by (metis drop_drop add.commute)
    ultimately show ?thesis using p Some by simp
  qed
qed

lemma visits_all: "page_through page (Suc (length all)) 0 = Some all"
  using pages_from [of 0 "Suc (length all)"] by simp

end

definition values_pager :: "('v \<Rightarrow> nat) \<Rightarrow> 'v list \<Rightarrow> nat \<Rightarrow> nat \<Rightarrow> 'v list \<times> nat option" where
  "values_pager sz vals char_budget offset =
     (let p = bound_values_paged sz vals offset char_budget in (items p, next_offset p))"

interpretation vals: pager "values_pager sz vals budget" vals for sz and vals :: "'v list" and budget
proof unfold_locales
  fix offset and rows :: "'v list"
  assume p: "values_pager sz vals budget offset = (rows, None)" "offset \<le> length vals"
  then have r: "rows = fill sz budget True 0 (drop offset vals)" "length (drop offset vals) \<le> length rows"
    by (auto simp: values_pager_def bound_values_paged_def Let_def split: if_splits)
  then show "rows = drop offset vals" using fill_prefix [of sz budget True 0 "drop offset vals"] by simp
next
  fix offset nxt and rows :: "'v list"
  assume p: "values_pager sz vals budget offset = (rows, Some nxt)" "offset \<le> length vals"
  then have r: "rows = fill sz budget True 0 (drop offset vals)" "nxt = offset + length rows" "nxt < length vals"
    by (auto simp: values_pager_def bound_values_paged_def Let_def split: if_splits)
  then have "rows \<noteq> []" using fill_nonempty [of "drop offset vals" sz budget 0] by simp
  then show "rows \<noteq> [] \<and> nxt = offset + length rows \<and> nxt \<le> length vals \<and> rows = take (length rows) (drop offset vals)"
    using r fill_prefix [of sz budget True 0 "drop offset vals"] by simp
qed

lemma some_iff_condition: "b = ((if b then Some x else None) \<noteq> None)"
  by simp

section \<open>Properties\<close>

text \<open>
  C34: The page-through invariant.  Following the cursor from offset 0 ends, and the pages put
  together are the whole list: every value once, in order, with no gap, for any budget and sizes,
  in at most one request more than there are vals.
\<close>

theorem paging_visits_every_value_once:
  "page_through (values_pager sz vals char_budget) (Suc (length vals)) 0 = Some vals"
  by (rule vals.visits_all)

text \<open>
  A page is the longest prefix of the rest of the list that fits the budget, and at least one
  value when any is left; its count, flag and cursor agree, and an offset at or past the end gives
  the empty last page.
\<close>

theorem page_is_longest_fitting_prefix:
  "let p = bound_values_paged sz vals offset char_budget; tail = drop offset vals in
    items p = take (length (items p)) tail \<and>
    (items p = [] \<longleftrightarrow> tail = []) \<and>
    (sum_list (map sz (items p)) \<le> char_budget \<or> length (items p) = 1) \<and>
    (length tail \<le> length (items p) \<or> char_budget < sum_list (map sz (take (Suc (length (items p))) tail))) \<and>
    total_count p = length vals \<and> truncated p = (next_offset p \<noteq> None) \<and>
    next_offset p = (if length (items p) < length tail then Some (offset + length (items p)) else None)"
proof -
  define p where "p = bound_values_paged sz vals offset char_budget"
  define tail where "tail = drop offset vals"
  have "drop (min offset (length vals)) vals = tail" by (simp add: tail_def min_def)
  then have i: "items p = fill sz char_budget True 0 tail"
    by (simp add: p_def bound_values_paged_def Let_def)
  have n: "next_offset p = (if length (items p) < length tail then Some (offset + length (items p)) else None)"
    by (cases "offset \<le> length vals") (auto simp: p_def bound_values_paged_def Let_def tail_def min_absorb1 min_absorb2)
  have t: "total_count p = length vals" "truncated p = (next_offset p \<noteq> None)"
    unfolding p_def bound_values_paged_def Let_def bounded.select_convs bounded_page.select_convs
    by (rule refl, rule some_iff_condition)
  have pre: "items p = take (length (items p)) tail"
    unfolding i by (rule fill_prefix)
  have ne: "items p = [] \<longleftrightarrow> tail = []"
    unfolding i using fill_nonempty by fastforce
  have fits: "sum_list (map sz (items p)) \<le> char_budget \<or> length (items p) = 1"
    unfolding i by (rule fill_fits)
  have long: "length tail \<le> length (items p) \<or> char_budget < sum_list (map sz (take (Suc (length (items p))) tail))"
    using fill_stops_late [of sz char_budget True 0 tail] unfolding i [symmetric] by (simp add: not_less [symmetric])
  show ?thesis
    unfolding Let_def p_def [symmetric] tail_def [symmetric]
    using pre ne fits long t n by blast
qed

lemma utf16_le_utf8: "sum_list (map utf16_units cs) \<le> length (utf8 cs)"
  by (induction cs) (auto intro: add_mono utf16_le_utf8_char)

text \<open>
  Counting UTF-8 bytes is safe against a host that counts UTF-16 code units: the units of a page
  are at most the bytes the budget was spent on, so they fit the budget unless the page is a single
  oversized value.
\<close>

theorem page_fits_the_host_count:
  "sum_list (map (\<lambda>cs. sum_list (map utf16_units cs)) (items (bound_values (length \<circ> utf8) texts char_budget))) \<le> char_budget \<or>
   length (items (bound_values (length \<circ> utf8) texts char_budget)) = 1"
proof -
  let ?page = "items (bound_values (length \<circ> utf8) texts char_budget)"
  have "?page = fill (length \<circ> utf8) char_budget True 0 texts"
    by (simp add: bound_values_def Let_def)
  then have "sum_list (map (length \<circ> utf8) ?page) \<le> char_budget \<or> length ?page = 1"
    using fill_fits [of "length \<circ> utf8" char_budget texts] by simp
  moreover have "sum_list (map (\<lambda>cs. sum_list (map utf16_units cs)) ?page) \<le> sum_list (map (length \<circ> utf8) ?page)"
    by (rule sum_list_mono) (simp add: utf16_le_utf8)
  ultimately show ?thesis by linarith
qed

end
