(* ===== verification/Query_Paging.thy ===== *)
theory Query_Paging
  imports Query_Limits Response_Budget
begin

text \<open>
  \<open>src/query_handlers.rs\<close>, \<open>run_gated_cypher\<close> and \<open>paged_query_response\<close>: a gated query is bounded,
  executed, clipped and paged.  The engine is a parameter, a function from the query text to its
  columns and rows or an error; \<open>sz\<close> is the serialized length of a row.  The elapsed time is left out
  of the response.
\<close>

type_synonym row = "string list"

record query_result =
  qr_columns :: "string list"
  qr_rows :: "row list"

record query_page_meta =
  page_offset :: "64 word"
  meta_order_stable :: bool
  meta_limit_injected :: bool
  row_limit_reached :: bool

record query_response =
  columns :: "string list"
  rows :: "row list"
  result_text :: string
  total_rows :: nat
  returned_count :: nat
  offset :: "64 word"
  truncated_rows :: bool
  order_stable :: bool
  limit_injected :: bool
  row_limit :: "nat option"
  next_cursor :: "nat option"

definition paged_query_response :: "(row \<Rightarrow> nat) \<Rightarrow> query_result \<Rightarrow> query_page_meta \<Rightarrow> query_response" where
  "paged_query_response sz qr meta =
     (let page = bound_values_paged sz (qr_rows qr) (unat (page_offset meta)) MAX_RESPONSE_CHARS;
          start = min (unat (page_offset meta)) (length (qr_rows qr));
          string_rows = take (length (items page)) (drop start (qr_rows qr));
          row_window_end = (if row_limit_reached meta then Some (length (qr_rows qr)) else None) in
      \<lparr>columns = qr_columns qr,
       rows = items page,
       result_text = format_query_result (qr_columns qr) string_rows,
       total_rows = total_count page,
       returned_count = length (items page),
       offset = page_offset meta,
       truncated_rows = (truncated page \<or> row_limit_reached meta),
       order_stable = meta_order_stable meta,
       limit_injected = meta_limit_injected meta,
       row_limit = (if meta_limit_injected meta then Some (unat QUERY_GRAPH_ROW_LIMIT) else None),
       next_cursor = (case next_offset page of Some n \<Rightarrow> Some n | None \<Rightarrow> row_window_end)\<rparr>)"

definition run_gated_cypher ::
  "(row \<Rightarrow> nat) \<Rightarrow> (string \<Rightarrow> (query_result, string) result) \<Rightarrow> string \<Rightarrow> 64 word \<Rightarrow> (query_response, string) result" where
  "run_gated_cypher sz engine query off =
     (let (effective_query, injected) = inject_limit_if_absent query (injected_fetch_limit off) in
      and_then (engine effective_query) (\<lambda>qr.
        let (kept, reached) = (if injected then clip_probe_row (qr_rows qr) off else (qr_rows qr, False)) in
        Ok (paged_query_response sz (qr\<lparr>qr_rows := kept\<rparr>)
              \<lparr>page_offset = off, meta_order_stable = has_order_by_clause query,
               meta_limit_injected = injected, row_limit_reached = reached\<rparr>)))"

text \<open>What a client that pages reads from a response: an error ends it with no rows.\<close>

definition response_page :: "(query_response, string) result \<Rightarrow> row list \<times> nat option" where
  "response_page r = (case r of Inl e \<Rightarrow> ([], None) | Inr resp \<Rightarrow> (rows resp, next_cursor resp))"

section \<open>The response and its rows\<close>

lemma paged_rows:
  "rows (paged_query_response sz qr meta) = items (bound_values_paged sz (qr_rows qr) (unat (page_offset meta)) MAX_RESPONSE_CHARS)"
  by (simp add: paged_query_response_def Let_def)

lemma clipped_window:
  "unat off + 501 < 2 ^ 64 \<Longrightarrow>
   clip_probe_row (take (unat (injected_fetch_limit off)) all) off = (take (unat off + 500) all, unat off + 500 < length all)"
  using unat_add_lem [of off 500] unat_add_lem [of off 501]
  by (auto simp: injected_fetch_limit_def saturating_add_def QUERY_GRAPH_ROW_LIMIT_def clip_probe_row_def Let_def min_def)

text \<open>The engine honours the appended limit and returns the rows of one result in one order.\<close>

definition honours_limit :: "(string \<Rightarrow> (query_result, string) result) \<Rightarrow> string \<Rightarrow> string list \<Rightarrow> row list \<Rightarrow> bool" where
  "honours_limit engine query cols all \<longleftrightarrow>
     (\<forall>off. engine (executable_prefix query @ limit_clause (injected_fetch_limit off)) =
        Ok \<lparr>qr_columns = cols, qr_rows = take (unat (injected_fetch_limit off)) all\<rparr>)"

definition server_page ::
  "(row \<Rightarrow> nat) \<Rightarrow> (string \<Rightarrow> (query_result, string) result) \<Rightarrow> string \<Rightarrow> nat \<Rightarrow> row list \<times> nat option" where
  "server_page sz engine query off = response_page (run_gated_cypher sz engine query (of_nat off))"

lemma server_page_eq:
  fixes sz :: "row \<Rightarrow> nat"
  assumes "honours_limit engine query cols all" "\<not> has_limit_clause query" "off + 501 < 2 ^ 64" "off \<le> length all"
  defines "w \<equiv> take (off + 500) all"
  defines "page \<equiv> fill sz MAX_RESPONSE_CHARS True 0 (drop off w)"
  shows "server_page sz engine query off =
    (page, if off + length page < length w then Some (off + length page)
      else if off + 500 < length all then Some (length w) else None)"
proof -
  have u: "unat (of_nat off :: 64 word) = off" using assms(3) by (simp add: unat_of_nat take_bit_eq_mod)
  have "engine (executable_prefix query @ limit_clause (injected_fetch_limit (of_nat off))) =
      Ok \<lparr>qr_columns = cols, qr_rows = take (unat (injected_fetch_limit (of_nat off))) all\<rparr>"
    using assms(1) by (simp add: honours_limit_def)
  moreover have "clip_probe_row (take (unat (injected_fetch_limit (of_nat off))) all) (of_nat off) = (w, off + 500 < length all)"
    using clipped_window [of "of_nat off" all] assms(3) by (simp add: u w_def)
  moreover have "min off (length w) = off" using assms(4) by (simp add: w_def)
  ultimately show ?thesis
    using assms(2)
    by (simp add: server_page_def response_page_def run_gated_cypher_def inject_limit_if_absent_def u
        paged_query_response_def bound_values_paged_def Let_def page_def split: if_split)
qed

text \<open>The served pages obey the contract of a pager over the whole result.\<close>

lemma server_page_cases:
  assumes "honours_limit engine query cols all" "\<not> has_limit_clause query" "off + 501 < 2 ^ 64" "off \<le> length all"
    and "server_page sz engine query off = (rs, cursor)"
  shows "rs = take (length rs) (drop off all)" "cursor = None \<Longrightarrow> rs = drop off all"
    "cursor = Some nxt \<Longrightarrow> rs \<noteq> [] \<and> nxt = off + length rs \<and> nxt \<le> length all"
proof -
  define w where "w = take (off + 500) all"
  define d where "d = drop off w"
  have len: "off \<le> length w" using assms(4) by (simp add: w_def)
  define rs' where "rs' = fill sz MAX_RESPONSE_CHARS True 0 d"
  have d: "d = take 500 (drop off all)" by (simp add: d_def w_def drop_take)
  have eq: "(rs, cursor) = (rs', if off + length rs' < length w then Some (off + length rs')
      else if off + 500 < length all then Some (length w) else None)"
    using server_page_eq [OF assms(1-4), of sz] assms(5)
    by (simp add: w_def [symmetric] d_def [symmetric] rs'_def [symmetric])
  have pre: "rs = take (length rs) d" using eq fill_prefix [of sz MAX_RESPONSE_CHARS True 0 d] by (simp add: rs'_def)
  have le: "length rs \<le> length d" using eq fill_length by (simp add: rs'_def)
  have ld: "length d = length w - off" by (simp add: d_def)
  show "rs = take (length rs) (drop off all)"
  proof -
    have "length rs \<le> 500" using le d by simp
    then have "take (length rs) d = take (length rs) (drop off all)" by (simp add: d min_absorb1)
    then show ?thesis using pre by simp
  qed
  show "rs = drop off all" if "cursor = None"
  proof -
    have "length w \<le> off + length rs" "length all \<le> off + 500"
      using eq that by (auto split: if_splits)
    then have "length rs = length d" "d = drop off all" using le ld d by simp_all
    then show ?thesis using pre by simp
  qed
  show "rs \<noteq> [] \<and> nxt = off + length rs \<and> nxt \<le> length all" if "cursor = Some nxt"
  proof -
    have nonempty: "rs \<noteq> []" if "off < length w"
    proof -
      have "0 < length d" using ld that by simp
      then show ?thesis using eq fill_nonempty [of d] by (auto simp: rs'_def)
    qed
    show ?thesis
    proof (cases "off + length rs < length w")
      case True
      then have "nxt = off + length rs" using eq that by simp
      then show ?thesis using True nonempty by (simp add: w_def)
    next
      case False
      then have "off + 500 < length all" "nxt = length w" using eq that by (auto split: if_splits)
      then show ?thesis using False nonempty le ld by (simp add: w_def)
    qed
  qed
qed


text \<open>The offset the client sends fits 64 bits for every row of a result that does.\<close>

lemma server_pager:
  assumes "honours_limit engine query cols all" "\<not> has_limit_clause query" "length all + 501 < 2 ^ 64"
  shows "pager (server_page sz engine query) all"
proof unfold_locales
  fix off rs
  assume "server_page sz engine query off = (rs, None)" "off \<le> length all"
  then show "rs = drop off all" using server_page_cases(2) [OF assms(1,2)] assms(3) by simp
next
  fix off rs nxt
  assume p: "server_page sz engine query off = (rs, Some nxt)" "off \<le> length all"
  then have "off + 501 < 2 ^ 64" using assms(3) by simp
  from server_page_cases(1,3) [OF assms(1,2) this p(2,1)]
  show "rs \<noteq> [] \<and> nxt = off + length rs \<and> nxt \<le> length all \<and> rs = take (length rs) (drop off all)"
    by blast
qed

text \<open>
  C33: Paging \<open>query_graph\<close> end to end.  For a query without a limit of its own, on an engine that
  honours the appended limit over a result in one order, a client that starts at offset 0 and follows
  the cursor receives every row of the result exactly once, in order: neither the row window nor the
  byte budget ever loses, repeats or hides a row, whatever the rows weigh.
\<close>

theorem query_paging_is_lossless:
  assumes "honours_limit engine query cols all" "\<not> has_limit_clause query" "length all + 501 < 2 ^ 64"
  shows "page_through (server_page sz engine query) (Suc (length all)) 0 = Some all"
proof -
  have "pager (server_page sz engine query) all" using assms by (rule server_pager)
  then show ?thesis by (rule pager.visits_all)
qed


theorem query_paging_is_lossless_witness:
  "page_through (server_page length (\<lambda>_. Ok \<lparr>qr_columns = [''x''], qr_rows = [[''1'']]\<rparr>) ''RETURN 1'') 2 0 = Some [[''1'']]"
proof -
  have "1 \<le> unat (injected_fetch_limit off)" for off
  proof (cases "unat off + 501 < 2 ^ 64")
    case True
    then show ?thesis using unat_add_lem [of off 501]
      by (simp add: injected_fetch_limit_def saturating_add_def QUERY_GRAPH_ROW_LIMIT_def)
  next
    case False
    moreover have "unat (- 1 :: 64 word) \<noteq> 0" by (simp add: unat_eq_zero)
    ultimately show ?thesis by (simp add: Suc_le_eq injected_fetch_limit_def saturating_add_def QUERY_GRAPH_ROW_LIMIT_def)
  qed
  then have "honours_limit (\<lambda>_. Ok \<lparr>qr_columns = [''x''], qr_rows = [[''1'']]\<rparr>) ''RETURN 1'' [''x''] [[''1'']]"
    by (simp add: honours_limit_def)
  moreover have "\<not> has_limit_clause ''RETURN 1''" by code_simp
  moreover have "length [[''1'']] + 501 < 2 ^ 64" by simp
  ultimately have "page_through (server_page length (\<lambda>_. Ok \<lparr>qr_columns = [''x''], qr_rows = [[''1'']]\<rparr>) ''RETURN 1'')
      (Suc (length [[''1'']])) 0 = Some [[''1'']]"
    by (rule query_paging_is_lossless)
  moreover have "Suc (length [[''1'']]) = 2" by simp
  ultimately show ?thesis by (simp only:)
qed

text \<open>
  The response carries the rows of the page twice, as \<open>rows\<close> and as the text of \<open>result\<close>.  The budget
  counts the first only: one row of \<open>n\<close> bytes in a cell fits the budget, and the two forms together
  exceed the cap once \<open>n\<close> is above half of it.
\<close>

lemma rows_are_sent_twice:
  assumes "n + 4 \<le> MAX_RESPONSE_CHARS" "MAX_RESPONSE_CHARS < 2 * n"
  defines "r \<equiv> paged_query_response (\<lambda>row. sum_list (map (\<lambda>c. length c + 3) row) + 1)
      \<lparr>qr_columns = [''x''], qr_rows = [[replicate n (CHR ''a'')]]\<rparr>
      \<lparr>page_offset = 0, meta_order_stable = True, meta_limit_injected = False, row_limit_reached = False\<rparr>"
  shows "rows r = [[replicate n (CHR ''a'')]] \<and> \<not> truncated_rows r \<and>
    MAX_RESPONSE_CHARS < sum_list (map (\<lambda>row. sum_list (map (\<lambda>c. length c + 3) row) + 1) (rows r)) + length (result_text r)"
  using assms(1,2) by (simp add: r_def paged_query_response_def bound_values_paged_def format_query_result_def Let_def)

end
