(* ===== verification/Search_Ranking.thy ===== *)
theory Search_Ranking
  imports Rust_Base Complex_Main "HOL-Library.Product_Lexorder" "HOL-Library.Multiset"
begin

text \<open>
  \<open>src/search/rrf.rs\<close> and \<open>src/search/grouping.rs\<close>: fusing ranked lists and grouping a page of hits
  by process.  An \<open>f64\<close> score is an exact rational.  A \<open>HashMap\<close> is a map; the order in which it is
  iterated is a parameter.
\<close>

section \<open>Fusion\<close>

definition RRF_K :: rat where
  "RRF_K = 60"

record rrf_result =
  rrf_key :: string
  rrf_score :: rat

record ranked_entry =
  entry_key :: string
  entry_rank :: nat

type_synonym scores = "string \<rightharpoonup> rat"

text \<open>One turn of the inner loop: \<open>*scores.entry(key).or_insert(0.0) += contribution\<close>.\<close>

definition add_entry :: "ranked_entry \<Rightarrow> scores \<Rightarrow> scores" where
  "add_entry e scores =
     (let old = (case scores (entry_key e) of Some s \<Rightarrow> s | None \<Rightarrow> 0) in
      scores(entry_key e \<mapsto> old + 1 / (RRF_K + of_nat (entry_rank e))))"

definition accumulate :: "ranked_entry list list \<Rightarrow> scores" where
  "accumulate rankings = fold (fold add_entry) rankings Map.empty"

definition rank_order :: "rrf_result \<Rightarrow> rat \<times> string" where
  "rank_order r = (- rrf_score r, rrf_key r)"

definition fuse :: "(scores \<Rightarrow> (string \<times> rat) list) \<Rightarrow> ranked_entry list list \<Rightarrow> nat \<Rightarrow> rrf_result list" where
  "fuse iteration rankings limit =
     take limit (sort_key rank_order
       (map (\<lambda>(key, score). \<lparr>rrf_key = key, rrf_score = score\<rparr>) (iteration (accumulate rankings))))"

text \<open>What an iteration over a map yields: each entry once, in some order.\<close>

definition iterates :: "scores \<Rightarrow> (string \<times> rat) list \<Rightarrow> bool" where
  "iterates m entries \<longleftrightarrow> distinct (map fst entries) \<and> map_of entries = m"

definition rrf_formula :: "ranked_entry list list \<Rightarrow> string \<Rightarrow> rat" where
  "rrf_formula rankings key =
     (\<Sum>e \<leftarrow> filter (\<lambda>e. entry_key e = key) (concat rankings). 1 / (RRF_K + of_nat (entry_rank e)))"

lemma fold_add_entry:
  "fold add_entry es m k =
     (if k \<in> dom m \<or> (\<exists>e \<in> set es. entry_key e = k)
      then Some ((case m k of Some s \<Rightarrow> s | None \<Rightarrow> 0) +
        (\<Sum>e \<leftarrow> filter (\<lambda>e. entry_key e = k) es. 1 / (RRF_K + of_nat (entry_rank e))))
      else None)"
  by (induction es arbitrary: m) (auto simp: add_entry_def Let_def domIff split: option.splits)

lemma fold_fold: "fold (fold f) xss s = fold f (concat xss) s"
  by (induction xss arbitrary: s) simp_all

lemma accumulate_eq:
  "accumulate rankings k =
     (if \<exists>e \<in> set (concat rankings). entry_key e = k then Some (rrf_formula rankings k) else None)"
  by (simp add: accumulate_def fold_fold fold_add_entry rrf_formula_def)

lemma sort_key_unique:
  assumes "mset xs = mset ys" "inj_on f (set xs)"
  shows "sort_key f xs = sort_key f ys"
proof -
  let ?a = "sort_key f xs" and ?b = "sort_key f ys"
  have "mset (map f ?a) = mset (map f ?b)" using assms(1) by simp
  then have "map f ?a = map f ?b"
    using properties_for_sort [of "map f ?a" "map f ?b"] properties_for_sort [of "map f ?b" "map f ?b"] by simp
  moreover have "set ?a = set xs" "set ?b = set xs" using assms(1) by (auto dest: mset_eq_setD)
  ultimately show ?thesis using assms(2) by (metis inj_on_map_eq_map Un_absorb)
qed

lemma rank_order_inj: "inj rank_order"
  by (rule injI) (simp add: rank_order_def)

section \<open>Grouping\<close>

definition NO_PROCESS_GROUP :: string where
  "NO_PROCESS_GROUP = ''(no process)''"

type_synonym group_state = "(string \<rightharpoonup> string list) \<times> string list"

definition push_group_member :: "string \<Rightarrow> string \<Rightarrow> group_state \<Rightarrow> group_state" where
  "push_group_member key qn st =
     (case st of (groups, seen_order) \<Rightarrow>
        let bucket = (case groups key of Some b \<Rightarrow> b | None \<Rightarrow> []) in
        (groups(key \<mapsto> (if qn \<in> set bucket then bucket else bucket @ [qn])),
         if key \<in> set seen_order then seen_order else seen_order @ [key]))"

definition push_hit :: "string \<times> string list \<Rightarrow> group_state \<Rightarrow> group_state" where
  "push_hit hit st =
     (case hit of (qn, processes) \<Rightarrow>
        if processes = [] then push_group_member NO_PROCESS_GROUP qn st
        else fold (\<lambda>process. push_group_member process qn) processes st)"

text \<open>
  The comparator of the source is the lexicographic order on: being the trailing bucket, descending
  size, name.
\<close>

definition group_order :: "(string \<rightharpoonup> string list) \<Rightarrow> string \<Rightarrow> bool \<times> int \<times> string" where
  "group_order groups key =
     (key = NO_PROCESS_GROUP, - int (case groups key of Some b \<Rightarrow> length b | None \<Rightarrow> 0), key)"

definition group_hits_by_process :: "(string \<times> string list) list \<Rightarrow> (string \<times> string list) list" where
  "group_hits_by_process hits =
     (let (groups, seen_order) = fold push_hit hits (Map.empty, []) in
      map (\<lambda>key. (key, case groups key of Some b \<Rightarrow> b | None \<Rightarrow> [])) (sort_key (group_order groups) seen_order))"

subsection \<open>What the index contains\<close>

text \<open>The pairs of group and hit, in rank order, and a list without its repetitions.\<close>

definition memberships :: "(string \<times> string list) list \<Rightarrow> (string \<times> string) list" where
  "memberships hits =
     concat (map (\<lambda>(qn, ps). if ps = [] then [(NO_PROCESS_GROUP, qn)] else map (\<lambda>p. (p, qn)) ps) hits)"

definition first_seen :: "'a list \<Rightarrow> 'a list" where
  "first_seen xs = rev (remdups (rev xs))"

lemma first_seen_snoc [simp]: "first_seen (xs @ [x]) = (if x \<in> set xs then first_seen xs else first_seen xs @ [x])"
  by (simp add: first_seen_def)

lemma first_seen_simps [simp]: "first_seen [] = []" "set (first_seen xs) = set xs" "distinct (first_seen xs)"
  by (simp_all add: first_seen_def)

definition members_of :: "(string \<times> string) list \<Rightarrow> string \<Rightarrow> string list" where
  "members_of ms key = first_seen (map snd (filter (\<lambda>m. fst m = key) ms))"

lemma fold_push:
  "fold (\<lambda>(k, qn). push_group_member k qn) ms (Map.empty, []) =
   ((\<lambda>k. if k \<in> fst ` set ms then Some (members_of ms k) else None), first_seen (map fst ms))"
proof (induction ms rule: rev_induct)
  case Nil
  then show ?case by simp
next
  case (snoc m ms)
  obtain k qn where m: "m = (k, qn)" by fastforce
  have none: "members_of ms k = []" if "k \<notin> fst ` set ms"
  proof -
    have "filter (\<lambda>m. fst m = k) ms = []" using that by (auto simp: filter_empty_conv)
    then show ?thesis by (simp add: members_of_def)
  qed
  show ?case
    using snoc none by (auto simp: m push_group_member_def Let_def members_of_def fun_eq_iff)
qed

lemma fold_hits: "fold push_hit hits st = fold (\<lambda>(k, qn). push_group_member k qn) (memberships hits) st"
proof (induction hits arbitrary: st)
  case Nil
  then show ?case by (simp add: memberships_def)
next
  case (Cons hit hits)
  obtain qn ps where h: "hit = (qn, ps)" by fastforce
  have "fold (\<lambda>(k, qn). push_group_member k qn) (map (\<lambda>p. (p, qn)) ps) st = fold (\<lambda>p. push_group_member p qn) ps st"
    by (induction ps arbitrary: st) simp_all
  then have "push_hit hit st = fold (\<lambda>(k, qn). push_group_member k qn)
      (if ps = [] then [(NO_PROCESS_GROUP, qn)] else map (\<lambda>p. (p, qn)) ps) st"
    by (simp add: push_hit_def h)
  then show ?case using Cons by (simp add: memberships_def h)
qed

section \<open>Properties\<close>

text \<open>
  Fusion computes reciprocal rank fusion.  The result is the list of all keys that any ranking
  names, each once with the sum of \<open>1 / (60 + rank)\<close> over its entries, by descending score and then
  by key, cut at the limit; it does not depend on the order the hash map is iterated in.
\<close>

theorem fuse_is_reciprocal_rank_fusion:
  assumes "iterates (accumulate rankings) (it (accumulate rankings))"
  shows "fuse it rankings limit =
    take limit (sort_key rank_order
      (map (\<lambda>key. \<lparr>rrf_key = key, rrf_score = rrf_formula rankings key\<rparr>) (remdups (map entry_key (concat rankings)))))"
proof -
  let ?keys = "remdups (map entry_key (concat rankings))"
  let ?f = "\<lambda>(key, score). \<lparr>rrf_key = key, rrf_score = score\<rparr>"
  let ?l = "map (\<lambda>key. (key, rrf_formula rankings key)) ?keys"
  let ?m = "accumulate rankings"
  have it: "distinct (map fst (it ?m))" "map_of (it ?m) = ?m"
    using assms by (auto simp: iterates_def)
  have "map_of ?l k = ?m k" for k
    unfolding map_of_map_keys accumulate_eq by (auto simp: map_of_map_restrict restrict_map_def)
  then have m: "map_of ?l = ?m" by (rule ext)
  have "distinct (map fst ?l)" by (simp add: comp_def)
  moreover from this have "set ?l = set (it ?m)"
    using it m by (metis (no_types) map_of_inject_set)
  ultimately have "mset (it ?m) = mset ?l"
    using it(1) set_eq_iff_mset_eq_distinct distinct_map by metis
  then have "sort_key rank_order (map ?f (it ?m)) = sort_key rank_order (map ?f ?l)"
    using rank_order_inj by (intro sort_key_unique) (simp add: mset_map del: map_map, auto intro: inj_on_subset)
  then show ?thesis by (simp add: fuse_def comp_def)
qed

theorem fuse_is_reciprocal_rank_fusion_witness:
  "fuse (\<lambda>_. [(''b'', 1 / 62), (''a'', 1 / 61)])
     [[\<lparr>entry_key = ''a'', entry_rank = 1\<rparr>, \<lparr>entry_key = ''b'', entry_rank = 2\<rparr>]] 1 =
   [\<lparr>rrf_key = ''a'', rrf_score = 1 / 61\<rparr>]"
proof -
  let ?r = "[[\<lparr>entry_key = ''a'', entry_rank = 1\<rparr>, \<lparr>entry_key = ''b'', entry_rank = 2\<rparr>]]"
  have "iterates (accumulate ?r) [(''b'', 1 / 62), (''a'', 1 / 61)]"
    by (simp add: iterates_def accumulate_def add_entry_def RRF_K_def fun_eq_iff)
  then have "fuse (\<lambda>_. [(''b'', 1 / 62), (''a'', 1 / 61)]) ?r 1 =
    take 1 (sort_key rank_order
      (map (\<lambda>key. \<lparr>rrf_key = key, rrf_score = rrf_formula ?r key\<rparr>) (remdups (map entry_key (concat ?r)))))"
    by (rule fuse_is_reciprocal_rank_fusion)
  then show ?thesis
    by (simp add: rank_order_def rrf_formula_def RRF_K_def)
qed

text \<open>
  Grouping is an index of the hits.  The groups are exactly the processes that hits name, with
  the trailing bucket for hits that name none; a group lists its hits once each in rank order; the
  groups stand in one order that the input determines, the trailing bucket last, larger groups
  first, then by name.
\<close>

theorem grouping_is_an_index:
  "distinct (map fst (group_hits_by_process hits)) \<and>
   (\<forall>key ms. (key, ms) \<in> set (group_hits_by_process hits) \<longleftrightarrow>
      key \<in> fst ` set (memberships hits) \<and> ms = members_of (memberships hits) key) \<and>
   sorted (map (\<lambda>(key, ms). (key = NO_PROCESS_GROUP, - int (length ms), key)) (group_hits_by_process hits))"
proof -
  let ?ms = "memberships hits"
  define g where "g = (\<lambda>k. if k \<in> fst ` set ?ms then Some (members_of ?ms k) else None)"
  define ks where "ks = sort_key (group_order g) (first_seen (map fst ?ms))"
  have "fold push_hit hits (Map.empty, []) = (g, first_seen (map fst ?ms))"
    unfolding fold_hits fold_push g_def ..
  then have out: "group_hits_by_process hits = map (\<lambda>key. (key, case g key of Some b \<Rightarrow> b | None \<Rightarrow> [])) ks"
    by (simp add: group_hits_by_process_def ks_def)
  have ks: "distinct ks" "set ks = fst ` set ?ms" by (simp_all add: ks_def)
  have "sorted (map (group_order g) ks)" by (simp add: ks_def)
  moreover have "map (\<lambda>(key, ms). (key = NO_PROCESS_GROUP, - int (length ms), key)) (group_hits_by_process hits) = map (group_order g) ks"
    by (auto simp: out group_order_def split: option.split)
  ultimately have "sorted (map (\<lambda>(key, ms). (key = NO_PROCESS_GROUP, - int (length ms), key)) (group_hits_by_process hits))"
    by simp
  moreover have "distinct (map fst (group_hits_by_process hits))" using ks by (simp add: out comp_def)
  moreover have "(key, ms) \<in> set (group_hits_by_process hits) \<longleftrightarrow>
      key \<in> fst ` set ?ms \<and> ms = members_of ?ms key" for key ms
    using ks by (auto simp: out g_def)
  ultimately show ?thesis by blast
qed

end
