(* ===== verification/Civil_Time.thy ===== *)
theory Civil_Time
  imports Rust_Base
begin

text \<open>
  \<open>src/handler_util.rs\<close>: UTC timestamps.  \<open>civil_from_unix\<close> computes with \<open>i64\<close> values far from
  the bounds of the type, so integers are unbounded here; the era of a negative day is written as
  the source writes it and never taken, since the seconds are unsigned.
\<close>

definition year_of_era :: "int \<Rightarrow> int" where
  "year_of_era doe = (doe - doe div 1460 + doe div 36524 - doe div 146096) div 365"

definition month_day :: "int \<Rightarrow> int \<times> int" where
  "month_day doy =
     (let mp = (5 * doy + 2) div 153;
          d = doy - (153 * mp + 2) div 5 + 1;
          mo = (if mp < 10 then mp + 3 else mp - 9) in
      (mo, d))"

definition civil_from_days :: "int \<Rightarrow> int \<times> int \<times> int" where
  "civil_from_days days =
     (let z = days + 719468;
          era = (if z \<ge> 0 then z else z - 146096) div 146097;
          doe = z - era * 146097;
          yoe = year_of_era doe;
          y = yoe + era * 400;
          doy = doe - (365 * yoe + yoe div 4 - yoe div 100);
          (mo, d) = month_day doy in
      (if mo \<le> 2 then y + 1 else y, mo, d))"

definition civil_from_unix :: "nat \<Rightarrow> int \<times> int \<times> int \<times> nat \<times> nat \<times> nat" where
  "civil_from_unix secs =
     (let (y, mo, d) = civil_from_days (int (secs div 86400));
          rem = secs mod 86400 in
      (y, mo, d, rem div 3600, rem mod 3600 div 60, rem mod 60))"

text \<open>\<open>{:04}\<close> and \<open>{:02}\<close>: decimal digits padded with zeros.\<close>

definition padded :: "nat \<Rightarrow> nat \<Rightarrow> string" where
  "padded width n = replicate (width - length (decimal n)) (CHR ''0'') @ decimal n"

definition format_iso8601_utc :: "nat \<Rightarrow> string" where
  "format_iso8601_utc secs =
     (case civil_from_unix secs of (y, mo, d, h, mi, s) \<Rightarrow>
        padded 4 (nat y) @ ''-'' @ padded 2 (nat mo) @ ''-'' @ padded 2 (nat d) @ ''T'' @
        padded 2 h @ '':'' @ padded 2 mi @ '':'' @ padded 2 s @ ''Z'')"

definition format_compact_utc :: "nat \<Rightarrow> string" where
  "format_compact_utc secs =
     (case civil_from_unix secs of (y, mo, d, h, mi, s) \<Rightarrow>
        padded 4 (nat y) @ padded 2 (nat mo) @ padded 2 (nat d) @ ''-'' @
        padded 2 h @ padded 2 mi @ padded 2 s)"

section \<open>The calendar\<close>

text \<open>The Gregorian calendar, by the day after a date.\<close>

definition leap :: "int \<Rightarrow> bool" where
  "leap y \<longleftrightarrow> 4 dvd y \<and> (\<not> 100 dvd y \<or> 400 dvd y)"

definition days_in_month :: "int \<Rightarrow> int \<Rightarrow> int" where
  "days_in_month y mo =
     (if mo = 2 then (if leap y then 29 else 28) else if mo \<in> {4, 6, 9, 11} then 30 else 31)"

definition next_day :: "int \<times> int \<times> int \<Rightarrow> int \<times> int \<times> int" where
  "next_day date =
     (case date of (y, mo, d) \<Rightarrow>
        if d < days_in_month y mo then (y, mo, d + 1)
        else if mo < 12 then (y, mo + 1, 1) else (y + 1, 1, 1))"

text \<open>
  Years counted from March: \<open>year_start Y\<close> is the day of the era year \<open>Y\<close> starts on, and \<open>year_days\<close>
  its length, a day longer when the February at its end is a leap February.
\<close>

definition year_start :: "int \<Rightarrow> int" where
  "year_start Y = 365 * Y + Y div 4 - Y div 100"

definition year_days :: "int \<Rightarrow> int" where
  "year_days Y = (if leap (Y + 1) then 366 else 365)"

lemma div_eq: "(b::int) * q \<le> a \<Longrightarrow> a < b * q + b \<Longrightarrow> a div b = q"
  by (rule int_div_pos_eq [of a b q "a - b * q"]) simp_all

lemma year_split:
  assumes "0 \<le> Y" "Y < (400::int)"
  obtains c q s where "Y = 100 * c + 4 * q + s" "0 \<le> c" "c \<le> 3" "0 \<le> q" "q \<le> 24" "0 \<le> s" "s \<le> 3"
    "Y div 4 = 25 * c + q" "Y div 100 = c"
proof -
  define c where "c = Y div 100"
  define q where "q = Y mod 100 div 4"
  define s where "s = Y mod 4"
  have "Y mod 100 = 4 * (Y mod 100 div 4) + Y mod 100 mod 4" by (rule mult_div_mod_eq [symmetric])
  also have "Y mod 100 mod 4 = Y mod 4" by (simp add: mod_mod_cancel)
  finally have "Y mod 100 = 4 * q + s" unfolding q_def s_def .
  then have y: "Y = 100 * c + 4 * q + s"
    using mult_div_mod_eq [of 100 Y] by (simp add: c_def)
  have b: "0 \<le> c" "c \<le> 3" "0 \<le> q" "q \<le> 24" "0 \<le> s" "s \<le> 3"
    using assms by (simp_all add: c_def q_def s_def)
  then have "Y div 4 = 25 * c + q" using y by (intro div_eq) auto
  moreover have "Y div 100 = c" unfolding c_def ..
  ultimately show thesis by (rule that [OF y b])
qed

lemma leap_next:
  assumes "Y = 100 * c + 4 * q + s" "0 \<le> c" "c \<le> 3" "0 \<le> q" "q \<le> 24" "0 \<le> s" "s \<le> (3::int)"
  shows "leap (Y + 1) \<longleftrightarrow> s = 3 \<and> (q < 24 \<or> c = 3)"
proof -
  have four: "4 dvd t \<longleftrightarrow> t = 4" if "1 \<le> t" "t \<le> 4" for t :: int using that by presburger
  have hundred: "100 dvd t \<longleftrightarrow> t = 100" if "1 \<le> t" "t \<le> 100" for t :: int using that by presburger
  have fourhundred: "400 dvd t \<longleftrightarrow> t = 400" if "1 \<le> t" "t \<le> 400" for t :: int using that by presburger
  have last: "4 * q + s + 1 = 100 \<longleftrightarrow> q = 24 \<and> s = 3" using assms(4-7) by presburger
  have "Y + 1 = (s + 1) + 4 * (25 * c + q)" using assms by simp
  then have "4 dvd Y + 1 \<longleftrightarrow> 4 dvd s + 1" by (metis dvd_add_times_triv_right_iff mult.commute)
  then have "4 dvd Y + 1 \<longleftrightarrow> s = 3" using assms four [of "s + 1"] by auto
  moreover have "Y + 1 = (4 * q + s + 1) + 100 * c" using assms by simp
  then have "100 dvd Y + 1 \<longleftrightarrow> 100 dvd 4 * q + s + 1" by (metis dvd_add_times_triv_right_iff mult.commute)
  then have "100 dvd Y + 1 \<longleftrightarrow> q = 24 \<and> s = 3" using last assms(4-7) hundred [of "4 * q + s + 1"] by auto
  moreover have "400 dvd Y + 1 \<longleftrightarrow> c = 3 \<and> q = 24 \<and> s = 3" 
  proof -
    have "Y + 1 = 400 \<longleftrightarrow> c = 3 \<and> 4 * q + s + 1 = 100" using assms by presburger
    then show ?thesis using fourhundred [of "Y + 1"] assms last by auto
  qed
  ultimately show ?thesis using assms unfolding leap_def by auto
qed

lemma year_of_era:
  assumes "0 \<le> Y" "Y < 400" "0 \<le> r" "r < year_days Y"
  shows "year_of_era (year_start Y + r) = Y"
proof -
  obtain c q s where y: "Y = 100 * c + 4 * q + s" and b: "0 \<le> c" "c \<le> 3" "0 \<le> q" "q \<le> 24" "0 \<le> s" "s \<le> 3"
    and div: "Y div 4 = 25 * c + q" "Y div 100 = c"
    using year_split [OF assms(1,2)] .
  define doe where "doe = year_start Y + r"
  have doe: "doe = 36524 * c + 1461 * q + 365 * s + r"
    unfolding doe_def year_start_def div by (simp add: y)
  have r: "r \<le> 364 \<or> r = 365 \<and> s = 3 \<and> (q < 24 \<or> c = 3)"
    using assms(4) leap_next [OF y b] by (auto simp: year_days_def split: if_splits)
  have centuries: "doe div 36524 - doe div 146096 = c"
  proof (cases "c = 3 \<and> q = 24 \<and> s = 3 \<and> r = 365")
    case True
    then show ?thesis by (simp add: doe)
  next
    case False
    have "1461 * q + 365 * s + r < 36524" using r b False by auto
    then have "doe div 36524 = c" using assms(3) b by (intro div_eq) (auto simp: doe)
    moreover have "doe div 146096 = 0" using \<open>1461 * q + 365 * s + r < 36524\<close> assms(3) b by (simp add: doe)
    ultimately show ?thesis by simp
  qed
  define k where "k = (24 * c + q + 365 * s + r) div 1460"
  have "doe = 1460 * (25 * c + q) + (24 * c + q + 365 * s + r)" by (simp add: doe)
  then have quads: "doe div 1460 = 25 * c + q + k"
    unfolding k_def by (metis div_mult_self4 zero_neq_numeral add.commute)
  have k: "0 \<le> r - k \<and> r - k \<le> 364"
  proof (cases "24 * c + q + 365 * s + r < 1460")
    case True
    then have "k = 0" using b assms(3) by (simp add: k_def)
    then show ?thesis using r True b assms(3) by auto
  next
    case False
    then have "k = 1" using b assms(3) r unfolding k_def by (intro div_eq) auto
    then show ?thesis using r False b assms(3) by auto
  qed
  have "year_of_era doe = (doe - doe div 1460 + c) div 365"
    unfolding year_of_era_def using centuries by (metis add_diff_eq)
  also have "doe - doe div 1460 + c = 365 * Y + (r - k)"
    unfolding quads by (simp add: doe y)
  also have "\<dots> div 365 = Y"
    using k by (intro div_eq) auto
  finally show ?thesis by (simp add: doe_def)
qed


text \<open>Every day of the era is in one of its years.\<close>

lemma year_start_Suc: "0 \<le> Y \<Longrightarrow> Y < 400 \<Longrightarrow> year_start (Y + 1) = year_start Y + year_days Y + (if Y = 399 then -1 else 0)"
proof -
  assume "0 \<le> Y" "Y < 400"
  then obtain c q s where y: "Y = 100 * c + 4 * q + s" and b: "0 \<le> c" "c \<le> 3" "0 \<le> q" "q \<le> 24" "0 \<le> s" "s \<le> 3"
    and div: "Y div 4 = 25 * c + q" "Y div 100 = c"
    using year_split by metis
  have four: "(Y + 1) div 4 = 25 * c + q + (if s = 3 then 1 else 0)" using y b by (intro div_eq) auto
  have hundred: "(Y + 1) div 100 = c + (if q = 24 \<and> s = 3 then 1 else 0)" using y b by (intro div_eq) auto
  show ?thesis
    using b unfolding year_start_def year_days_def leap_next [OF y b] four hundred div by (auto simp: y)
qed


lemma era_year:
  assumes "0 \<le> doe" "doe < 146097"
  obtains Y r where "0 \<le> Y" "Y < 400" "0 \<le> r" "r < year_days Y" "doe = year_start Y + r"
proof -
  have ex: "\<exists>Y. 0 \<le> Y \<and> Y < int n \<and> year_start Y \<le> doe \<and> doe < year_start Y + year_days Y"
    if "n \<le> 400" "doe < year_start (int n) + (if n = 400 then 1 else 0)" for n
    using that
  proof (induction n)
    case 0
    then show ?case using assms(1) by (simp add: year_start_def)
  next
    case (Suc n)
    show ?case
    proof (cases "doe < year_start (int n)")
      case True
      then obtain Y where "0 \<le> Y" "Y < int n" "year_start Y \<le> doe" "doe < year_start Y + year_days Y"
        using Suc by auto
      then show ?thesis by (intro exI [of _ Y]) simp
    next
      case False
      have "year_start (int (Suc n)) = year_start (int n) + year_days (int n) + (if int n = 399 then - 1 else 0)"
        using year_start_Suc [of "int n"] Suc.prems(1) by (simp add: add.commute)
      then show ?thesis
        using False Suc.prems by (intro exI [of _ "int n"]) (auto split: if_splits)
    qed
  qed
  obtain Y where "0 \<le> Y" "Y < 400" "year_start Y \<le> doe" "doe < year_start Y + year_days Y"
    using ex [of 400] assms(2) by (auto simp: year_start_def)
  then show thesis using that [of Y "doe - year_start Y"] by simp
qed

section \<open>The day after\<close>

text \<open>A date by its March-based year and the day of that year.\<close>

definition date_of :: "int \<Rightarrow> int \<Rightarrow> int \<times> int \<times> int" where
  "date_of Y doy = (case month_day doy of (mo, d) \<Rightarrow> (if mo \<le> 2 then Y + 1 else Y, mo, d))"

lemma civil_from_days_eq:
  assumes "0 \<le> Y" "Y < 400" "0 \<le> r" "r < year_days Y" "0 \<le> era"
  shows "civil_from_days (era * 146097 + year_start Y + r - 719468) = date_of (Y + era * 400) r"
proof -
  define doe where "doe = year_start Y + r"
  have "year_start Y + year_days Y \<le> 146097"
  proof (cases "Y = 399")
    case True
    then show ?thesis by (simp add: year_start_def year_days_def leap_def)
  next
    case False
    have "Y div 4 \<le> 99" "0 \<le> Y div 100" using assms(1,2) False by simp_all
    then show ?thesis using assms(1,2) False unfolding year_start_def year_days_def by (auto split: if_splits)
  qed
  then have "doe < 146097" using assms(4) by (simp add: doe_def)
  moreover have "0 \<le> doe" using assms(1,3) by (simp add: doe_def year_start_def)
  ultimately have era: "(era * 146097 + doe) div 146097 = era" using assms(5) by (intro div_eq) auto
  have z: "era * 146097 + year_start Y + r - 719468 + 719468 = era * 146097 + doe" by (simp add: doe_def)
  have nonneg: "era * 146097 + doe \<ge> 0" using assms(5) \<open>0 \<le> doe\<close> by simp
  have "era * 146097 + doe - era * 146097 = doe" by simp
  moreover have "year_of_era doe = Y" using year_of_era [OF assms(1-4)] by (simp add: doe_def)
  moreover have "doe - (365 * Y + Y div 4 - Y div 100) = r" by (simp add: doe_def year_start_def)
  ultimately show ?thesis
    unfolding civil_from_days_def Let_def z era using nonneg
    by (simp add: date_of_def era split: prod.split)
qed

definition month_max :: "int \<Rightarrow> int" where
  "month_max mo = (if mo = 2 then 29 else if mo \<in> {4, 6, 9, 11} then 30 else 31)"

definition month_step :: "int \<Rightarrow> bool" where
  "month_step doy \<longleftrightarrow>
     (case month_day doy of (mo, d) \<Rightarrow>
        1 \<le> mo \<and> mo \<le> 12 \<and> (mo = 2 \<longrightarrow> doy = 336 + d) \<and>
        month_day (doy + 1) = (if d < month_max mo then (mo, d + 1) else (if mo = 12 then 1 else mo + 1, 1)) \<and>
        (mo \<le> 2 \<longleftrightarrow> 306 \<le> doy))"

lemma month_steps: "list_all month_step [0..364]"
  by code_simp

lemma month_stepD: "0 \<le> doy \<Longrightarrow> doy \<le> 364 \<Longrightarrow> month_step doy"
  using month_steps by (auto simp: list_all_iff)

lemma month_day_points: "month_day 0 = (3, 1)" "month_day 364 = (2, 28)" "month_day 365 = (2, 29)"
  by (simp_all add: month_day_def)

lemma next_date_in_year:
  assumes "0 \<le> r" "r + 1 < year_days Y"
  shows "date_of Y (r + 1) = next_day (date_of Y r)"
proof -
  obtain mo d where md: "month_day r = (mo, d)" by fastforce
  have "r \<le> 364" using assms(2) by (simp add: year_days_def split: if_splits)
  then have st: "1 \<le> mo" "mo \<le> 12" "mo = 2 \<longrightarrow> r = 336 + d" "mo \<le> 2 \<longleftrightarrow> 306 \<le> r"
    "month_day (r + 1) = (if d < month_max mo then (mo, d + 1) else (if mo = 12 then 1 else mo + 1, 1))"
    using month_stepD [of r] assms(1) md by (auto simp: month_step_def)
  have feb: "mo = 2 \<Longrightarrow> leap (Y + 1) \<or> d < 28" using st(3) assms(2) by (auto simp: year_days_def split: if_splits)
  show ?thesis
    using st feb \<open>r \<le> 364\<close> by (auto simp: date_of_def md next_day_def days_in_month_def month_max_def split: if_splits)
qed

lemma next_date_new_year:
  assumes "r + 1 = year_days Y"
  shows "date_of (Y + 1) 0 = next_day (date_of Y r)"
  using assms
  by (cases "leap (Y + 1)") (auto simp: date_of_def month_day_points next_day_def days_in_month_def year_days_def)

lemma leap_era: "leap (Y + era * 400) = leap Y"
proof -
  have "(Y + era * 400) = Y + 4 * (100 * era)" "(Y + era * 400) = Y + 100 * (4 * era)" by simp_all
  then have "4 dvd Y + era * 400 \<longleftrightarrow> 4 dvd Y" "100 dvd Y + era * 400 \<longleftrightarrow> 100 dvd Y"
    by (metis dvd_add_left_iff dvd_triv_left)+
  moreover have "400 dvd Y + era * 400 \<longleftrightarrow> 400 dvd Y" by (simp add: dvd_add_left_iff)
  ultimately show ?thesis by (simp add: leap_def)
qed

lemma next_day_civil:
  assumes "0 \<le> n"
  shows "civil_from_days (n + 1) = next_day (civil_from_days n)"
proof -
  define era where "era = (n + 719468) div 146097"
  define doe where "doe = (n + 719468) mod 146097"
  have n: "n = era * 146097 + doe - 719468" by (simp add: era_def doe_def)
  have e: "0 \<le> era" "0 \<le> doe" "doe < 146097" using assms by (simp_all add: era_def doe_def pos_imp_zdiv_nonneg_iff)
  obtain Y r where Y: "0 \<le> Y" "Y < 400" "0 \<le> r" "r < year_days Y" "doe = year_start Y + r"
    using era_year [OF e(2,3)] .
  have n': "n = era * 146097 + year_start Y + r - 719468" using n Y(5) by simp
  have here: "civil_from_days n = date_of (Y + era * 400) r"
    using civil_from_days_eq [OF Y(1-4) e(1)] by (simp only: n')
  have days: "year_days (Y + era * 400) = year_days Y"
    using leap_era [of "Y + 1" era] by (simp add: year_days_def algebra_simps)
  consider (in_year) "r + 1 < year_days Y" | (new_year) "r + 1 = year_days Y" "Y < 399" | (new_era) "r + 1 = year_days Y" "Y = 399"
    using Y(2,4) by linarith
  then show ?thesis
  proof cases
    case in_year
    have "civil_from_days (n + 1) = date_of (Y + era * 400) (r + 1)"
    proof -
      have eq: "n + 1 = era * 146097 + year_start Y + (r + 1) - 719468" using n' by simp
      have "civil_from_days (era * 146097 + year_start Y + (r + 1) - 719468) = date_of (Y + era * 400) (r + 1)"
        using Y(1-3) e(1) in_year by (intro civil_from_days_eq) simp_all
      then show ?thesis by (simp only: eq)
    qed
    then show ?thesis using here next_date_in_year [of r "Y + era * 400"] Y(3) in_year days by simp
  next
    case new_year
    have "n + 1 = era * 146097 + year_start (Y + 1) + 0 - 719468"
      using n Y(5) year_start_Suc [OF Y(1,2)] new_year by simp
    have "0 < year_days (Y + 1)" by (simp add: year_days_def)
    have "civil_from_days (n + 1) = date_of (Y + 1 + era * 400) 0"
    proof -
      have "civil_from_days (era * 146097 + year_start (Y + 1) + 0 - 719468) = date_of (Y + 1 + era * 400) 0"
        using Y(1) e(1) new_year(2) \<open>0 < year_days (Y + 1)\<close> by (intro civil_from_days_eq) simp_all
      then show ?thesis by (simp only: \<open>n + 1 = era * 146097 + year_start (Y + 1) + 0 - 719468\<close>)
    qed
    then show ?thesis
      using here next_date_new_year [of r "Y + era * 400"] new_year(1) days by (simp add: algebra_simps)
  next
    case new_era
    have "year_start 399 = 145731" "year_days 399 = 366" by (simp_all add: year_start_def year_days_def leap_def)
    then have eq: "n + 1 = (era + 1) * 146097 + year_start 0 + 0 - 719468"
      using n Y(5) new_era by (simp add: year_start_def algebra_simps)
    have "civil_from_days ((era + 1) * 146097 + year_start 0 + 0 - 719468) = date_of (0 + (era + 1) * 400) 0"
      using e(1) by (intro civil_from_days_eq) (simp_all add: year_days_def)
    then have "civil_from_days (n + 1) = date_of (0 + (era + 1) * 400) 0" by (simp only: eq)
    then show ?thesis
      using here next_date_new_year [of r "Y + era * 400"] new_era days by (simp add: algebra_simps)
  qed
qed

lemma epoch: "civil_from_days 0 = (1970, 1, 1)"
  by code_simp

section \<open>Properties\<close>

text \<open>
  C39: Timestamps follow the calendar.  The date of a Unix time is the date reached from the first of
  January 1970 by stepping day by day through the Gregorian calendar with its leap rule, once per
  elapsed day, and the time of day is the remainder in hours, minutes and seconds, in range.
\<close>

theorem timestamps_follow_the_calendar:
  "case civil_from_unix secs of (y, mo, d, h, mi, s) \<Rightarrow>
     (y, mo, d) = (next_day ^^ (secs div 86400)) (1970, 1, 1) \<and>
     h < 24 \<and> mi < 60 \<and> s < 60 \<and> secs = 86400 * (secs div 86400) + 3600 * h + 60 * mi + s"
proof -
  have "civil_from_days (int n) = (next_day ^^ n) (1970, 1, 1)" for n
  proof (induction n)
    case 0
    show ?case using epoch by simp
  next
    case (Suc n)
    then show ?case using next_day_civil [of "int n"] by (simp add: add.commute)
  qed
  moreover obtain y mo d where nd: "(next_day ^^ (secs div 86400)) (1970, 1, 1) = (y, mo, d)"
    using prod_cases3 by blast
  ultimately have civil: "civil_from_days (int (secs div 86400)) = (y, mo, d)" by simp
  define t where "t = secs mod 86400"
  have sec: "t mod 60 = secs mod 60" "t mod 3600 mod 60 = secs mod 60"
    by (simp_all add: t_def mod_mod_cancel)
  have "t mod 3600 = 60 * (t mod 3600 div 60) + t mod 60"
    using mult_div_mod_eq [of 60 "t mod 3600"] sec by metis
  then have "t = 3600 * (t div 3600) + 60 * (t mod 3600 div 60) + t mod 60"
    using mult_div_mod_eq [of 3600 t] by (metis add.assoc)
  then have total: "secs = 86400 * (secs div 86400) + 3600 * (t div 3600) + 60 * (t mod 3600 div 60) + t mod 60"
    using mult_div_mod_eq [of 86400 secs] unfolding t_def by (metis add.assoc)
  have range: "t div 3600 < 24" "t mod 3600 div 60 < 60" "t mod 60 < 60"
    by (simp_all add: t_def less_mult_imp_div_less)
  show ?thesis
    unfolding civil_from_unix_def Let_def civil prod.case nd t_def [symmetric]
    using total range by blast
qed

end
