(* ===== verification/Stage_Util.thy ===== *)
theory Stage_Util
  imports Civil_Time "HOL-Library.Word"
begin

text \<open>
  \<open>src/handler_util.rs\<close> and \<open>src/atomic_file.rs\<close>: identifiers, paths, random suffixes and the error
  type the stage handlers share.  A path is its text; \<open>Path::join\<close> of a relative name appends it
  after a slash.  The text of an error message is not modelled, its reason code is.
\<close>

section \<open>Names\<close>

definition SAFE_ID_MAX_LEN :: nat where "SAFE_ID_MAX_LEN = 128"
definition RUNS_DIR_NAME :: string where "RUNS_DIR_NAME = ''runs''"
definition FINDINGS_DIR_NAME :: string where "FINDINGS_DIR_NAME = ''findings''"
definition INDEX_FILE_NAME :: string where "INDEX_FILE_NAME = ''index.json''"
definition REFINED_FILE_NAME :: string where "REFINED_FILE_NAME = ''stage-1.refined.json''"
definition SESSION_FILE_NAME :: string where "SESSION_FILE_NAME = ''stage-2.session.json''"
definition VERIFIED_FILE_NAME :: string where "VERIFIED_FILE_NAME = ''stage-2.verified.json''"
definition EXTRACTOR_VERSION :: string where "EXTRACTOR_VERSION = ''1.0.0''"
definition VERIFIER_VERSION :: string where "VERIFIER_VERSION = ''1.0.0''"
definition DIGEST_ALGORITHM :: string where "DIGEST_ALGORITHM = ''sha256''"

datatype stage_err =
  BadRequest
| UnsafeId
| IoError
| NoExtraction
| CorruptExtraction
| CorruptSession
| NoSession
| SchemaNotOk
| AlreadyFinalized
| AlreadyAborted
| IllegalTransition
| AlternationViolation
| NoClarificationRound
| UnansweredQuestion

section \<open>Safe identifiers\<close>

datatype id_error = EmptyId | TooLong nat | LeadingDot | DoubleDot | BadCharacter

definition id_char :: "char \<Rightarrow> bool" where
  "id_char b \<longleftrightarrow> is_alnum b \<or> b = CHR ''.'' \<or> b = CHR ''_'' \<or> b = CHR ''-''"

definition validate_safe_id :: "string \<Rightarrow> (unit, id_error) result" where
  "validate_safe_id name =
     (if name = [] then Err EmptyId
      else if length name > SAFE_ID_MAX_LEN then Err (TooLong (length name))
      else if starts_with name ''.'' then Err LeadingDot
      else if contains name ''..'' then Err DoubleDot
      else if \<not> list_all id_char name then Err BadCharacter
      else Ok ())"

definition safe_id :: "string \<Rightarrow> bool" where
  "safe_id name \<longleftrightarrow> validate_safe_id name = Ok ()"

section \<open>Paths\<close>

text \<open>\<open>Path::components\<close> of a Unix path: the root, then the pieces between slashes except empty ones and dots.\<close>

definition path_components :: "string \<Rightarrow> string list" where
  "path_components p = filter (\<lambda>c. c \<noteq> [] \<and> c \<noteq> ''.'') (split_on (\<lambda>c. c = CHR ''/'') p)"

datatype path_error = NotAbsolute | ParentComponent

definition require_absolute :: "string \<Rightarrow> (string, path_error) result" where
  "require_absolute path =
     (if \<not> starts_with path ''/'' then Err NotAbsolute
      else if ''..'' \<in> set (path_components path) then Err ParentComponent
      else Ok path)"

text \<open>\<open>Path::join\<close> with a relative name: a slash is written unless the path ends with one.\<close>

definition path_join :: "string \<Rightarrow> string \<Rightarrow> string" where
  "path_join p name = (if p \<noteq> [] \<and> last p \<noteq> CHR ''/'' then p @ ''/'' @ name else p @ name)"

definition finding_dir_for :: "string \<Rightarrow> string \<Rightarrow> string \<Rightarrow> string" where
  "finding_dir_for output_dir run_id finding_id =
     path_join (path_join (path_join (path_join output_dir RUNS_DIR_NAME) run_id) FINDINGS_DIR_NAME) finding_id"

definition session_path_for :: "string \<Rightarrow> string \<Rightarrow> string \<Rightarrow> string" where
  "session_path_for output_dir run_id finding_id =
     path_join (path_join (path_join (path_join (path_join output_dir RUNS_DIR_NAME) run_id) FINDINGS_DIR_NAME) finding_id)
       SESSION_FILE_NAME"

definition index_path_for :: "string \<Rightarrow> string \<Rightarrow> string" where
  "index_path_for output_dir run_id = path_join (path_join (path_join output_dir RUNS_DIR_NAME) run_id) INDEX_FILE_NAME"

section \<open>Random suffixes\<close>

unbundle bit_operations_syntax

definition RUN_ID_RANDOM_ALPHABET :: string where
  "RUN_ID_RANDOM_ALPHABET = ''abcdefghijklmnopqrstuvwxyz0123456789''"

definition xorshift :: "64 word \<Rightarrow> 64 word" where
  "xorshift s0 =
     (let s1 = s0 XOR push_bit 13 s0;
          s2 = s1 XOR drop_bit 7 s1 in
      s2 XOR push_bit 17 s2)"

definition suffix_seed :: "64 word \<Rightarrow> 64 word \<Rightarrow> 64 word \<Rightarrow> 64 word" where
  "suffix_seed secs nanos pid =
     (let state = (secs * 6364136223846793005 + nanos * 1442695040888963407) XOR pid in
      if state = 0 then 0x9E3779B97F4A7C15 else state)"

fun suffix_chars :: "nat \<Rightarrow> 64 word \<Rightarrow> string" where
  "suffix_chars 0 state = []"
| "suffix_chars (Suc len) state =
     (let state' = xorshift state in
      RUN_ID_RANDOM_ALPHABET ! (unat state' mod length RUN_ID_RANDOM_ALPHABET) # suffix_chars len state')"

definition random_suffix :: "64 word \<Rightarrow> 64 word \<Rightarrow> 64 word \<Rightarrow> nat \<Rightarrow> string" where
  "random_suffix secs nanos pid len = suffix_chars len (suffix_seed secs nanos pid)"

definition RUN_ID_RANDOM_LEN :: nat where "RUN_ID_RANDOM_LEN = 6"

definition generate_run_id :: "64 word \<Rightarrow> 64 word \<Rightarrow> 64 word \<Rightarrow> 64 word \<Rightarrow> string" where
  "generate_run_id run_secs secs nanos pid =
     format_compact_utc (unat run_secs) @ ''-'' @ random_suffix secs nanos pid RUN_ID_RANDOM_LEN"

section \<open>The generator never reaches its fixed point\<close>

lemma xor_push_bit_zero:
  fixes x :: "64 word"
  assumes "0 < k" "x XOR push_bit k x = 0"
  shows "x = 0"
proof (rule bit_eqI)
  fix n
  have eq: "bit x n = bit (push_bit k x) n" if "n < 64" for n
    using arg_cong [OF assms(2), of "\<lambda>w. bit w n"] that by (simp add: bit_xor_iff)
  show "bit x n = bit 0 n"
  proof (induction n rule: less_induct)
    case (less n)
    then show ?case
      using eq [of n] assms(1) by (cases "n < 64") (auto simp: bit_push_bit_iff dest: bit_imp_le_length)
  qed
qed

lemma xor_drop_bit_zero:
  fixes x :: "64 word"
  assumes "0 < k" "x XOR drop_bit k x = 0"
  shows "x = 0"
proof (rule bit_eqI)
  fix n
  have eq: "bit x n = bit x (k + n)" for n
    using arg_cong [OF assms(2), of "\<lambda>w. bit w n"] by (simp add: bit_xor_iff bit_drop_bit_eq)
  have "bit x n = bit x (j * k + n)" for j
    by (induction j) (simp, metis add.assoc eq mult_Suc)
  from this [of 64] have "bit x n = bit x (64 * k + n)" .
  moreover have "\<not> bit x (64 * k + n)" using assms(1) bit_imp_le_length [of x "64 * k + n"] by auto
  ultimately show "bit x n = bit 0 n" by simp
qed

lemma xorshift_nonzero: "s \<noteq> 0 \<Longrightarrow> xorshift s \<noteq> 0"
proof -
  assume "s \<noteq> 0"
  define s1 where "s1 = s XOR push_bit 13 s"
  define s2 where "s2 = s1 XOR drop_bit 7 s1"
  have "s1 \<noteq> 0" using \<open>s \<noteq> 0\<close> xor_push_bit_zero [of 13 s] by (auto simp: s1_def)
  then have "s2 \<noteq> 0" using xor_drop_bit_zero [of 7 s1] by (auto simp: s2_def)
  then have "s2 XOR push_bit 17 s2 \<noteq> 0" using xor_push_bit_zero [of 17 s2] by auto
  then show "xorshift s \<noteq> 0" unfolding xorshift_def Let_def s1_def s2_def .
qed

lemma suffix_seed_nonzero: "suffix_seed secs nanos pid \<noteq> 0"
  by (simp add: suffix_seed_def Let_def)

lemma suffix_chars_safe: "list_all (\<lambda>c. is_lower c \<or> is_digit c) (suffix_chars len state) \<and> length (suffix_chars len state) = len"
proof (induction len arbitrary: state)
  case 0
  show ?case by simp
next
  case (Suc len)
  have "list_all (\<lambda>c. is_lower c \<or> is_digit c) RUN_ID_RANDOM_ALPHABET" by code_simp
  moreover have "0 < length RUN_ID_RANDOM_ALPHABET" by (simp add: RUN_ID_RANDOM_ALPHABET_def)
  ultimately have "is_lower (RUN_ID_RANDOM_ALPHABET ! (n mod length RUN_ID_RANDOM_ALPHABET)) \<or>
      is_digit (RUN_ID_RANDOM_ALPHABET ! (n mod length RUN_ID_RANDOM_ALPHABET))" for n
    by (simp add: list_all_length)
  then show ?case using Suc by (simp add: Let_def)
qed

section \<open>Safe identifiers stay inside their directory\<close>

lemma safe_idD:
  assumes "safe_id i"
  shows "i \<noteq> []" "length i \<le> 128" "list_all id_char i" "\<not> starts_with i ''.''" "\<not> contains i ''..''"
  using assms by (auto simp: safe_id_def validate_safe_id_def SAFE_ID_MAX_LEN_def split: if_splits)

lemma id_char_not_slash: "id_char c \<Longrightarrow> c \<noteq> CHR ''/''"
  by (auto simp: id_char_def ascii_simps eq_char_code code_literal simp del: code_inject)

text \<open>A plain name: not empty, without a slash, and no dot directory.\<close>

definition plain_name :: "string \<Rightarrow> bool" where
  "plain_name n \<longleftrightarrow> n \<noteq> [] \<and> CHR ''/'' \<notin> set n \<and> n \<noteq> ''.'' \<and> n \<noteq> ''..''"

lemma safe_id_plain: "safe_id i \<Longrightarrow> plain_name i"
proof -
  assume i: "safe_id i"
  have "CHR ''/'' \<notin> set i" using safe_idD(3) [OF i] id_char_not_slash unfolding list_all_iff by blast
  moreover have "i \<noteq> ''.''" "i \<noteq> ''..''" using safe_idD(4) [OF i] by auto
  ultimately show ?thesis using safe_idD(1) [OF i] unfolding plain_name_def by blast
qed

lemma components_join: "p \<noteq> [] \<Longrightarrow> plain_name n \<Longrightarrow> path_components (path_join p n) = path_components p @ [n]"
proof -
  assume p: "p \<noteq> []" and n: "plain_name n"
  have n1: "split_on (\<lambda>c. c = CHR ''/'') n = [n]"
    using n by (intro split_on_none) (auto simp: plain_name_def)
  show ?thesis
  proof (cases "last p = CHR ''/''")
    case False
    then show ?thesis
      using p n n1 split_on_append [of "\<lambda>c. c = CHR ''/''" "CHR ''/''" p n]
      by (simp add: path_join_def path_components_def plain_name_def)
  next
    case True
    then obtain p' where p': "p = p' @ ''/''" using p by (cases p rule: rev_cases) auto
    then show ?thesis
      using n n1 split_on_append [of "\<lambda>c. c = CHR ''/''" "CHR ''/''" p' n] split_on_snoc [of "\<lambda>c. c = CHR ''/''" "CHR ''/''" p']
      by (simp add: path_join_def path_components_def plain_name_def)
  qed
qed

lemma path_join_nonempty: "n \<noteq> [] \<Longrightarrow> path_join p n \<noteq> []"
  by (simp add: path_join_def)


lemma plain_names:
  "plain_name RUNS_DIR_NAME" "plain_name FINDINGS_DIR_NAME" "plain_name SESSION_FILE_NAME"
  "plain_name INDEX_FILE_NAME" "plain_name REFINED_FILE_NAME" "plain_name VERIFIED_FILE_NAME"
  by (simp_all add: plain_name_def RUNS_DIR_NAME_def FINDINGS_DIR_NAME_def SESSION_FILE_NAME_def
      INDEX_FILE_NAME_def REFINED_FILE_NAME_def VERIFIED_FILE_NAME_def)

lemma plain_nonempty: "plain_name n \<Longrightarrow> n \<noteq> []"
  by (simp add: plain_name_def)

lemma session_path_components:
  assumes "dir \<noteq> []" "safe_id r" "safe_id f"
  shows "path_components (session_path_for dir r f) =
    path_components dir @ [RUNS_DIR_NAME, r, FINDINGS_DIR_NAME, f, SESSION_FILE_NAME]"
  using assms safe_id_plain plain_names plain_nonempty
  by (simp add: session_path_for_def components_join path_join_nonempty)

section \<open>Properties\<close>

text \<open>
  C38: An accepted identifier confines a session to its own file.  For an absolute output directory,
  the components of the session path are those of the directory followed by the fixed names and the
  two identifiers: the path never leaves the directory, holds no parent component, and two sessions
  share a file only when both identifiers agree.
\<close>

theorem session_paths_are_confined:
  assumes "require_absolute dir = Ok d"
    and "validate_safe_id r = Ok ()" "validate_safe_id f = Ok ()" "validate_safe_id r' = Ok ()" "validate_safe_id f' = Ok ()"
  shows "path_components (session_path_for d r f) =
      path_components d @ [RUNS_DIR_NAME, r, FINDINGS_DIR_NAME, f, SESSION_FILE_NAME] \<and>
    ''..'' \<notin> set (path_components (session_path_for d r f)) \<and>
    (session_path_for d r f = session_path_for d r' f' \<longleftrightarrow> r = r' \<and> f = f')"
proof -
  have d: "d \<noteq> []" "''..'' \<notin> set (path_components d)"
    using assms(1) by (auto simp: require_absolute_def split: if_splits)
  have ids: "safe_id r" "safe_id f" "safe_id r'" "safe_id f'" using assms by (simp_all add: safe_id_def)
  note c = session_path_components [OF d(1) ids(1,2)] session_path_components [OF d(1) ids(3,4)]
  have "''..'' \<noteq> r" "''..'' \<noteq> f" using ids safe_id_plain by (auto simp: plain_name_def)
  then have "''..'' \<notin> set (path_components (session_path_for d r f))"
    using c(1) d(2) by (simp add: RUNS_DIR_NAME_def FINDINGS_DIR_NAME_def SESSION_FILE_NAME_def)
  moreover have "session_path_for d r f = session_path_for d r' f' \<longleftrightarrow> r = r' \<and> f = f'"
    using c by (metis append_same_eq list.inject same_append_eq)
  ultimately show ?thesis using c(1) by blast
qed

theorem session_paths_are_confined_witness:
  "path_components (session_path_for ''/out'' ''r-1'' ''f.2'') = [''out'', ''runs'', ''r-1'', ''findings'', ''f.2'', ''stage-2.session.json'']"
proof -
  have "require_absolute ''/out'' = Ok ''/out''" "validate_safe_id ''r-1'' = Ok ()" "validate_safe_id ''f.2'' = Ok ()"
    by code_simp+
  from session_paths_are_confined [OF this(1) this(2) this(3) this(2) this(3)]
  have "path_components (session_path_for ''/out'' ''r-1'' ''f.2'') =
      path_components ''/out'' @ [RUNS_DIR_NAME, ''r-1'', FINDINGS_DIR_NAME, ''f.2'', SESSION_FILE_NAME]" by blast
  then show ?thesis
    by (simp add: path_components_def RUNS_DIR_NAME_def FINDINGS_DIR_NAME_def SESSION_FILE_NAME_def)
qed

text \<open>
  A generated suffix has the requested length, uses only lower-case letters and digits, and the
  generator behind it never reaches zero, the one state it could not leave, from any clock and
  process id.
\<close>

theorem random_suffix_is_safe:
  "list_all (\<lambda>c. is_lower c \<or> is_digit c) (random_suffix secs nanos pid len) \<and>
   length (random_suffix secs nanos pid len) = len \<and>
   (xorshift ^^ n) (suffix_seed secs nanos pid) \<noteq> 0"
proof -
  have "(xorshift ^^ n) (suffix_seed secs nanos pid) \<noteq> 0"
    by (induction n) (simp_all add: suffix_seed_nonzero xorshift_nonzero)
  then show ?thesis using suffix_chars_safe by (simp add: random_suffix_def)
qed

end
