(* ===== verification/Finding_Index.thy ===== *)
theory Finding_Index
  imports Stage_Util
begin

text \<open>
  \<open>src/finding_index.rs\<close>: the index of a run and the merge that lets the stages of a finding write
  one entry without clobbering each other.  A file that does not parse is an error of \<open>read_index\<close>;
  the update below starts from what was read.
\<close>

record index_entry =
  artifact_path :: string
  extractor_version :: string
  orchestrator_version :: "string option"
  refined_at :: "string option"
  verified_at :: "string option"
  verified_flag :: "bool option"
  stage2_path :: "string option"

definition default_entry :: index_entry where
  "default_entry =
     \<lparr>artifact_path = [], extractor_version = [], orchestrator_version = None, refined_at = None,
      verified_at = None, verified_flag = None, stage2_path = None\<rparr>"

record index =
  index_run_id :: string
  index_started_at :: string
  last_updated_at :: string
  findings :: "string \<rightharpoonup> index_entry"

datatype merge_mode = PreserveDownstream | PreserveStage2 | PreserveRefinedOnly | ReplaceEntry

definition merge_preserve_downstream :: "index_entry \<Rightarrow> index_entry \<Rightarrow> index_entry" where
  "merge_preserve_downstream existing entry =
     \<lparr>artifact_path = (if refined_at existing \<noteq> None then artifact_path existing else artifact_path entry),
      extractor_version = extractor_version entry,
      orchestrator_version = orchestrator_version existing,
      refined_at = refined_at existing,
      verified_at = verified_at existing,
      verified_flag = verified_flag existing,
      stage2_path = stage2_path existing\<rparr>"

definition merge_preserve_stage2 :: "index_entry \<Rightarrow> index_entry \<Rightarrow> index_entry" where
  "merge_preserve_stage2 existing entry =
     \<lparr>artifact_path = artifact_path entry,
      extractor_version = extractor_version entry,
      orchestrator_version = orchestrator_version entry,
      refined_at = refined_at entry,
      verified_at = verified_at existing,
      verified_flag = verified_flag existing,
      stage2_path = stage2_path existing\<rparr>"

definition merge_preserve_refined_only :: "index_entry \<Rightarrow> index_entry \<Rightarrow> index_entry" where
  "merge_preserve_refined_only existing entry =
     \<lparr>artifact_path = artifact_path existing,
      extractor_version = extractor_version existing,
      orchestrator_version = orchestrator_version existing,
      refined_at = refined_at existing,
      verified_at = verified_at entry,
      verified_flag = verified_flag entry,
      stage2_path = stage2_path entry\<rparr>"

fun merge_index_entry :: "index_entry option \<Rightarrow> index_entry \<Rightarrow> merge_mode \<Rightarrow> index_entry" where
  "merge_index_entry existing entry ReplaceEntry = entry"
| "merge_index_entry existing entry PreserveDownstream =
     (case existing of Some e \<Rightarrow> merge_preserve_downstream e entry | None \<Rightarrow> entry)"
| "merge_index_entry existing entry PreserveStage2 =
     (case existing of Some e \<Rightarrow> merge_preserve_stage2 e entry | None \<Rightarrow> entry)"
| "merge_index_entry existing entry PreserveRefinedOnly =
     (case existing of Some e \<Rightarrow> merge_preserve_refined_only e entry | None \<Rightarrow> entry)"

definition upsert_index_entry :: "index option \<Rightarrow> string \<Rightarrow> string \<Rightarrow> string \<Rightarrow> index_entry \<Rightarrow> merge_mode \<Rightarrow> index" where
  "upsert_index_entry read now run_id finding_id entry mode =
     (let idx = (case read of
            Some existing \<Rightarrow> existing
          | None \<Rightarrow> \<lparr>index_run_id = run_id, index_started_at = now, last_updated_at = now, findings = Map.empty\<rparr>);
          merged = merge_index_entry (findings idx finding_id) entry mode in
      idx\<lparr>last_updated_at := now, findings := (findings idx)(finding_id \<mapsto> merged)\<rparr>)"

section \<open>The stages that write an entry\<close>

text \<open>
  The entry each stage hands to the index, with the mode it uses: extraction knows no refinement and
  no verification, refinement sets the refined fields, verification the stage-2 fields.
\<close>

datatype stage_write =
  Extract string
| Refine string string string
| Finalize string bool string

fun stage_entry :: "stage_write \<Rightarrow> index_entry" where
  "stage_entry (Extract path) = default_entry\<lparr>artifact_path := path, extractor_version := EXTRACTOR_VERSION\<rparr>"
| "stage_entry (Refine path orch at) =
     default_entry\<lparr>artifact_path := path, extractor_version := EXTRACTOR_VERSION,
       orchestrator_version := Some orch, refined_at := Some at\<rparr>"
| "stage_entry (Finalize at ok path) =
     default_entry\<lparr>extractor_version := EXTRACTOR_VERSION, verified_at := Some at, verified_flag := Some ok,
       stage2_path := Some path\<rparr>"

fun stage_mode :: "stage_write \<Rightarrow> merge_mode" where
  "stage_mode (Extract _) = PreserveDownstream"
| "stage_mode (Refine _ _ _) = PreserveStage2"
| "stage_mode (Finalize _ _ _) = PreserveRefinedOnly"

definition write_entry :: "stage_write \<Rightarrow> index_entry option \<Rightarrow> index_entry option" where
  "write_entry w existing = Some (merge_index_entry existing (stage_entry w) (stage_mode w))"

text \<open>What the last refinement and the last verification of a history wrote.\<close>

fun last_refine :: "stage_write list \<Rightarrow> (string \<times> string \<times> string) option" where
  "last_refine [] = None"
| "last_refine (Refine path orch at # ws) = (case last_refine ws of None \<Rightarrow> Some (path, orch, at) | r \<Rightarrow> r)"
| "last_refine (_ # ws) = last_refine ws"

fun last_finalize :: "stage_write list \<Rightarrow> (string \<times> bool \<times> string) option" where
  "last_finalize [] = None"
| "last_finalize (Finalize at ok path # ws) = (case last_finalize ws of None \<Rightarrow> Some (at, ok, path) | r \<Rightarrow> r)"
| "last_finalize (_ # ws) = last_finalize ws"

lemma last_refine_snoc:
  "last_refine (ws @ [w]) = (case w of Refine path orch at \<Rightarrow> Some (path, orch, at) | _ \<Rightarrow> last_refine ws)"
  by (induction ws rule: last_refine.induct) (auto split: stage_write.splits option.splits)

lemma last_finalize_snoc:
  "last_finalize (ws @ [w]) = (case w of Finalize at ok path \<Rightarrow> Some (at, ok, path) | _ \<Rightarrow> last_finalize ws)"
  by (induction ws rule: last_finalize.induct) (auto split: stage_write.splits option.splits)

lemma refined_fields:
  "map_option (\<lambda>e. (refined_at e, orchestrator_version e)) (fold write_entry ws None) =
   (if ws = [] then None else Some (case last_refine ws of
      Some (path, orch, at) \<Rightarrow> (Some at, Some orch) | None \<Rightarrow> (None, None)))"
proof (induction ws rule: rev_induct)
  case (snoc w ws)
  show ?case
  proof (cases "fold write_entry ws None")
    case None
    then have "ws = []" using snoc by (auto split: if_splits)
    then show ?thesis by (cases w) (simp_all add: write_entry_def default_entry_def)
  next
    case (Some e)
    then show ?thesis
      using snoc
      by (cases w) (auto simp: write_entry_def last_refine_snoc merge_preserve_downstream_def merge_preserve_stage2_def
          merge_preserve_refined_only_def split: if_splits option.splits)
  qed
qed simp

lemma stage2_fields:
  "map_option (\<lambda>e. (verified_at e, verified_flag e, stage2_path e)) (fold write_entry ws None) =
   (if ws = [] then None else Some (case last_finalize ws of
      Some (at, ok, path) \<Rightarrow> (Some at, Some ok, Some path) | None \<Rightarrow> (None, None, None)))"
proof (induction ws rule: rev_induct)
  case (snoc w ws)
  show ?case
  proof (cases "fold write_entry ws None")
    case None
    then have "ws = []" using snoc by (auto split: if_splits)
    then show ?thesis by (cases w) (simp_all add: write_entry_def default_entry_def)
  next
    case (Some e)
    then show ?thesis
      using snoc
      by (cases w) (auto simp: write_entry_def last_finalize_snoc merge_preserve_downstream_def merge_preserve_stage2_def
          merge_preserve_refined_only_def default_entry_def split: if_splits option.splits)
  qed
qed simp

fun last_extract :: "stage_write list \<Rightarrow> string option" where
  "last_extract [] = None"
| "last_extract (Extract path # ws) = (case last_extract ws of None \<Rightarrow> Some path | r \<Rightarrow> r)"
| "last_extract (_ # ws) = last_extract ws"

lemma last_extract_snoc:
  "last_extract (ws @ [w]) = (case w of Extract path \<Rightarrow> Some path | _ \<Rightarrow> last_extract ws)"
  by (induction ws rule: last_extract.induct) (auto split: stage_write.splits option.splits)

definition effective_path :: "stage_write list \<Rightarrow> string" where
  "effective_path ws =
     (case last_refine ws of Some (path, _) \<Rightarrow> path
      | None \<Rightarrow> (case last_extract ws of Some path \<Rightarrow> path | None \<Rightarrow> []))"

lemma artifact_field:
  "map_option artifact_path (fold write_entry ws None) = (if ws = [] then None else Some (effective_path ws))"
proof (induction ws rule: rev_induct)
  case (snoc w ws)
  show ?case
  proof (cases "fold write_entry ws None")
    case None
    then have "ws = []" using snoc by (auto split: if_splits)
    then show ?thesis by (cases w) (simp_all add: write_entry_def default_entry_def effective_path_def)
  next
    case (Some e)
    then have "ws \<noteq> []" by auto
    then have e: "artifact_path e = effective_path ws" "refined_at e \<noteq> None \<longleftrightarrow> last_refine ws \<noteq> None"
      using snoc refined_fields [of ws] Some by (auto split: option.splits)
    have "fold write_entry (ws @ [w]) None = Some (merge_index_entry (Some e) (stage_entry w) (stage_mode w))"
      using Some by (simp add: write_entry_def)
    moreover have "artifact_path (merge_index_entry (Some e) (stage_entry w) (stage_mode w)) = effective_path (ws @ [w])"
      using e
      by (cases w) (auto simp: last_refine_snoc last_extract_snoc effective_path_def merge_preserve_downstream_def
          merge_preserve_stage2_def merge_preserve_refined_only_def split: option.splits)
    ultimately show ?thesis by simp
  qed
qed simp

section \<open>Properties\<close>

text \<open>
  C37: The stages never clobber each other in the index.  After any history of extractions,
  refinements and verifications of a finding, in any order and repeated at will, the entry carries
  the refinement fields of the last refinement, the stage-2 fields of the last verification and the
  path of the last refined artifact, or else of the last extracted one.
\<close>

theorem stages_keep_each_others_fields:
  assumes "ws \<noteq> []" "fold write_entry ws None = Some e"
  shows "(refined_at e, orchestrator_version e) =
      (case last_refine ws of Some (path, orch, at) \<Rightarrow> (Some at, Some orch) | None \<Rightarrow> (None, None)) \<and>
    (verified_at e, verified_flag e, stage2_path e) =
      (case last_finalize ws of Some (at, ok, path) \<Rightarrow> (Some at, Some ok, Some path) | None \<Rightarrow> (None, None, None)) \<and>
    artifact_path e = effective_path ws"
  using assms refined_fields [of ws] stage2_fields [of ws] artifact_field [of ws] by simp

theorem stages_keep_each_others_fields_witness:
  "\<exists>e. fold write_entry [Extract ''x'', Refine ''r'' ''o'' ''t1'', Finalize ''t2'' True ''v'', Extract ''y''] None = Some e \<and>
     artifact_path e = ''r'' \<and> verified_flag e = Some True"
proof -
  let ?ws = "[Extract ''x'', Refine ''r'' ''o'' ''t1'', Finalize ''t2'' True ''v'', Extract ''y'']"
  obtain e where e: "fold write_entry ?ws None = Some e" by (auto simp: write_entry_def)
  moreover have "?ws \<noteq> []" by simp
  ultimately show ?thesis
    using stages_keep_each_others_fields [of ?ws e] by (auto simp: effective_path_def)
qed

end
