(* ===== verification/Session_Core.thy ===== *)
theory Session_Core
  imports Finding_Index
begin

text \<open>
  \<open>src/verification_core.rs\<close>: the verification session, its state machine and its file operations.

  The file system is a record: the contents by the components of the path (two spellings of one
  path are one file), the files that cannot be read, and the number of atomic writes that still
  succeed.  A write beyond that number fails and changes nothing, which
  is how a full disk or a crash between two writes of a handler is modelled.  The JSON library and
  SHA-256 are parameters, fields of a \<open>codec\<close>; a file's content has the type \<open>'c\<close> of the codec.
\<close>

section \<open>Schema types\<close>

datatype session_state = Open | WaitingForUser | WaitingForAgent | Finalized | Aborted

fun as_str :: "session_state \<Rightarrow> string" where
  "as_str Open = ''open''"
| "as_str WaitingForUser = ''waiting_for_user''"
| "as_str WaitingForAgent = ''waiting_for_agent''"
| "as_str Finalized = ''finalized''"
| "as_str Aborted = ''aborted''"

datatype turn_kind = AgentQuestion | UserAnswer

record session_turn =
  seq :: nat
  kind :: turn_kind
  timestamp :: string
  content :: string
  meta :: "string option"

record session_file =
  sf_run_id :: string
  sf_finding_id :: string
  state :: session_state
  turn_count :: nat
  started_at :: string
  updated_at :: string
  schema_ok :: bool
  verifier_version :: string
  transcript :: "session_turn list"
  aborted_at :: "string option"
  abort_reason :: "string option"

record verified_kind =
  vk_schema_ok :: bool
  completeness_ok :: bool
  user_acknowledged :: bool

record verified_artifact =
  va_run_id :: string
  va_finding_id :: string
  verified :: bool
  verified_kind :: verified_kind
  finalized_at :: string
  stage1_refined_path :: string
  session_path :: string
  transcript_digest :: string
  digest_algorithm :: string
  transcript_bytes_at_finalize :: nat
  va_turn_count :: nat
  va_verifier_version :: string
  completeness_checklist :: "(string \<times> bool) list"

section \<open>The state machine\<close>

datatype transition_event = StartEvent | AgentQuestionEvent | UserAnswerEvent | FinalizeEvent | AbortEvent

fun transition_start :: "session_state \<Rightarrow> (session_state, stage_err) result" where
  "transition_start Aborted = Ok Open"
| "transition_start _ = Err IllegalTransition"

fun transition_append :: "session_state \<Rightarrow> turn_kind \<Rightarrow> (session_state, stage_err) result" where
  "transition_append Open AgentQuestion = Ok WaitingForUser"
| "transition_append WaitingForUser UserAnswer = Ok WaitingForAgent"
| "transition_append WaitingForAgent AgentQuestion = Ok WaitingForUser"
| "transition_append _ _ = Err AlternationViolation"

fun transition_finalize :: "session_state \<Rightarrow> (session_state, stage_err) result" where
  "transition_finalize WaitingForAgent = Ok Finalized"
| "transition_finalize Open = Err NoClarificationRound"
| "transition_finalize WaitingForUser = Err UnansweredQuestion"
| "transition_finalize _ = Err IllegalTransition"

definition transition_abort :: "session_state \<Rightarrow> (session_state, stage_err) result" where
  "transition_abort from_state = Ok Aborted"

definition can_transition :: "session_state \<Rightarrow> transition_event \<Rightarrow> (session_state, stage_err) result" where
  "can_transition from_state event =
     (if from_state = Finalized then Err AlreadyFinalized
      else if from_state = Aborted \<and> event \<noteq> StartEvent then Err AlreadyAborted
      else (case event of
              StartEvent \<Rightarrow> transition_start from_state
            | AgentQuestionEvent \<Rightarrow> transition_append from_state AgentQuestion
            | UserAnswerEvent \<Rightarrow> transition_append from_state UserAnswer
            | FinalizeEvent \<Rightarrow> transition_finalize from_state
            | AbortEvent \<Rightarrow> transition_abort from_state))"

section \<open>Parameters and the file system\<close>

record 'c codec =
  put_session :: "session_file \<Rightarrow> 'c"
  get_session :: "'c \<Rightarrow> session_file option"
  put_verified :: "verified_artifact \<Rightarrow> 'c"
  get_verified :: "'c \<Rightarrow> verified_artifact option"
  refined_parses :: "'c \<Rightarrow> bool"
  put_index :: "index \<Rightarrow> 'c"
  get_index :: "'c \<Rightarrow> index option"
  transcript_bytes :: "session_turn list \<Rightarrow> string"
  sha256 :: "string \<Rightarrow> string"

record 'c world =
  files :: "string list \<rightharpoonup> 'c"
  unreadable :: "string list set"
  writes_left :: nat

text \<open>A fallible operation on the file system, and its \<open>?\<close>.\<close>

type_synonym ('c, 'a) op = "'c world \<Rightarrow> ('a, stage_err) result \<times> 'c world"

definition op_return :: "'a \<Rightarrow> ('c, 'a) op" where
  "op_return x w = (Ok x, w)"

definition op_lift :: "('a, stage_err) result \<Rightarrow> ('c, 'a) op" where
  "op_lift r w = (r, w)"

definition op_bind :: "('c, 'a) op \<Rightarrow> ('a \<Rightarrow> ('c, 'b) op) \<Rightarrow> ('c, 'b) op" where
  "op_bind m f w = (case m w of (Inl e, w') \<Rightarrow> (Err e, w') | (Inr x, w') \<Rightarrow> f x w')"

definition write_atomic :: "string \<Rightarrow> 'c \<Rightarrow> ('c, unit) op" where
  "write_atomic path c w =
     (if writes_left w = 0 then (Err IoError, w)
      else (Ok (), w\<lparr>files := (files w)(path_components path \<mapsto> c), writes_left := writes_left w - 1\<rparr>))"

definition read_session :: "'c codec \<Rightarrow> string \<Rightarrow> ('c, session_file option) op" where
  "read_session cd path w =
     ((case files w (path_components path) of
         None \<Rightarrow> Ok None
       | Some c \<Rightarrow>
           if path_components path \<in> unreadable w then Err IoError
           else (case get_session cd c of Some s \<Rightarrow> Ok (Some s) | None \<Rightarrow> Err CorruptSession)), w)"

definition write_session_atomic :: "'c codec \<Rightarrow> string \<Rightarrow> session_file \<Rightarrow> ('c, unit) op" where
  "write_session_atomic cd path session = write_atomic path (put_session cd session)"

section \<open>Completeness and digest\<close>

definition compute_completeness :: "session_turn list \<Rightarrow> bool \<times> (string \<times> bool) list" where
  "compute_completeness ts =
     (let has_q = (\<exists>t \<in> set ts. kind t = AgentQuestion);
          has_a = (\<exists>t \<in> set ts. kind t = UserAnswer) in
      (has_q \<and> has_a, [(''at_least_one_agent_question'', has_q), (''at_least_one_user_answer'', has_a)]))"

definition hex_lower :: "string \<Rightarrow> string" where
  "hex_lower bytes = concat (map (\<lambda>b. [''0123456789abcdef'' ! (code b div 16), ''0123456789abcdef'' ! (code b mod 16)]) bytes)"

definition compute_transcript_digest :: "'c codec \<Rightarrow> session_turn list \<Rightarrow> string \<times> nat" where
  "compute_transcript_digest cd ts =
     (let bytes = transcript_bytes cd ts in (hex_lower (sha256 cd bytes), length bytes))"

lemma length_hex_lower: "length (hex_lower bs) = 2 * length bs"
  by (induction bs) (simp_all add: hex_lower_def)

section \<open>Operations on the file system\<close>

definition put_file :: "string \<Rightarrow> 'c \<Rightarrow> 'c world \<Rightarrow> 'c world" where
  "put_file p c w = w\<lparr>files := (files w)(path_components p \<mapsto> c), writes_left := writes_left w - 1\<rparr>"

lemma put_file_files [simp]: "files (put_file p c w) = (files w)(path_components p \<mapsto> c)"
  by (simp add: put_file_def)

text \<open>\<open>post m w Q\<close>: run in \<open>w\<close>, the operation ends with a result and a world that satisfy \<open>Q\<close>.\<close>

definition post :: "('c, 'a) op \<Rightarrow> 'c world \<Rightarrow> (('a, stage_err) result \<Rightarrow> 'c world \<Rightarrow> bool) \<Rightarrow> bool" where
  "post m w Q \<longleftrightarrow> (case m w of (r, w') \<Rightarrow> Q r w')"

lemma post_bind [simp]:
  "post (op_bind m f) w Q \<longleftrightarrow>
     post m w (\<lambda>r w1. case r of Inl e \<Rightarrow> Q (Err e) w1 | Inr x \<Rightarrow> post (f x) w1 Q)"
  by (simp add: post_def op_bind_def split: prod.splits sum.splits)

lemma post_lift [simp]: "post (op_lift r) w Q \<longleftrightarrow> Q r w"
  by (simp add: post_def op_lift_def)

lemma post_return [simp]: "post (op_return x) w Q \<longleftrightarrow> Q (Ok x) w"
  by (simp add: post_def op_return_def)

lemma post_write:
  "Q (Err IoError) w \<Longrightarrow> Q (Ok ()) (put_file p c w) \<Longrightarrow> post (write_atomic p c) w Q"
  by (simp add: post_def write_atomic_def put_file_def)

lemma post_result: "post m w Q \<Longrightarrow> m w = (r, w') \<Longrightarrow> Q r w'"
  by (simp add: post_def)

end
