(* ===== verification/Session_Ops.thy ===== *)
theory Session_Ops
  imports Session_Core
begin

text \<open>
  \<open>src/verification_ops.rs\<close>: the four handlers of a verification session.  The JSON arguments are the
  map of their string fields, absent when the arguments are no object; the \<open>meta\<close> argument is passed
  beside them.  \<open>now\<close> is the formatted clock, read once per handler and once more by the index.  A
  response is the fields of its JSON object that are not constants.
\<close>

type_synonym arguments = "(string \<rightharpoonup> string) option"

section \<open>Arguments\<close>

definition require_string_arg :: "(string \<rightharpoonup> string) \<Rightarrow> string \<Rightarrow> (string, stage_err) result" where
  "require_string_arg args key = (case args key of Some v \<Rightarrow> Ok v | None \<Rightarrow> Err BadRequest)"

definition map_err :: "'e \<Rightarrow> ('a, 'x) result \<Rightarrow> ('a, 'e) result" where
  "map_err e r = (case r of Inl _ \<Rightarrow> Err e | Inr x \<Rightarrow> Ok x)"

record session_args =
  arg_run_id :: string
  arg_finding_id :: string
  arg_output_dir :: string

definition parse_session_args :: "arguments \<Rightarrow> (session_args, stage_err) result" where
  "parse_session_args arguments =
     (case arguments of
        None \<Rightarrow> Err BadRequest
      | Some args \<Rightarrow>
          and_then (require_string_arg args ''run_id'') (\<lambda>r.
          and_then (map_err UnsafeId (validate_safe_id r)) (\<lambda>_.
          and_then (require_string_arg args ''finding_id'') (\<lambda>f.
          and_then (map_err UnsafeId (validate_safe_id f)) (\<lambda>_.
          and_then (require_string_arg args ''output_dir'') (\<lambda>dir.
          and_then (map_err BadRequest (require_absolute dir)) (\<lambda>d.
          Ok \<lparr>arg_run_id = r, arg_finding_id = f, arg_output_dir = d\<rparr>)))))))"

definition parse_start_args :: "arguments \<Rightarrow> (session_args, stage_err) result" where
  "parse_start_args = parse_session_args"
definition parse_finalize_args :: "arguments \<Rightarrow> (session_args, stage_err) result" where
  "parse_finalize_args = parse_session_args"

record append_args = session_args +
  arg_kind :: turn_kind
  arg_content :: string
  arg_meta :: "string option"

definition parse_append_args :: "arguments \<Rightarrow> string option \<Rightarrow> (append_args, stage_err) result" where
  "parse_append_args arguments meta_value =
     and_then (parse_session_args arguments) (\<lambda>ids.
     and_then (require_string_arg (the arguments) ''kind'') (\<lambda>kind_str.
     and_then (if kind_str = ''agent_question'' then Ok AgentQuestion
               else if kind_str = ''user_answer'' then Ok UserAnswer else Err BadRequest) (\<lambda>k.
     and_then (require_string_arg (the arguments) ''content'') (\<lambda>c.
     if c = [] then Err BadRequest
     else Ok \<lparr>arg_run_id = arg_run_id ids, arg_finding_id = arg_finding_id ids, arg_output_dir = arg_output_dir ids,
              arg_kind = k, arg_content = c, arg_meta = meta_value\<rparr>))))"

record abort_args = session_args +
  arg_reason :: "string option"

definition parse_abort_args :: "arguments \<Rightarrow> (abort_args, stage_err) result" where
  "parse_abort_args arguments =
     and_then (parse_session_args arguments) (\<lambda>ids.
     Ok \<lparr>arg_run_id = arg_run_id ids, arg_finding_id = arg_finding_id ids, arg_output_dir = arg_output_dir ids,
         arg_reason = the arguments ''reason''\<rparr>)"

definition args_session_path :: "'x session_args_scheme \<Rightarrow> string" where
  "args_session_path a = session_path_for (arg_output_dir a) (arg_run_id a) (arg_finding_id a)"

definition args_finding_dir :: "'x session_args_scheme \<Rightarrow> string" where
  "args_finding_dir a = finding_dir_for (arg_output_dir a) (arg_run_id a) (arg_finding_id a)"

section \<open>Starting\<close>

definition check_stage1_refined :: "'c codec \<Rightarrow> string \<Rightarrow> ('c, bool) op" where
  "check_stage1_refined cd finding_dir w =
     (let p = path_components (path_join finding_dir REFINED_FILE_NAME) in
      (case files w p of
         None \<Rightarrow> Err NoExtraction
       | Some c \<Rightarrow>
           if p \<in> unreadable w then Err IoError
           else if refined_parses cd c then Ok True else Err CorruptExtraction, w))"

definition build_new_session :: "'x session_args_scheme \<Rightarrow> bool \<Rightarrow> string \<Rightarrow> session_file" where
  "build_new_session args schema now =
     \<lparr>sf_run_id = arg_run_id args, sf_finding_id = arg_finding_id args, state = Open, turn_count = 0,
      started_at = now, updated_at = now, schema_ok = schema, verifier_version = VERIFIER_VERSION,
      transcript = [], aborted_at = None, abort_reason = None\<rparr>"

definition do_start_verification :: "'c codec \<Rightarrow> arguments \<Rightarrow> string \<Rightarrow> ('c, session_file) op" where
  "do_start_verification cd arguments now =
     op_bind (op_lift (parse_start_args arguments)) (\<lambda>args.
     op_bind (check_stage1_refined cd (args_finding_dir args)) (\<lambda>schema.
     op_bind (read_session cd (args_session_path args)) (\<lambda>existing.
     op_bind (op_lift (case existing of
                Some s \<Rightarrow> can_transition (state s) StartEvent
              | None \<Rightarrow> Ok Open)) (\<lambda>_.
     let session = build_new_session args schema now in
     op_bind (write_session_atomic cd (args_session_path args) session) (\<lambda>_.
     op_return session)))))"

section \<open>Appending\<close>

definition build_appended_session :: "session_file \<Rightarrow> append_args \<Rightarrow> string \<Rightarrow> (session_file, stage_err) result" where
  "build_appended_session prev args now =
     and_then (can_transition (state prev)
         (case arg_kind args of AgentQuestion \<Rightarrow> AgentQuestionEvent | UserAnswer \<Rightarrow> UserAnswerEvent)) (\<lambda>new_state.
     let new_turn = \<lparr>seq = length (transcript prev), kind = arg_kind args, timestamp = now,
                     content = arg_content args, meta = arg_meta args\<rparr>;
         ts = transcript prev @ [new_turn] in
     Ok \<lparr>sf_run_id = sf_run_id prev, sf_finding_id = sf_finding_id prev, state = new_state,
         turn_count = length ts, started_at = started_at prev, updated_at = now, schema_ok = schema_ok prev,
         verifier_version = verifier_version prev, transcript = ts, aborted_at = None, abort_reason = None\<rparr>)"

definition load_session :: "'c codec \<Rightarrow> string \<Rightarrow> ('c, session_file) op" where
  "load_session cd path =
     op_bind (read_session cd path) (\<lambda>s. op_lift (case s of Some s \<Rightarrow> Ok s | None \<Rightarrow> Err NoSession))"

definition do_append_clarification :: "'c codec \<Rightarrow> arguments \<Rightarrow> string option \<Rightarrow> string \<Rightarrow> ('c, session_state \<times> nat \<times> nat) op" where
  "do_append_clarification cd arguments meta_value now =
     op_bind (op_lift (parse_append_args arguments meta_value)) (\<lambda>args.
     op_bind (load_session cd (args_session_path args)) (\<lambda>prev.
     op_bind (op_lift (build_appended_session prev args now)) (\<lambda>nxt.
     op_bind (write_session_atomic cd (args_session_path args) nxt) (\<lambda>_.
     op_return (state nxt, length (transcript nxt) - 1, turn_count nxt)))))"

section \<open>Finalizing\<close>

definition load_session_for_finalize :: "'c codec \<Rightarrow> 'x session_args_scheme \<Rightarrow> ('c, session_file) op" where
  "load_session_for_finalize cd args = load_session cd (args_session_path args)"

definition check_finalize_preconditions :: "session_file \<Rightarrow> (unit, stage_err) result" where
  "check_finalize_preconditions session =
     (if \<not> schema_ok session then Err SchemaNotOk
      else and_then (can_transition (state session) FinalizeEvent) (\<lambda>_. Ok ()))"

definition finding_file :: "string \<Rightarrow> string \<Rightarrow> string" where
  "finding_file finding_id name = FINDINGS_DIR_NAME @ ''/'' @ finding_id @ ''/'' @ name"

definition build_verified_artifact :: "'c codec \<Rightarrow> session_file \<Rightarrow> 'x session_args_scheme \<Rightarrow> string \<Rightarrow> verified_artifact" where
  "build_verified_artifact cd session args now =
     (let (complete, checklist) = compute_completeness (transcript session);
          (digest_hex, digest_input_len) = compute_transcript_digest cd (transcript session);
          acknowledged = True in
      \<lparr>va_run_id = sf_run_id session, va_finding_id = sf_finding_id session,
       verified = (schema_ok session \<and> complete \<and> acknowledged),
       verified_kind = \<lparr>vk_schema_ok = schema_ok session, completeness_ok = complete, user_acknowledged = acknowledged\<rparr>,
       finalized_at = now,
       stage1_refined_path = finding_file (arg_finding_id args) REFINED_FILE_NAME,
       session_path = finding_file (arg_finding_id args) SESSION_FILE_NAME,
       transcript_digest = digest_hex, digest_algorithm = DIGEST_ALGORITHM,
       transcript_bytes_at_finalize = digest_input_len, va_turn_count = turn_count session,
       va_verifier_version = VERIFIER_VERSION, completeness_checklist = checklist\<rparr>)"

definition read_index :: "'c codec \<Rightarrow> string \<Rightarrow> ('c, index option) op" where
  "read_index cd path w =
     ((case files w (path_components path) of
         None \<Rightarrow> Ok None
       | Some c \<Rightarrow>
           if path_components path \<in> unreadable w then Err IoError
           else (case get_index cd c of Some i \<Rightarrow> Ok (Some i) | None \<Rightarrow> Err IoError)), w)"

definition upsert_verified_index ::
  "'c codec \<Rightarrow> 'x session_args_scheme \<Rightarrow> verified_artifact \<Rightarrow> string \<Rightarrow> string \<Rightarrow> ('c, unit) op" where
  "upsert_verified_index cd args va now now' =
     (let entry = default_entry\<lparr>artifact_path := [], extractor_version := EXTRACTOR_VERSION,
            verified_at := Some now, verified_flag := Some (verified va),
            stage2_path := Some (finding_file (arg_finding_id args) VERIFIED_FILE_NAME)\<rparr>;
          p = index_path_for (arg_output_dir args) (arg_run_id args) in
      op_bind (read_index cd p) (\<lambda>idx.
      write_atomic p (put_index cd
        (upsert_index_entry idx now' (arg_run_id args) (arg_finding_id args) entry PreserveRefinedOnly))))"

definition persist_finalize ::
  "'c codec \<Rightarrow> 'x session_args_scheme \<Rightarrow> session_file \<Rightarrow> verified_artifact \<Rightarrow> string \<Rightarrow> string \<Rightarrow> ('c, string) op" where
  "persist_finalize cd args session va now now' =
     (let verified_path = path_join (args_finding_dir args) VERIFIED_FILE_NAME;
          finalized = session\<lparr>state := Finalized, updated_at := now\<rparr> in
      op_bind (write_atomic verified_path (put_verified cd va)) (\<lambda>_.
      op_bind (write_session_atomic cd (args_session_path args) finalized) (\<lambda>_.
      op_bind (upsert_verified_index cd args va now now') (\<lambda>_.
      op_return verified_path))))"

definition do_finalize_verification ::
  "'c codec \<Rightarrow> arguments \<Rightarrow> string \<Rightarrow> string \<Rightarrow> ('c, verified_artifact \<times> string) op" where
  "do_finalize_verification cd arguments now now' =
     op_bind (op_lift (parse_finalize_args arguments)) (\<lambda>args.
     op_bind (load_session_for_finalize cd args) (\<lambda>session.
     op_bind (op_lift (check_finalize_preconditions session)) (\<lambda>_.
     let va = build_verified_artifact cd session args now in
     op_bind (persist_finalize cd args session va now now') (\<lambda>verified_path.
     op_return (va, verified_path)))))"

section \<open>Aborting\<close>

definition build_aborted_session :: "session_file \<Rightarrow> string option \<Rightarrow> string \<Rightarrow> (session_file, stage_err) result" where
  "build_aborted_session prev reason now =
     and_then (can_transition (state prev) AbortEvent) (\<lambda>_.
     Ok (prev\<lparr>state := Aborted, updated_at := now, aborted_at := Some now, abort_reason := reason\<rparr>))"

definition do_abort_verification :: "'c codec \<Rightarrow> arguments \<Rightarrow> string \<Rightarrow> ('c, session_file) op" where
  "do_abort_verification cd arguments now =
     op_bind (op_lift (parse_abort_args arguments)) (\<lambda>args.
     op_bind (load_session cd (args_session_path args)) (\<lambda>prev.
     op_bind (op_lift (build_aborted_session prev (arg_reason args) now)) (\<lambda>aborted.
     op_bind (write_session_atomic cd (args_session_path args) aborted) (\<lambda>_.
     op_return aborted))))"

section \<open>Steps of a server\<close>

text \<open>
  A server handles one request after another, whatever each returns.  Between requests the number of
  writes that succeed and the readability of files may change: a full disk is cleared, a crashed
  process restarted.
\<close>

inductive session_step :: "'c codec \<Rightarrow> 'c world \<Rightarrow> 'c world \<Rightarrow> bool" for cd where
  start: "do_start_verification cd a now w = (r, w') \<Longrightarrow> session_step cd w w'"
| append_turn: "do_append_clarification cd a m now w = (r, w') \<Longrightarrow> session_step cd w w'"
| finalize: "do_finalize_verification cd a now now' w = (r, w') \<Longrightarrow> session_step cd w w'"
| abort: "do_abort_verification cd a now w = (r, w') \<Longrightarrow> session_step cd w w'"
| environment: "session_step cd w (w\<lparr>writes_left := n, unreadable := u\<rparr>)"

inductive session_reachable :: "'c codec \<Rightarrow> 'c world \<Rightarrow> 'c world \<Rightarrow> bool" for cd w0 where
  initial: "session_reachable cd w0 w0"
| step: "session_reachable cd w0 w \<Longrightarrow> session_step cd w w' \<Longrightarrow> session_reachable cd w0 w'"

end
