(* ===== verification/Session_Effects.thy ===== *)
theory Session_Effects
  imports Session_Ops
begin

text \<open>
  What each handler of \<open>src/verification_ops.rs\<close> can do to the files: its result and the world it leaves,
  then the effect of one step of the server on the files, over which the invariants are proved.
\<close>

section \<open>The effect of each handler\<close>

definition session_in :: "'c codec \<Rightarrow> 'c world \<Rightarrow> string list \<Rightarrow> session_file option" where
  "session_in cd w k = Option.bind (files w k) (get_session cd)"

abbreviation session_at :: "'c codec \<Rightarrow> 'c world \<Rightarrow> string \<Rightarrow> session_file option" where
  "session_at cd w p \<equiv> session_in cd w (path_components p)"

lemma validate_safe_id_not_Err: "(\<forall>e. validate_safe_id x \<noteq> Err e) \<longleftrightarrow> safe_id x"
  by (cases "validate_safe_id x") (auto simp: safe_id_def)

lemma map_err_Ok: "map_err e r = Ok x \<longleftrightarrow> r = Ok x"
  by (auto simp: map_err_def split: sum.splits)

lemma require_absolute_Ok: "require_absolute d = Ok d' \<Longrightarrow> d' = d"
  by (auto simp: require_absolute_def split: if_splits)

lemma parse_session_args_safe:
  assumes "parse_session_args a = Ok args"
  shows "safe_id (arg_run_id args)" "safe_id (arg_finding_id args)"
    "require_absolute (arg_output_dir args) = Ok (arg_output_dir args)"
proof -
  obtain r u f v d d' where "validate_safe_id r = Ok u" "validate_safe_id f = Ok v" "require_absolute d = Ok d'"
    "args = \<lparr>arg_run_id = r, arg_finding_id = f, arg_output_dir = d'\<rparr>"
    using assms by (auto simp: parse_session_args_def and_then_Inr map_err_Ok split: option.splits)
  moreover then have "d' = d"
    by (simp add: require_absolute_Ok)
  ultimately show "safe_id (arg_run_id args)" "safe_id (arg_finding_id args)"
    "require_absolute (arg_output_dir args) = Ok (arg_output_dir args)"
    by (simp_all add: safe_id_def)
qed

lemma post_read_session:
  assumes "\<And>e. Q (Err e) w" "files w (path_components p) = None \<Longrightarrow> Q (Ok None) w"
    "\<And>s. session_at cd w p = Some s \<Longrightarrow> Q (Ok (Some s)) w"
  shows "post (read_session cd p) w Q"
  using assms by (auto simp: post_def read_session_def session_in_def split: option.splits)

lemma post_load_session:
  assumes "\<And>e. Q (Err e) w" "\<And>s. session_at cd w p = Some s \<Longrightarrow> Q (Ok s) w"
  shows "post (load_session cd p) w Q"
  unfolding load_session_def by (simp, rule post_read_session) (simp_all add: assms)

lemma post_check_stage1_refined:
  assumes "\<And>e. Q (Err e) w" "Q (Ok True) w"
  shows "post (check_stage1_refined cd d) w Q"
  using assms by (auto simp: post_def check_stage1_refined_def Let_def split: option.splits)

lemma can_start: "can_transition s StartEvent = Ok s' \<Longrightarrow> s = Aborted"
  by (cases s) (auto simp: can_transition_def)

definition start_effect :: "'c codec \<Rightarrow> session_args \<Rightarrow> string \<Rightarrow> 'c world \<Rightarrow> 'c world \<Rightarrow> bool" where
  "start_effect cd args now w w' \<longleftrightarrow>
     (files w (path_components (args_session_path args)) = None \<or>
       (\<exists>s. session_at cd w (args_session_path args) = Some s \<and> state s = Aborted)) \<and>
      w' = put_file (args_session_path args) (put_session cd (build_new_session args True now)) w"

lemma do_start_post:
  "post (do_start_verification cd a now) w (\<lambda>r w'.
     case r of
       Inl e \<Rightarrow> w' = w
     | Inr s \<Rightarrow> \<exists>args. parse_session_args a = Ok args \<and> s = build_new_session args True now \<and>
         start_effect cd args now w w')"
  unfolding do_start_verification_def parse_start_args_def Let_def write_session_atomic_def
  by (auto split: sum.splits intro!: post_check_stage1_refined post_read_session post_write
      dest: can_start simp: start_effect_def)

definition session_update ::
  "'c codec \<Rightarrow> string \<Rightarrow> (session_file \<Rightarrow> session_file \<Rightarrow> bool) \<Rightarrow> session_file \<Rightarrow> 'c world \<Rightarrow> 'c world \<Rightarrow> bool" where
  "session_update cd p R nxt w w' \<longleftrightarrow>
     (\<exists>prev. session_at cd w p = Some prev \<and> R prev nxt) \<and> w' = put_file p (put_session cd nxt) w"

lemma parse_append_args_ids:
  "parse_append_args a m = Ok args \<Longrightarrow> \<exists>ids. parse_session_args a = Ok ids \<and> args_session_path args = args_session_path ids"
  by (auto simp: parse_append_args_def and_then_Inr args_session_path_def split: if_splits)

lemma do_append_post:
  "post (do_append_clarification cd a m now) w (\<lambda>r w'.
     case r of
       Inl e \<Rightarrow> w' = w
     | Inr (st, i, n) \<Rightarrow> \<exists>args nxt. parse_append_args a m = Ok args \<and> st = state nxt \<and>
         i = length (transcript nxt) - 1 \<and> n = turn_count nxt \<and>
         session_update cd (args_session_path args) (\<lambda>prev nxt. build_appended_session prev args now = Ok nxt) nxt w w')"
  unfolding do_append_clarification_def write_session_atomic_def
  by (auto split: sum.splits intro!: post_load_session post_write simp: session_update_def)

lemma do_abort_post:
  "post (do_abort_verification cd a now) w (\<lambda>r w'.
     case r of
       Inl e \<Rightarrow> w' = w
     | Inr nxt \<Rightarrow> \<exists>args. parse_abort_args a = Ok args \<and>
         session_update cd (args_session_path args) (\<lambda>prev nxt. build_aborted_session prev (arg_reason args) now = Ok nxt) nxt w w')"
  unfolding do_abort_verification_def write_session_atomic_def
  by (auto split: sum.splits intro!: post_load_session post_write simp: session_update_def)

definition args_verified_path :: "'x session_args_scheme \<Rightarrow> string" where
  "args_verified_path a = path_join (args_finding_dir a) VERIFIED_FILE_NAME"

definition args_index_path :: "'x session_args_scheme \<Rightarrow> string" where
  "args_index_path a = index_path_for (arg_output_dir a) (arg_run_id a)"

text \<open>The worlds a finalize of the session \<open>s\<close> goes through: the receipt, the session and the index are
  written in this order.\<close>

definition finalize_receipt :: "'c codec \<Rightarrow> session_args \<Rightarrow> session_file \<Rightarrow> string \<Rightarrow> 'c world \<Rightarrow> 'c world" where
  "finalize_receipt cd args s now w =
     put_file (args_verified_path args) (put_verified cd (build_verified_artifact cd s args now)) w"

definition finalize_session :: "'c codec \<Rightarrow> session_args \<Rightarrow> session_file \<Rightarrow> string \<Rightarrow> 'c world \<Rightarrow> 'c world" where
  "finalize_session cd args s now w =
     put_file (args_session_path args) (put_session cd (s\<lparr>state := Finalized, updated_at := now\<rparr>))
       (finalize_receipt cd args s now w)"

lemma post_read_index:
  assumes "\<And>r. Q r w"
  shows "post (read_index cd p) w Q"
  using assms by (simp add: post_def read_index_def)

lemma check_finalize_Ok:
  "check_finalize_preconditions s = Ok u \<longleftrightarrow> schema_ok s \<and> state s = WaitingForAgent"
  by (cases "state s") (auto simp: check_finalize_preconditions_def can_transition_def)

lemma do_finalize_post:
  "post (do_finalize_verification cd a now now') w (\<lambda>r w'.
     w' = w \<and> (\<exists>e. r = Err e) \<or>
     (\<exists>args s. parse_session_args a = Ok args \<and> session_at cd w (args_session_path args) = Some s \<and>
       schema_ok s \<and> state s = WaitingForAgent \<and>
       (w' = finalize_receipt cd args s now w \<and> (\<exists>e. r = Err e) \<or>
        w' = finalize_session cd args s now w \<and> (\<exists>e. r = Err e) \<or>
        (\<exists>i. w' = put_file (args_index_path args) (put_index cd i) (finalize_session cd args s now w)) \<and>
         r = Ok (build_verified_artifact cd s args now, args_verified_path args))))"
  unfolding do_finalize_verification_def parse_finalize_args_def load_session_for_finalize_def
    persist_finalize_def upsert_verified_index_def Let_def write_session_atomic_def
  by (auto split: sum.splits intro!: post_load_session post_write post_read_index
      simp: check_finalize_Ok finalize_receipt_def finalize_session_def args_verified_path_def args_index_path_def)

section \<open>One step on the files\<close>

definition finding_key :: "'x session_args_scheme \<Rightarrow> string list" where
  "finding_key args = path_components (arg_output_dir args) @ [RUNS_DIR_NAME, arg_run_id args, FINDINGS_DIR_NAME, arg_finding_id args]"

lemma args_keys:
  assumes "parse_session_args a = Ok args"
  shows "path_components (args_session_path args) = finding_key args @ [SESSION_FILE_NAME]"
    "path_components (args_verified_path args) = finding_key args @ [VERIFIED_FILE_NAME]"
    "\<exists>d. path_components (args_index_path args) = d @ [INDEX_FILE_NAME]"
proof -
  have ne: "arg_output_dir args \<noteq> []"
    using parse_session_args_safe(3) [OF assms] by (auto simp: require_absolute_def)
  note safe = parse_session_args_safe(1,2) [OF assms]
  show "path_components (args_session_path args) = finding_key args @ [SESSION_FILE_NAME]"
    using session_path_components [OF ne safe] by (simp add: args_session_path_def finding_key_def)
  show "path_components (args_verified_path args) = finding_key args @ [VERIFIED_FILE_NAME]"
    using ne safe safe_id_plain plain_names plain_nonempty
    by (simp add: args_verified_path_def args_finding_dir_def finding_dir_for_def finding_key_def
        components_join path_join_nonempty)
  show "\<exists>d. path_components (args_index_path args) = d @ [INDEX_FILE_NAME]"
    using ne safe safe_id_plain plain_names plain_nonempty
    by (simp add: args_index_path_def index_path_for_def components_join path_join_nonempty)
qed

definition receipt_for :: "'c codec \<Rightarrow> session_file \<Rightarrow> verified_artifact \<Rightarrow> bool" where
  "receipt_for cd s va \<longleftrightarrow>
     verified va = (schema_ok s \<and> fst (compute_completeness (transcript s))) \<and>
     transcript_digest va = fst (compute_transcript_digest cd (transcript s)) \<and>
     transcript_bytes_at_finalize va = length (transcript_bytes cd (transcript s)) \<and>
     va_turn_count va = turn_count s \<and> va_run_id va = sf_run_id s \<and> va_finding_id va = sf_finding_id s"

lemma receipt_for_build: "receipt_for cd s (build_verified_artifact cd s args now)"
  by (simp add: receipt_for_def build_verified_artifact_def compute_transcript_digest_def Let_def split: prod.splits)

text \<open>The content of a session file that a handler other than finalize may write over an old one.\<close>

inductive session_change :: "session_file option \<Rightarrow> session_file \<Rightarrow> bool" where
  created: "session_change None (build_new_session (args :: session_args) True now)"
| restarted: "state s = Aborted \<Longrightarrow> session_change (Some s) (build_new_session (args :: session_args) True now)"
| appended: "build_appended_session s args now = Ok s' \<Longrightarrow> session_change (Some s) s'"
| aborted: "build_aborted_session s reason now = Ok s' \<Longrightarrow> session_change (Some s) s'"

inductive file_effect :: "'c codec \<Rightarrow> (string list \<rightharpoonup> 'c) \<Rightarrow> (string list \<rightharpoonup> 'c) \<Rightarrow> bool" for cd f where
  no_effect: "file_effect cd f f"
| changed: "session_change old s \<Longrightarrow> old = Option.bind (f (d @ [SESSION_FILE_NAME])) (get_session cd) \<Longrightarrow>
    (old = None \<longrightarrow> f (d @ [SESSION_FILE_NAME]) = None) \<Longrightarrow>
    file_effect cd f (f(d @ [SESSION_FILE_NAME] \<mapsto> put_session cd s))"
| receipt: "Option.bind (f (d @ [SESSION_FILE_NAME])) (get_session cd) = Some s \<Longrightarrow> schema_ok s \<Longrightarrow>
    state s = WaitingForAgent \<Longrightarrow> receipt_for cd s va \<Longrightarrow>
    file_effect cd f (f(d @ [VERIFIED_FILE_NAME] \<mapsto> put_verified cd va))"
| finalized: "Option.bind (f (d @ [SESSION_FILE_NAME])) (get_session cd) = Some s \<Longrightarrow> schema_ok s \<Longrightarrow>
    state s = WaitingForAgent \<Longrightarrow> receipt_for cd s va \<Longrightarrow> g = f \<or> g = f(e @ [INDEX_FILE_NAME] \<mapsto> i) \<Longrightarrow>
    file_effect cd f (g(d @ [VERIFIED_FILE_NAME] \<mapsto> put_verified cd va,
      d @ [SESSION_FILE_NAME] \<mapsto> put_session cd (s\<lparr>state := Finalized, updated_at := now\<rparr>)))"

lemma file_names_differ [simp]:
  "SESSION_FILE_NAME \<noteq> VERIFIED_FILE_NAME" "VERIFIED_FILE_NAME \<noteq> SESSION_FILE_NAME"
  "SESSION_FILE_NAME \<noteq> INDEX_FILE_NAME" "INDEX_FILE_NAME \<noteq> SESSION_FILE_NAME"
  "VERIFIED_FILE_NAME \<noteq> INDEX_FILE_NAME" "INDEX_FILE_NAME \<noteq> VERIFIED_FILE_NAME"
  "SESSION_FILE_NAME \<noteq> REFINED_FILE_NAME" "VERIFIED_FILE_NAME \<noteq> REFINED_FILE_NAME"
  "INDEX_FILE_NAME \<noteq> REFINED_FILE_NAME"
  by (simp_all add: SESSION_FILE_NAME_def VERIFIED_FILE_NAME_def INDEX_FILE_NAME_def REFINED_FILE_NAME_def)

lemma start_file_effect:
  assumes "do_start_verification cd a now w = (r, w')"
  shows "file_effect cd (files w) (files w')"
proof (cases r)
  case (Inl e)
  then show ?thesis using post_result [OF do_start_post assms] by (simp add: no_effect)
next
  case (Inr s)
  then obtain args where a: "parse_session_args a = Ok args" "start_effect cd args now w w'"
    using post_result [OF do_start_post assms] by auto
  let ?k = "finding_key args @ [SESSION_FILE_NAME]"
  have w': "files w' = (files w)(?k \<mapsto> put_session cd (build_new_session args True now))"
    and old: "files w ?k = None \<or> (\<exists>s. session_in cd w ?k = Some s \<and> state s = Aborted)"
    using a by (auto simp: start_effect_def args_keys [OF a(1)])
  from old show ?thesis
  proof
    assume "files w ?k = None"
    then show ?thesis unfolding w' by (intro changed [where old = None]) (simp_all add: created)
  next
    assume "\<exists>s. session_in cd w ?k = Some s \<and> state s = Aborted"
    then show ?thesis unfolding w'
      by (auto simp: session_in_def intro: changed [OF restarted])
  qed
qed

lemma session_update_file_effect:
  assumes "session_update cd p R nxt w w'" "path_components p = d @ [SESSION_FILE_NAME]"
    "\<And>prev. R prev nxt \<Longrightarrow> session_change (Some prev) nxt"
  shows "file_effect cd (files w) (files w')"
proof -
  obtain prev where "Option.bind (files w (d @ [SESSION_FILE_NAME])) (get_session cd) = Some prev" "R prev nxt"
    "w' = put_file p (put_session cd nxt) w"
    using assms(1,2) by (auto simp: session_update_def session_in_def)
  then show ?thesis
    using assms(2) changed [OF assms(3), of prev "files w" d] by simp
qed

lemma append_file_effect:
  assumes "do_append_clarification cd a m now w = (r, w')"
  shows "file_effect cd (files w) (files w')"
  using post_result [OF do_append_post assms]
  by (cases r)
    (auto simp: no_effect dest!: parse_append_args_ids args_keys(1)
      intro!: session_update_file_effect appended)

lemma parse_abort_args_ids:
  "parse_abort_args a = Ok args \<Longrightarrow> \<exists>ids. parse_session_args a = Ok ids \<and> args_session_path args = args_session_path ids"
  by (auto simp: parse_abort_args_def and_then_Inr args_session_path_def)

lemma abort_file_effect:
  assumes "do_abort_verification cd a now w = (r, w')"
  shows "file_effect cd (files w) (files w')"
  using post_result [OF do_abort_post assms]
  by (cases r)
    (auto simp: no_effect dest!: parse_abort_args_ids args_keys(1)
      intro!: session_update_file_effect aborted)

lemma finalize_file_effect:
  assumes "do_finalize_verification cd a now now' w = (r, w')"
  shows "file_effect cd (files w) (files w')"
proof -
  consider "w' = w" | args s where "parse_session_args a = Ok args" "session_at cd w (args_session_path args) = Some s"
      "schema_ok s" "state s = WaitingForAgent"
      "w' = finalize_receipt cd args s now w \<or> w' = finalize_session cd args s now w \<or>
        (\<exists>i. w' = put_file (args_index_path args) (put_index cd i) (finalize_session cd args s now w))"
    using post_result [OF do_finalize_post assms] by blast
  then show ?thesis
  proof cases
    case 1
    then show ?thesis by (simp add: no_effect)
  next
    case 2
    let ?k = "finding_key args @ [SESSION_FILE_NAME]"
    have s: "Option.bind (files w ?k) (get_session cd) = Some s"
      using 2(2) by (simp add: session_in_def args_keys(1) [OF 2(1)])
    note eff = receipt [of "files w" "finding_key args" cd s, OF s 2(3,4) receipt_for_build]
      finalized [of "files w" "finding_key args" cd s, OF s 2(3,4) receipt_for_build]
    obtain d where d: "path_components (args_index_path args) = d @ [INDEX_FILE_NAME]"
      using args_keys(3) [OF 2(1)] by blast
    note defs = finalize_receipt_def finalize_session_def args_keys(1,2) [OF 2(1)] d
    from 2(5) show ?thesis
    proof (elim disjE exE)
      assume "w' = finalize_receipt cd args s now w"
      then show ?thesis using eff(1) by (simp add: defs)
    next
      assume "w' = finalize_session cd args s now w"
      then show ?thesis using eff(2) [OF disjI1 [OF refl]] by (simp add: defs)
    next
      fix i
      assume "w' = put_file (args_index_path args) (put_index cd i) (finalize_session cd args s now w)"
      then have "files w' = ((files w)(d @ [INDEX_FILE_NAME] \<mapsto> put_index cd i))
        (finding_key args @ [VERIFIED_FILE_NAME] \<mapsto> put_verified cd (build_verified_artifact cd s args now),
         finding_key args @ [SESSION_FILE_NAME] \<mapsto> put_session cd (s\<lparr>state := Finalized, updated_at := now\<rparr>))"
        by (simp add: defs fun_upd_twist)
      then show ?thesis using eff(2) [OF disjI2 [OF refl]] by simp
    qed
  qed
qed

lemma session_step_file_effect: "session_step cd w w' \<Longrightarrow> file_effect cd (files w) (files w')"
  by (induction rule: session_step.cases)
    (auto simp: no_effect dest: start_file_effect append_file_effect abort_file_effect finalize_file_effect)

end
