(* ===== verification/Session_Invariant.thy ===== *)
theory Session_Invariant
  imports Session_Effects
begin

text \<open>
  The verification session is safe under any sequence of requests, failed writes and restarts: the
  invariant of a session file, the receipt behind every finalized session, and the abstract state
  machine that the files of one finding follow.
\<close>

section \<open>The invariant of a session\<close>

definition turns_ok :: "session_turn list \<Rightarrow> bool" where
  "turns_ok ts \<longleftrightarrow> (\<forall>i < length ts. seq (ts ! i) = i \<and> (kind (ts ! i) = AgentQuestion \<longleftrightarrow> even i))"

fun state_fits :: "session_state \<Rightarrow> nat \<Rightarrow> bool" where
  "state_fits Open n \<longleftrightarrow> n = 0"
| "state_fits WaitingForUser n \<longleftrightarrow> odd n"
| "state_fits WaitingForAgent n \<longleftrightarrow> even n \<and> 0 < n"
| "state_fits Finalized n \<longleftrightarrow> even n \<and> 0 < n"
| "state_fits Aborted n \<longleftrightarrow> True"

definition session_ok :: "session_file \<Rightarrow> bool" where
  "session_ok s \<longleftrightarrow>
     turn_count s = length (transcript s) \<and> turns_ok (transcript s) \<and> schema_ok s \<and>
     state_fits (state s) (length (transcript s)) \<and> (aborted_at s \<noteq> None \<longleftrightarrow> state s = Aborted)"

lemma turns_ok_snoc:
  "turns_ok ts \<Longrightarrow> seq t = length ts \<Longrightarrow> (kind t = AgentQuestion \<longleftrightarrow> even (length ts)) \<Longrightarrow> turns_ok (ts @ [t])"
  by (auto simp: turns_ok_def nth_append less_Suc_eq)

lemma turns_ok_one [simp]: "turns_ok [t] \<longleftrightarrow> seq t = 0 \<and> kind t = AgentQuestion"
  by (auto simp: turns_ok_def)

lemma session_ok_new: "session_ok (build_new_session args True now)"
  by (simp add: session_ok_def build_new_session_def turns_ok_def)

lemma can_append_Ok:
  "can_transition st AgentQuestionEvent = Ok st' \<longleftrightarrow> (st = Open \<or> st = WaitingForAgent) \<and> st' = WaitingForUser"
  "can_transition st UserAnswerEvent = Ok st' \<longleftrightarrow> st = WaitingForUser \<and> st' = WaitingForAgent"
  by (cases st; auto simp: can_transition_def)+

lemma can_abort_Ok: "can_transition st AbortEvent = Ok st' \<longleftrightarrow> st \<noteq> Finalized \<and> st \<noteq> Aborted \<and> st' = Aborted"
  by (cases st) (auto simp: can_transition_def transition_abort_def)

lemma session_ok_appended:
  assumes "build_appended_session s args now = Ok s'" "session_ok s"
  shows "session_ok s'"
  using assms
  by (auto simp: build_appended_session_def and_then_Inr session_ok_def can_append_Ok Let_def
      intro!: turns_ok_snoc split: turn_kind.splits)

lemma session_ok_aborted:
  assumes "build_aborted_session s reason now = Ok s'" "session_ok s"
  shows "session_ok s'"
  using assms by (auto simp: build_aborted_session_def and_then_Inr session_ok_def can_abort_Ok)

lemma session_ok_change:
  assumes "session_change old s" "\<And>s0. old = Some s0 \<Longrightarrow> session_ok s0"
  shows "session_ok s"
  using assms by cases (auto intro: session_ok_new session_ok_appended session_ok_aborted)

lemma session_change_not_finalized:
  assumes "session_change old s"
  shows "old = Some s0 \<Longrightarrow> state s0 \<noteq> Finalized" "state s \<noteq> Finalized"
  using assms
  by (auto elim!: session_change.cases simp: build_new_session_def build_appended_session_def build_aborted_session_def
      and_then_Inr can_append_Ok can_abort_Ok Let_def split: turn_kind.splits)

lemma session_ok_finalized:
  "session_ok s \<Longrightarrow> state s = WaitingForAgent \<Longrightarrow> session_ok (s\<lparr>state := Finalized, updated_at := now\<rparr>)"
  by (simp add: session_ok_def)

lemma complete_when_answered:
  assumes "session_ok s" "state s = WaitingForAgent \<or> state s = Finalized"
  shows "fst (compute_completeness (transcript s))"
proof -
  have "even (length (transcript s))" "0 < length (transcript s)" "turns_ok (transcript s)"
    using assms by (auto simp: session_ok_def)
  then have n: "1 < length (transcript s)" and ts: "turns_ok (transcript s)"
    by presburger+
  have "kind (transcript s ! 0) = AgentQuestion" "kind (transcript s ! 1) = UserAnswer"
    using n ts [unfolded turns_ok_def, rule_format, of 0] ts [unfolded turns_ok_def, rule_format, of 1]
      turn_kind.exhaust [of "kind (transcript s ! 1)"]
    by fastforce+
  moreover have "transcript s ! 0 \<in> set (transcript s)" "transcript s ! 1 \<in> set (transcript s)"
    using n nth_mem [of 0 "transcript s"] nth_mem [of 1 "transcript s"] by linarith+
  ultimately show ?thesis
    unfolding compute_completeness_def Let_def by (simp, metis)
qed

section \<open>What the JSON library does to a session\<close>

text \<open>
  serde_json reads back what it wrote, except that a \<open>meta\<close> of JSON \<open>null\<close> is read as an absent one:
  \<open>Option<Value>\<close> has one representation for both.
\<close>

definition read_back_turn :: "session_turn \<Rightarrow> session_turn" where
  "read_back_turn t = t\<lparr>meta := (if meta t = Some ''null'' then None else meta t)\<rparr>"

definition read_back :: "session_file \<Rightarrow> session_file" where
  "read_back s = s\<lparr>transcript := map read_back_turn (transcript s)\<rparr>"

definition json_codec :: "'c codec \<Rightarrow> bool" where
  "json_codec cd \<longleftrightarrow>
     (\<forall>s. get_session cd (put_session cd s) = Some (read_back s)) \<and>
     (\<forall>c s. get_session cd c = Some s \<longrightarrow> read_back s = s) \<and>
     (\<forall>v. get_verified cd (put_verified cd v) = Some v)"

lemma read_back_simps [simp]:
  "state (read_back s) = state s" "turn_count (read_back s) = turn_count s" "schema_ok (read_back s) = schema_ok s"
  "transcript (read_back s) = map read_back_turn (transcript s)" "aborted_at (read_back s) = aborted_at s"
  "seq (read_back_turn t) = seq t" "kind (read_back_turn t) = kind t"
  by (simp_all add: read_back_def read_back_turn_def)

lemma turns_ok_read_back [simp]: "turns_ok (map read_back_turn ts) = turns_ok ts"
  by (auto simp: turns_ok_def)

lemma session_ok_read_back [simp]: "session_ok (read_back s) = session_ok s"
  by (simp add: session_ok_def)

lemma read_back_finalized:
  "read_back s = s \<Longrightarrow> read_back (s\<lparr>state := Finalized, updated_at := now\<rparr>) = s\<lparr>state := Finalized, updated_at := now\<rparr>"
  by (cases s) (simp add: read_back_def)

section \<open>The invariant of the files\<close>

definition stored :: "'c codec \<Rightarrow> (string list \<rightharpoonup> 'c) \<Rightarrow> string list \<Rightarrow> session_file option" where
  "stored cd f d = Option.bind (f (d @ [SESSION_FILE_NAME])) (get_session cd)"

definition stored_receipt :: "'c codec \<Rightarrow> (string list \<rightharpoonup> 'c) \<Rightarrow> string list \<Rightarrow> verified_artifact option" where
  "stored_receipt cd f d = Option.bind (f (d @ [VERIFIED_FILE_NAME])) (get_verified cd)"

lemma stored_update [simp]:
  "stored cd (f(d @ [SESSION_FILE_NAME] \<mapsto> c)) e = (if e = d then get_session cd c else stored cd f e)"
  "stored cd (f(d @ [VERIFIED_FILE_NAME] \<mapsto> c)) e = stored cd f e"
  "stored cd (f(d @ [INDEX_FILE_NAME] \<mapsto> c)) e = stored cd f e"
  by (simp_all add: stored_def)

lemma stored_receipt_update [simp]:
  "stored_receipt cd (f(d @ [VERIFIED_FILE_NAME] \<mapsto> c)) e = (if e = d then get_verified cd c else stored_receipt cd f e)"
  "stored_receipt cd (f(d @ [SESSION_FILE_NAME] \<mapsto> c)) e = stored_receipt cd f e"
  "stored_receipt cd (f(d @ [INDEX_FILE_NAME] \<mapsto> c)) e = stored_receipt cd f e"
  by (simp_all add: stored_receipt_def)

definition has_receipt :: "'c codec \<Rightarrow> (string list \<rightharpoonup> 'c) \<Rightarrow> string list \<Rightarrow> session_file \<Rightarrow> bool" where
  "has_receipt cd f d s \<longleftrightarrow> (\<exists>va. stored_receipt cd f d = Some va \<and> verified va \<and> receipt_for cd s va)"

definition files_ok :: "'c codec \<Rightarrow> (string list \<rightharpoonup> 'c) \<Rightarrow> bool" where
  "files_ok cd f \<longleftrightarrow>
     (\<forall>d s. stored cd f d = Some s \<longrightarrow> session_ok s \<and> (state s = Finalized \<longrightarrow> has_receipt cd f d s))"

lemma files_okD:
  "files_ok cd f \<Longrightarrow> stored cd f d = Some s \<Longrightarrow> session_ok s"
  "files_ok cd f \<Longrightarrow> stored cd f d = Some s \<Longrightarrow> state s = Finalized \<Longrightarrow> has_receipt cd f d s"
  by (auto simp: files_ok_def)

lemma receipt_for_verified:
  "receipt_for cd s va \<Longrightarrow> session_ok s \<Longrightarrow> state s = WaitingForAgent \<Longrightarrow> verified va"
  using complete_when_answered by (simp add: receipt_for_def session_ok_def)

lemma files_ok_effect:
  assumes "json_codec cd" "file_effect cd f g" "files_ok cd f"
  shows "files_ok cd g"
proof -
  have put: "get_session cd (put_session cd s) = Some (read_back s)"
    "get_verified cd (put_verified cd v) = Some v" for s v
    using assms(1) by (auto simp: json_codec_def)
  have fixed: "read_back s = s" if "stored cd f d = Some s" for s d
    using assms(1) that unfolding json_codec_def stored_def by (cases "f (d @ [SESSION_FILE_NAME])") auto
  from assms(2) show ?thesis
  proof cases
    case no_effect
    then show ?thesis using assms(3) by simp
  next
    case (changed old s d)
    have "session_ok s" "state s \<noteq> Finalized"
      using session_ok_change [OF changed(2)] files_okD(1) [OF assms(3), of d] changed(3)
        session_change_not_finalized(2) [OF changed(2)]
      by (auto simp: stored_def)
    then show ?thesis
      using assms(3) unfolding files_ok_def has_receipt_def changed(1) by (simp add: put)
  next
    case (receipt d s va)
    then have "stored cd f d = Some s" by (simp add: stored_def)
    with receipt show ?thesis
      using assms(3) unfolding files_ok_def has_receipt_def receipt(1) by (simp add: put)
  next
    case (finalized d s va g' e i now)
    then have s: "stored cd f d = Some s" by (simp add: stored_def)
    let ?s = "s\<lparr>state := Finalized, updated_at := now\<rparr>"
    have so: "session_ok s" using files_okD(1) [OF assms(3) s] .
    have ok: "session_ok ?s" "verified va" "receipt_for cd ?s va" "read_back ?s = ?s"
      using session_ok_finalized [OF so finalized(4)] receipt_for_verified [OF finalized(5) so finalized(4)]
        read_back_finalized [OF fixed [OF s]] finalized(5)
      by (auto simp: receipt_for_def)
    from finalized(6) show ?thesis
      using assms(3) ok unfolding files_ok_def has_receipt_def finalized(1)
      by (elim disjE) (simp_all add: put)
  qed
qed

lemma files_ok_reachable:
  assumes "session_reachable cd w0 w" "json_codec cd" "files_ok cd (files w0)"
  shows "files_ok cd (files w)"
  using assms by (induction rule: session_reachable.induct)
    (auto intro: files_ok_effect session_step_file_effect)

section \<open>The abstract state machine of one finding\<close>

inductive protocol_step :: "session_state option \<Rightarrow> session_state option \<Rightarrow> bool" where
  stutter: "protocol_step st st"
| create: "protocol_step None (Some Open)"
| event: "can_transition s ev = Ok s' \<Longrightarrow> protocol_step (Some s) (Some s')"

inductive_simps protocol_step_None: "protocol_step None st"
inductive_simps protocol_step_Some: "protocol_step (Some s) st"

definition protocol_state :: "'c codec \<Rightarrow> 'c world \<Rightarrow> string list \<Rightarrow> session_state option" where
  "protocol_state cd w d = map_option state (stored cd (files w) d)"

lemma session_change_protocol:
  assumes "session_change old s"
  shows "protocol_step (map_option state old) (Some (state s))"
  using assms
proof cases
  case created
  then show ?thesis by (simp add: build_new_session_def create)
next
  case (restarted s0)
  then show ?thesis by (auto simp: build_new_session_def can_transition_def intro: event [of _ StartEvent])
next
  case (appended s0)
  then show ?thesis by (auto simp: build_appended_session_def and_then_Inr Let_def intro: event)
next
  case (aborted s0)
  then show ?thesis
    by (auto simp: build_aborted_session_def and_then_Inr can_abort_Ok intro!: event [of _ AbortEvent])
qed

lemma file_effect_protocol:
  assumes "json_codec cd" "file_effect cd f g"
  shows "protocol_step (map_option state (stored cd f d)) (map_option state (stored cd g d))"
proof -
  have put: "get_session cd (put_session cd s) = Some (read_back s)" for s
    using assms(1) by (auto simp: json_codec_def)
  from assms(2) show ?thesis
  proof cases
    case no_effect
    then show ?thesis by (simp add: stutter)
  next
    case (changed old s e)
    then show ?thesis
      using session_change_protocol [OF changed(2)] by (simp add: put stutter stored_def [symmetric])
  next
    case (receipt e s va)
    then show ?thesis by (simp add: stutter)
  next
    case (finalized e s va g' e' i now)
    have "protocol_step (Some WaitingForAgent) (Some Finalized)"
      by (rule event [of _ FinalizeEvent]) (simp add: can_transition_def)
    then show ?thesis
      using finalized by (auto simp: put stutter stored_def [symmetric])
  qed
qed

lemma finalized_files_kept:
  assumes "file_effect cd f g" "stored cd f d = Some s" "state s = Finalized"
  shows "g (d @ [SESSION_FILE_NAME]) = f (d @ [SESSION_FILE_NAME])"
    and "g (d @ [VERIFIED_FILE_NAME]) = f (d @ [VERIFIED_FILE_NAME])"
  using assms(1)
proof (atomize (full), cases)
  case (changed old s' e)
  then have "e \<noteq> d"
    using assms(2,3) session_change_not_finalized(1) [of old s' s] by (auto simp: stored_def)
  then show "g (d @ [SESSION_FILE_NAME]) = f (d @ [SESSION_FILE_NAME]) \<and> g (d @ [VERIFIED_FILE_NAME]) = f (d @ [VERIFIED_FILE_NAME])"
    by (simp add: changed(1))
qed (use assms(2,3) in \<open>auto simp: stored_def\<close>)

section \<open>A concrete content\<close>

text \<open>A codec that keeps the value itself: the hypothesis on the JSON library can hold.\<close>

datatype file_content = SessionContent session_file | ReceiptContent verified_artifact | IndexContent index | RefinedContent

definition value_codec :: "file_content codec" where
  "value_codec =
     \<lparr>put_session = \<lambda>s. SessionContent (read_back s),
      get_session = \<lambda>c. case c of SessionContent s \<Rightarrow> Some (read_back s) | _ \<Rightarrow> None,
      put_verified = ReceiptContent,
      get_verified = \<lambda>c. case c of ReceiptContent v \<Rightarrow> Some v | _ \<Rightarrow> None,
      refined_parses = \<lambda>c. (case c of RefinedContent \<Rightarrow> True | _ \<Rightarrow> False),
      put_index = IndexContent,
      get_index = \<lambda>c. case c of IndexContent i \<Rightarrow> Some i | _ \<Rightarrow> None,
      transcript_bytes = \<lambda>ts. concat (map content ts),
      sha256 = \<lambda>bytes. bytes\<rparr>"

lemma read_back_idem [simp]: "read_back (read_back s) = read_back s"
  by (simp add: read_back_def read_back_turn_def comp_def)

lemma json_value_codec: "json_codec value_codec"
  by (auto simp: json_codec_def value_codec_def split: file_content.splits)

definition example_world :: "file_content world" where
  "example_world =
     \<lparr>files = [[''o'', ''runs'', ''r'', ''findings'', ''f'', REFINED_FILE_NAME] \<mapsto> RefinedContent],
      unreadable = {}, writes_left = 9\<rparr>"

definition example_dir :: "string list" where
  "example_dir = [''o'', ''runs'', ''r'', ''findings'', ''f'']"

definition example_args :: "string \<Rightarrow> string \<Rightarrow> arguments" where
  "example_args k c = Some [''run_id'' \<mapsto> ''r'', ''finding_id'' \<mapsto> ''f'', ''output_dir'' \<mapsto> ''/o'', ''kind'' \<mapsto> k, ''content'' \<mapsto> c]"

definition example_started :: "file_content world" where
  "example_started = snd (do_start_verification value_codec (example_args [] []) ''t0'' example_world)"

definition example_answered :: "file_content world" where
  "example_answered =
     snd (do_append_clarification value_codec (example_args ''user_answer'' ''a'') None ''t2''
       (snd (do_append_clarification value_codec (example_args ''agent_question'' ''q'') None ''t1'' example_started)))"

definition example_finalized :: "file_content world" where
  "example_finalized =
     snd (do_finalize_verification value_codec (example_args [] []) ''t3'' ''t4'' example_answered)"

lemma example_reachable:
  "session_reachable value_codec example_world example_started"
  "session_reachable value_codec example_started example_answered"
  "session_reachable value_codec example_answered example_finalized"
  unfolding example_started_def example_answered_def example_finalized_def
  by (rule session_reachable.step [OF session_reachable.initial], rule session_step.start, rule surjective_pairing,
      rule session_reachable.step [OF session_reachable.step [OF session_reachable.initial]],
      rule session_step.append_turn, rule surjective_pairing, rule session_step.append_turn, rule surjective_pairing,
      rule session_reachable.step [OF session_reachable.initial], rule session_step.finalize, rule surjective_pairing)

lemma example_stored:
  "map_option state (stored value_codec (files example_started) example_dir) = Some Open"
  "map_option state (stored value_codec (files example_answered) example_dir) = Some WaitingForAgent"
  "map_option state (stored value_codec (files example_finalized) example_dir) = Some Finalized"
  by code_simp+

end
