(* ===== verification/Session_Run.thy ===== *)
theory Session_Run
  imports Session_Invariant
begin

text \<open>
  Requests that succeed: the result of each handler when its file can be read and written, a whole
  dialogue from start to receipt, and the properties of the verification session.
\<close>

section \<open>Requests that succeed\<close>

definition turn_event :: "turn_kind \<Rightarrow> transition_event" where
  "turn_event k = (case k of AgentQuestion \<Rightarrow> AgentQuestionEvent | UserAnswer \<Rightarrow> UserAnswerEvent)"

definition appended_session :: "session_file \<Rightarrow> append_args \<Rightarrow> session_state \<Rightarrow> string \<Rightarrow> session_file" where
  "appended_session s args st now =
     s\<lparr>state := st, turn_count := length (transcript s) + 1, updated_at := now,
       transcript := transcript s @ [\<lparr>seq = length (transcript s), kind = arg_kind args, timestamp = now,
         content = arg_content args, meta = arg_meta args\<rparr>],
       aborted_at := None, abort_reason := None\<rparr>"

lemma build_appended_eq:
  "build_appended_session s args now =
     and_then (can_transition (state s) (turn_event (arg_kind args))) (\<lambda>st. Ok (appended_session s args st now))"
  by (cases s) (simp add: build_appended_session_def appended_session_def turn_event_def Let_def cong: turn_kind.case_cong)

lemma load_session_found:
  assumes "session_at cd w p = Some s" "path_components p \<notin> unreadable w"
  shows "load_session cd p w = (Ok s, w)"
  using assms by (cases "files w (path_components p)") (auto simp: load_session_def op_bind_def read_session_def session_in_def op_lift_def split: option.splits)

lemma write_session_put:
  assumes "0 < writes_left w"
  shows "write_session_atomic cd p s w = (Ok (), put_file p (put_session cd s) w)"
  using assms by (simp add: write_session_atomic_def write_atomic_def put_file_def)

lemma append_result:
  assumes "parse_append_args a m = Ok args" "session_at cd w (args_session_path args) = Some s"
    "path_components (args_session_path args) \<notin> unreadable w" "0 < writes_left w"
  shows "do_append_clarification cd a m now w =
    (case can_transition (state s) (turn_event (arg_kind args)) of
       Inl e \<Rightarrow> (Err e, w)
     | Inr st \<Rightarrow> (Ok (st, length (transcript s), length (transcript s) + 1),
         put_file (args_session_path args) (put_session cd (appended_session s args st now)) w))"
  using assms(1)
  by (cases "can_transition (state s) (turn_event (arg_kind args))")
    (simp_all add: do_append_clarification_def op_bind_def op_lift_def op_return_def load_session_found [OF assms(2,3)]
      build_appended_eq write_session_put [OF assms(4)] 
      appended_session_def)

lemma start_result:
  assumes "parse_session_args a = Ok args"
    and "files w (finding_key args @ [REFINED_FILE_NAME]) = Some c" "refined_parses cd c"
    and "files w (finding_key args @ [SESSION_FILE_NAME]) = None" "unreadable w = {}" "0 < writes_left w"
  shows "do_start_verification cd a now w =
    (Ok (build_new_session args True now),
     put_file (args_session_path args) (put_session cd (build_new_session args True now)) w)"
proof -
  have ne: "arg_output_dir args \<noteq> []"
    using parse_session_args_safe(3) [OF assms(1)] by (auto simp: require_absolute_def)
  have "path_components (path_join (args_finding_dir args) REFINED_FILE_NAME) = finding_key args @ [REFINED_FILE_NAME]"
    using ne parse_session_args_safe(1,2) [OF assms(1)] safe_id_plain plain_names plain_nonempty
    by (simp add: args_finding_dir_def finding_dir_for_def finding_key_def components_join path_join_nonempty)
  then show ?thesis
    using assms args_keys(1) [OF assms(1)]
    by (simp add: do_start_verification_def parse_start_args_def op_bind_def op_lift_def op_return_def
        check_stage1_refined_def read_session_def write_session_put Let_def)
qed

lemma finalize_result:
  assumes "parse_session_args a = Ok args" "session_at cd w (args_session_path args) = Some s"
    "schema_ok s" "state s = WaitingForAgent" "unreadable w = {}" "3 \<le> writes_left w"
    "files w (path_components (args_index_path args)) = None \<or>
     (\<exists>c i. files w (path_components (args_index_path args)) = Some c \<and> get_index cd c = Some i)"
  shows "\<exists>i. do_finalize_verification cd a now now' w =
    (Ok (build_verified_artifact cd s args now, args_verified_path args),
     put_file (args_index_path args) (put_index cd i) (finalize_session cd args s now w))"
proof -
  let ?w = "finalize_session cd args s now w"
  obtain d where d: "path_components (args_index_path args) = d @ [INDEX_FILE_NAME]"
    using args_keys(3) [OF assms(1)] by blast
  have w: "writes_left ?w = writes_left w - 2" "unreadable ?w = {}"
    "files ?w (d @ [INDEX_FILE_NAME]) = files w (d @ [INDEX_FILE_NAME])"
    using assms(5) by (auto simp: finalize_session_def finalize_receipt_def put_file_def args_keys(1,2) [OF assms(1)])
  have one: "write_atomic p c v = (Ok (), put_file p c v)" if "writes_left v \<noteq> 0" for p c and v :: "'a world"
    using that by (simp add: write_atomic_def put_file_def)
  have r: "writes_left (finalize_receipt cd args s now w) = writes_left w - 1"
    by (simp add: finalize_receipt_def put_file_def)
  have index: "\<exists>i. read_index cd (args_index_path args) ?w = (Ok i, ?w)"
    using assms(7) w(2,3) d by (auto simp: read_index_def)
  then obtain i where i: "read_index cd (args_index_path args) ?w = (Ok i, ?w)" by blast
  have "persist_finalize cd args s (build_verified_artifact cd s args now) now now' w =
     (Ok (args_verified_path args), put_file (args_index_path args) (put_index cd
        (upsert_index_entry i now' (arg_run_id args) (arg_finding_id args)
          (default_entry\<lparr>artifact_path := [], extractor_version := EXTRACTOR_VERSION,
            verified_at := Some now, verified_flag := Some (verified (build_verified_artifact cd s args now)),
            stage2_path := Some (finding_file (arg_finding_id args) VERIFIED_FILE_NAME)\<rparr>) PreserveRefinedOnly)) ?w)"
    using assms(6) i w(1)
    by (simp add: persist_finalize_def upsert_verified_index_def write_session_atomic_def op_bind_def op_return_def Let_def
        one r finalize_session_def finalize_receipt_def [symmetric] args_verified_path_def [symmetric] args_index_path_def [symmetric])
  then show ?thesis
    using assms load_session_found [OF assms(2)]
    by (simp add: do_finalize_verification_def parse_finalize_args_def load_session_for_finalize_def op_bind_def
        op_lift_def op_return_def check_finalize_preconditions_def can_transition_def Let_def) blast
qed

section \<open>A whole dialogue\<close>

definition turn_args :: "(string \<rightharpoonup> string) \<Rightarrow> string \<Rightarrow> string \<Rightarrow> arguments" where
  "turn_args ids k c = Some (ids(''kind'' \<mapsto> k, ''content'' \<mapsto> c))"

fun run_exchanges :: "'c codec \<Rightarrow> (string \<rightharpoonup> string) \<Rightarrow> string \<Rightarrow> (string \<times> string) list \<Rightarrow> 'c world \<Rightarrow> 'c world" where
  "run_exchanges cd ids now [] w = w"
| "run_exchanges cd ids now ((q, a) # qas) w =
     run_exchanges cd ids now qas
       (snd (do_append_clarification cd (turn_args ids ''user_answer'' a) None now
         (snd (do_append_clarification cd (turn_args ids ''agent_question'' q) None now w))))"

definition run_dialogue ::
  "'c codec \<Rightarrow> (string \<rightharpoonup> string) \<Rightarrow> string \<Rightarrow> (string \<times> string) list \<Rightarrow> ('c, verified_artifact \<times> string) op" where
  "run_dialogue cd ids now qas w =
     do_finalize_verification cd (Some ids) now now
       (run_exchanges cd ids now qas (snd (do_start_verification cd (Some ids) now w)))"

lemma parse_turn_args:
  assumes "parse_session_args (Some ids) = Ok args" "c \<noteq> []"
    "k = ''agent_question'' \<and> kd = AgentQuestion \<or> k = ''user_answer'' \<and> kd = UserAnswer"
  shows "\<exists>pa. parse_append_args (turn_args ids k c) m = Ok pa \<and> args_session_path pa = args_session_path args \<and>
    arg_kind pa = kd"
proof -
  have "parse_session_args (turn_args ids k c) = Ok args"
    using assms(1) by (simp add: parse_session_args_def turn_args_def require_string_arg_def)
  then show ?thesis
    using assms(2,3)
    by (auto simp: parse_append_args_def turn_args_def require_string_arg_def args_session_path_def)
qed

text \<open>A session waiting for turn \<open>n\<close> in a readable world with room for \<open>k\<close> writes.\<close>

definition ready :: "'c codec \<Rightarrow> session_args \<Rightarrow> session_state set \<Rightarrow> nat \<Rightarrow> nat \<Rightarrow> 'c world \<Rightarrow> bool" where
  "ready cd args S n k w \<longleftrightarrow>
     (\<exists>s. session_at cd w (args_session_path args) = Some s \<and> session_ok s \<and> state s \<in> S \<and>
       length (transcript s) = n) \<and> unreadable w = {} \<and> k \<le> writes_left w"

lemma append_ready:
  assumes "json_codec cd" "parse_session_args (Some ids) = Ok args" "c \<noteq> []"
    "k = ''agent_question'' \<and> kd = AgentQuestion \<or> k = ''user_answer'' \<and> kd = UserAnswer"
    "ready cd args S n (Suc j) w" "\<forall>st \<in> S. can_transition st (turn_event kd) = Ok st'"
  shows "ready cd args {st'} (Suc n) j (snd (do_append_clarification cd (turn_args ids k c) m now w))"
    and "path_components p \<noteq> path_components (args_session_path args) \<Longrightarrow>
      files (snd (do_append_clarification cd (turn_args ids k c) m now w)) (path_components p) = files w (path_components p)"
proof -
  obtain pa where pa: "parse_append_args (turn_args ids k c) m = Ok pa" "args_session_path pa = args_session_path args" "arg_kind pa = kd"
    using parse_turn_args [OF assms(2-4)] by blast
  obtain s where s: "session_at cd w (args_session_path args) = Some s" "session_ok s" "state s \<in> S"
    "length (transcript s) = n" "unreadable w = {}" "Suc j \<le> writes_left w"
    using assms(5) by (auto simp: ready_def)
  have tr: "can_transition (state s) (turn_event (arg_kind pa)) = Ok st'"
    using assms(6) s(3) pa(3) by blast
  have "build_appended_session s pa now = Ok (appended_session s pa st' now)"
    by (simp add: build_appended_eq tr)
  then have ok: "session_ok (appended_session s pa st' now)"
    using session_ok_appended s(2) by blast
  have "do_append_clarification cd (turn_args ids k c) m now w =
    (Ok (st', n, n + 1), put_file (args_session_path args) (put_session cd (appended_session s pa st' now)) w)"
    using append_result [OF pa(1), of cd w s now] s tr by (simp add: pa(2))
  moreover have "get_session cd (put_session cd x) = Some (read_back x)" for x
    using assms(1) by (simp add: json_codec_def)
  ultimately show "ready cd args {st'} (Suc n) j (snd (do_append_clarification cd (turn_args ids k c) m now w))"
    using s ok by (simp add: ready_def session_in_def put_file_def) (simp add: appended_session_def)
  show "files (snd (do_append_clarification cd (turn_args ids k c) m now w)) (path_components p) = files w (path_components p)"
    if "path_components p \<noteq> path_components (args_session_path args)"
    using that \<open>do_append_clarification cd (turn_args ids k c) m now w = _\<close> by simp
qed

lemma run_exchanges_ready:
  assumes "json_codec cd" "parse_session_args (Some ids) = Ok args" "\<forall>(q, a) \<in> set qas. q \<noteq> [] \<and> a \<noteq> []"
    "ready cd args S n (2 * length qas + j) w" "S \<subseteq> {Open, WaitingForAgent}"
  shows "ready cd args (if qas = [] then S else {WaitingForAgent}) (n + 2 * length qas) j (run_exchanges cd ids now qas w) \<and>
    (path_components p \<noteq> path_components (args_session_path args) \<longrightarrow>
      files (run_exchanges cd ids now qas w) (path_components p) = files w (path_components p))"
  using assms(3-5)
proof (induction qas arbitrary: S n w)
  case Nil
  then show ?case by simp
next
  case (Cons qa qas)
  obtain q a where qa: "qa = (q, a)" by fastforce
  let ?w1 = "snd (do_append_clarification cd (turn_args ids ''agent_question'' q) None now w)"
  let ?w2 = "snd (do_append_clarification cd (turn_args ids ''user_answer'' a) None now ?w1)"
  have qne: "q \<noteq> []" and ane: "a \<noteq> []" using Cons.prems(1) qa by auto
  have r0: "ready cd args S n (Suc (Suc (2 * length qas + j))) w" using Cons.prems(2) by simp
  have t1: "\<forall>st \<in> S. can_transition st (turn_event AgentQuestion) = Ok WaitingForUser"
    using Cons.prems(3) by (auto simp: turn_event_def can_transition_def)
  note a1 = append_ready [OF assms(1,2) qne _ r0 t1, where k = "''agent_question''" and m = None and now = now, simplified]
  have t2: "\<forall>st \<in> {WaitingForUser}. can_transition st (turn_event UserAnswer) = Ok WaitingForAgent"
    by (simp add: turn_event_def can_transition_def)
  note a2 = append_ready [OF assms(1,2) ane _ a1(1) t2, where k = "''user_answer''" and m = None and now = now, simplified]
  have "ready cd args (if qas = [] then {WaitingForAgent} else {WaitingForAgent}) (Suc (Suc n) + 2 * length qas) j
      (run_exchanges cd ids now qas ?w2) \<and>
    (path_components p \<noteq> path_components (args_session_path args) \<longrightarrow>
      files (run_exchanges cd ids now qas ?w2) (path_components p) = files ?w2 (path_components p))"
    by (rule Cons.IH) (use Cons.prems(1) a2(1) in \<open>auto simp: qa\<close>)
  then show ?case using a1(2) a2(2) by (simp add: qa)
qed

section \<open>Properties\<close>

text \<open>
  C11: Whatever requests arrive, whichever writes fail and however often the server restarts, every
  session file that parses is well formed: the turn count is the length of the transcript, the
  turns are numbered from zero and alternate from an agent question, the state agrees with the
  transcript, the schema flag is set, and an abort time is recorded exactly in the aborted state.
\<close>

theorem sessions_stay_well_formed:
  assumes "json_codec cd" "session_reachable cd w0 w" "\<forall>d. files w0 (d @ [SESSION_FILE_NAME]) = None"
    and "stored cd (files w) d = Some s"
  shows "turn_count s = length (transcript s) \<and>
    (\<forall>i < length (transcript s). seq (transcript s ! i) = i \<and> (kind (transcript s ! i) = AgentQuestion \<longleftrightarrow> even i)) \<and>
    schema_ok s \<and> state_fits (state s) (length (transcript s)) \<and> (aborted_at s \<noteq> None \<longleftrightarrow> state s = Aborted)"
proof -
  have "files_ok cd (files w0)" using assms(3) by (simp add: files_ok_def stored_def)
  then have "session_ok s" using files_ok_reachable [OF assms(2,1)] files_okD(1) assms(4) by blast
  then show ?thesis by (simp add: session_ok_def turns_ok_def)
qed

lemma example_no_session: "\<forall>d. files example_world (d @ [SESSION_FILE_NAME]) = None"
  by (simp add: example_world_def)

theorem sessions_stay_well_formed_witness:
  "\<exists>s. stored value_codec (files example_started) example_dir = Some s \<and> turn_count s = length (transcript s)"
proof -
  obtain s where s: "stored value_codec (files example_started) example_dir = Some s"
    using example_stored(1) by auto
  then show ?thesis
    using sessions_stay_well_formed [OF json_value_codec example_reachable(1) example_no_session s] by blast
qed

text \<open>
  C1: A session that reads as finalized has a receipt beside it, whatever failed in between: the
  receipt says verified, names the number of turns, and its digest is the digest of the transcript
  stored in the session file.
\<close>

theorem finalized_session_has_its_receipt:
  assumes "json_codec cd" "session_reachable cd w0 w" "\<forall>d. files w0 (d @ [SESSION_FILE_NAME]) = None"
    and "stored cd (files w) d = Some s" "state s = Finalized"
  shows "\<exists>va. stored_receipt cd (files w) d = Some va \<and> verified va \<and>
    (transcript_digest va, transcript_bytes_at_finalize va) = compute_transcript_digest cd (transcript s) \<and>
    va_turn_count va = length (transcript s)"
proof -
  have "files_ok cd (files w0)" using assms(3) by (simp add: files_ok_def stored_def)
  then have ok: "files_ok cd (files w)" using files_ok_reachable [OF assms(2,1)] by blast
  from files_okD(1) [OF ok assms(4)] files_okD(2) [OF ok assms(4,5)] show ?thesis
    by (auto simp: has_receipt_def receipt_for_def session_ok_def compute_transcript_digest_def Let_def)
qed

lemma session_reachable_trans:
  assumes "session_reachable cd w1 w2" "session_reachable cd w0 w1"
  shows "session_reachable cd w0 w2"
  using assms by (induction rule: session_reachable.induct) (auto intro: session_reachable.step)

lemma example_finalized_session:
  "\<exists>s. stored value_codec (files example_finalized) example_dir = Some s \<and> state s = Finalized"
  using example_stored(3) by auto

theorem finalized_session_has_its_receipt_witness:
  "\<exists>va. stored_receipt value_codec (files example_finalized) example_dir = Some va \<and> verified va"
proof -
  obtain s where s: "stored value_codec (files example_finalized) example_dir = Some s" "state s = Finalized"
    using example_finalized_session by blast
  have "session_reachable value_codec example_world example_finalized"
    using example_reachable by (blast intro: session_reachable_trans)
  from finalized_session_has_its_receipt [OF json_value_codec this example_no_session s] show ?thesis by blast
qed

text \<open>
  C2: Finalizing is final.  Once a session reads as finalized, no later request, failure or restart
  changes its session file or its receipt.
\<close>

theorem finalized_is_final:
  assumes "session_reachable cd w w'" "stored cd (files w) d = Some s" "state s = Finalized"
  shows "files w' (d @ [SESSION_FILE_NAME]) = files w (d @ [SESSION_FILE_NAME]) \<and>
    files w' (d @ [VERIFIED_FILE_NAME]) = files w (d @ [VERIFIED_FILE_NAME])"
  using assms
proof (induction rule: session_reachable.induct)
  case initial
  then show ?case by simp
next
  case (step w1 w2)
  then have "stored cd (files w1) d = Some s" by (simp add: stored_def)
  with step show ?case
    using finalized_files_kept [OF session_step_file_effect [OF step.hyps(2)]] by metis
qed

definition example_after :: "file_content world" where
  "example_after = snd (do_abort_verification value_codec (example_args [] []) ''t9'' example_finalized)"

theorem finalized_is_final_witness:
  "files example_after (example_dir @ [SESSION_FILE_NAME]) = files example_finalized (example_dir @ [SESSION_FILE_NAME])"
proof -
  obtain s where s: "stored value_codec (files example_finalized) example_dir = Some s" "state s = Finalized"
    using example_finalized_session by blast
  have "session_reachable value_codec example_finalized example_after"
    unfolding example_after_def
    by (rule session_reachable.step [OF session_reachable.initial], rule session_step.abort, rule surjective_pairing)
  from finalized_is_final [OF this s] show ?thesis by blast
qed

text \<open>
  C7: The handlers implement the documented state machine.  Seen as the state stored for one finding,
  every step of the server, with any failure inside it, either leaves the state alone, creates an open
  session where there was none, or takes a transition that \<open>can_transition\<close> allows.
\<close>

theorem handlers_refine_the_state_machine:
  assumes "json_codec cd" "session_step cd w w'"
  shows "protocol_step (protocol_state cd w d) (protocol_state cd w' d)"
  unfolding protocol_state_def by (rule file_effect_protocol [OF assms(1) session_step_file_effect [OF assms(2)]])

theorem handlers_refine_the_state_machine_witness:
  "protocol_step (protocol_state value_codec example_answered example_dir) (protocol_state value_codec example_finalized example_dir)"
  by (rule handlers_refine_the_state_machine [OF json_value_codec])
    (unfold example_finalized_def, rule session_step.finalize, rule surjective_pairing)


text \<open>
  Appending follows the state machine exactly.  For accepted arguments and a readable session,
  append answers with the error of the transition and writes nothing, or answers with the new state,
  the number of the new turn and the new count, and the file holds the session with that turn at the
  end, everything before it unchanged.
\<close>

theorem append_follows_the_state_machine:
  assumes "parse_append_args a m = Ok args" "session_at cd w (args_session_path args) = Some s"
    and "path_components (args_session_path args) \<notin> unreadable w" "0 < writes_left w"
  shows "do_append_clarification cd a m now w =
    (case can_transition (state s) (turn_event (arg_kind args)) of
       Inl e \<Rightarrow> (Err e, w)
     | Inr st \<Rightarrow> (Ok (st, length (transcript s), length (transcript s) + 1),
         put_file (args_session_path args)
           (put_session cd (s\<lparr>state := st, turn_count := length (transcript s) + 1, updated_at := now,
              transcript := transcript s @ [\<lparr>seq = length (transcript s), kind = arg_kind args, timestamp = now,
                content = arg_content args, meta = arg_meta args\<rparr>],
              aborted_at := None, abort_reason := None\<rparr>)) w))"
  using append_result [OF assms] unfolding appended_session_def .

theorem append_follows_the_state_machine_witness:
  "fst (do_append_clarification value_codec (example_args ''user_answer'' ''a'') None ''t'' example_started) = Err AlternationViolation"
proof -
  let ?args = "\<lparr>arg_run_id = ''r'', arg_finding_id = ''f'', arg_output_dir = ''/o'', arg_kind = UserAnswer, arg_content = ''a'', arg_meta = None\<rparr>"
  obtain s where s: "stored value_codec (files example_started) example_dir = Some s" "state s = Open"
    using example_stored(1) by auto
  have k: "path_components (args_session_path ?args) = example_dir @ [SESSION_FILE_NAME]" by code_simp
  have at: "session_at value_codec example_started (args_session_path ?args) = Some s"
    using s(1) by (simp add: session_in_def stored_def k)
  have p: "parse_append_args (example_args ''user_answer'' ''a'') None = Ok ?args" by code_simp
  have r: "writes_left example_started = 8" by code_simp
  have u: "unreadable example_started = unreadable example_world"
    using do_start_post [of value_codec "example_args [] []" "''t0''" example_world]
    by (auto simp: post_def example_started_def start_effect_def put_file_def split: prod.splits sum.splits)
  then have "path_components (args_session_path ?args) \<notin> unreadable example_started" by (simp add: example_world_def)
  from append_follows_the_state_machine [OF p at this] show ?thesis
    by (simp add: r s(2) turn_event_def can_transition_def)
qed

text \<open>
  C18: A dialogue ends in a receipt.  When the refined extraction is there, no session exists, files
  can be read, the disk has room for the writes, and the index is absent or parses, then starting,
  any positive number of question and answer rounds and finalizing succeeds, and the receipt says
  verified with two turns for each round.
\<close>

theorem dialogue_ends_verified:
  assumes "json_codec cd" "parse_session_args (Some ids) = Ok args"
    and "files w (finding_key args @ [REFINED_FILE_NAME]) = Some c" "refined_parses cd c"
    and "files w (finding_key args @ [SESSION_FILE_NAME]) = None" "unreadable w = {}"
    and "case files w (path_components (args_index_path args)) of None \<Rightarrow> True | Some i \<Rightarrow> get_index cd i \<noteq> None"
    and "qas \<noteq> []" "\<forall>(q, a) \<in> set qas. q \<noteq> [] \<and> a \<noteq> []" "2 * length qas + 4 \<le> writes_left w"
  shows "\<exists>va w'. run_dialogue cd ids now qas w = (Ok (va, args_verified_path args), w') \<and>
    verified va \<and> verified_kind va = \<lparr>vk_schema_ok = True, completeness_ok = True, user_acknowledged = True\<rparr> \<and>
    va_turn_count va = 2 * length qas"
proof -
  let ?w1 = "snd (do_start_verification cd (Some ids) now w)"
  have get: "get_session cd (put_session cd x) = Some (read_back x)" for x
    using assms(1) by (simp add: json_codec_def)
  obtain d where d: "path_components (args_index_path args) = d @ [INDEX_FILE_NAME]"
    using args_keys(3) [OF assms(2)] by blast
  have w1: "?w1 = put_file (args_session_path args) (put_session cd (build_new_session args True now)) w"
    using start_result [OF assms(2-6)] assms(10) by simp
  have r1: "ready cd args {Open} 0 (2 * length qas + 3) ?w1"
    using assms(6,10) by (simp add: w1 ready_def session_in_def put_file_def get session_ok_new)
      (simp add: build_new_session_def)
  note run = run_exchanges_ready [OF assms(1,2,9) r1, where p = "args_index_path args" and now = now, simplified]
  let ?w2 = "run_exchanges cd ids now qas ?w1"
  have ready2: "ready cd args {WaitingForAgent} (2 * length qas) 3 ?w2" using run assms(8) by simp
  obtain s where s: "session_at cd ?w2 (args_session_path args) = Some s" "session_ok s" "state s = WaitingForAgent"
      "length (transcript s) = 2 * length qas" "unreadable ?w2 = {}" "3 \<le> writes_left ?w2"
    using ready2 unfolding ready_def by blast
  have s': "schema_ok s" "turn_count s = 2 * length qas" "fst (compute_completeness (transcript s))"
    using s(2-4) complete_when_answered by (simp_all add: session_ok_def)
  have "files ?w2 (path_components (args_index_path args)) = files w (path_components (args_index_path args))"
    using run d by (simp add: args_keys(1) [OF assms(2)] w1)
  then have "files ?w2 (path_components (args_index_path args)) = None \<or>
     (\<exists>c i. files ?w2 (path_components (args_index_path args)) = Some c \<and> get_index cd c = Some i)"
    using assms(7) by (auto split: option.splits)
  from finalize_result [OF assms(2) s(1) s'(1) s(3,5,6) this, of now now] show ?thesis
    using s' by (auto simp: run_dialogue_def build_verified_artifact_def Let_def split: prod.splits)
qed


theorem dialogue_ends_verified_witness:
  "\<exists>va w'. run_dialogue value_codec [''run_id'' \<mapsto> ''r'', ''finding_id'' \<mapsto> ''f'', ''output_dir'' \<mapsto> ''/o''] ''t''
     [(''why?'', ''since''), (''sure?'', ''yes'')] example_world = (Ok (va, ''/o/runs/r/findings/f/stage-2.verified.json''), w') \<and> va_turn_count va = 4"
proof -
  let ?ids = "[''run_id'' \<mapsto> ''r'', ''finding_id'' \<mapsto> ''f'', ''output_dir'' \<mapsto> ''/o'']"
  let ?args = "\<lparr>arg_run_id = ''r'', arg_finding_id = ''f'', arg_output_dir = ''/o''\<rparr>"
  have "parse_session_args (Some ?ids) = Ok ?args" by code_simp
  note d = dialogue_ends_verified [OF json_value_codec this, of example_world RefinedContent
      "[(''why?'', ''since''), (''sure?'', ''yes'')]" "''t''"]
  have "args_verified_path ?args = ''/o/runs/r/findings/f/stage-2.verified.json''"
    "finding_key ?args = [''o'', ''runs'', ''r'', ''findings'', ''f'']"
    "files example_world [''o'', ''runs'', ''r'', ''findings'', ''f'', REFINED_FILE_NAME] = Some RefinedContent"
    by (code_simp, code_simp, simp add: example_world_def)
  moreover have "refined_parses value_codec RefinedContent"
    "files example_world (path_components (args_index_path ?args)) = None"
    "files example_world [''o'', ''runs'', ''r'', ''findings'', ''f'', SESSION_FILE_NAME] = None"
    by (code_simp, code_simp, simp add: example_world_def)
  moreover have "unreadable example_world = {}" "writes_left example_world = 9"
    by (simp_all add: example_world_def)
  ultimately show ?thesis using d by auto
qed

text \<open>
  A crash between the receipt and the session leaves a receipt that says verified; an abort and a
  restart keep it.  The reader of the receipt alone cannot tell.
\<close>

definition example_stale_receipt :: "file_content world" where
  "example_stale_receipt =
     (let w1 = snd (do_finalize_verification value_codec (example_args [] []) ''t3'' ''t4'' (example_answered\<lparr>writes_left := 1\<rparr>));
          w2 = snd (do_abort_verification value_codec (example_args [] []) ''t5'' (w1\<lparr>writes_left := 9\<rparr>)) in
      snd (do_start_verification value_codec (example_args [] []) ''t6'' w2))"

lemma stale_receipt_survives_restart:
  "map_option state (stored value_codec (files example_stale_receipt) example_dir) = Some Open \<and>
   map_option verified (stored_receipt value_codec (files example_stale_receipt) example_dir) = Some True"
  by code_simp

text \<open>
  A crash between the session and the index cannot be repaired by asking again: the second finalize
  is refused because the session is final, and the index never learns of the receipt.
\<close>

definition example_lost_index :: "file_content world" where
  "example_lost_index =
     snd (do_finalize_verification value_codec (example_args [] []) ''t3'' ''t4'' (example_answered\<lparr>writes_left := 2\<rparr>))"

lemma lost_index_stays_lost:
  "(case fst (do_finalize_verification value_codec (example_args [] []) ''t5'' ''t6'' (example_lost_index\<lparr>writes_left := 9\<rparr>)) of
      Inl AlreadyFinalized \<Rightarrow> True | _ \<Rightarrow> False) \<and>
   (case files (snd (do_finalize_verification value_codec (example_args [] []) ''t5'' ''t6'' (example_lost_index\<lparr>writes_left := 9\<rparr>)))
      [''o'', ''runs'', ''r'', INDEX_FILE_NAME] of None \<Rightarrow> True | _ \<Rightarrow> False)"
  by code_simp

end
