(* ===== verification/Tarjan_Scc.thy ===== *)
theory Tarjan_Scc
  imports Rust_Base "HOL-Library.While_Combinator"
begin

text \<open>
  \<open>src/semantic_diff.rs\<close>, the strongly connected components: Tarjan's algorithm with an explicit work
  stack.  The vectors of the source are lists indexed by node, its stacks are lists with the top
  first.  The work loop is \<open>while_option\<close>, so that returning is part of what is proved.
\<close>

section \<open>The algorithm\<close>

record tarjan_state =
  index :: "int list"
  lowlink :: "int list"
  on_stack :: "bool list"
  stack :: "nat list"
  components :: "nat list list"
  counter :: int

definition visit :: "nat \<Rightarrow> tarjan_state \<Rightarrow> tarjan_state" where
  "visit v s = s\<lparr>index := (index s)[v := counter s], lowlink := (lowlink s)[v := counter s],
     counter := counter s + 1, stack := v # stack s, on_stack := (on_stack s)[v := True]\<rparr>"

fun pop_loop :: "nat \<Rightarrow> nat list \<Rightarrow> bool list \<Rightarrow> nat list \<Rightarrow> nat list \<times> bool list \<times> nat list" where
  "pop_loop v [] flags component = ([], flags, component)"
| "pop_loop v (w # st) flags component =
     (if w = v then (st, flags[w := False], component @ [w])
      else pop_loop v st (flags[w := False]) (component @ [w]))"

definition pop_scc :: "nat \<Rightarrow> tarjan_state \<Rightarrow> tarjan_state" where
  "pop_scc v s =
     (case pop_loop v (stack s) (on_stack s) [] of
        (st, flags, component) \<Rightarrow>
          s\<lparr>stack := st, on_stack := flags, components := components s @ [component]\<rparr>)"

definition lower_link :: "nat \<Rightarrow> int \<Rightarrow> tarjan_state \<Rightarrow> tarjan_state" where
  "lower_link v k s = s\<lparr>lowlink := (lowlink s)[v := min (lowlink s ! v) k]\<rparr>"

definition dfs_step :: "nat list list \<Rightarrow> (nat \<times> nat) list \<times> tarjan_state \<Rightarrow> (nat \<times> nat) list \<times> tarjan_state" where
  "dfs_step adj ws =
     (case ws of
        ([], s) \<Rightarrow> ([], s)
      | ((v, i) # rest, s) \<Rightarrow>
          if i < length (adj ! v) then
            let w = adj ! v ! i; work = (v, i + 1) # rest in
            if index s ! w = -1 then ((w, 0) # work, visit w s)
            else if on_stack s ! w then (work, lower_link v (index s ! w) s)
            else (work, s)
          else
            let s1 = (if lowlink s ! v = index s ! v then pop_scc v s else s) in
            (rest, case rest of [] \<Rightarrow> s1 | (parent, _) # _ \<Rightarrow> lower_link parent (lowlink s1 ! v) s1))"

definition dfs_iterative :: "nat \<Rightarrow> nat list list \<Rightarrow> tarjan_state \<Rightarrow> tarjan_state option" where
  "dfs_iterative start adj s =
     map_option snd (while_option (\<lambda>(work, _). work \<noteq> []) (dfs_step adj) ([(start, 0)], visit start s))"

fun visit_all :: "nat list list \<Rightarrow> nat list \<Rightarrow> tarjan_state \<Rightarrow> tarjan_state option" where
  "visit_all adj [] s = Some s"
| "visit_all adj (v # vs) s =
     (if index s ! v \<noteq> -1 then visit_all adj vs s
      else Option.bind (dfs_iterative v adj s) (visit_all adj vs))"

definition initial_state :: "nat \<Rightarrow> tarjan_state" where
  "initial_state n =
     \<lparr>index = replicate n (-1), lowlink = replicate n (-1), on_stack = replicate n False,
      stack = [], components = [], counter = 0\<rparr>"

definition tarjan_scc :: "nat list list \<Rightarrow> nat list list option" where
  "tarjan_scc adj = map_option components (visit_all adj [0..<length adj] (initial_state (length adj)))"

section \<open>Specification\<close>

definition arcs :: "nat list list \<Rightarrow> (nat \<times> nat) set" where
  "arcs adj = {(u, v). u < length adj \<and> v \<in> set (adj ! u)}"

definition in_range :: "nat list list \<Rightarrow> bool" where
  "in_range adj \<longleftrightarrow> (\<forall>u < length adj. \<forall>v \<in> set (adj ! u). v < length adj)"

definition scc_of :: "('a \<times> 'a) set \<Rightarrow> 'a \<Rightarrow> 'a set" where
  "scc_of r x = {y. (x, y) \<in> r\<^sup>* \<and> (y, x) \<in> r\<^sup>*}"

section \<open>The invariant\<close>

text \<open>The nodes whose component has been reported.\<close>

definition finished :: "nat list list \<Rightarrow> tarjan_state \<Rightarrow> nat set" where
  "finished adj s = {x. x < length adj \<and> index s ! x \<noteq> -1 \<and> x \<notin> set (stack s)}"

definition shape_ok :: "nat list list \<Rightarrow> tarjan_state \<Rightarrow> bool" where
  "shape_ok adj s \<longleftrightarrow>
     length (index s) = length adj \<and> length (lowlink s) = length adj \<and> length (on_stack s) = length adj \<and>
     0 \<le> counter s \<and> (\<forall>x < length adj. index s ! x \<noteq> -1 \<longrightarrow> 0 \<le> index s ! x \<and> index s ! x < counter s) \<and>
     distinct (stack s) \<and> (\<forall>x \<in> set (stack s). x < length adj \<and> index s ! x \<noteq> -1) \<and>
     (\<forall>x < length adj. on_stack s ! x \<longleftrightarrow> x \<in> set (stack s)) \<and>
     sorted_wrt (\<lambda>x y. index s ! y < index s ! x) (stack s)"

definition finished_ok :: "nat list list \<Rightarrow> tarjan_state \<Rightarrow> bool" where
  "finished_ok adj s \<longleftrightarrow>
     (\<forall>x \<in> finished adj s. \<forall>y. (x, y) \<in> arcs adj \<longrightarrow> y \<in> finished adj s) \<and>
     distinct (concat (components s)) \<and> set (concat (components s)) = finished adj s \<and>
     (\<forall>c \<in> set (components s). c \<noteq> [] \<and> (\<forall>x \<in> set c. set c = scc_of (arcs adj) x))"

definition stack_ok :: "nat list list \<Rightarrow> nat list \<Rightarrow> tarjan_state \<Rightarrow> bool" where
  "stack_ok adj path s \<longleftrightarrow>
     set path \<subseteq> set (stack s) \<and> sorted_wrt (\<lambda>x y. index s ! y < index s ! x) path \<and>
     (\<forall>x \<in> set (stack s). \<forall>y \<in> set (stack s). index s ! x \<le> index s ! y \<longrightarrow> (x, y) \<in> (arcs adj)\<^sup>*) \<and>
     (\<forall>y \<in> set (stack s). \<exists>x \<in> set path. index s ! x \<le> index s ! y \<and> (y, x) \<in> (arcs adj)\<^sup>*) \<and>
     (\<forall>x \<in> set path. lowlink s ! x \<le> index s ! x \<and>
        (\<exists>y \<in> set (stack s). index s ! y = lowlink s ! x \<and> (x, y) \<in> (arcs adj)\<^sup>*))"

text \<open>
  The frame \<open>(v, i)\<close> owns the stack nodes numbered from \<open>v\<close> up to the bound: their arcs, for \<open>v\<close> the
  first \<open>i\<close>, lead to visited nodes, and the low link of \<open>v\<close> is no larger than the number of any stack
  node below the bound they reach.
\<close>

definition frame_ok :: "nat list list \<Rightarrow> tarjan_state \<Rightarrow> int \<Rightarrow> nat \<Rightarrow> nat \<Rightarrow> bool" where
  "frame_ok adj s b v i \<longleftrightarrow> i \<le> length (adj ! v) \<and>
     (\<forall>x \<in> set (stack s). index s ! v \<le> index s ! x \<longrightarrow> index s ! x < b \<longrightarrow>
       (\<forall>y. (x, y) \<in> arcs adj \<longrightarrow> (x = v \<longrightarrow> y \<in> set (take i (adj ! v))) \<longrightarrow>
         index s ! y \<noteq> -1 \<and> (y \<in> set (stack s) \<longrightarrow> index s ! y < b \<longrightarrow> lowlink s ! v \<le> index s ! y)))"

fun frames_ok :: "nat list list \<Rightarrow> tarjan_state \<Rightarrow> int \<Rightarrow> (nat \<times> nat) list \<Rightarrow> bool" where
  "frames_ok adj s b [] = True"
| "frames_ok adj s b ((v, i) # rest) \<longleftrightarrow> frame_ok adj s b v i \<and> frames_ok adj s (index s ! v) rest"

definition tarjan_inv :: "nat list list \<Rightarrow> (nat \<times> nat) list \<times> tarjan_state \<Rightarrow> bool" where
  "tarjan_inv adj ws \<longleftrightarrow> (case ws of (work, s) \<Rightarrow>
     in_range adj \<and> shape_ok adj s \<and> finished_ok adj s \<and> stack_ok adj (map fst work) s \<and>
     frames_ok adj s (counter s) work)"

section \<open>Visiting a node\<close>

lemma shape_okD:
  assumes "shape_ok adj s"
  shows "length (index s) = length adj" "length (lowlink s) = length adj" "length (on_stack s) = length adj"
    "0 \<le> counter s" "\<And>x. x < length adj \<Longrightarrow> index s ! x \<noteq> -1 \<Longrightarrow> 0 \<le> index s ! x \<and> index s ! x < counter s"
    "distinct (stack s)" "\<And>x. x \<in> set (stack s) \<Longrightarrow> x < length adj \<and> index s ! x \<noteq> -1"
    "\<And>x. x < length adj \<Longrightarrow> on_stack s ! x \<longleftrightarrow> x \<in> set (stack s)"
    "sorted_wrt (\<lambda>x y. index s ! y < index s ! x) (stack s)"
  using assms by (auto simp: shape_ok_def)

lemma on_stack_index:
  assumes "shape_ok adj s" "x \<in> set (stack s)"
  shows "x < length adj" "index s ! x \<noteq> -1" "0 \<le> index s ! x" "index s ! x < counter s"
  using shape_okD [OF assms(1)] assms(2) by auto

lemma visit_simps [simp]:
  "stack (visit w s) = w # stack s" "components (visit w s) = components s" "counter (visit w s) = counter s + 1"
  by (simp_all add: visit_def)

lemma visit_index:
  assumes "shape_ok adj s" "w < length adj"
  shows "index (visit w s) ! x = (if x = w then counter s else index s ! x)"
    "lowlink (visit w s) ! x = (if x = w then counter s else lowlink s ! x)"
  using shape_okD(1,2) [OF assms(1)] assms(2) by (simp_all add: visit_def nth_list_update)

lemma shape_visit:
  assumes "shape_ok adj s" "w < length adj" "index s ! w = -1"
  shows "shape_ok adj (visit w s)"
proof -
  note sh = shape_okD [OF assms(1)]
  have w: "w \<notin> set (stack s)" using sh(7) assms(3) by blast
  have "sorted_wrt (\<lambda>x y. index (visit w s) ! y < index (visit w s) ! x) (stack (visit w s))"
    using sh(5,7,9) w by (auto simp: visit_index [OF assms(1,2)] intro: sorted_wrt_mono_rel [rotated])
  moreover have "\<forall>x < length adj. on_stack (visit w s) ! x \<longleftrightarrow> x \<in> set (stack (visit w s))"
    using sh(3,8) assms(2) by (auto simp: visit_def nth_list_update)
  moreover have "0 \<le> index (visit w s) ! x \<and> index (visit w s) ! x < counter (visit w s)"
    if "x < length adj" "index (visit w s) ! x \<noteq> -1" for x
    using sh(4,5) that by (cases "x = w") (fastforce simp: visit_index [OF assms(1,2)])+
  moreover have "x < length adj \<and> index (visit w s) ! x \<noteq> -1" if "x \<in> set (stack (visit w s))" for x
    using sh(4,7) that assms(2) by (auto simp: visit_index [OF assms(1,2)])
  moreover have "length (index (visit w s)) = length adj" "length (lowlink (visit w s)) = length adj"
    "length (on_stack (visit w s)) = length adj"
    using sh(1-3) by (simp_all add: visit_def)
  ultimately show ?thesis
    using sh(4,6) w unfolding shape_ok_def by auto
qed

lemma finished_visit:
  assumes "shape_ok adj s" "w < length adj" "index s ! w = -1"
  shows "finished adj (visit w s) = finished adj s"
  using assms by (auto simp: finished_def visit_index [OF assms(1,2)])

lemma finished_ok_visit:
  assumes "finished_ok adj s" "shape_ok adj s" "w < length adj" "index s ! w = -1"
  shows "finished_ok adj (visit w s)"
  using assms(1) unfolding finished_ok_def finished_visit [OF assms(2-4)] by simp

lemma frame_ok_visit:
  assumes "frame_ok adj s b v i" "shape_ok adj s" "w < length adj" "index s ! w = -1" "b \<le> counter s" "v \<in> set (stack s)"
  shows "frame_ok adj (visit w s) b v i"
proof -
  have ne: "v \<noteq> w" using on_stack_index(2) [OF assms(2,6)] assms(4) by auto
  show ?thesis
    using assms(1,5) ne on_stack_index(4) [OF assms(2)] shape_okD(4) [OF assms(2)] unfolding frame_ok_def
    by (auto simp: visit_index [OF assms(2,3)])
qed

lemma frames_ok_visit:
  assumes "frames_ok adj s b work" "shape_ok adj s" "w < length adj" "index s ! w = -1" "b \<le> counter s"
    "fst ` set work \<subseteq> set (stack s)"
  shows "frames_ok adj (visit w s) b work"
  using assms(1,5,6)
proof (induction work arbitrary: b)
  case Nil
  then show ?case by simp
next
  case (Cons vi work)
  obtain v i where vi: "vi = (v, i)" by fastforce
  have v: "v \<in> set (stack s)" using Cons.prems(3) vi by simp
  have "v \<noteq> w" "index s ! v \<le> counter s"
    using on_stack_index(2,4) [OF assms(2) v] assms(4) by auto
  then show ?case
    using Cons frame_ok_visit [OF _ assms(2-4) _ v] by (simp add: vi visit_index [OF assms(2,3)])
qed

lemma stack_ok_visit:
  assumes "stack_ok adj path s" "shape_ok adj s" "w < length adj" "index s ! w = -1"
    and "case path of [] \<Rightarrow> stack s = [] | u # _ \<Rightarrow> (u, w) \<in> arcs adj"
  shows "stack_ok adj (w # path) (visit w s)"
proof -
  let ?R = "(arcs adj)\<^sup>*"
  have st: "set path \<subseteq> set (stack s)" "sorted_wrt (\<lambda>x y. index s ! y < index s ! x) path"
    "\<And>x y. x \<in> set (stack s) \<Longrightarrow> y \<in> set (stack s) \<Longrightarrow> index s ! x \<le> index s ! y \<Longrightarrow> (x, y) \<in> ?R"
    "\<And>y. y \<in> set (stack s) \<Longrightarrow> \<exists>x \<in> set path. index s ! x \<le> index s ! y \<and> (y, x) \<in> ?R"
    "\<And>x. x \<in> set path \<Longrightarrow> lowlink s ! x \<le> index s ! x \<and>
        (\<exists>y \<in> set (stack s). index s ! y = lowlink s ! x \<and> (x, y) \<in> ?R)"
    using assms(1) by (auto simp: stack_ok_def)
  note idx = visit_index [OF assms(2,3)]
  note below = on_stack_index(4) [OF assms(2)]
  have w: "w \<notin> set (stack s)" using on_stack_index(2) [OF assms(2)] assms(4) by blast
  have to_w: "(x, w) \<in> ?R" if x: "x \<in> set (stack s)" for x
  proof (cases path)
    case Nil
    then show ?thesis using assms(5) x by simp
  next
    case (Cons u p)
    obtain g where g: "g \<in> set path" "(x, g) \<in> ?R" using st(4) [OF x] by blast
    have "index s ! g \<le> index s ! u" using st(2) g(1) Cons by auto
    then have "(g, u) \<in> ?R" using st(1,3) g(1) Cons by auto
    then show ?thesis using g(2) assms(5) Cons by (auto intro: rtrancl_trans)
  qed
  have "sorted_wrt (\<lambda>x y. index (visit w s) ! y < index (visit w s) ! x) (w # path)"
    using st(1,2) below w by (auto simp: idx intro: sorted_wrt_mono_rel [rotated])
  moreover have "\<forall>x \<in> set (stack (visit w s)). \<forall>y \<in> set (stack (visit w s)).
      index (visit w s) ! x \<le> index (visit w s) ! y \<longrightarrow> (x, y) \<in> ?R"
  proof (intro ballI impI)
    fix x y assume "x \<in> set (stack (visit w s))" "y \<in> set (stack (visit w s))"
      and le: "index (visit w s) ! x \<le> index (visit w s) ! y"
    then have xy: "x = w \<or> x \<in> set (stack s)" "y = w \<or> y \<in> set (stack s)" by auto
    show "(x, y) \<in> ?R"
    proof (cases "x = w")
      case True
      then have "y = w" using le xy(2) below [of y] by (auto simp: idx split: if_splits)
      then show ?thesis using True by simp
    next
      case False
      then show ?thesis using xy to_w st(3) le by (cases "y = w") (auto simp: idx)
    qed
  qed
  moreover have "\<forall>y \<in> set (stack (visit w s)). \<exists>x \<in> set (w # path).
      index (visit w s) ! x \<le> index (visit w s) ! y \<and> (y, x) \<in> ?R"
  proof
    fix y assume y: "y \<in> set (stack (visit w s))"
    show "\<exists>x \<in> set (w # path). index (visit w s) ! x \<le> index (visit w s) ! y \<and> (y, x) \<in> ?R"
    proof (cases "y = w")
      case False
      then obtain x where "x \<in> set path" "index s ! x \<le> index s ! y" "(y, x) \<in> ?R"
        using y st(4) [of y] by auto
      then show ?thesis using False st(1) w by (auto simp: idx intro!: bexI [of _ x])
    qed simp
  qed
  moreover have "\<forall>x \<in> set (w # path). lowlink (visit w s) ! x \<le> index (visit w s) ! x \<and>
      (\<exists>y \<in> set (stack (visit w s)). index (visit w s) ! y = lowlink (visit w s) ! x \<and> (x, y) \<in> ?R)"
  proof
    fix x assume x: "x \<in> set (w # path)"
    show "lowlink (visit w s) ! x \<le> index (visit w s) ! x \<and>
      (\<exists>y \<in> set (stack (visit w s)). index (visit w s) ! y = lowlink (visit w s) ! x \<and> (x, y) \<in> ?R)"
    proof (cases "x = w")
      case True
      then show ?thesis by (simp add: idx)
    next
      case False
      then obtain y where "lowlink s ! x \<le> index s ! x" "y \<in> set (stack s)" "index s ! y = lowlink s ! x" "(x, y) \<in> ?R"
        using x st(5) [of x] by auto
      then show ?thesis using False w by (auto simp: idx intro!: bexI [of _ y])
    qed
  qed
  ultimately show ?thesis using st(1) unfolding stack_ok_def by auto
qed

section \<open>Following an arc\<close>

lemma lower_link_simps [simp]:
  "index (lower_link u k s) = index s" "stack (lower_link u k s) = stack s" "on_stack (lower_link u k s) = on_stack s"
  "components (lower_link u k s) = components s" "counter (lower_link u k s) = counter s"
  "length (lowlink (lower_link u k s)) = length (lowlink s)"
  by (simp_all add: lower_link_def)

lemma lower_link_nth:
  "u < length (lowlink s) \<Longrightarrow> lowlink (lower_link u k s) ! x = (if x = u then min (lowlink s ! u) k else lowlink s ! x)"
  by (simp add: lower_link_def)

lemma lower_link_le: "lowlink (lower_link u k s) ! x \<le> lowlink s ! x"
  by (cases "u < length (lowlink s)"; cases "x = u") (simp_all add: lower_link_def list_update_beyond)

lemma shape_ok_lower [simp]: "shape_ok adj (lower_link u k s) = shape_ok adj s"
  by (simp add: shape_ok_def)

lemma finished_ok_lower [simp]: "finished_ok adj (lower_link u k s) = finished_ok adj s"
  by (simp add: finished_ok_def finished_def)

lemma frame_ok_lower: "frame_ok adj s b v i \<Longrightarrow> frame_ok adj (lower_link u k s) b v i"
  unfolding frame_ok_def using order_trans [OF lower_link_le] by simp

lemma frames_ok_lower: "frames_ok adj s b work \<Longrightarrow> frames_ok adj (lower_link u k s) b work"
  by (induction work arbitrary: b) (auto intro: frame_ok_lower)

lemma stack_ok_lower:
  assumes "stack_ok adj path s" "shape_ok adj s" "u < length adj"
    "y \<in> set (stack s)" "index s ! y = k" "(u, y) \<in> (arcs adj)\<^sup>*"
  shows "stack_ok adj path (lower_link u k s)"
proof -
  have "lowlink (lower_link u k s) ! x \<le> index s ! x \<and>
      (\<exists>y \<in> set (stack s). index s ! y = lowlink (lower_link u k s) ! x \<and> (x, y) \<in> (arcs adj)\<^sup>*)"
    if "lowlink s ! x \<le> index s ! x \<and> (\<exists>y \<in> set (stack s). index s ! y = lowlink s ! x \<and> (x, y) \<in> (arcs adj)\<^sup>*)" for x
    using that assms(3-6) shape_okD(2) [OF assms(2)] by (auto simp: lower_link_nth min_def)
  then show ?thesis using assms(1) unfolding stack_ok_def by simp
qed

lemma frame_ok_advance:
  assumes "frame_ok adj s b v i" "i < length (adj ! v)" "w = adj ! v ! i" "index s ! w \<noteq> -1"
    "w \<in> set (stack s) \<Longrightarrow> index s ! w < b \<Longrightarrow> lowlink s ! v \<le> index s ! w"
  shows "frame_ok adj s b v (i + 1)"
  using assms unfolding frame_ok_def by (auto simp: take_Suc_conv_app_nth)

section \<open>Closing a node\<close>

lemma pop_loop_split:
  assumes "v \<notin> set pre"
  shows "pop_loop v (pre @ v # post) flags c =
    (post, fold (\<lambda>w f. f[w := False]) (pre @ [v]) flags, c @ pre @ [v])"
  using assms by (induction pre arbitrary: flags c) auto

lemma clear_flags:
  "x < length flags \<Longrightarrow> fold (\<lambda>w f. f[w := False]) ws flags ! x \<longleftrightarrow> flags ! x \<and> x \<notin> set ws"
  "length (fold (\<lambda>w f. f[w := False]) ws flags) = length flags"
proof (induction ws arbitrary: flags)
  case (Cons w ws)
  {
    case 1
    then show ?case using Cons.IH(1) [of "flags[w := False]"] by (cases "w = x") auto
  next
    case 2
    then show ?case using Cons.IH(2) by simp
  }
qed simp_all

definition popped :: "nat list \<Rightarrow> nat list \<Rightarrow> tarjan_state \<Rightarrow> tarjan_state" where
  "popped c post s = s\<lparr>stack := post, on_stack := fold (\<lambda>w f. f[w := False]) c (on_stack s), components := components s @ [c]\<rparr>"

lemma popped_simps [simp]:
  "index (popped c post s) = index s" "lowlink (popped c post s) = lowlink s" "counter (popped c post s) = counter s"
  "stack (popped c post s) = post" "components (popped c post s) = components s @ [c]"
  by (simp_all add: popped_def)

lemma pop_scc_popped: "stack s = pre @ v # post \<Longrightarrow> v \<notin> set pre \<Longrightarrow> pop_scc v s = popped (pre @ [v]) post s"
  by (simp add: pop_scc_def popped_def pop_loop_split)

lemma shape_popped:
  assumes "shape_ok adj s" "stack s = c @ post"
  shows "shape_ok adj (popped c post s)"
  using shape_okD [OF assms(1)] assms(2) unfolding shape_ok_def
  by (auto simp: popped_def clear_flags sorted_wrt_append)

lemma finished_popped:
  assumes "shape_ok adj s" "stack s = c @ post"
  shows "finished adj (popped c post s) = finished adj s \<union> set c"
  using shape_okD [OF assms(1)] assms(2) by (auto simp: finished_def)

lemma frames_ok_popped:
  assumes "frames_ok adj s b work" "stack s = c @ post"
  shows "frames_ok adj (popped c post s) b work"
  using assms(1)
proof (induction work arbitrary: b)
  case (Cons vi work)
  then show ?case using assms(2) by (cases vi) (auto simp: frame_ok_def)
qed simp

text \<open>What the top frame says when its arcs are exhausted.\<close>

lemma top_frame:
  assumes "tarjan_inv adj ((v, i) # rest, s)" "\<not> i < length (adj ! v)" "x \<in> set (stack s)" "index s ! v \<le> index s ! x"
    "(x, y) \<in> arcs adj"
  shows "index s ! y \<noteq> -1" "y \<in> set (stack s) \<Longrightarrow> lowlink s ! v \<le> index s ! y"
proof -
  have f: "frame_ok adj s (counter s) v i" and sh: "shape_ok adj s"
    using assms(1) by (auto simp: tarjan_inv_def)
  have "take i (adj ! v) = adj ! v" using assms(2) by simp
  moreover have "x = v \<longrightarrow> y \<in> set (adj ! v)" using assms(5) by (auto simp: arcs_def)
  ultimately show "index s ! y \<noteq> -1" "y \<in> set (stack s) \<Longrightarrow> lowlink s ! v \<le> index s ! y"
    using f assms(3-5) on_stack_index(4) [OF sh] unfolding frame_ok_def by auto
qed

lemma scc_closed:
  assumes "\<And>x y. x \<in> c \<Longrightarrow> (x, y) \<in> r \<Longrightarrow> y \<in> c \<union> d" "\<And>x y. x \<in> d \<Longrightarrow> (x, y) \<in> r \<Longrightarrow> y \<in> d" "c \<inter> d = {}"
    "\<And>x y. x \<in> c \<Longrightarrow> y \<in> c \<Longrightarrow> (x, y) \<in> r\<^sup>*" "x \<in> c"
  shows "c = scc_of r x"
proof
  show "c \<subseteq> scc_of r x" using assms(4,5) by (auto simp: scc_of_def)
next
  have stay: "z \<in> d" if "(y, z) \<in> r\<^sup>*" "y \<in> d" for y z
    using that by (induction rule: rtrancl_induct) (auto intro: assms(2))
  have leave: "z \<in> c \<union> d" if "(x, z) \<in> r\<^sup>*" for z
    using that by (induction rule: rtrancl_induct) (use assms(1,2,5) in blast)+
  show "scc_of r x \<subseteq> c"
    using leave stay assms(3,5) unfolding scc_of_def by blast
qed

lemma stack_okD:
  assumes "stack_ok adj path s"
  shows "set path \<subseteq> set (stack s)" "sorted_wrt (\<lambda>x y. index s ! y < index s ! x) path"
    "\<And>x y. x \<in> set (stack s) \<Longrightarrow> y \<in> set (stack s) \<Longrightarrow> index s ! x \<le> index s ! y \<Longrightarrow> (x, y) \<in> (arcs adj)\<^sup>*"
    "\<And>y. y \<in> set (stack s) \<Longrightarrow> \<exists>x \<in> set path. index s ! x \<le> index s ! y \<and> (y, x) \<in> (arcs adj)\<^sup>*"
    "\<And>x. x \<in> set path \<Longrightarrow> lowlink s ! x \<le> index s ! x \<and>
        (\<exists>y \<in> set (stack s). index s ! y = lowlink s ! x \<and> (x, y) \<in> (arcs adj)\<^sup>*)"
  using assms by (auto simp: stack_ok_def)

lemma tarjan_invD:
  assumes "tarjan_inv adj (work, s)"
  shows "in_range adj" "shape_ok adj s" "finished_ok adj s" "stack_ok adj (map fst work) s" "frames_ok adj s (counter s) work"
  using assms by (auto simp: tarjan_inv_def)

lemma arcs_range: "in_range adj \<Longrightarrow> (x, y) \<in> arcs adj \<Longrightarrow> x < length adj \<and> y < length adj"
  by (auto simp: arcs_def in_range_def)

lemma frames_ok_bound: "frames_ok adj s b work \<Longrightarrow> b' = b \<Longrightarrow> frames_ok adj s b' work"
  by simp

text \<open>The bound of the frame below a closed one grows from the number of the closed node to its bound.\<close>

lemma frames_ok_root:
  assumes "frames_ok adj s n work" "\<forall>x \<in> set (stack s). index s ! x < n" "n \<le> b"
  shows "frames_ok adj s b work"
proof (cases work)
  case (Cons vi rest)
  then show ?thesis using assms by (cases vi) (auto simp: frame_ok_def)
qed simp

lemma close_root:
  assumes inv: "tarjan_inv adj ((v, i) # rest, s)" and last: "\<not> i < length (adj ! v)" and root: "lowlink s ! v = index s ! v"
  shows "tarjan_inv adj (rest, pop_scc v s)" "\<forall>x \<in> set (map fst rest). lowlink s ! x \<le> index s ! v"
proof -
  note inv' = tarjan_invD [OF inv]
  note sh = shape_okD [OF inv'(2)] and st = stack_okD [OF inv'(4), simplified]
  have v: "v \<in> set (stack s)" using st(1) by simp
  then obtain pre post where split: "stack s = pre @ v # post" by (meson split_list)
  then have vpre: "v \<notin> set pre" using sh(6) by simp
  define c where "c = pre @ [v]"
  have stk: "stack s = c @ post" by (simp add: c_def split)
  have pop: "pop_scc v s = popped c post s" using pop_scc_popped [OF split vpre] by (simp add: c_def)
  have high: "index s ! v \<le> index s ! x" if "x \<in> set c" for x
    using sh(9) that unfolding c_def split by (auto simp: sorted_wrt_append)
  have low: "index s ! x < index s ! v" if "x \<in> set post" for x
    using sh(9) that unfolding split by (auto simp: sorted_wrt_append)
  have sub: "set c \<subseteq> set (stack s)" "set post \<subseteq> set (stack s)" by (auto simp: stk)
  have in_c: "x \<in> set c \<longleftrightarrow> x \<in> set (stack s) \<and> index s ! v \<le> index s ! x" for x
    using high low unfolding stk by force
  have grey: "x \<in> set (map fst rest) \<Longrightarrow> index s ! x < index s ! v" for x using st(2) by auto
  have owner: "\<exists>x \<in> set (map fst rest). index s ! x \<le> index s ! y \<and> (y, x) \<in> (arcs adj)\<^sup>*" if "y \<in> set post" for y
    using st(4) [of y] low [OF that] sub(2) that by auto
  have to_v: "(x, v) \<in> (arcs adj)\<^sup>*" if x: "x \<in> set c" for x
  proof -
    obtain g where "g = v \<or> g \<in> set (map fst rest)" "(x, g) \<in> (arcs adj)\<^sup>*"
      using st(4) [of x] x sub(1) by auto
    moreover then have "(g, v) \<in> (arcs adj)\<^sup>*"
      using st(3) [of g v] grey [of g] v st(1) by (cases "g = v") (simp_all, blast)
    ultimately show ?thesis by (blast intro: rtrancl_trans)
  qed
  have conn: "(x, y) \<in> (arcs adj)\<^sup>*" if "x \<in> set c" "y \<in> set c" for x y
    using to_v [OF that(1)] st(3) [of v y] that(2) high [OF that(2)] v sub(1) by (auto intro: rtrancl_trans)
  have out: "y \<in> set c \<union> finished adj s" if "x \<in> set c" "(x, y) \<in> arcs adj" for x y
    using top_frame [OF inv last, of x y] that high [OF that(1)] sub(1) root in_c arcs_range [OF inv'(1) that(2)]
    by (auto simp: finished_def)
  have fin: "y \<in> finished adj s" if "x \<in> finished adj s" "(x, y) \<in> arcs adj" for x y
    using inv'(3) that by (auto simp: finished_ok_def)
  have disj: "set c \<inter> finished adj s = {}" using sub(1) by (auto simp: finished_def)
  have scc: "set c = scc_of (arcs adj) x" if "x \<in> set c" for x
    by (rule scc_closed [of _ _ "finished adj s"]) (use out fin disj conn that in blast)+
  have "finished_ok adj (popped c post s)"
    using inv'(3) out fin disj scc sh(6) unfolding finished_ok_def finished_popped [OF inv'(2) stk]
    by (auto simp: stk c_def)
  moreover have "shape_ok adj (popped c post s)" by (rule shape_popped [OF inv'(2) stk])
  moreover have "stack_ok adj (map fst rest) (popped c post s)"
  proof -
    have "x \<in> set post" if "x \<in> set (map fst rest)" for x
      using st(1) that grey [OF that] high [of x] unfolding stk by force
    moreover have "\<exists>y \<in> set post. index s ! y = lowlink s ! x \<and> (x, y) \<in> (arcs adj)\<^sup>*" if x: "x \<in> set (map fst rest)" for x
    proof -
      obtain y where y: "lowlink s ! x \<le> index s ! x" "y \<in> set (stack s)" "index s ! y = lowlink s ! x" "(x, y) \<in> (arcs adj)\<^sup>*"
        using st(5) [of x] x by auto
      then have "y \<notin> set c" using grey [OF x] high [of y] by auto
      then show ?thesis using y by (auto simp: stk)
    qed
    moreover have "(x, y) \<in> (arcs adj)\<^sup>*" if "x \<in> set post" "y \<in> set post" "index s ! x \<le> index s ! y" for x y
      using st(3) that sub(2) by blast
    ultimately show ?thesis
      using st(2,5) owner unfolding stack_ok_def by auto
  qed
  moreover have "frames_ok adj (popped c post s) (counter s) rest"
  proof (rule frames_ok_root)
    show "frames_ok adj (popped c post s) (index s ! v) rest"
      using frames_ok_popped [OF _ stk] inv'(5) by simp
    show "\<forall>x \<in> set (stack (popped c post s)). index (popped c post s) ! x < index s ! v"
      using low by simp
    show "index s ! v \<le> counter s"
      using on_stack_index(4) [OF inv'(2) v] by simp
  qed
  ultimately show "tarjan_inv adj (rest, pop_scc v s)"
    using inv'(1) by (simp add: tarjan_inv_def pop)
  show "\<forall>x \<in> set (map fst rest). lowlink s ! x \<le> index s ! v"
  proof
    fix x assume x: "x \<in> set (map fst rest)"
    then have "lowlink s ! x \<le> index s ! x" using st(5) [of x] by simp
    then show "lowlink s ! x \<le> index s ! v" using grey [OF x] by linarith
  qed
qed

lemma close_inner:
  assumes inv: "tarjan_inv adj ((v, i) # rest, s)" and last: "\<not> i < length (adj ! v)" and inner: "lowlink s ! v \<noteq> index s ! v"
  shows "\<exists>p j rest'. rest = (p, j) # rest' \<and> tarjan_inv adj (rest, lower_link p (lowlink s ! v) s)"
proof -
  note inv' = tarjan_invD [OF inv]
  note sh = shape_okD [OF inv'(2)] and st = stack_okD [OF inv'(4), simplified]
  have v: "v \<in> set (stack s)" using st(1) by simp
  obtain y where y: "lowlink s ! v < index s ! v" "y \<in> set (stack s)" "index s ! y = lowlink s ! v" "(v, y) \<in> (arcs adj)\<^sup>*"
    using st(5) [of v] inner by auto
  obtain g where "g = v \<or> g \<in> set (map fst rest)" "index s ! g \<le> index s ! y" "(y, g) \<in> (arcs adj)\<^sup>*"
    using st(4) [OF y(2)] by auto
  then have g: "g \<in> set (map fst rest)" "index s ! g < index s ! v" "(v, g) \<in> (arcs adj)\<^sup>*"
    using y by (auto intro: rtrancl_trans)
  then obtain p j rest' where rest: "rest = (p, j) # rest'" by (cases rest) auto
  have p: "p \<in> set (stack s)" "index s ! p < index s ! v" using st(1,2) rest by auto
  let ?s = "lower_link p (lowlink s ! v) s"
  have plen: "p < length adj" "p < length (lowlink s)" using on_stack_index(1) [OF inv'(2) p(1)] sh(2) by auto
  have "stack_ok adj (map fst rest) s"
  proof -
    have "\<exists>x \<in> set (map fst rest). index s ! x \<le> index s ! z \<and> (z, x) \<in> (arcs adj)\<^sup>*" if z: "z \<in> set (stack s)" for z
    proof -
      obtain x where "x = v \<or> x \<in> set (map fst rest)" "index s ! x \<le> index s ! z" "(z, x) \<in> (arcs adj)\<^sup>*"
        using st(4) [OF z] by auto
      then show ?thesis using g rtrancl_trans [of z v "arcs adj" g] order_trans [of "index s ! g" "index s ! v" "index s ! z"]
        by (cases "x = v") (meson less_imp_le, blast)
    qed
    then show ?thesis using inv'(4) unfolding stack_ok_def by simp
  qed
  then have "stack_ok adj (map fst rest) ?s"
    using st(3) [of p v] p v y by (intro stack_ok_lower [OF _ inv'(2) plen(1) y(2,3)]) (auto intro: rtrancl_trans)
  moreover have "frame_ok adj ?s (counter s) p j"
  proof -
    have f: "frame_ok adj s (index s ! v) p j" using inv'(5) rest by simp
    have le: "lowlink ?s ! p \<le> lowlink s ! p" "lowlink ?s ! p \<le> lowlink s ! v" using plen(2) by (simp_all add: lower_link_nth)
    have "index s ! b \<noteq> -1 \<and> (b \<in> set (stack s) \<longrightarrow> lowlink ?s ! p \<le> index s ! b)"
      if a: "a \<in> set (stack s)" "index s ! p \<le> index s ! a" "(a, b) \<in> arcs adj" "a = p \<longrightarrow> b \<in> set (take j (adj ! p))" for a b
    proof (cases "index s ! v \<le> index s ! a")
      case True
      then show ?thesis using top_frame [OF inv last a(1) _ a(3)] le(2) by auto
    next
      case False
      then have "index s ! b \<noteq> -1 \<and> (b \<in> set (stack s) \<longrightarrow> index s ! b < index s ! v \<longrightarrow> lowlink s ! p \<le> index s ! b)"
        using f a unfolding frame_ok_def by auto
      then show ?thesis using le y(1) by (cases "index s ! b < index s ! v") auto
    qed
    then show ?thesis using f unfolding frame_ok_def by simp
  qed
  moreover have "frames_ok adj ?s (index s ! p) rest'"
    using inv'(5) rest by (auto intro: frames_ok_lower)
  ultimately show ?thesis
    using inv'(1-3) rest by (simp add: tarjan_inv_def)
qed

lemma lower_link_id: "lowlink s ! u \<le> k \<Longrightarrow> lower_link u k s = s"
  by (cases "u < length (lowlink s)") (simp_all add: lower_link_def min_def list_update_beyond)

lemma pop_scc_lowlink: "v \<in> set (stack s) \<Longrightarrow> lowlink (pop_scc v s) = lowlink s"
  using split_list_first [of v "stack s"] pop_scc_popped [of s _ v] by auto

lemma visit_next:
  assumes inv: "tarjan_inv adj ((v, i) # rest, s)" and i: "i < length (adj ! v)" and w: "index s ! (adj ! v ! i) = -1"
  shows "tarjan_inv adj ((adj ! v ! i, 0) # (v, i + 1) # rest, visit (adj ! v ! i) s)"
proof -
  let ?w = "adj ! v ! i" and ?s = "visit (adj ! v ! i) s"
  note inv' = tarjan_invD [OF inv]
  note st = stack_okD [OF inv'(4), simplified]
  have v: "v \<in> set (stack s)" "v < length adj" using st(1) on_stack_index(1) [OF inv'(2)] by auto
  then have arc: "(v, ?w) \<in> arcs adj" using i by (simp add: arcs_def)
  then have wl: "?w < length adj" using arcs_range [OF inv'(1)] by blast
  note idx = visit_index [OF inv'(2) wl]
  have f: "frame_ok adj s (counter s) v i" "frames_ok adj s (index s ! v) rest" using inv'(5) by auto
  have vw: "v \<noteq> ?w" using on_stack_index(2) [OF inv'(2) v(1)] w by auto
  have c: "0 \<le> counter s" using shape_okD(4) [OF inv'(2)] .
  have "frame_ok adj ?s (counter s) v (i + 1)"
    by (rule frame_ok_advance [OF frame_ok_visit [OF f(1) inv'(2) wl w order_refl v(1)] i refl])
      (use c in \<open>simp_all add: idx\<close>)
  moreover have "frames_ok adj ?s (index s ! v) rest"
    using frames_ok_visit [OF f(2) inv'(2) wl w] st(1) on_stack_index(4) [OF inv'(2) v(1)] by auto
  moreover have "frame_ok adj ?s (counter s + 1) ?w 0"
    using on_stack_index(4) [OF inv'(2)] by (fastforce simp: frame_ok_def idx)
  moreover have "stack_ok adj (?w # v # map fst rest) ?s"
    using stack_ok_visit [OF inv'(4,2) wl w] arc by simp
  ultimately show ?thesis
    using inv'(1) shape_visit [OF inv'(2) wl w] finished_ok_visit [OF inv'(3,2) wl w] vw
    by (simp add: tarjan_inv_def idx)
qed

lemma tarjan_inv_step:
  assumes inv: "tarjan_inv adj (work, s)"
  shows "tarjan_inv adj (dfs_step adj (work, s))"
proof (cases work)
  case Nil
  then show ?thesis using assms by (simp add: dfs_step_def)
next
  case (Cons vi rest)
  obtain v i where vi: "vi = (v, i)" by fastforce
  note inv1 = inv [unfolded Cons vi]
  note inv' = tarjan_invD [OF inv1]
  note st = stack_okD [OF inv'(4), simplified]
  have v: "v \<in> set (stack s)" "v < length adj" using st(1) on_stack_index(1) [OF inv'(2)] by auto
  show ?thesis
  proof (cases "i < length (adj ! v)")
    case True
    let ?w = "adj ! v ! i"
    have arc: "(v, ?w) \<in> arcs adj" using True v(2) by (simp add: arcs_def)
    then have wl: "?w < length adj" using arcs_range [OF inv'(1)] by blast
    have f: "frame_ok adj s (counter s) v i" "frames_ok adj s (index s ! v) rest" using inv'(5) by auto
    consider "index s ! ?w = -1" | "index s ! ?w \<noteq> -1" "?w \<in> set (stack s)" | "index s ! ?w \<noteq> -1" "?w \<notin> set (stack s)" by blast
    then show ?thesis
    proof cases
      case 1
      then show ?thesis using visit_next [OF inv1 True] True by (simp add: dfs_step_def Cons vi Let_def)
    next
      case 2
      let ?s = "lower_link v (index s ! ?w) s"
      have "lowlink ?s ! v \<le> index s ! ?w" using v(2) shape_okD(2) [OF inv'(2)] by (simp add: lower_link_nth)
      then have "frame_ok adj ?s (counter s) v (i + 1)"
        using frame_ok_advance [OF frame_ok_lower [OF f(1)] True refl] 2(1) by simp
      then have "tarjan_inv adj ((v, i + 1) # rest, ?s)"
        using inv' stack_ok_lower [OF inv'(4,2) v(2) 2(2) refl] r_into_rtrancl [OF arc] frames_ok_lower [OF f(2)] by (simp add: tarjan_inv_def)
      then show ?thesis using 2 True shape_okD(8) [OF inv'(2) wl] by (simp add: dfs_step_def Cons vi)
    next
      case 3
      then have "frame_ok adj s (counter s) v (i + 1)" using frame_ok_advance [OF f(1) True refl] by simp
      then have "tarjan_inv adj ((v, i + 1) # rest, s)" using inv' f(2) by (simp add: tarjan_inv_def)
      then show ?thesis using 3 True shape_okD(8) [OF inv'(2) wl] by (simp add: dfs_step_def Cons vi)
    qed
  next
    case False
    show ?thesis
    proof (cases "lowlink s ! v = index s ! v")
      case True
      note c = close_root [OF inv1 False True]
      have "case rest of [] \<Rightarrow> True | (p, j) # _ \<Rightarrow> lower_link p (lowlink (pop_scc v s) ! v) (pop_scc v s) = pop_scc v s"
        using c(2) True pop_scc_lowlink [OF v(1)] by (cases rest) (auto intro: lower_link_id)
      then show ?thesis using c(1) False True by (cases rest) (auto simp: dfs_step_def Cons vi)
    next
      case inner: False
      then show ?thesis using close_inner [OF inv1 False inner] False by (auto simp: dfs_step_def Cons vi)
    qed
  qed
qed

section \<open>Termination and the result\<close>

definition dfs_measure :: "nat list list \<Rightarrow> (nat \<times> nat) list \<times> tarjan_state \<Rightarrow> nat" where
  "dfs_measure adj ws = (case ws of (work, s) \<Rightarrow>
     (\<Sum>x < length adj. if index s ! x = -1 then length (adj ! x) + 2 else 0) +
     (\<Sum>(v, i) \<leftarrow> work. length (adj ! v) - i + 1))"

lemma dfs_step_index:
  assumes "tarjan_inv adj (work, s)"
  shows "x < length adj \<Longrightarrow> index s ! x \<noteq> -1 \<Longrightarrow> index (snd (dfs_step adj (work, s))) ! x \<noteq> -1"
proof -
  note sh = shape_okD [OF tarjan_invD(2) [OF assms]]
  have pop: "index (pop_scc v s) = index s" for v by (simp add: pop_scc_def split: prod.splits)
  have vis: "index (visit w s) ! x \<noteq> -1" if "index s ! x \<noteq> -1" "x < length adj" for w
    using that sh(1,4) by (cases "w = x") (auto simp: visit_def)
  assume "x < length adj" "index s ! x \<noteq> -1"
  then show ?thesis
    using vis by (cases work) (auto simp: dfs_step_def Let_def pop split: prod.splits list.splits)
qed

lemma dfs_step_decreases:
  assumes inv: "tarjan_inv adj (work, s)" and ne: "work \<noteq> []"
  shows "dfs_measure adj (dfs_step adj (work, s)) < dfs_measure adj (work, s)"
proof -
  obtain v i rest where work: "work = (v, i) # rest" using ne by (cases work) auto
  note inv' = tarjan_invD [OF inv [unfolded work]]
  have v: "v < length adj" using stack_okD(1) [OF inv'(4)] on_stack_index(1) [OF inv'(2)] by auto
  show ?thesis
  proof (cases "i < length (adj ! v)")
    case True
    let ?w = "adj ! v ! i"
    have wl: "?w < length adj" using True v inv'(1) by (auto simp: in_range_def)
    let ?cost = "\<lambda>s x. if index s ! x = -1 then length (adj ! x) + 2 else 0"
    have "(\<Sum>x < length adj. ?cost (visit ?w s) x) + (length (adj ! ?w) + 2) = (\<Sum>x < length adj. ?cost s x)" if "index s ! ?w = -1"
    proof -
      have "(\<Sum>x \<in> {..<length adj} - {?w}. ?cost (visit ?w s) x) = (\<Sum>x \<in> {..<length adj} - {?w}. ?cost s x)"
        by (rule sum.cong) (auto simp: visit_index [OF inv'(2) wl])
      then show ?thesis
        using that wl shape_okD(4) [OF inv'(2)]
        by (simp add: sum.remove [of "{..<length adj}" ?w] visit_index [OF inv'(2) wl])
    qed
    then show ?thesis using True by (auto simp: dfs_measure_def dfs_step_def work Let_def)
  next
    case False
    have "index (pop_scc v s) = index s" by (simp add: pop_scc_def split: prod.splits)
    then show ?thesis using False by (auto simp: dfs_measure_def dfs_step_def work Let_def split: list.splits prod.splits)
  qed
qed

lemma tarjan_inv_start:
  assumes inv: "tarjan_inv adj ([], s)" and v: "v < length adj" "index s ! v = -1"
  shows "tarjan_inv adj ([(v, 0)], visit v s)"
proof -
  note inv' = tarjan_invD [OF inv]
  have "stack s = []" using stack_okD(4) [OF inv'(4)] by (cases "stack s") auto
  then have "stack_ok adj [v] (visit v s)" "frame_ok adj (visit v s) (counter s + 1) v 0"
    using stack_ok_visit [OF inv'(4,2) v] by (simp_all add: frame_ok_def)
  then show ?thesis
    using inv' shape_visit [OF inv'(2) v] finished_ok_visit [OF inv'(3,2) v] by (simp add: tarjan_inv_def)
qed

lemma dfs_iterative_result:
  assumes inv: "tarjan_inv adj ([], s)" and v: "v < length adj" "index s ! v = -1"
  shows "\<exists>s'. dfs_iterative v adj s = Some s' \<and> tarjan_inv adj ([], s') \<and> index s' ! v \<noteq> -1 \<and>
    (\<forall>x < length adj. index s ! x \<noteq> -1 \<longrightarrow> index s' ! x \<noteq> -1)"
proof -
  let ?s = "visit v s"
  define P where "P ws \<longleftrightarrow> tarjan_inv adj ws \<and> (\<forall>x < length adj. index ?s ! x \<noteq> -1 \<longrightarrow> index (snd ws) ! x \<noteq> -1)" for ws
  have start: "P ([(v, 0)], ?s)" using tarjan_inv_start [OF assms] by (simp add: P_def)
  have step: "P (dfs_step adj ws) \<and> dfs_measure adj (dfs_step adj ws) < dfs_measure adj ws"
    if "P ws" "case ws of (work, _) \<Rightarrow> work \<noteq> []" for ws
    using that tarjan_inv_step dfs_step_index dfs_step_decreases by (cases ws) (auto simp: P_def)
  obtain ws where ws: "while_option (\<lambda>(work, _). work \<noteq> []) (dfs_step adj) ([(v, 0)], ?s) = Some ws"
    using measure_while_option_Some [of P "\<lambda>(work, _). work \<noteq> []" "dfs_step adj" "dfs_measure adj" "([(v, 0)], ?s)"]
      start step by blast
  obtain s' where s': "ws = ([], s')" using while_option_stop [OF ws] by (cases ws) auto
  have "P ws" by (rule while_option_rule [where P = P, OF _ ws start]) (use step in blast)
  then have "tarjan_inv adj ([], s')" "\<forall>x < length adj. index ?s ! x \<noteq> -1 \<longrightarrow> index s' ! x \<noteq> -1"
    by (simp_all add: P_def s')
  moreover have "index ?s ! v \<noteq> -1" "\<forall>x < length adj. index s ! x \<noteq> -1 \<longrightarrow> index ?s ! x \<noteq> -1"
    using shape_okD(4) [OF tarjan_invD(2) [OF inv]] visit_index(1) [OF tarjan_invD(2) [OF inv] v(1)] by auto
  ultimately show ?thesis using v(1) by (simp add: dfs_iterative_def ws s')
qed

lemma visit_all_result:
  assumes "tarjan_inv adj ([], s)" "set vs \<subseteq> {..<length adj}"
  shows "\<exists>s'. visit_all adj vs s = Some s' \<and> tarjan_inv adj ([], s') \<and>
    (\<forall>x < length adj. x \<in> set vs \<or> index s ! x \<noteq> -1 \<longrightarrow> index s' ! x \<noteq> -1)"
  using assms
proof (induction vs arbitrary: s)
  case (Cons v vs)
  show ?case
  proof (cases "index s ! v = -1")
    case True
    obtain s1 where s1: "dfs_iterative v adj s = Some s1" "tarjan_inv adj ([], s1)" "index s1 ! v \<noteq> -1"
        "\<forall>x < length adj. index s ! x \<noteq> -1 \<longrightarrow> index s1 ! x \<noteq> -1"
      using dfs_iterative_result [OF Cons.prems(1) _ True] Cons.prems(2) by auto
    obtain s2 where s2: "visit_all adj vs s1 = Some s2" "tarjan_inv adj ([], s2)"
        "\<forall>x < length adj. x \<in> set vs \<or> index s1 ! x \<noteq> -1 \<longrightarrow> index s2 ! x \<noteq> -1"
      using Cons.IH [OF s1(2)] Cons.prems(2) by auto
    have "\<forall>x < length adj. x \<in> set (v # vs) \<or> index s ! x \<noteq> -1 \<longrightarrow> index s2 ! x \<noteq> -1"
      using s1(3,4) s2(3) by auto
    then show ?thesis using True s1(1) s2(1,2) by simp
  next
    case False
    obtain s2 where s2: "visit_all adj vs s = Some s2" "tarjan_inv adj ([], s2)"
        "\<forall>x < length adj. x \<in> set vs \<or> index s ! x \<noteq> -1 \<longrightarrow> index s2 ! x \<noteq> -1"
      using Cons.IH [OF Cons.prems(1)] Cons.prems(2) by auto
    have "\<forall>x < length adj. x \<in> set (v # vs) \<or> index s ! x \<noteq> -1 \<longrightarrow> index s2 ! x \<noteq> -1"
      using False s2(3) by auto
    then show ?thesis using False s2(1,2) by simp
  qed
qed simp

lemma tarjan_inv_initial:
  assumes "in_range adj"
  shows "tarjan_inv adj ([], initial_state (length adj))"
  using assms
  by (auto simp: tarjan_inv_def shape_ok_def finished_ok_def finished_def stack_ok_def initial_state_def)

lemma tarjan_scc_result:
  assumes "in_range adj"
  shows "\<exists>cs. tarjan_scc adj = Some cs \<and> distinct (concat cs) \<and> set (concat cs) = {..<length adj} \<and>
    (\<forall>c \<in> set cs. c \<noteq> [] \<and> (\<forall>x \<in> set c. set c = scc_of (arcs adj) x))"
proof -
  obtain s where s: "visit_all adj [0..<length adj] (initial_state (length adj)) = Some s" "tarjan_inv adj ([], s)"
      "\<forall>x < length adj. index s ! x \<noteq> -1"
    using visit_all_result [OF tarjan_inv_initial [OF assms], of "[0..<length adj]"]
    by (auto simp: atLeast0LessThan)
  note inv = tarjan_invD [OF s(2)]
  have "stack s = []" using stack_okD(4) [OF inv(4)] by (cases "stack s") auto
  then have "finished adj s = {..<length adj}" using s(3) by (auto simp: finished_def)
  then show ?thesis using inv(3) s(1) by (simp add: tarjan_scc_def finished_ok_def)
qed

end
