(* ===== verification/Semantic_Diff.thy ===== *)
theory Semantic_Diff
  imports Tarjan_Scc Complex_Main "HOL-Library.Word" "HOL-Library.Product_Lexorder"
begin

text \<open>
  \<open>src/semantic_diff.rs\<close>: the comparison of two graph snapshots.  The graph database is a parameter,
  the function from a query to its rows, and so is the iteration order of the hash set of edges.
  Scores are exact rationals where the source has \<open>f64\<close>.
\<close>

section \<open>Constants and types\<close>

definition WEIGHT_DANGLING :: rat where "WEIGHT_DANGLING = 1"
definition WEIGHT_NEW_CYCLE :: rat where "WEIGHT_NEW_CYCLE = 1 / 2"
definition WEIGHT_UNRESOLVED_DELTA :: rat where "WEIGHT_UNRESOLVED_DELTA = 1 / 10"
definition UNRESOLVED_DELTA_MAX :: rat where "UNRESOLVED_DELTA_MAX = 5"
definition REGRESSION_SCORE_CAP :: rat where "REGRESSION_SCORE_CAP = 10"
definition VERDICT_CLEAN_MAX :: rat where "VERDICT_CLEAN_MAX = 1"
definition VERDICT_CONCERNING_MAX :: rat where "VERDICT_CONCERNING_MAX = 5"
definition DETAILS_TRUNCATION :: nat where "DETAILS_TRUNCATION = 100"

definition DIFFABLE_LABELS :: "string list" where
  "DIFFABLE_LABELS =
     [''Function'', ''Method'', ''Struct'', ''Enum'', ''Trait'', ''Module'', ''Constant'', ''TypeAlias'']"

text \<open>A \<open>BTreeMap\<close> from labels to names is the list of its entries in key order.\<close>

type_synonym node_set = "(string \<times> string set) list"
type_synonym edge_triple = "string \<times> string \<times> string"
type_synonym edge_set = "edge_triple set"
type_synonym query = "string \<Rightarrow> (string list list, string) result"

record diff_summary =
  nodes_added :: nat
  nodes_removed :: nat
  edges_added :: nat
  edges_removed :: nat
  dangling_references :: nat
  new_unresolved_delta :: int
  new_cycles :: nat

record snapshot =
  nodes :: node_set
  edges :: edge_set
  unresolved :: "64 word"

datatype diff_error = BeforeMissing | AfterMissing | StoreError string | NoCount | InvalidCount

definition store_err :: "('a, string) result \<Rightarrow> ('a, diff_error) result" where
  "store_err r = (case r of Inl e \<Rightarrow> Err (StoreError e) | Inr x \<Rightarrow> Ok x)"

section \<open>Reading a snapshot\<close>

fun btree_extend :: "string \<Rightarrow> string set \<Rightarrow> node_set \<Rightarrow> node_set" where
  "btree_extend l q [] = [(l, q)]"
| "btree_extend l q ((m, r) # rest) =
     (if l = m then (m, r \<union> q) # rest
      else if l < m then (l, q) # (m, r) # rest
      else (m, r) # btree_extend l q rest)"

definition first_cells :: "string list list \<Rightarrow> string set" where
  "first_cells rows = set (concat (map (\<lambda>row. case row of qn # _ \<Rightarrow> if qn \<noteq> [] then [qn] else [] | [] \<Rightarrow> []) rows))"

fun collect_labels :: "query \<Rightarrow> string list \<Rightarrow> node_set \<Rightarrow> (node_set, diff_error) result" where
  "collect_labels q [] out = Ok out"
| "collect_labels q (label # labels) out =
     and_then (store_err (q (''MATCH (n:'' @ label @ '') RETURN n.qualified_name''))) (\<lambda>rows.
       collect_labels q labels (btree_extend label (first_cells rows) out))"

definition collect_nodes :: "query \<Rightarrow> (node_set, diff_error) result" where
  "collect_nodes q = collect_labels q DIFFABLE_LABELS []"

definition rel_kind :: "string \<Rightarrow> string" where
  "rel_kind rel = takeWhile (\<lambda>c. c \<noteq> CHR ''_'') rel"

definition edge_rows :: "string \<Rightarrow> string list list \<Rightarrow> edge_set" where
  "edge_rows kind rows =
     set (concat (map (\<lambda>row. case row of
         from # to # _ \<Rightarrow> if from = [] \<or> to = [] then [] else [(from, kind, to)]
       | _ \<Rightarrow> []) rows))"

text \<open>The table list and the column test are the constants of \<open>graph_store\<close>.\<close>

fun collect_edges ::
  "(string \<Rightarrow> string \<Rightarrow> bool) \<Rightarrow> query \<Rightarrow> (string \<times> string \<times> string) list \<Rightarrow> (edge_set, diff_error) result" where
  "collect_edges declares q [] = Ok {}"
| "collect_edges declares q ((rel, from_label, to_label) # tables) =
     (if \<not> declares from_label ''qualified_name'' \<or> \<not> declares to_label ''qualified_name''
      then collect_edges declares q tables
      else and_then (store_err (q (''MATCH (a:'' @ from_label @ '')-[:'' @ rel @ '']->(b:'' @ to_label @
               '') RETURN a.qualified_name, b.qualified_name''))) (\<lambda>rows.
           and_then (collect_edges declares q tables) (\<lambda>out. Ok (edge_rows (rel_kind rel) rows \<union> out))))"

definition count_unresolved :: "query \<Rightarrow> (64 word, diff_error) result" where
  "count_unresolved q =
     and_then (store_err (q ''MATCH (i:Import) WHERE i.is_resolved = false OR i.is_resolved IS NULL RETURN count(i)'')) (\<lambda>rows.
       case rows of
         (count # _) # _ \<Rightarrow> (case parse_u64 count of Some n \<Rightarrow> Ok (of_nat n) | None \<Rightarrow> Err InvalidCount)
       | _ \<Rightarrow> Err NoCount)"

section \<open>Differences\<close>

definition node_names :: "node_set \<Rightarrow> string set" where
  "node_names ns = \<Union> (set (map snd ns))"

definition names_of :: "node_set \<Rightarrow> string \<Rightarrow> string set" where
  "names_of ns label = (case map_of ns label of Some s \<Rightarrow> s | None \<Rightarrow> {})"

definition diff_nodes :: "node_set \<Rightarrow> node_set \<Rightarrow> (string \<times> string) list \<times> (string \<times> string) list" where
  "diff_nodes before after =
     (let all_labels = sorted_list_of_set (set (map fst before) \<union> set (map fst after)) in
      (concat (map (\<lambda>l. map (Pair l) (sorted_list_of_set (names_of after l - names_of before l))) all_labels),
       concat (map (\<lambda>l. map (Pair l) (sorted_list_of_set (names_of before l - names_of after l))) all_labels)))"

definition diff_edges :: "edge_set \<Rightarrow> edge_set \<Rightarrow> edge_triple list \<times> edge_triple list" where
  "diff_edges before after = (sorted_list_of_set (after - before), sorted_list_of_set (before - after))"

definition compute_dangling :: "node_set \<Rightarrow> edge_set \<Rightarrow> edge_triple list" where
  "compute_dangling after_nodes after_edges =
     sorted_list_of_set (Set.filter (\<lambda>e. snd (snd e) \<notin> node_names after_nodes) after_edges)"

section \<open>Cycles\<close>

definition add_node :: "string \<Rightarrow> string list \<times> (string \<rightharpoonup> nat) \<Rightarrow> string list \<times> (string \<rightharpoonup> nat)" where
  "add_node qn acc = (case acc of (node_list, idx) \<Rightarrow>
     if idx qn = None then (node_list @ [qn], idx(qn \<mapsto> length node_list)) else (node_list, idx))"

definition number_nodes :: "node_set \<Rightarrow> string list \<times> (string \<rightharpoonup> nat)" where
  "number_nodes ns = fold add_node (concat (map (\<lambda>(_, s). sorted_list_of_set s) ns)) ([], Map.empty)"

definition add_edge :: "(string \<rightharpoonup> nat) \<Rightarrow> edge_triple \<Rightarrow> nat list list \<times> nat set \<Rightarrow> nat list list \<times> nat set" where
  "add_edge idx e acc = (case (e, acc) of ((from, _, to), (adj, loops)) \<Rightarrow>
     (case (idx from, idx to) of
        (Some fi, Some ti) \<Rightarrow>
          if fi = ti then (adj, insert fi loops) else (adj[fi := (adj ! fi) @ [ti]], loops)
      | _ \<Rightarrow> (adj, loops)))"

definition build_adjacency ::
  "(edge_set \<Rightarrow> edge_triple list) \<Rightarrow> node_set \<Rightarrow> edge_set \<Rightarrow> string list \<times> nat list list \<times> nat set" where
  "build_adjacency order ns es =
     (case number_nodes ns of (node_list, idx) \<Rightarrow>
        (case fold (add_edge idx) (order es) (replicate (length node_list) [], {}) of
           (adj, loops) \<Rightarrow> (node_list, adj, loops)))"

definition strongly_connected_cycles ::
  "(edge_set \<Rightarrow> edge_triple list) \<Rightarrow> node_set \<Rightarrow> edge_set \<Rightarrow> string set option" where
  "strongly_connected_cycles order ns es =
     (case build_adjacency order ns es of (node_list, adj, loops) \<Rightarrow>
        map_option (\<lambda>sccs.
            set (map (\<lambda>scc. join_with '','' (sort (map (\<lambda>i. node_list ! i) scc)))
              (filter (\<lambda>scc. \<not> length scc < 2) sccs)) \<union> (\<lambda>i. node_list ! i) ` loops)
          (tarjan_scc adj))"

definition diff_cycle_sets :: "string set \<Rightarrow> string set \<Rightarrow> string list" where
  "diff_cycle_sets before after = sorted_list_of_set (after - before)"

section \<open>Score and verdict\<close>

definition regression_score :: "diff_summary \<Rightarrow> rat" where
  "regression_score s =
     (let dangling = WEIGHT_DANGLING * of_nat (dangling_references s);
          cycles = WEIGHT_NEW_CYCLE * of_nat (new_cycles s);
          unresolved = WEIGHT_UNRESOLVED_DELTA * of_int (max (new_unresolved_delta s) 0);
          unresolved = min unresolved (UNRESOLVED_DELTA_MAX * WEIGHT_UNRESOLVED_DELTA * 10) in
      min (dangling + cycles + unresolved) REGRESSION_SCORE_CAP)"

definition classify_verdict :: "rat \<Rightarrow> string" where
  "classify_verdict score =
     (if score < VERDICT_CLEAN_MAX then ''clean''
      else if score < VERDICT_CONCERNING_MAX then ''concerning'' else ''regression'')"

definition verdict_for_summary :: "diff_summary \<Rightarrow> rat \<Rightarrow> string" where
  "verdict_for_summary summary score =
     (if 0 < new_unresolved_delta summary \<and> score < VERDICT_CLEAN_MAX then ''concerning''
      else classify_verdict score)"

section \<open>The whole comparison\<close>

record diff_details =
  det_nodes_added :: "(string \<times> string) list"
  det_nodes_removed :: "(string \<times> string) list"
  det_edges_added :: "edge_triple list"
  det_edges_removed :: "edge_triple list"
  det_dangling :: "edge_triple list"
  det_new_cycles :: "string list"

record diff_outcome =
  summary :: diff_summary
  score :: rat
  verdict :: string
  details :: diff_details

definition collect ::
  "(string \<Rightarrow> string \<Rightarrow> bool) \<Rightarrow> (string \<times> string \<times> string) list \<Rightarrow> query \<Rightarrow> (snapshot, diff_error) result" where
  "collect declares tables q =
     and_then (collect_nodes q) (\<lambda>ns.
     and_then (collect_edges declares q tables) (\<lambda>es.
     and_then (count_unresolved q) (\<lambda>u. Ok \<lparr>nodes = ns, edges = es, unresolved = u\<rparr>)))"

text \<open>\<open>as i64\<close> and the subtraction wrap at 64 bits.\<close>

definition compare_snapshots :: "(edge_set \<Rightarrow> edge_triple list) \<Rightarrow> snapshot \<Rightarrow> snapshot \<Rightarrow> diff_outcome option" where
  "compare_snapshots order before after =
     (let (added, removed) = diff_nodes (nodes before) (nodes after);
          (e_added, e_removed) = diff_edges (edges before) (edges after);
          dangling = compute_dangling (nodes after) (edges after) in
      Option.bind (strongly_connected_cycles order (nodes before) (edges before)) (\<lambda>cycles_before.
      Option.bind (strongly_connected_cycles order (nodes after) (edges after)) (\<lambda>cycles_after.
        let cycles = diff_cycle_sets cycles_before cycles_after;
            smry = \<lparr>nodes_added = length added, nodes_removed = length removed, edges_added = length e_added,
              edges_removed = length e_removed, dangling_references = length dangling,
              new_unresolved_delta = sint (unresolved after - unresolved before), new_cycles = length cycles\<rparr>;
            sc = regression_score smry in
        Some \<lparr>summary = smry, score = sc, verdict = verdict_for_summary smry sc,
          details = \<lparr>det_nodes_added = take DETAILS_TRUNCATION added, det_nodes_removed = take DETAILS_TRUNCATION removed,
            det_edges_added = take DETAILS_TRUNCATION e_added, det_edges_removed = take DETAILS_TRUNCATION e_removed,
            det_dangling = take DETAILS_TRUNCATION dangling, det_new_cycles = take DETAILS_TRUNCATION cycles\<rparr>\<rparr>)))"

definition diff ::
  "(string \<rightharpoonup> query) \<Rightarrow> (string \<Rightarrow> string \<Rightarrow> bool) \<Rightarrow> (string \<times> string \<times> string) list \<Rightarrow>
   (edge_set \<Rightarrow> edge_triple list) \<Rightarrow> string \<Rightarrow> string \<Rightarrow> (diff_outcome option, diff_error) result" where
  "diff stores declares tables order before_path after_path =
     (case stores before_path of None \<Rightarrow> Err BeforeMissing | Some qb \<Rightarrow>
      (case stores after_path of None \<Rightarrow> Err AfterMissing | Some qa \<Rightarrow>
         and_then (collect declares tables qb) (\<lambda>before.
         and_then (collect declares tables qa) (\<lambda>after.
         Ok (compare_snapshots order before after)))))"

section \<open>The numbering of the nodes\<close>

definition numbering :: "string list \<Rightarrow> (string \<rightharpoonup> nat) \<Rightarrow> bool" where
  "numbering nl idx \<longleftrightarrow> distinct nl \<and> (\<forall>q i. idx q = Some i \<longleftrightarrow> i < length nl \<and> nl ! i = q)"

lemma numbering_add:
  assumes "numbering nl idx" "add_node q (nl, idx) = (nl', idx')"
  shows "numbering nl' idx' \<and> set nl' = insert q (set nl)"
proof -
  have q: "idx q = None \<longleftrightarrow> q \<notin> set nl"
    using assms(1) unfolding numbering_def in_set_conv_nth by (metis not_None_eq)
  show ?thesis
  proof (cases "idx q = None")
    case True
    then have new: "nl' = nl @ [q]" "idx' = idx(q \<mapsto> length nl)" "q \<notin> set nl" "\<And>i. i < length nl \<Longrightarrow> nl ! i \<noteq> q"
      using assms(2) q by (auto simp: add_node_def)
    then show ?thesis using assms(1) unfolding numbering_def by (auto simp: nth_append less_Suc_eq)
  next
    case False
    then show ?thesis using assms q by (auto simp: add_node_def)
  qed
qed

lemma numbering_fold:
  assumes "numbering nl idx" "fold add_node qs (nl, idx) = (nl', idx')"
  shows "numbering nl' idx' \<and> set nl' = set nl \<union> set qs"
  using assms
proof (induction qs arbitrary: nl idx)
  case (Cons q qs)
  obtain nl1 idx1 where a: "add_node q (nl, idx) = (nl1, idx1)" by fastforce
  have n: "numbering nl1 idx1 \<and> set nl1 = insert q (set nl)" by (rule numbering_add [OF Cons.prems(1) a])
  have "numbering nl' idx' \<and> set nl' = set nl1 \<union> set qs"
    by (rule Cons.IH) (use n Cons.prems(2) a in simp_all)
  then show ?case using n by simp
qed simp

lemma number_nodes_result:
  assumes "number_nodes ns = (nl, idx)" "\<forall>(l, s) \<in> set ns. finite s"
  shows "numbering nl idx" "set nl = node_names ns"
proof -
  have "numbering [] Map.empty" by (simp add: numbering_def)
  note n = numbering_fold [OF this assms(1) [unfolded number_nodes_def]]
  have "set (concat (map (\<lambda>(_, s). sorted_list_of_set s) ns)) = node_names ns"
    using assms(2) unfolding node_names_def by (induction ns) auto
  then show "numbering nl idx" "set nl = node_names ns" using n by simp_all
qed

section \<open>The adjacency lists\<close>

lemma add_edge_result:
  assumes "numbering nl idx" "length adj = length nl" "add_edge idx (a, k, b) (adj, loops) = (adj', loops')"
  shows "length adj' = length nl"
    "arcs adj' = arcs adj \<union> {(i, j). i \<noteq> j \<and> idx a = Some i \<and> idx b = Some j}"
    "loops' = loops \<union> {i. idx a = Some i \<and> idx b = Some i}"
proof -
  have "i < length nl" if "idx q = Some i" for q i using assms(1) that by (auto simp: numbering_def)
  then show "length adj' = length nl"
    "arcs adj' = arcs adj \<union> {(i, j). i \<noteq> j \<and> idx a = Some i \<and> idx b = Some j}"
    "loops' = loops \<union> {i. idx a = Some i \<and> idx b = Some i}"
    using assms(2,3)
    by (auto simp: add_edge_def arcs_def nth_list_update split: option.splits if_splits)
qed

lemma add_edges_result:
  assumes "numbering nl idx" "length adj = length nl" "fold (add_edge idx) es (adj, loops) = (adj', loops')"
  shows "length adj' = length nl \<and>
    arcs adj' = arcs adj \<union> {(i, j). i \<noteq> j \<and> (\<exists>(a, k, b) \<in> set es. idx a = Some i \<and> idx b = Some j)} \<and>
    loops' = loops \<union> {i. \<exists>(a, k, b) \<in> set es. idx a = Some i \<and> idx b = Some i}"
  using assms(2,3)
proof (induction es arbitrary: adj loops)
  case (Cons e es)
  obtain a k b where e: "e = (a, k, b)" by (cases e) auto
  obtain adj1 loops1 where s: "add_edge idx (a, k, b) (adj, loops) = (adj1, loops1)" by fastforce
  note one = add_edge_result [OF assms(1) Cons.prems(1) s]
  have "length adj' = length nl \<and>
    arcs adj' = arcs adj1 \<union> {(i, j). i \<noteq> j \<and> (\<exists>(a, k, b) \<in> set es. idx a = Some i \<and> idx b = Some j)} \<and>
    loops' = loops1 \<union> {i. \<exists>(a, k, b) \<in> set es. idx a = Some i \<and> idx b = Some i}"
    by (rule Cons.IH) (use one(1) Cons.prems(2) s e in simp_all)
  then show ?case unfolding one(2,3) e by auto
qed simp

lemma arcs_replicate [simp]: "arcs (replicate n []) = {}"
  by (auto simp: arcs_def)

definition call_relation :: "node_set \<Rightarrow> edge_set \<Rightarrow> (string \<times> string) set" where
  "call_relation ns es = {(a, b). a \<in> node_names ns \<and> b \<in> node_names ns \<and> (\<exists>k. (a, k, b) \<in> es)}"

lemma build_adjacency_result:
  assumes "build_adjacency order ns es = (nl, adj, loops)" "\<forall>(l, s) \<in> set ns. finite s" "set (order es) = es"
  shows "distinct nl" "set nl = node_names ns" "length adj = length nl" "in_range adj"
    "arcs adj = {(i, j). i < length nl \<and> j < length nl \<and> i \<noteq> j \<and> (nl ! i, nl ! j) \<in> call_relation ns es}"
    "loops = {i. i < length nl \<and> (nl ! i, nl ! i) \<in> call_relation ns es}"
proof -
  obtain idx where idx: "number_nodes ns = (nl, idx)" "fold (add_edge idx) (order es) (replicate (length nl) [], {}) = (adj, loops)"
    using assms(1) by (auto simp: build_adjacency_def split: prod.splits)
  note num = number_nodes_result [OF idx(1) assms(2)]
  have i: "idx q = Some i \<longleftrightarrow> i < length nl \<and> nl ! i = q" for q i using num(1) by (simp add: numbering_def)
  have res: "length adj = length nl"
    "arcs adj = {(i, j). i \<noteq> j \<and> (\<exists>(a, k, b) \<in> es. idx a = Some i \<and> idx b = Some j)}"
    "loops = {i. \<exists>(a, k, b) \<in> es. idx a = Some i \<and> idx b = Some i}"
    using add_edges_result [OF num(1) _ idx(2)] assms(3) by simp_all
  show "distinct nl" using num(1) by (simp add: numbering_def)
  show names: "set nl = node_names ns" by (rule num(2))
  show "length adj = length nl" by (rule res(1))
  have member: "x < length nl \<Longrightarrow> nl ! x \<in> node_names ns" for x using nth_mem [of x nl] unfolding names .
  have eq: "(\<exists>(a, k, b) \<in> es. idx a = Some i \<and> idx b = Some j) \<longleftrightarrow>
      i < length nl \<and> j < length nl \<and> (nl ! i, nl ! j) \<in> call_relation ns es" for i j
  proof -
    have "(\<exists>(a, k, b) \<in> es. idx a = Some i \<and> idx b = Some j) \<longleftrightarrow>
        (\<exists>a k b. (a, k, b) \<in> es \<and> idx a = Some i \<and> idx b = Some j)"
      by (simp add: Bex_def)
    also have "\<dots> \<longleftrightarrow> i < length nl \<and> j < length nl \<and> (\<exists>k. (nl ! i, k, nl ! j) \<in> es)"
      unfolding i by blast
    finally show ?thesis unfolding call_relation_def using member by simp blast
  qed
  show arcs: "arcs adj = {(i, j). i < length nl \<and> j < length nl \<and> i \<noteq> j \<and> (nl ! i, nl ! j) \<in> call_relation ns es}"
    unfolding res(2) eq by blast
  show "loops = {i. i < length nl \<and> (nl ! i, nl ! i) \<in> call_relation ns es}"
    unfolding res(3) eq by blast
  have "v < length adj" if "u < length adj" "v \<in> set (adj ! u)" for u v
  proof -
    have "(u, v) \<in> arcs adj" using that by (simp add: arcs_def)
    then show ?thesis unfolding arcs by (simp add: res(1))
  qed
  then show "in_range adj" by (simp add: in_range_def)
qed

section \<open>Components through the numbering\<close>

lemma scc_of_image:
  assumes f: "inj_on f A" "f ` A = Q" and r: "r \<subseteq> A \<times> A" "\<And>i j. i \<in> A \<Longrightarrow> j \<in> A \<Longrightarrow> i \<noteq> j \<Longrightarrow> (i, j) \<in> r \<longleftrightarrow> (f i, f j) \<in> R"
    and R: "R \<subseteq> Q \<times> Q" and x: "x \<in> A"
  shows "f ` scc_of r x = scc_of R (f x)"
proof -
  have fwd: "(f i, f j) \<in> R\<^sup>*" if "(i, j) \<in> r\<^sup>*" for i j
    using that
  proof (induction rule: rtrancl_induct)
    case (step j k)
    then have "j \<in> A" "k \<in> A" using r(1) by auto
    then have "(f j, f k) \<in> R\<^sup>*" using r(2) [of j k] step.hyps(2) by (cases "j = k") auto
    with step.IH show ?case by simp
  qed simp
  have bwd: "\<exists>j \<in> A. b = f j \<and> (i, j) \<in> r\<^sup>*" if "(f i, b) \<in> R\<^sup>*" "i \<in> A" for i b
    using that(1)
  proof (induction rule: rtrancl_induct)
    case base
    then show ?case using that(2) by blast
  next
    case (step b c)
    then obtain j where j: "j \<in> A" "b = f j" "(i, j) \<in> r\<^sup>*" by blast
    obtain k where k: "k \<in> A" "c = f k" using step.hyps(2) R f(2) by blast
    have "(j, k) \<in> r\<^sup>*" using r(2) [OF j(1) k(1)] step.hyps(2) j(2) k(2) by (cases "j = k") auto
    then show ?case using j k by (auto intro: rtrancl_trans)
  qed
  show ?thesis
  proof
    show "f ` scc_of r x \<subseteq> scc_of R (f x)" using fwd by (auto simp: scc_of_def)
  next
    show "scc_of R (f x) \<subseteq> f ` scc_of r x"
    proof
      fix b assume b: "b \<in> scc_of R (f x)"
      then obtain j where j: "j \<in> A" "b = f j" "(x, j) \<in> r\<^sup>*" using bwd x unfolding scc_of_def by blast
      obtain x' where "x' \<in> A" "f x = f x'" "(j, x') \<in> r\<^sup>*" using bwd [of j "f x"] b j(1,2) by (auto simp: scc_of_def)
      then have "(j, x) \<in> r\<^sup>*" using f(1) x by (auto dest: inj_onD)
      then show "b \<in> f ` scc_of r x" using j by (auto simp: scc_of_def)
    qed
  qed
qed

section \<open>The cycles of a graph\<close>

text \<open>The classes of mutually reachable names with at least two members.\<close>

definition cycle_classes :: "node_set \<Rightarrow> edge_set \<Rightarrow> string set set" where
  "cycle_classes ns es = {c. \<exists>q \<in> node_names ns. c = scc_of (call_relation ns es) q \<and> 2 \<le> card c}"

definition cycle_name :: "string set \<Rightarrow> string" where
  "cycle_name c = join_with '','' (sorted_list_of_set c)"

definition cycle_names :: "node_set \<Rightarrow> edge_set \<Rightarrow> string set" where
  "cycle_names ns es = cycle_name ` cycle_classes ns es \<union> {q. (q, q) \<in> call_relation ns es}"

lemma cycles_result:
  assumes "\<forall>(l, s) \<in> set ns. finite s" "set (order es) = es"
  shows "strongly_connected_cycles order ns es = Some (cycle_names ns es)"
proof -
  obtain nl adj loops where b: "build_adjacency order ns es = (nl, adj, loops)" by (metis prod_cases3)
  note adj = build_adjacency_result [OF b assms]
  let ?f = "\<lambda>i. nl ! i" and ?A = "{..<length nl}" and ?R = "call_relation ns es"
  obtain cs where cs: "tarjan_scc adj = Some cs" "distinct (concat cs)" "set (concat cs) = {..<length adj}"
      "\<And>c x. c \<in> set cs \<Longrightarrow> x \<in> set c \<Longrightarrow> set c = scc_of (arcs adj) x" "\<And>c. c \<in> set cs \<Longrightarrow> c \<noteq> []"
    using tarjan_scc_result [OF adj(4)] by metis
  have inj: "inj_on ?f ?A" using adj(1) by (simp add: inj_on_def nth_eq_iff_index_eq)
  have img: "?f ` ?A = node_names ns" using adj(2) by (auto simp: set_conv_nth)
  have sub: "?R \<subseteq> node_names ns \<times> node_names ns" by (auto simp: call_relation_def)
  have scc: "?f ` scc_of (arcs adj) x = scc_of ?R (nl ! x)" if "x < length nl" for x
    by (rule scc_of_image [OF inj img _ _ sub]) (use adj(5) that in auto)
  have c_in: "set c \<subseteq> ?A" if "c \<in> set cs" for c using cs(3) that adj(3) by auto
  have dist: "distinct c" if "c \<in> set cs" for c using cs(2) that by (simp add: distinct_concat_iff)
  have card: "card (?f ` set c) = length c" if "c \<in> set cs" for c
    using card_image [OF inj_on_subset [OF inj c_in [OF that]]] distinct_card [OF dist [OF that]] by simp
  have name: "sort (map ?f c) = sorted_list_of_set (?f ` set c)" if "c \<in> set cs" for c
  proof -
    have "distinct (map ?f c)" using dist [OF that] inj_on_subset [OF inj c_in [OF that]] by (simp add: distinct_map)
    then show ?thesis using sorted_list_of_set_sort_remdups [of "map ?f c"] by (simp add: distinct_remdups_id)
  qed
  have "(\<lambda>c. ?f ` set c) ` {c \<in> set cs. 2 \<le> length c} = cycle_classes ns es"
  proof
    show "(\<lambda>c. ?f ` set c) ` {c \<in> set cs. 2 \<le> length c} \<subseteq> cycle_classes ns es"
    proof (clarify)
      fix c assume c: "c \<in> set cs" "2 \<le> length c"
      obtain x where x: "x \<in> set c" using hd_in_set [OF cs(5) [OF c(1)]] by blast
      then have xl: "x < length nl" using c_in [OF c(1)] by auto
      have "?f ` set c = scc_of ?R (nl ! x)" using scc [OF xl] cs(4) [OF c(1) x] by simp
      moreover have "nl ! x \<in> node_names ns" using img xl by auto
      ultimately show "?f ` set c \<in> cycle_classes ns es"
        using card [OF c(1)] c(2) unfolding cycle_classes_def by auto
    qed
  next
    show "cycle_classes ns es \<subseteq> (\<lambda>c. ?f ` set c) ` {c \<in> set cs. 2 \<le> length c}"
    proof
      fix C assume "C \<in> cycle_classes ns es"
      then obtain q where q: "q \<in> node_names ns" "C = scc_of ?R q" "2 \<le> card C" by (auto simp: cycle_classes_def)
      then obtain x where x: "x < length nl" "q = nl ! x" using img by auto
      then obtain c where c: "c \<in> set cs" "x \<in> set c" using cs(3) adj(3) by auto
      have "C = ?f ` set c" using scc [OF x(1)] cs(4) [OF c] q(2) x(2) by simp
      then show "C \<in> (\<lambda>c. ?f ` set c) ` {c \<in> set cs. 2 \<le> length c}"
        using card [OF c(1)] q(3) c(1) by auto
    qed
  qed
  moreover have "(\<lambda>c. join_with '','' (sort (map ?f c))) ` {c \<in> set cs. 2 \<le> length c} =
      cycle_name ` (\<lambda>c. ?f ` set c) ` {c \<in> set cs. 2 \<le> length c}"
    using name by (auto simp: cycle_name_def image_iff)
  moreover have "?f ` loops = {q. (q, q) \<in> ?R}"
  proof -
    have "q \<in> ?f ` loops \<longleftrightarrow> q \<in> ?f ` ?A \<and> (q, q) \<in> ?R" for q unfolding adj(6) by auto
    then show ?thesis unfolding img by (auto simp: call_relation_def)
  qed
  ultimately show ?thesis
    by (simp add: strongly_connected_cycles_def b cs(1) cycle_names_def not_less)
qed

section \<open>Properties\<close>

text \<open>
  C21: Tarjan's algorithm returns, for every graph whose arcs stay inside it, and what it returns is the
  partition into strongly connected components: every node is in exactly one list, and each list
  holds exactly the nodes mutually reachable with each of its members.
\<close>

theorem tarjan_returns_the_components:
  assumes "in_range adj"
  shows "\<exists>cs. tarjan_scc adj = Some cs \<and> distinct (concat cs) \<and> set (concat cs) = {..<length adj} \<and>
    (\<forall>c \<in> set cs. c \<noteq> [] \<and>
      (\<forall>x \<in> set c. set c = {y. (x, y) \<in> (arcs adj)\<^sup>* \<and> (y, x) \<in> (arcs adj)\<^sup>*}))"
  using tarjan_scc_result [OF assms] unfolding scc_of_def .

theorem tarjan_returns_the_components_witness:
  "\<exists>cs. tarjan_scc [[1], [2], [0, 3], [4], [3], [5]] = Some cs \<and> set (concat cs) = {..<6}"
proof -
  have "in_range [[1], [2], [0, 3], [4], [3], [5]]"
    by (simp add: in_range_def less_Suc_eq numeral_eq_Suc)
  from tarjan_returns_the_components [OF this] show ?thesis by auto
qed

text \<open>
  The reported cycles do not depend on the order in which the hash set yields its edges: they are
  the sorted and joined names of the classes of mutually reachable symbols with two members or more,
  and the symbols with an edge to themselves.  Edges to names that are no node play no part.
\<close>

theorem cycles_are_the_mutual_classes:
  assumes "\<forall>(l, s) \<in> set ns. finite s" "set (order es) = es"
  shows "strongly_connected_cycles order ns es = Some
    ({join_with '','' (sorted_list_of_set c) | c. 2 \<le> card c \<and>
       (\<exists>q \<in> node_names ns. c = {p. (q, p) \<in> (call_relation ns es)\<^sup>* \<and> (p, q) \<in> (call_relation ns es)\<^sup>*})} \<union>
     {q. (q, q) \<in> call_relation ns es})"
  using cycles_result [of ns order es, OF assms]
  by (auto simp: cycle_names_def cycle_classes_def cycle_name_def scc_of_def)

theorem cycles_are_the_mutual_classes_witness:
  "strongly_connected_cycles (\<lambda>_. [(''b'', ''Calls'', ''a''), (''a'', ''Calls'', ''b'')]) [(''Function'', {''a'', ''b''})]
     {(''a'', ''Calls'', ''b''), (''b'', ''Calls'', ''a'')} =
   strongly_connected_cycles (\<lambda>_. [(''a'', ''Calls'', ''b''), (''b'', ''Calls'', ''a'')]) [(''Function'', {''a'', ''b''})]
     {(''a'', ''Calls'', ''b''), (''b'', ''Calls'', ''a'')}"
  using cycles_are_the_mutual_classes [of "[(''Function'', {''a'', ''b''})]"
      "\<lambda>_. [(''b'', ''Calls'', ''a''), (''a'', ''Calls'', ''b'')]" "{(''a'', ''Calls'', ''b''), (''b'', ''Calls'', ''a'')}"]
    cycles_are_the_mutual_classes [of "[(''Function'', {''a'', ''b''})]"
      "\<lambda>_. [(''a'', ''Calls'', ''b''), (''b'', ''Calls'', ''a'')]" "{(''a'', ''Calls'', ''b''), (''b'', ''Calls'', ''a'')}"]
  by auto

text \<open>The joined name is ambiguous when a symbol's own name holds a comma.\<close>

lemma cycle_names_collide:
  "cycle_name {''map<k'', ''v>,z''} = cycle_name {''map<k,v>'', ''z''}"
  by code_simp

section \<open>What a comparison counts\<close>

definition labelled :: "node_set \<Rightarrow> (string \<times> string) set" where
  "labelled ns = {(l, q). q \<in> names_of ns l}"

lemma finite_labelled:
  assumes "\<forall>(l, s) \<in> set ns. finite s"
  shows "finite (names_of ns l)" "names_of ns l \<noteq> {} \<Longrightarrow> l \<in> fst ` set ns"
proof -
  show "finite (names_of ns l)"
    using assms by (auto simp: names_of_def dest!: map_of_SomeD split: option.splits)
  show "names_of ns l \<noteq> {} \<Longrightarrow> l \<in> fst ` set ns"
    by (cases "map_of ns l") (auto simp: names_of_def dest: map_of_SomeD intro: rev_image_eqI)
qed

lemma labelled_pairs:
  assumes "finite L" "\<And>l. finite (f l)" "\<And>l. f l \<noteq> {} \<Longrightarrow> l \<in> L"
  shows "distinct (concat (map (\<lambda>l. map (Pair l) (sorted_list_of_set (f l))) (sorted_list_of_set L))) \<and>
    set (concat (map (\<lambda>l. map (Pair l) (sorted_list_of_set (f l))) (sorted_list_of_set L))) = {(l, q). q \<in> f l}"
proof
  let ?g = "\<lambda>l. map (Pair l) (sorted_list_of_set (f l))"
  have "distinct (concat (map ?g ls))" if "distinct ls" for ls
    using that by (induction ls) (auto simp: distinct_map inj_on_def)
  then show "distinct (concat (map ?g (sorted_list_of_set L)))" by simp
  show "set (concat (map ?g (sorted_list_of_set L))) = {(l, q). q \<in> f l}"
    using assms by (auto simp: image_iff)
qed

lemma diff_nodes_result:
  assumes "\<forall>(l, s) \<in> set b. finite s" "\<forall>(l, s) \<in> set a. finite s"
  shows "distinct (fst (diff_nodes b a)) \<and> set (fst (diff_nodes b a)) = labelled a - labelled b"
    "distinct (snd (diff_nodes b a)) \<and> set (snd (diff_nodes b a)) = labelled b - labelled a"
proof -
  let ?L = "set (map fst b) \<union> set (map fst a)"
  have eq: "labelled x - labelled y = {(l, q). q \<in> names_of x l - names_of y l}" for x y by (auto simp: labelled_def)
  have L: "names_of a l - names_of b l \<noteq> {} \<Longrightarrow> l \<in> ?L" "names_of b l - names_of a l \<noteq> {} \<Longrightarrow> l \<in> ?L" for l
    using finite_labelled(2) [OF assms(1), of l] finite_labelled(2) [OF assms(2), of l] by auto
  show "distinct (fst (diff_nodes b a)) \<and> set (fst (diff_nodes b a)) = labelled a - labelled b"
    unfolding diff_nodes_def Let_def fst_conv eq
    by (rule labelled_pairs) (use L(1) finite_labelled(1) [OF assms(2)] in auto)
  show "distinct (snd (diff_nodes b a)) \<and> set (snd (diff_nodes b a)) = labelled b - labelled a"
    unfolding diff_nodes_def Let_def snd_conv eq
    by (rule labelled_pairs) (use L(2) finite_labelled(1) [OF assms(1)] in auto)
qed

lemma btree_extend_finite:
  "finite q \<Longrightarrow> \<forall>(l, s) \<in> set ns. finite s \<Longrightarrow> \<forall>(l, s) \<in> set (btree_extend l q ns). finite s"
  by (induction l q ns rule: btree_extend.induct) auto

lemma finite_rows [simp]: "finite (first_cells rows)" "finite (edge_rows kind rows)"
  by (simp_all only: first_cells_def edge_rows_def finite_set)

lemma collect_labels_finite:
  "collect_labels q labels out = Ok ns \<Longrightarrow> \<forall>(l, s) \<in> set out. finite s \<Longrightarrow> \<forall>(l, s) \<in> set ns. finite s"
  by (induction q labels out rule: collect_labels.induct)
    (use btree_extend_finite finite_rows(1) in \<open>simp, unfold collect_labels.simps and_then_Inr, blast\<close>)

lemma collect_edges_finite: "collect_edges declares q tables = Ok es \<Longrightarrow> finite es"
  by (induction declares q tables arbitrary: es rule: collect_edges.induct)
    (auto simp: and_then_Inr split: if_splits)

lemma collect_finite:
  assumes "collect declares tables q = Ok s"
  shows "\<forall>(l, x) \<in> set (nodes s). finite x" "finite (edges s)"
  using assms collect_labels_finite [of q DIFFABLE_LABELS "[]" "nodes s"] collect_edges_finite
  by (auto simp: collect_def and_then_Inr collect_nodes_def)

lemma finite_cycle_names:
  assumes "\<forall>(l, s) \<in> set ns. finite s"
  shows "finite (cycle_names ns es)"
proof -
  have fin: "finite (node_names ns)" using assms by (auto simp: node_names_def)
  have "cycle_classes ns es \<subseteq> (\<lambda>q. scc_of (call_relation ns es) q) ` node_names ns" by (auto simp: cycle_classes_def)
  moreover have "{q. (q, q) \<in> call_relation ns es} \<subseteq> node_names ns" by (auto simp: call_relation_def)
  ultimately show ?thesis using fin unfolding cycle_names_def
    by (intro finite_UnI finite_imageI) (auto intro: finite_subset)
qed

lemma length_sorted_list_of_set_card: "length (sorted_list_of_set A) = card A"
  by simp

text \<open>
  C36: A comparison answers whenever both snapshots can be read, and it counts every change: a node for
  each label and name on one side only, an edge for each triple on one side only, a dangling
  reference for each edge of the later graph whose target is no node, and a new cycle for each cycle
  name of the later graph that the earlier one lacks.
\<close>

theorem diff_counts_every_change:
  assumes "\<forall>es. finite es \<longrightarrow> set (order es) = es"
    and "stores bp = Some qb" "collect declares tables qb = Ok b"
    and "stores ap = Some qa" "collect declares tables qa = Ok a"
  shows "\<exists>out. diff stores declares tables order bp ap = Ok (Some out) \<and>
    nodes_added (summary out) = card (labelled (nodes a) - labelled (nodes b)) \<and>
    nodes_removed (summary out) = card (labelled (nodes b) - labelled (nodes a)) \<and>
    edges_added (summary out) = card (edges a - edges b) \<and>
    edges_removed (summary out) = card (edges b - edges a) \<and>
    dangling_references (summary out) = card {(f, k, t) \<in> edges a. t \<notin> node_names (nodes a)} \<and>
    new_cycles (summary out) = card (cycle_names (nodes a) (edges a) - cycle_names (nodes b) (edges b)) \<and>
    verdict out = verdict_for_summary (summary out) (regression_score (summary out))"
proof -
  note fa = collect_finite [OF assms(5)] and fb = collect_finite [OF assms(3)]
  note cb = cycles_result [OF fb(1), of order, OF assms(1) [rule_format, OF fb(2)]]
  note ca = cycles_result [OF fa(1), of order, OF assms(1) [rule_format, OF fa(2)]]
  obtain added removed where n: "diff_nodes (nodes b) (nodes a) = (added, removed)" by fastforce
  have "length added = card (labelled (nodes a) - labelled (nodes b))"
    "length removed = card (labelled (nodes b) - labelled (nodes a))"
    using diff_nodes_result [OF fb(1) fa(1)] distinct_card unfolding n by (metis fst_conv, metis snd_conv)
  moreover have "Set.filter (\<lambda>e. snd (snd e) \<notin> node_names (nodes a)) (edges a) = {(f, k, t) \<in> edges a. t \<notin> node_names (nodes a)}"
    by auto
  ultimately show ?thesis
    using assms(2-5) ca cb
    by (simp add: n diff_def compare_snapshots_def diff_edges_def compute_dangling_def diff_cycle_sets_def Let_def)
qed

definition example_store :: "string list \<Rightarrow> query" where
  "example_store functions c =
     (if c = ''MATCH (n:Function) RETURN n.qualified_name'' then Ok (map (\<lambda>f. [f]) functions)
      else if c = ''MATCH (a:Function)-[:Calls_Function_Function]->(b:Function) RETURN a.qualified_name, b.qualified_name''
      then Ok [[''f'', ''g'']]
      else if starts_with c ''MATCH (i:Import)'' then Ok [[''7'']] else Ok [])"

theorem diff_counts_every_change_witness:
  "\<exists>out. diff [''b'' \<mapsto> example_store [''f'', ''g''], ''a'' \<mapsto> example_store [''f'']] (\<lambda>_ _. True)
      [(''Calls_Function_Function'', ''Function'', ''Function'')] sorted_list_of_set ''b'' ''a'' = Ok (Some out) \<and>
    nodes_removed (summary out) = 1 \<and> dangling_references (summary out) = 1"
proof -
  let ?ns = "\<lambda>fs. [(''Constant'', {}), (''Enum'', {}), (''Function'', fs), (''Method'', {}), (''Module'', {}), (''Struct'', {}), (''Trait'', {}), (''TypeAlias'', {} :: string set)]"
  let ?tables = "[(''Calls_Function_Function'', ''Function'', ''Function'')]" and ?dec = "\<lambda>(_ :: string) (_ :: string). True"
  let ?es = "{(''f'', ''Calls'', ''g'')}"
  note defs = collect_def collect_nodes_def DIFFABLE_LABELS_def example_store_def store_err_def first_cells_def edge_rows_def
    count_unresolved_def parse_u64_def digits_value_def rel_kind_def code_def is_digit_def
  have b: "collect ?dec ?tables (example_store [''f'', ''g'']) = Ok \<lparr>nodes = ?ns {''f'', ''g''}, edges = ?es, unresolved = 7\<rparr>"
    by (simp add: defs, (rule set_eqI, simp, blast)?)
  have a: "collect ?dec ?tables (example_store [''f'']) = Ok \<lparr>nodes = ?ns {''f''}, edges = ?es, unresolved = 7\<rparr>"
    by (simp add: defs, (rule set_eqI, simp, blast)?)
  have o: "\<forall>es :: edge_set. finite es \<longrightarrow> set (sorted_list_of_set es) = es" by simp
  have "labelled (?ns {''f'', ''g''}) - labelled (?ns {''f''}) = {(''Function'', ''g'')}"
    by (auto simp: labelled_def names_of_def split: if_splits)
  moreover have "{(f, k, t). (f, k, t) \<in> ?es \<and> t \<notin> node_names (?ns {''f''})} = {(''f'', ''Calls'', ''g'')}"
    by (auto simp: node_names_def)
  ultimately show ?thesis
    using diff_counts_every_change [OF o, of "[''b'' \<mapsto> example_store [''f'', ''g''], ''a'' \<mapsto> example_store [''f'']]" "''b''"
        "example_store [''f'', ''g'']" ?dec ?tables _ "''a''" "example_store [''f'']", OF _ b _ a] by auto
qed

text \<open>
  The verdict, from the counts.  A comparison is clean exactly when nothing dangles, no import lost
  its resolution and at most one cycle is new; it is a regression exactly when the dangling
  references, half the new cycles and a tenth of the first fifty lost imports reach five.
\<close>

theorem verdict_from_the_counts:
  "(verdict_for_summary s (regression_score s) = ''clean'' \<longleftrightarrow>
      dangling_references s = 0 \<and> new_unresolved_delta s \<le> 0 \<and> new_cycles s \<le> 1) \<and>
   (verdict_for_summary s (regression_score s) = ''regression'' \<longleftrightarrow>
      50 \<le> 10 * int (dangling_references s) + 5 * int (new_cycles s) + min (max (new_unresolved_delta s) 0) 50)"
proof -
  let ?d = "int (dangling_references s)" and ?c = "int (new_cycles s)" and ?u = "min (max (new_unresolved_delta s) 0) 50"
  let ?n = "10 * ?d + 5 * ?c + ?u"
  have u: "min (1 / 10 * (of_int (max (new_unresolved_delta s) 0) :: rat)) 5 = of_int ?u / 10"
    by (auto simp: min_def max_def)
  have sum: "1 * rat_of_nat d + 1 / 2 * rat_of_nat c + of_int k / 10 = of_int (10 * int d + 5 * int c + k) / 10" for d c k
    by (simp add: field_simps)
  have "min (WEIGHT_UNRESOLVED_DELTA * of_int (max (new_unresolved_delta s) 0)) (UNRESOLVED_DELTA_MAX * WEIGHT_UNRESOLVED_DELTA * 10) = of_int ?u / 10"
    using u by (simp only: WEIGHT_UNRESOLVED_DELTA_def UNRESOLVED_DELTA_MAX_def)
  then have score: "regression_score s = min (of_int ?n / 10) 10"
    unfolding regression_score_def Let_def WEIGHT_DANGLING_def WEIGHT_NEW_CYCLE_def REGRESSION_SCORE_CAP_def
    using sum [of "dangling_references s" "new_cycles s" ?u] by (simp only:)
  have lt1: "regression_score s < 1 \<longleftrightarrow> ?n < 10"
  proof -
    have "regression_score s < 1 \<longleftrightarrow> (of_int ?n :: rat) < of_int 10" unfolding score by (simp add: min_less_iff_disj)
    then show ?thesis unfolding of_int_less_iff .
  qed
  have lt5: "regression_score s < 5 \<longleftrightarrow> ?n < 50"
  proof -
    have "regression_score s < 5 \<longleftrightarrow> (of_int ?n :: rat) < of_int 50" unfolding score by (simp add: min_less_iff_disj)
    then show ?thesis unfolding of_int_less_iff .
  qed
  have "?n < 10 \<and> new_unresolved_delta s \<le> 0 \<longleftrightarrow> dangling_references s = 0 \<and> new_unresolved_delta s \<le> 0 \<and> new_cycles s \<le> 1"
    by auto
  then show ?thesis
    using lt1 lt5 by (auto simp: verdict_for_summary_def classify_verdict_def VERDICT_CLEAN_MAX_def VERDICT_CONCERNING_MAX_def)
qed

end
