(* ===== verification/Zera.thy ===== *)
theory Zera
  imports Rust_Base "HOL-Library.Word" "HOL-Library.Product_Lexorder" "HOL-Library.Multiset"
begin

text \<open>
  \<open>crates/zera\<close>: the canonical graph state and its content bytes (\<open>lib.rs\<close>), the codebook that replaces
  strings by indices (\<open>codebook.rs\<close>) and the grammar that drops derivable edges (\<open>grammar.rs\<close>).
  BLAKE3, JSON and zstd are parameters.
\<close>

section \<open>Graph states\<close>

record node_ref =
  node_id :: string
  node_label :: string

record edge_ref =
  edge_from :: string
  edge_to :: string
  edge_kind :: string

text \<open>The comparators of \<open>GraphState::new\<close>: nodes by label and id, edges by kind and endpoints.\<close>

instantiation node_ref_ext :: (linorder) linorder
begin

definition less_eq_node_ref_ext :: "'a node_ref_scheme \<Rightarrow> 'a node_ref_scheme \<Rightarrow> bool" where
  "a \<le> b \<longleftrightarrow> (node_label a, node_id a, node_ref.more a) \<le> (node_label b, node_id b, node_ref.more b)"

definition less_node_ref_ext :: "'a node_ref_scheme \<Rightarrow> 'a node_ref_scheme \<Rightarrow> bool" where
  "a < b \<longleftrightarrow> (node_label a, node_id a, node_ref.more a) < (node_label b, node_id b, node_ref.more b)"

instance
proof
  fix x y z :: "'a node_ref_scheme"
  show "x < y \<longleftrightarrow> x \<le> y \<and> \<not> y \<le> x" unfolding less_eq_node_ref_ext_def less_node_ref_ext_def by (rule less_le_not_le)
  show "x \<le> x" unfolding less_eq_node_ref_ext_def by simp
  show "x \<le> y \<Longrightarrow> y \<le> z \<Longrightarrow> x \<le> z" unfolding less_eq_node_ref_ext_def by (rule order_trans)
  show "x \<le> y \<Longrightarrow> y \<le> x \<Longrightarrow> x = y" unfolding less_eq_node_ref_ext_def by (cases x; cases y) (drule (1) antisym, simp)
  show "x \<le> y \<or> y \<le> x" unfolding less_eq_node_ref_ext_def by (rule linear)
qed

end

instantiation edge_ref_ext :: (linorder) linorder
begin

definition less_eq_edge_ref_ext :: "'a edge_ref_scheme \<Rightarrow> 'a edge_ref_scheme \<Rightarrow> bool" where
  "a \<le> b \<longleftrightarrow> (edge_kind a, edge_from a, edge_to a, edge_ref.more a) \<le> (edge_kind b, edge_from b, edge_to b, edge_ref.more b)"

definition less_edge_ref_ext :: "'a edge_ref_scheme \<Rightarrow> 'a edge_ref_scheme \<Rightarrow> bool" where
  "a < b \<longleftrightarrow> (edge_kind a, edge_from a, edge_to a, edge_ref.more a) < (edge_kind b, edge_from b, edge_to b, edge_ref.more b)"

instance
proof
  fix x y z :: "'a edge_ref_scheme"
  show "x < y \<longleftrightarrow> x \<le> y \<and> \<not> y \<le> x" unfolding less_eq_edge_ref_ext_def less_edge_ref_ext_def by (rule less_le_not_le)
  show "x \<le> x" unfolding less_eq_edge_ref_ext_def by simp
  show "x \<le> y \<Longrightarrow> y \<le> z \<Longrightarrow> x \<le> z" unfolding less_eq_edge_ref_ext_def by (rule order_trans)
  show "x \<le> y \<Longrightarrow> y \<le> x \<Longrightarrow> x = y" unfolding less_eq_edge_ref_ext_def by (cases x; cases y) (drule (1) antisym, simp)
  show "x \<le> y \<or> y \<le> x" unfolding less_eq_edge_ref_ext_def by (rule linear)
qed

end

record graph_state =
  gs_nodes :: "node_ref list"
  gs_edges :: "edge_ref list"

definition new_state :: "node_ref list \<Rightarrow> edge_ref list \<Rightarrow> graph_state" where
  "new_state ns es = \<lparr>gs_nodes = remdups_adj (sort ns), gs_edges = remdups_adj (sort es)\<rparr>"

definition to_le_bytes :: "nat \<Rightarrow> string" where
  "to_le_bytes n = map (\<lambda>i. byte (n div 256 ^ i mod 256)) [0..<8]"

definition put_string :: "string \<Rightarrow> string" where
  "put_string s = to_le_bytes (length s) @ s"

definition put_node :: "node_ref \<Rightarrow> string" where
  "put_node n = put_string (node_label n) @ put_string (node_id n)"

definition put_edge :: "edge_ref \<Rightarrow> string" where
  "put_edge e = put_string (edge_kind e) @ put_string (edge_from e) @ put_string (edge_to e)"

definition content_bytes :: "graph_state \<Rightarrow> string" where
  "content_bytes s =
     to_le_bytes (length (gs_nodes s)) @ concat (map put_node (gs_nodes s)) @
     to_le_bytes (length (gs_edges s)) @ concat (map put_edge (gs_edges s))"

definition content_hash :: "(string \<Rightarrow> string) \<Rightarrow> graph_state \<Rightarrow> string" where
  "content_hash blake3 s = blake3 (content_bytes s)"

definition hex_encode :: "string \<Rightarrow> string" where
  "hex_encode bytes = concat (map (\<lambda>b. [''0123456789abcdef'' ! (code b div 16), ''0123456789abcdef'' ! (code b mod 16)]) bytes)"

definition content_id :: "(string \<Rightarrow> string) \<Rightarrow> graph_state \<Rightarrow> string" where
  "content_id blake3 s = hex_encode (content_hash blake3 s)"

definition count_entry :: "string \<Rightarrow> (string \<rightharpoonup> nat) \<Rightarrow> (string \<rightharpoonup> nat)" where
  "count_entry k m = m(k \<mapsto> (case m k of Some c \<Rightarrow> c | None \<Rightarrow> 0) + 1)"

definition histograms :: "graph_state \<Rightarrow> (string \<rightharpoonup> nat) \<times> (string \<rightharpoonup> nat)" where
  "histograms s = (fold count_entry (map node_label (gs_nodes s)) Map.empty,
                   fold count_entry (map edge_kind (gs_edges s)) Map.empty)"

record hello_request =
  cached_graph_ids :: "string list"
  cached_codebook_ids :: "string list"
  cached_grammar_id :: "string option"

record hello_response =
  graph_id :: string
  cache_hit :: bool
  baseline_json_bytes :: nat
  manifest_bytes :: nat
  node_count :: nat
  edge_count :: nat
  hr_histograms :: "(string \<rightharpoonup> nat) \<times> (string \<rightharpoonup> nat)"

definition hello :: "(string \<Rightarrow> string) \<Rightarrow> (graph_state \<Rightarrow> nat) \<Rightarrow> (hello_response \<Rightarrow> nat) \<Rightarrow> graph_state \<Rightarrow> hello_request \<Rightarrow> hello_response" where
  "hello blake3 state_json_size response_json_size s req =
     (let gid = content_id blake3 s;
          resp = \<lparr>graph_id = gid, cache_hit = (gid \<in> set (cached_graph_ids req)),
            baseline_json_bytes = state_json_size s, manifest_bytes = 0,
            node_count = length (gs_nodes s), edge_count = length (gs_edges s), hr_histograms = histograms s\<rparr> in
      resp\<lparr>manifest_bytes := response_json_size resp\<rparr>)"

section \<open>Codebooks\<close>

record codebook =
  labels :: "string list"
  kinds :: "string list"
  id_prefixes :: "string list"

definition observe :: "string \<Rightarrow> string list \<Rightarrow> string list" where
  "observe x xs = (if x \<in> set xs then xs else xs @ [x])"

text \<open>\<open>order\<close> is the iteration order of the hash map of prefix counts.\<close>

definition id_prefix :: "string \<Rightarrow> string option" where
  "id_prefix i = map_option (\<lambda>colon. take (Suc colon) i) (find_index (\<lambda>c. c = CHR '':'') i)"

definition extract_common_prefixes :: "(string list \<Rightarrow> string list) \<Rightarrow> node_ref list \<Rightarrow> string list" where
  "extract_common_prefixes order ns =
     (let ps = List.map_filter (\<lambda>n. id_prefix (node_id n)) ns;
          counts = fold count_entry ps Map.empty;
          threshold = max (length ns) 1 div 50;
          prefixes = filter (\<lambda>(_, c). threshold < c) (map (\<lambda>p. (p, the (counts p))) (order (fold observe ps []))) in
      map fst (sort_key (\<lambda>(_, c). - int c) prefixes))"

definition from_graph :: "(string list \<Rightarrow> string list) \<Rightarrow> graph_state \<Rightarrow> codebook" where
  "from_graph order s =
     \<lparr>labels = sort (fold observe (map node_label (gs_nodes s)) []),
      kinds = sort (fold observe (map edge_kind (gs_edges s)) []),
      id_prefixes = extract_common_prefixes order (gs_nodes s)\<rparr>"

definition put_strings :: "string list \<Rightarrow> string" where
  "put_strings ss = to_le_bytes (length ss) @ concat (map put_string ss)"

definition codebook_bytes :: "codebook \<Rightarrow> string" where
  "codebook_bytes cb = put_strings (labels cb) @ put_strings (kinds cb) @ put_strings (id_prefixes cb)"

definition codebook_id :: "(string \<Rightarrow> string) \<Rightarrow> codebook \<Rightarrow> string" where
  "codebook_id blake3 cb = hex_encode (blake3 (codebook_bytes cb))"

record enc_node =
  en_l :: "32 word"
  en_p :: "32 word option"
  en_s :: string

record enc_edge =
  ee_k :: "32 word"
  ee_fp :: "32 word option"
  ee_fs :: string
  ee_tp :: "32 word option"
  ee_ts :: string

record encoded_graph =
  eg_codebook_id :: string
  eg_nodes :: "enc_node list"
  eg_edges :: "enc_edge list"

definition idx_of :: "string list \<Rightarrow> string \<Rightarrow> nat option" where
  "idx_of palette needle = find_index (\<lambda>s. s = needle) palette"

definition split_prefix :: "string list \<Rightarrow> string \<Rightarrow> 32 word option \<times> string" where
  "split_prefix palette i =
     (case find_index (\<lambda>p. starts_with i p) palette of
        Some k \<Rightarrow> (Some (of_nat k), drop (length (palette ! k)) i)
      | None \<Rightarrow> (None, i))"

text \<open>\<open>expect\<close> panics when a label or a kind is missing: None.\<close>

definition encode_node :: "codebook \<Rightarrow> node_ref \<Rightarrow> enc_node option" where
  "encode_node cb n =
     map_option (\<lambda>l. case split_prefix (id_prefixes cb) (node_id n) of
         (p, s) \<Rightarrow> \<lparr>en_l = of_nat l, en_p = p, en_s = s\<rparr>)
       (idx_of (labels cb) (node_label n))"

definition encode_edge :: "codebook \<Rightarrow> edge_ref \<Rightarrow> enc_edge option" where
  "encode_edge cb e =
     map_option (\<lambda>k. case (split_prefix (id_prefixes cb) (edge_from e), split_prefix (id_prefixes cb) (edge_to e)) of
         ((fp, fs), (tp, ts)) \<Rightarrow> \<lparr>ee_k = of_nat k, ee_fp = fp, ee_fs = fs, ee_tp = tp, ee_ts = ts\<rparr>)
       (idx_of (kinds cb) (edge_kind e))"

definition encode :: "(string \<Rightarrow> string) \<Rightarrow> graph_state \<Rightarrow> codebook \<Rightarrow> encoded_graph option" where
  "encode blake3 s cb =
     Option.bind (those (map (encode_node cb) (gs_nodes s))) (\<lambda>ns.
     map_option (\<lambda>es. \<lparr>eg_codebook_id = codebook_id blake3 cb, eg_nodes = ns, eg_edges = es\<rparr>)
       (those (map (encode_edge cb) (gs_edges s))))"

section \<open>Grammars\<close>

datatype rule = SymmetricClosure "string list"

type_synonym grammar = "rule list"

definition for_cortex_memory :: grammar where
  "for_cortex_memory = [SymmetricClosure [''co_occurrence'', ''correlates_with'']]"

fun rule_kinds :: "rule \<Rightarrow> string list" where
  "rule_kinds (SymmetricClosure ks) = ks"

definition is_symmetric :: "grammar \<Rightarrow> string \<Rightarrow> bool" where
  "is_symmetric g kind \<longleftrightarrow> (\<exists>r \<in> set g. kind \<in> set (rule_kinds r))"

definition canon :: "edge_ref \<Rightarrow> string \<times> string \<times> string" where
  "canon e = (if edge_from e \<le> edge_to e then (edge_kind e, edge_from e, edge_to e)
              else (edge_kind e, edge_to e, edge_from e))"

definition foldable :: "grammar \<Rightarrow> edge_ref \<Rightarrow> bool" where
  "foldable g e \<longleftrightarrow> is_symmetric g (edge_kind e) \<and> edge_from e \<noteq> edge_to e"

definition note_canon ::
  "grammar \<Rightarrow> edge_ref \<Rightarrow> (string \<times> string \<times> string) set \<times> (string \<times> string \<times> string) set \<Rightarrow>
   (string \<times> string \<times> string) set \<times> (string \<times> string \<times> string) set" where
  "note_canon g e acc = (case acc of (seen_once, bidirectional) \<Rightarrow>
     if \<not> foldable g e then (seen_once, bidirectional)
     else if canon e \<in> seen_once then (seen_once, insert (canon e) bidirectional)
     else (insert (canon e) seen_once, bidirectional))"

record split_state =
  base :: "edge_ref list"
  bidir_indices :: "32 word list"
  emitted_first :: "(string \<times> string \<times> string) set"
  derivable :: "edge_ref list"

definition emit_edge :: "grammar \<Rightarrow> (string \<times> string \<times> string) set \<Rightarrow> edge_ref \<Rightarrow> split_state \<Rightarrow> split_state" where
  "emit_edge g bidirectional e st =
     (if foldable g e then
        (if canon e \<in> emitted_first st then st\<lparr>derivable := derivable st @ [e]\<rparr>
         else st\<lparr>emitted_first := insert (canon e) (emitted_first st), base := base st @ [e],
                 bidir_indices := bidir_indices st @
                   (if canon e \<in> bidirectional then [of_nat (length (base st))] else [])\<rparr>)
      else st\<lparr>base := base st @ [e]\<rparr>)"

definition split :: "grammar \<Rightarrow> edge_ref list \<Rightarrow> edge_ref list \<times> 32 word list \<times> edge_ref list" where
  "split g es =
     (let bidirectional = snd (fold (note_canon g) es ({}, {}));
          st = fold (emit_edge g bidirectional) es
            \<lparr>base = [], bidir_indices = [], emitted_first = {}, derivable = []\<rparr> in
      (base st, bidir_indices st, derivable st))"

definition reverse_edge :: "edge_ref \<Rightarrow> edge_ref" where
  "reverse_edge e = \<lparr>edge_from = edge_to e, edge_to = edge_from e, edge_kind = edge_kind e\<rparr>"

definition derive :: "edge_ref list \<Rightarrow> 32 word list \<Rightarrow> edge_ref list" where
  "derive bs idxs =
     map reverse_edge (List.map_filter (\<lambda>i. if unat i < length bs then Some (bs ! unat i) else None) idxs)"

definition round_trip_check :: "grammar \<Rightarrow> graph_state \<Rightarrow> bool \<times> nat \<times> nat" where
  "round_trip_check g s =
     (case split g (gs_edges s) of (bs, idxs, _) \<Rightarrow>
        let triple = \<lambda>e. (edge_kind e, edge_from e, edge_to e);
            combined = triple ` set bs \<union> triple ` set (derive bs idxs);
            original = triple ` set (gs_edges s) in
        (combined = original, card original, card combined))"

section \<open>The canonical state\<close>

lemma sort_dedup: "remdups_adj (sort xs) = sorted_list_of_set (set (xs :: 'a :: linorder list))"
proof -
  have "distinct (remdups_adj ys)" if "sorted ys" for ys :: "'a list"
    using that
  proof (induction ys rule: remdups_adj.induct)
    case (3 x y ys)
    have "x \<notin> set (remdups_adj (y # ys))" if "x \<noteq> y" using 3(3) that by auto
    then show ?case using 3 by auto
  qed simp_all
  then show ?thesis
    by (intro sorted_distinct_set_unique) (simp_all add: sorted_remdups_adj)
qed

section \<open>The content bytes determine the state\<close>

definition from_le_bytes :: "string \<Rightarrow> nat" where
  "from_le_bytes bs = foldr (\<lambda>b n. code b + 256 * n) bs 0"

definition get_u64 :: "string \<Rightarrow> (nat \<times> string) option" where
  "get_u64 s = (if length s < 8 then None else Some (from_le_bytes (take 8 s), drop 8 s))"

definition get_string :: "string \<Rightarrow> (string \<times> string) option" where
  "get_string s = Option.bind (get_u64 s) (\<lambda>(n, r). if length r < n then None else Some (take n r, drop n r))"

definition get_node :: "string \<Rightarrow> (node_ref \<times> string) option" where
  "get_node s = Option.bind (get_string s) (\<lambda>(l, r). Option.bind (get_string r) (\<lambda>(i, r').
     Some (\<lparr>node_id = i, node_label = l\<rparr>, r')))"

definition get_edge :: "string \<Rightarrow> (edge_ref \<times> string) option" where
  "get_edge s = Option.bind (get_string s) (\<lambda>(k, r). Option.bind (get_string r) (\<lambda>(f, r').
     Option.bind (get_string r') (\<lambda>(t, r''). Some (\<lparr>edge_from = f, edge_to = t, edge_kind = k\<rparr>, r''))))"

definition fits :: "nat \<Rightarrow> bool" where
  "fits n \<longleftrightarrow> n < 2 ^ 64"

definition node_fits :: "node_ref \<Rightarrow> bool" where
  "node_fits n \<longleftrightarrow> fits (length (node_label n)) \<and> fits (length (node_id n))"

definition edge_fits :: "edge_ref \<Rightarrow> bool" where
  "edge_fits e \<longleftrightarrow> fits (length (edge_kind e)) \<and> fits (length (edge_from e)) \<and> fits (length (edge_to e))"

lemma length_to_le_bytes [simp]: "length (to_le_bytes n) = 8"
  by (simp add: to_le_bytes_def)

lemma from_to_le_bytes: "fits n \<Longrightarrow> from_le_bytes (to_le_bytes n) = n"
proof -
  have le: "foldr (\<lambda>b n. code b + 256 * n) (map (\<lambda>i. byte (n div 256 ^ i mod 256)) [k..<k + j]) 0 =
      n div 256 ^ k mod 256 ^ j" for k j n
  proof (induction j arbitrary: k)
    case (Suc j)
    have eq: "[k..<k + Suc j] = k # [Suc k..<Suc k + j]" by (simp add: upt_conv_Cons del: upt_Suc)
    have "foldr (\<lambda>b n. code b + 256 * n) (map (\<lambda>i. byte (n div 256 ^ i mod 256)) [k..<k + Suc j]) 0 =
        n div 256 ^ k mod 256 + 256 * (n div 256 ^ Suc k mod 256 ^ j)"
      unfolding eq list.map foldr.simps comp_def Suc by simp
    also have "n div 256 ^ Suc k = n div 256 ^ k div 256" by (simp only: power_Suc2 div_mult2_eq)
    also have "n div 256 ^ k mod 256 + 256 * (n div 256 ^ k div 256 mod 256 ^ j) = n div 256 ^ k mod 256 ^ Suc j"
      by (simp add: mod_mult2_eq)
    finally show ?case .
  qed simp
  assume "fits n"
  then show ?thesis using le [of n 0 8] by (simp add: from_le_bytes_def to_le_bytes_def fits_def)
qed

interpretation u64_stream: stream_codec to_le_bytes get_u64 fits
  by unfold_locales (simp add: get_u64_def from_to_le_bytes)

interpretation string_stream: stream_codec put_string get_string "\<lambda>s. fits (length s)"
  by unfold_locales (simp add: get_string_def put_string_def u64_stream.get_put)

interpretation node_stream: stream_codec put_node get_node node_fits
  by unfold_locales (simp add: get_node_def put_node_def node_fits_def string_stream.get_put)

interpretation edge_stream: stream_codec put_edge get_edge edge_fits
  by unfold_locales (simp add: get_edge_def put_edge_def edge_fits_def string_stream.get_put)

definition state_fits :: "graph_state \<Rightarrow> bool" where
  "state_fits s \<longleftrightarrow> fits (length (gs_nodes s)) \<and> fits (length (gs_edges s)) \<and>
     list_all node_fits (gs_nodes s) \<and> list_all edge_fits (gs_edges s)"

lemma content_bytes_inject:
  assumes "state_fits s" "state_fits t" "content_bytes s = content_bytes t"
  shows "s = t"
proof -
  have "length (gs_nodes s) = length (gs_nodes t) \<and>
    concat (map put_node (gs_nodes s)) @ to_le_bytes (length (gs_edges s)) @ concat (map put_edge (gs_edges s)) =
    concat (map put_node (gs_nodes t)) @ to_le_bytes (length (gs_edges t)) @ concat (map put_edge (gs_edges t))"
    using u64_stream.put_append_inject assms unfolding content_bytes_def state_fits_def by blast
  then have n: "gs_nodes s = gs_nodes t" and
    "to_le_bytes (length (gs_edges s)) @ concat (map put_edge (gs_edges s)) =
     to_le_bytes (length (gs_edges t)) @ concat (map put_edge (gs_edges t))"
    using node_stream.put_concat_inject assms(1,2) unfolding state_fits_def by blast+
  then have "length (gs_edges s) = length (gs_edges t) \<and>
    concat (map put_edge (gs_edges s)) @ [] = concat (map put_edge (gs_edges t)) @ []"
    using u64_stream.put_append_inject assms(1,2) unfolding state_fits_def append_Nil2 by blast
  then have "gs_edges s = gs_edges t"
    using edge_stream.put_concat_inject assms(1,2) unfolding state_fits_def by blast
  with n show ?thesis by simp
qed

section \<open>Decoding against a codebook\<close>

text \<open>What the client does with an encoded graph, as the comments on \<open>EncNode\<close> and \<open>EncEdge\<close> say.\<close>

definition lookup :: "string list \<Rightarrow> 32 word \<Rightarrow> string option" where
  "lookup palette i = (if unat i < length palette then Some (palette ! unat i) else None)"

definition decode_id :: "codebook \<Rightarrow> 32 word option \<Rightarrow> string \<Rightarrow> string option" where
  "decode_id cb p s = (case p of None \<Rightarrow> Some s | Some i \<Rightarrow> map_option (\<lambda>x. x @ s) (lookup (id_prefixes cb) i))"

definition decode_node :: "codebook \<Rightarrow> enc_node \<Rightarrow> node_ref option" where
  "decode_node cb n = Option.bind (lookup (labels cb) (en_l n)) (\<lambda>l.
     map_option (\<lambda>i. \<lparr>node_id = i, node_label = l\<rparr>) (decode_id cb (en_p n) (en_s n)))"

definition decode_edge :: "codebook \<Rightarrow> enc_edge \<Rightarrow> edge_ref option" where
  "decode_edge cb e = Option.bind (lookup (kinds cb) (ee_k e)) (\<lambda>k.
     Option.bind (decode_id cb (ee_fp e) (ee_fs e)) (\<lambda>f.
     map_option (\<lambda>t. \<lparr>edge_from = f, edge_to = t, edge_kind = k\<rparr>) (decode_id cb (ee_tp e) (ee_ts e))))"

definition decode :: "codebook \<Rightarrow> encoded_graph \<Rightarrow> graph_state option" where
  "decode cb eg =
     Option.bind (those (map (decode_node cb) (eg_nodes eg))) (\<lambda>ns.
     map_option (\<lambda>es. \<lparr>gs_nodes = ns, gs_edges = es\<rparr>) (those (map (decode_edge cb) (eg_edges eg))))"

definition small :: "string list \<Rightarrow> bool" where
  "small palette \<longleftrightarrow> length palette < 2 ^ 32"

lemma idx_of_lookup:
  assumes "small palette" "idx_of palette x = Some i"
  shows "lookup palette (of_nat i) = Some x"
  using assms by (auto simp: idx_of_def find_index_Some lookup_def small_def unat_of_nat)

lemma idx_of_member: "x \<in> set palette \<Longrightarrow> \<exists>i. idx_of palette x = Some i"
  using find_index_None [of "\<lambda>s. s = x" palette] by (auto simp: idx_of_def)

lemma split_prefix_decode:
  assumes "small (id_prefixes cb)" "split_prefix (id_prefixes cb) i = (p, s)"
  shows "decode_id cb p s = Some i"
proof (cases "find_index (\<lambda>p. starts_with i p) (id_prefixes cb)")
  case None
  then show ?thesis using assms(2) by (simp add: split_prefix_def decode_id_def)
next
  case (Some k)
  then have k: "k < length (id_prefixes cb)" "starts_with i (id_prefixes cb ! k)" by (simp_all add: find_index_Some)
  then obtain r where r: "i = id_prefixes cb ! k @ r" by (auto simp: starts_with_iff)
  have ps: "p = Some (of_nat k)" "s = drop (length (id_prefixes cb ! k)) i" using Some assms(2) by (simp_all add: split_prefix_def)
  have "s = r" unfolding ps(2) by (subst r) simp
  then show ?thesis using k(1) r assms(1) by (simp add: ps(1) decode_id_def lookup_def small_def unat_of_nat)
qed

lemma those_map_Some:
  assumes "\<And>x. x \<in> set xs \<Longrightarrow> \<exists>y. f x = Some y \<and> g y = Some x"
  shows "\<exists>ys. those (map f xs) = Some ys \<and> those (map g ys) = Some xs"
  using assms
proof (induction xs)
  case (Cons x xs)
  then obtain y where y: "f x = Some y" "g y = Some x" by auto
  obtain ys where "those (map f xs) = Some ys" "those (map g ys) = Some xs"
    using Cons.IH Cons.prems by auto
  then show ?case using y by simp
qed simp

lemma encode_node_decode:
  assumes "small (labels cb)" "small (id_prefixes cb)" "node_label n \<in> set (labels cb)"
  shows "\<exists>y. encode_node cb n = Some y \<and> decode_node cb y = Some n"
proof -
  obtain l where l: "idx_of (labels cb) (node_label n) = Some l" using idx_of_member [OF assms(3)] by blast
  obtain p s where p: "split_prefix (id_prefixes cb) (node_id n) = (p, s)" by fastforce
  show ?thesis
    using idx_of_lookup [OF assms(1) l] split_prefix_decode [OF assms(2) p]
    by (simp add: encode_node_def decode_node_def l p)
qed

lemma encode_edge_decode:
  assumes "small (kinds cb)" "small (id_prefixes cb)" "edge_kind e \<in> set (kinds cb)"
  shows "\<exists>y. encode_edge cb e = Some y \<and> decode_edge cb y = Some e"
proof -
  obtain k where k: "idx_of (kinds cb) (edge_kind e) = Some k" using idx_of_member [OF assms(3)] by blast
  obtain fp fs where f: "split_prefix (id_prefixes cb) (edge_from e) = (fp, fs)" by fastforce
  obtain tp ts where t: "split_prefix (id_prefixes cb) (edge_to e) = (tp, ts)" by fastforce
  show ?thesis
    using idx_of_lookup [OF assms(1) k] split_prefix_decode [OF assms(2) f] split_prefix_decode [OF assms(2) t]
    by (simp add: encode_edge_def decode_edge_def k f t)
qed

lemma observe_fold: "set (fold observe xs acc) = set acc \<union> set xs"
  by (induction xs arbitrary: acc) (auto simp: observe_def)

lemma length_observe_fold: "length (fold observe xs acc) \<le> length acc + length xs"
proof (induction xs arbitrary: acc)
  case (Cons x xs)
  have "length (observe x acc) \<le> Suc (length acc)" by (simp add: observe_def)
  then show ?case using Cons.IH [of "observe x acc"] by simp
qed simp

lemma from_graph_palettes:
  "set (labels (from_graph order s)) = node_label ` set (gs_nodes s)"
  "set (kinds (from_graph order s)) = edge_kind ` set (gs_edges s)"
  "length (labels (from_graph order s)) \<le> length (gs_nodes s)"
  "length (kinds (from_graph order s)) \<le> length (gs_edges s)"
  using observe_fold [of "map node_label (gs_nodes s)" "[]"] observe_fold [of "map edge_kind (gs_edges s)" "[]"]
    length_observe_fold [of "map node_label (gs_nodes s)" "[]"] length_observe_fold [of "map edge_kind (gs_edges s)" "[]"]
  by (simp_all add: from_graph_def)

lemma length_map_filter: "length (List.map_filter f xs) \<le> length xs"
  by (simp add: List.map_filter_def)

lemma from_graph_prefixes:
  assumes "\<forall>ks. length (order ks) = length ks"
  shows "length (id_prefixes (from_graph order s)) \<le> length (gs_nodes s)"
proof -
  let ?ps = "List.map_filter (\<lambda>n. id_prefix (node_id n)) (gs_nodes s)"
  have "length (order (fold observe ?ps [])) \<le> length ?ps" using length_observe_fold [of ?ps "[]"] assms by simp
  also have "\<dots> \<le> length (gs_nodes s)" by (rule length_map_filter)
  finally show ?thesis
    unfolding from_graph_def extract_common_prefixes_def Let_def
    by (simp, intro order_trans [OF length_filter_le]) simp
qed

section \<open>Folding symmetric edges\<close>

lemma reverse_edge_simps [simp]:
  "edge_from (reverse_edge e) = edge_to e" "edge_to (reverse_edge e) = edge_from e" "edge_kind (reverse_edge e) = edge_kind e"
  "reverse_edge (reverse_edge e) = e"
  by (simp_all add: reverse_edge_def)

lemma canon_eq: "canon e = canon f \<longleftrightarrow> f = e \<or> f = reverse_edge e"
  by (cases e; cases f) (auto simp: canon_def reverse_edge_def)

lemma foldable_reverse [simp]: "foldable g (reverse_edge e) = foldable g e"
  by (auto simp: foldable_def)

lemma foldable_ne: "foldable g e \<Longrightarrow> reverse_edge e \<noteq> e"
  by (auto simp: foldable_def reverse_edge_def dest: arg_cong [of _ _ edge_from])

lemma inj_reverse_edge: "inj reverse_edge"
  by (metis injI reverse_edge_simps(4))

definition paired :: "grammar \<Rightarrow> edge_ref list \<Rightarrow> (string \<times> string \<times> string) set" where
  "paired g es = canon ` {e \<in> set es. foldable g e \<and> reverse_edge e \<in> set es}"

lemma note_canon_fold:
  assumes "distinct es"
  shows "fold (note_canon g) es ({}, {}) = (canon ` {e \<in> set es. foldable g e}, paired g es)"
  using assms
proof (induction es rule: rev_induct)
  case (snoc e es)
  show ?case
  proof (cases "foldable g e")
    case False
    then have "paired g (es @ [e]) = paired g es"
      by (auto simp: paired_def image_iff)
    moreover have "{x \<in> set (es @ [e]). foldable g x} = {x \<in> set es. foldable g x}" using False by auto
    ultimately show ?thesis using snoc False by (simp add: note_canon_def)
  next
    case True
    have seen: "canon e \<in> canon ` {x \<in> set es. foldable g x} \<longleftrightarrow> reverse_edge e \<in> set es"
      using snoc.prems True by (auto simp: image_iff canon_eq)
    have "paired g (es @ [e]) = (if reverse_edge e \<in> set es then insert (canon e) (paired g es) else paired g es)"
    proof -
      have "{x \<in> set (es @ [e]). foldable g x \<and> reverse_edge x \<in> set (es @ [e])} =
          {x \<in> set es. foldable g x \<and> reverse_edge x \<in> set es} \<union> (if reverse_edge e \<in> set es then {e, reverse_edge e} else {})"
        using True foldable_ne [OF True] by (auto dest: arg_cong [of _ _ reverse_edge])
      moreover have "canon (reverse_edge e) = canon e" by (simp add: canon_eq)
      ultimately show ?thesis by (simp add: paired_def)
    qed
    then show ?thesis using snoc True seen by (auto simp: note_canon_def)
  qed
qed (simp add: paired_def)

text \<open>The state after the second pass over the edges \<open>xs\<close>.\<close>

definition emitted_ok :: "grammar \<Rightarrow> (string \<times> string \<times> string) set \<Rightarrow> edge_ref list \<Rightarrow> split_state \<Rightarrow> bool" where
  "emitted_ok g bi xs st \<longleftrightarrow>
     mset xs = mset (base st) + mset (derivable st) \<and>
     emitted_first st = canon ` {e \<in> set xs. foldable g e} \<and>
     (\<forall>e \<in> set (base st). foldable g e \<longrightarrow> reverse_edge e \<notin> set (base st)) \<and>
     (\<forall>e \<in> set (derivable st). foldable g e \<and> reverse_edge e \<in> set (base st)) \<and>
     list_all (\<lambda>i. unat i < length (base st)) (bidir_indices st) \<and>
     map (\<lambda>i. base st ! unat i) (bidir_indices st) = filter (\<lambda>e. foldable g e \<and> canon e \<in> bi) (base st)"

lemma emitted_ok_step:
  assumes "emitted_ok g bi xs st" "distinct (xs @ [e])" "length xs < 2 ^ 32"
  shows "emitted_ok g bi (xs @ [e]) (emit_edge g bi e st)"
proof -
  have ms: "mset xs = mset (base st) + mset (derivable st)" using assms(1) by (simp add: emitted_ok_def)
  then have sets: "set xs = set (base st) \<union> set (derivable st)" by (metis set_mset_mset set_mset_union)
  have e: "e \<notin> set (base st)" "e \<notin> set (derivable st)" using assms(2) sets by auto
  have len: "length (base st) < 2 ^ 32" using assms(3) arg_cong [OF ms, of size] by simp
  then have u: "unat (of_nat (length (base st)) :: 32 word) = length (base st)" by (simp add: unat_of_nat)
  have keep: "map (\<lambda>i. (base st @ [e]) ! unat i) (bidir_indices st) = filter (\<lambda>e. foldable g e \<and> canon e \<in> bi) (base st)"
    "list_all (\<lambda>i. unat i < Suc (length (base st))) (bidir_indices st)"
  proof -
    have "map (\<lambda>i. (base st @ [e]) ! unat i) (bidir_indices st) = map (\<lambda>i. base st ! unat i) (bidir_indices st)"
      by (rule map_cong) (use assms(1) in \<open>auto simp: emitted_ok_def list_all_iff nth_append\<close>)
    also have "\<dots> = filter (\<lambda>e. foldable g e \<and> canon e \<in> bi) (base st)"
      using assms(1) unfolding emitted_ok_def by blast
    finally show "map (\<lambda>i. (base st @ [e]) ! unat i) (bidir_indices st) = filter (\<lambda>e. foldable g e \<and> canon e \<in> bi) (base st)" .
    show "list_all (\<lambda>i. unat i < Suc (length (base st))) (bidir_indices st)"
      using assms(1) by (auto simp: emitted_ok_def list_all_iff)
  qed
  show ?thesis
  proof (cases "foldable g e")
    case False
    have "reverse_edge b \<noteq> e" if "foldable g b" for b using that False foldable_reverse by metis
    then show ?thesis
      using assms(1) False
      by (auto simp: emitted_ok_def emit_edge_def keep)
  next
    case True
    note ne = foldable_ne [OF True]
    have seen: "canon e \<in> emitted_first st \<longleftrightarrow> reverse_edge e \<in> set xs"
      using assms(1,2) True unfolding emitted_ok_def by (auto simp: image_iff canon_eq)
    show ?thesis
    proof (cases "reverse_edge e \<in> set xs")
      case rev: True
      have "reverse_edge e \<in> set (base st)"
      proof (rule ccontr)
        assume "reverse_edge e \<notin> set (base st)"
        then have "reverse_edge e \<in> set (derivable st)" using rev sets by blast
        then have "e \<in> set (base st)" using assms(1) unfolding emitted_ok_def by force
        then show False using e(1) by blast
      qed
      then show ?thesis
        using assms(1) True seen rev unfolding emitted_ok_def emit_edge_def
        by (auto simp: image_iff canon_eq)
    next
      case False
      then have nb: "reverse_edge e \<notin> set (base st)" using sets by blast
      have "reverse_edge b \<noteq> e" if "b \<in> set (base st)" for b using nb that by (metis reverse_edge_simps(4))
      then show ?thesis
        using assms(1) True seen False nb ne u
        by (auto simp: emitted_ok_def emit_edge_def keep)
    qed
  qed
qed

lemma emitted_ok_fold:
  assumes "distinct es" "length es \<le> 2 ^ 32"
  shows "emitted_ok g bi es (fold (emit_edge g bi) es \<lparr>base = [], bidir_indices = [], emitted_first = {}, derivable = []\<rparr>)"
  using assms
proof (induction es rule: rev_induct)
  case (snoc e es)
  then show ?case using emitted_ok_step [OF snoc.IH _ _] by simp
qed (simp add: emitted_ok_def)

lemma derive_indices:
  assumes "list_all (\<lambda>i. unat i < length bs) idxs"
  shows "derive bs idxs = map reverse_edge (map (\<lambda>i. bs ! unat i) idxs)"
proof -
  have "List.map_filter (\<lambda>i. if unat i < length bs then Some (bs ! unat i) else None) idxs = map (\<lambda>i. bs ! unat i) idxs"
    using assms by (induction idxs) (simp_all add: map_filter_simps)
  then show ?thesis by (simp add: derive_def)
qed

lemma split_derive:
  assumes "distinct es" "length es \<le> 2 ^ 32" "split g es = (bs, idxs, drv)"
  shows "mset es = mset bs + mset drv" "mset (derive bs idxs) = mset drv"
proof -
  let ?bi = "paired g es"
  let ?st = "fold (emit_edge g ?bi) es \<lparr>base = [], bidir_indices = [], emitted_first = {}, derivable = []\<rparr>"
  have st: "bs = base ?st" "idxs = bidir_indices ?st" "drv = derivable ?st"
    using assms(3) note_canon_fold [OF assms(1), of g] by (simp_all add: split_def Let_def)
  have ok: "mset es = mset bs + mset drv" "\<forall>e \<in> set bs. foldable g e \<longrightarrow> reverse_edge e \<notin> set bs"
    "\<forall>e \<in> set drv. foldable g e \<and> reverse_edge e \<in> set bs" "list_all (\<lambda>i. unat i < length bs) idxs"
    "map (\<lambda>i. bs ! unat i) idxs = filter (\<lambda>e. foldable g e \<and> canon e \<in> ?bi) bs"
    using emitted_ok_fold [OF assms(1,2), of g ?bi] unfolding emitted_ok_def st by blast+
  show "mset es = mset bs + mset drv" by (rule ok(1))
  have sets: "set es = set bs \<union> set drv" using ok(1) by (metis set_mset_mset set_mset_union)
  have dist: "distinct bs" "distinct drv" "set bs \<inter> set drv = {}"
  proof -
    have "mset es = mset (bs @ drv)" using ok(1) by simp
    then have "distinct (bs @ drv)" using assms(1) mset_eq_imp_distinct_iff by blast
    then show "distinct bs" "distinct drv" "set bs \<inter> set drv = {}" by simp_all
  qed
  let ?d = "map reverse_edge (filter (\<lambda>e. foldable g e \<and> canon e \<in> ?bi) bs)"
  have d: "derive bs idxs = ?d" using derive_indices [OF ok(4)] ok(5) by simp
  have "distinct ?d" using dist(1) inj_reverse_edge by (simp add: distinct_map inj_on_def)
  moreover have "set ?d = set drv"
  proof
    show "set ?d \<subseteq> set drv"
    proof
      fix x assume "x \<in> set ?d"
      then obtain b where b: "b \<in> set bs" "foldable g b" "canon b \<in> ?bi" "x = reverse_edge b" by auto
      then obtain e where "e \<in> set es" "reverse_edge e \<in> set es" "e = b \<or> e = reverse_edge b"
        by (auto simp: paired_def canon_eq)
      then have "x \<in> set es" using b(4) by auto
      then show "x \<in> set drv" using ok(2) b sets by auto
    qed
  next
    show "set drv \<subseteq> set ?d"
    proof
      fix x assume x: "x \<in> set drv"
      then have r: "foldable g x" "reverse_edge x \<in> set bs" using ok(3) by auto
      have "canon (reverse_edge x) \<in> ?bi"
        unfolding paired_def using r x sets by (auto simp: image_iff canon_eq intro!: bexI [of _ x])
      then show "x \<in> set ?d" using r by (auto simp: image_iff intro!: bexI [of _ "reverse_edge x"])
    qed
  qed
  ultimately show "mset (derive bs idxs) = mset drv"
    unfolding d using dist(2) set_eq_iff_mset_eq_distinct by blast
qed

section \<open>Properties\<close>

text \<open>
  C26: The content bytes, and so the hash, identify a graph.  Two graphs given as unsorted lists with
  repetitions have the same content bytes exactly when they have the same set of nodes and the same
  set of edges, as long as no length reaches \<open>2 ^ 64\<close>.
\<close>

theorem content_identifies_the_graph:
  assumes "state_fits (new_state ns es)" "state_fits (new_state ns' es')"
  shows "content_bytes (new_state ns es) = content_bytes (new_state ns' es') \<longleftrightarrow> set ns = set ns' \<and> set es = set es'"
proof
  assume "content_bytes (new_state ns es) = content_bytes (new_state ns' es')"
  then have "new_state ns es = new_state ns' es'" using content_bytes_inject assms by blast
  then have "remdups_adj (sort ns) = remdups_adj (sort ns')" "remdups_adj (sort es) = remdups_adj (sort es')"
    by (simp_all add: new_state_def)
  then show "set ns = set ns' \<and> set es = set es'" by (metis remdups_adj_set set_sort)
next
  assume "set ns = set ns' \<and> set es = set es'"
  then show "content_bytes (new_state ns es) = content_bytes (new_state ns' es')" by (simp add: new_state_def sort_dedup)
qed

theorem content_identifies_the_graph_witness:
  "content_bytes (new_state [\<lparr>node_id = ''a'', node_label = ''bc''\<rparr>] []) \<noteq> content_bytes (new_state [\<lparr>node_id = ''ab'', node_label = ''c''\<rparr>] [])"
proof -
  have "state_fits (new_state [\<lparr>node_id = ''a'', node_label = ''bc''\<rparr>] [])" "state_fits (new_state [\<lparr>node_id = ''ab'', node_label = ''c''\<rparr>] [])"
    by (simp_all add: state_fits_def new_state_def fits_def node_fits_def)
  from content_identifies_the_graph [OF this] show ?thesis by simp
qed

text \<open>
  Encoding loses nothing.  Against the codebook built from the same graph the encoder never panics,
  and the client's lookup of every index and prefix gives back the graph, whatever order the hash map
  of prefixes was read in; the indices fit their 32 bits when the graph has fewer nodes and edges
  than \<open>2 ^ 32\<close>.
\<close>

theorem encoding_is_lossless:
  assumes "\<forall>ks. length (order ks) = length ks" "length (gs_nodes s) < 2 ^ 32" "length (gs_edges s) < 2 ^ 32"
  shows "\<exists>eg. encode blake3 s (from_graph order s) = Some eg \<and> decode (from_graph order s) eg = Some s"
proof -
  let ?cb = "from_graph order s"
  note p = from_graph_palettes [of order s]
  have small: "small (labels ?cb)" "small (kinds ?cb)" "small (id_prefixes ?cb)"
    using p(3,4) from_graph_prefixes [OF assms(1), of s] assms(2,3) by (auto simp: small_def)
  obtain ns where ns: "those (map (encode_node ?cb) (gs_nodes s)) = Some ns" "those (map (decode_node ?cb) ns) = Some (gs_nodes s)"
    using those_map_Some [of "gs_nodes s" "encode_node ?cb" "decode_node ?cb"] encode_node_decode [OF small(1,3)] p(1) by auto
  obtain es where es: "those (map (encode_edge ?cb) (gs_edges s)) = Some es" "those (map (decode_edge ?cb) es) = Some (gs_edges s)"
    using those_map_Some [of "gs_edges s" "encode_edge ?cb" "decode_edge ?cb"] encode_edge_decode [OF small(2,3)] p(2) by auto
  show ?thesis by (simp add: encode_def decode_def ns es)
qed

theorem encoding_is_lossless_witness:
  "\<exists>eg. encode id \<lparr>gs_nodes = [\<lparr>node_id = ''m:1'', node_label = ''Memory''\<rparr>], gs_edges = []\<rparr>
      (from_graph id \<lparr>gs_nodes = [\<lparr>node_id = ''m:1'', node_label = ''Memory''\<rparr>], gs_edges = []\<rparr>) = Some eg"
  using encoding_is_lossless [of id "\<lparr>gs_nodes = [\<lparr>node_id = ''m:1'', node_label = ''Memory''\<rparr>], gs_edges = []\<rparr>" id] by auto

text \<open>
  C29: Dropping the reverse of a symmetric edge loses nothing.  For a list of edges without repetition
  the shipped edges and the edges derived from the marked ones are together a permutation of the
  original list, and the check of the source confirms it with equal counts.
\<close>

theorem folding_is_lossless:
  assumes "distinct (gs_edges s)" "length (gs_edges s) \<le> 2 ^ 32"
  shows "(case split g (gs_edges s) of (bs, idxs, drv) \<Rightarrow>
      mset (bs @ derive bs idxs) = mset (gs_edges s) \<and> mset (derive bs idxs) = mset drv) \<and>
    round_trip_check g s = (True, length (gs_edges s), length (gs_edges s))"
proof -
  obtain bs idxs drv where sp: "split g (gs_edges s) = (bs, idxs, drv)" by (metis prod_cases3)
  note m = split_derive [OF assms sp]
  have perm: "mset (bs @ derive bs idxs) = mset (gs_edges s)" using m by simp
  then have "set bs \<union> set (derive bs idxs) = set (gs_edges s)" by (metis set_append mset_eq_setD)
  moreover have "inj_on (\<lambda>e. (edge_kind e, edge_from e, edge_to e)) (set (gs_edges s))"
    by (rule inj_onI) simp
  then have "card ((\<lambda>e. (edge_kind e, edge_from e, edge_to e)) ` set (gs_edges s)) = length (gs_edges s)"
    using assms(1) by (simp add: card_image distinct_card)
  ultimately show ?thesis
    using perm m(2) by (simp add: sp round_trip_check_def Let_def image_Un [symmetric])
qed

theorem folding_is_lossless_witness:
  "round_trip_check for_cortex_memory
     \<lparr>gs_nodes = [], gs_edges = [\<lparr>edge_from = ''a'', edge_to = ''b'', edge_kind = ''co_occurrence''\<rparr>,
        \<lparr>edge_from = ''b'', edge_to = ''a'', edge_kind = ''co_occurrence''\<rparr>]\<rparr> = (True, 2, 2)"
  using folding_is_lossless [of "\<lparr>gs_nodes = [], gs_edges = [\<lparr>edge_from = ''a'', edge_to = ''b'', edge_kind = ''co_occurrence''\<rparr>,
        \<lparr>edge_from = ''b'', edge_to = ''a'', edge_kind = ''co_occurrence''\<rparr>]\<rparr>" for_cortex_memory] by simp

text \<open>A repeated edge is taken for its own reverse: the check of the source reports the loss.\<close>

lemma repeated_edge_is_reversed:
  "round_trip_check for_cortex_memory
     \<lparr>gs_nodes = [], gs_edges = [\<lparr>edge_from = ''a'', edge_to = ''b'', edge_kind = ''co_occurrence''\<rparr>,
        \<lparr>edge_from = ''a'', edge_to = ''b'', edge_kind = ''co_occurrence''\<rparr>]\<rparr> = (False, 1, 2)"
  by code_simp

end
