(* ===== verification/Lsp_Readiness.thy ===== *)
theory Lsp_Readiness
  imports Lsp_Protocol
begin

text \<open>
  \<open>src/lsp_client/readiness.rs\<close> and \<open>src/lsp_client/health.rs\<close>: waiting for a language server.  Time is
  in milliseconds.  What the channel will deliver is a list of frames with their times of arrival; a
  frame that arrives before the checkpoint is received, otherwise the wait wakes at the checkpoint.
  A failure of the channel is a frame too.  The code between two waits takes no time.
\<close>

section \<open>Messages\<close>

datatype health_level = HealthOk | HealthWarning | HealthError | HealthUnknown

record server_status =
  st_health :: health_level
  quiescent :: bool
  st_message :: "string option"

definition health_level_of :: "string option \<Rightarrow> health_level" where
  "health_level_of h =
     (if h = Some ''ok'' then HealthOk else if h = Some ''warning'' then HealthWarning
      else if h = Some ''error'' then HealthError else HealthUnknown)"

definition parse_server_status :: "json \<Rightarrow> server_status option" where
  "parse_server_status msg =
     (if field_str msg ''method'' \<noteq> Some ''experimental/serverStatus'' then None
      else Option.bind (json_get msg ''params'') (\<lambda>params.
           Option.bind (Option.bind (json_get params ''quiescent'') as_bool) (\<lambda>q.
           Some \<lparr>st_health = health_level_of (field_str params ''health''), quiescent = q,
                 st_message = field_str params ''message''\<rparr>)))"

definition server_workdone_progress_create :: "json \<Rightarrow> int option" where
  "server_workdone_progress_create msg =
     (if field_str msg ''method'' \<noteq> Some ''window/workDoneProgress/create'' then None
      else Option.bind (json_get msg ''id'') as_i64)"

datatype progress_kind = Begin | Report | End

definition integer_text :: "int \<Rightarrow> string" where
  "integer_text n = (if n < 0 then ''-'' @ decimal (nat (- n)) else decimal (nat n))"

definition token_text :: "json \<Rightarrow> string option" where
  "token_text token = or_else (as_str token) (map_option integer_text (as_i64 token))"

definition kind_of :: "string \<Rightarrow> progress_kind option" where
  "kind_of k = (if k = ''begin'' then Some Begin else if k = ''report'' then Some Report
     else if k = ''end'' then Some End else None)"

definition progress_kind :: "json \<Rightarrow> (string \<times> progress_kind) option" where
  "progress_kind msg =
     (if field_str msg ''method'' \<noteq> Some ''$/progress'' then None
      else Option.bind (json_get msg ''params'') (\<lambda>params.
           Option.bind (json_get params ''token'') (\<lambda>tok.
           Option.bind (token_text tok) (\<lambda>token.
           Option.bind (json_get params ''value'') (\<lambda>v.
           Option.bind (field_str v ''kind'') (\<lambda>k.
           map_option (Pair token) (kind_of k)))))))"

section \<open>The state of a wait\<close>

definition PROGRESS_QUIET_WINDOW :: nat where
  "PROGRESS_QUIET_WINDOW = 500"

datatype readiness_outcome = ServerReportedQuiescent | NoProgressReported | AllProgressEnded | DeadlineExpired

record progress_state =
  outstanding :: "string set"
  ever_began :: bool
  idle_since :: "nat option"
  onset_deadline :: nat
  server_status_seen :: bool

definition new_progress :: "nat \<Rightarrow> progress_state" where
  "new_progress now =
     \<lparr>outstanding = {}, ever_began = False, idle_since = Some now,
      onset_deadline = now + PROGRESS_QUIET_WINDOW, server_status_seen = False\<rparr>"

definition checkpoint :: "progress_state \<Rightarrow> nat \<Rightarrow> nat" where
  "checkpoint st deadline =
     (if server_status_seen st then deadline
      else min (if \<not> ever_began st then onset_deadline st
                else case idle_since st of Some idle_at \<Rightarrow> idle_at + PROGRESS_QUIET_WINDOW | None \<Rightarrow> deadline)
             deadline)"

definition note_server_status_activity :: "progress_state \<Rightarrow> progress_state" where
  "note_server_status_activity st = st\<lparr>server_status_seen := True\<rparr>"

definition give_up :: "bool \<Rightarrow> bool \<Rightarrow> readiness_outcome" where
  "give_up began outstanding_empty =
     (if \<not> began then NoProgressReported
      else if outstanding_empty then AllProgressEnded else DeadlineExpired)"

definition state_give_up :: "progress_state \<Rightarrow> readiness_outcome" where
  "state_give_up st = give_up (ever_began st) (outstanding st = {})"

text \<open>The acknowledged requests are collected; what writing them returns is ignored by the source.\<close>

definition apply_msg :: "json \<Rightarrow> nat \<Rightarrow> progress_state \<times> int list \<Rightarrow> progress_state \<times> int list" where
  "apply_msg msg now acc = (case acc of (st, acks) \<Rightarrow>
     (case server_workdone_progress_create msg of
        Some i \<Rightarrow> (st, acks @ [i])
      | None \<Rightarrow>
          (case progress_kind msg of
             Some (token, Begin) \<Rightarrow>
               (st\<lparr>ever_began := True, outstanding := insert token (outstanding st), idle_since := None\<rparr>, acks)
           | Some (token, End) \<Rightarrow>
               (let left = outstanding st - {token} in
                (st\<lparr>outstanding := left, idle_since := (if left = {} then Some now else idle_since st)\<rparr>, acks))
           | Some (token, Report) \<Rightarrow> (st, acks)
           | None \<Rightarrow> (st, acks))))"

record server_health =
  level :: health_level
  message :: "string option"
  readiness :: readiness_outcome

definition not_probed :: server_health where
  "not_probed = \<lparr>level = HealthUnknown, message = None, readiness = NoProgressReported\<rparr>"

definition record_health :: "server_status \<Rightarrow> health_level \<times> string option \<Rightarrow> health_level \<times> string option" where
  "record_health status h = (st_health status, st_message status)"

definition finish :: "health_level \<times> string option \<Rightarrow> readiness_outcome \<Rightarrow> server_health" where
  "finish h outcome = \<lparr>level = fst h, message = snd h, readiness = outcome\<rparr>"

section \<open>The wait\<close>

record wait_result =
  wr_health :: server_health
  wr_end :: nat
  wr_acks :: "int list"
  wr_received :: "(nat \<times> json) list"
  wr_left :: "arrival list"

fun wait_loop ::
  "nat \<Rightarrow> arrival list \<Rightarrow> nat \<Rightarrow> progress_state \<times> int list \<Rightarrow> health_level \<times> string option \<Rightarrow> (nat \<times> json) list \<Rightarrow> wait_result" where
  "wait_loop deadline [] now (st, acks) h received =
     \<lparr>wr_health = finish h (state_give_up st), wr_end = max now (checkpoint st deadline), wr_acks = acks, wr_received = received,
      wr_left = []\<rparr>"
| "wait_loop deadline ((t, frame) # arrivals) now (st, acks) h received =
     (let cp = checkpoint st deadline in
      if cp \<le> now \<or> cp \<le> t then
        \<lparr>wr_health = finish h (state_give_up st), wr_end = max now cp, wr_acks = acks, wr_received = received,
         wr_left = (t, frame) # arrivals\<rparr>
      else
        let now' = max now t in
        case frame of
          Inl e \<Rightarrow>
            if is_skippable e \<or> is_timeout e then wait_loop deadline arrivals now' (st, acks) h received
            else \<lparr>wr_health = finish h (state_give_up st), wr_end = now', wr_acks = acks, wr_received = received,
                  wr_left = frames_after (t, frame) arrivals\<rparr>
        | Inr msg \<Rightarrow>
            (case parse_server_status msg of
               Some status \<Rightarrow>
                 (let h' = record_health status h in
                  if quiescent status then
                    \<lparr>wr_health = finish h' ServerReportedQuiescent, wr_end = now', wr_acks = acks, wr_received = received @ [(now', msg)],
                     wr_left = arrivals\<rparr>
                  else wait_loop deadline arrivals now' (note_server_status_activity st, acks) h' (received @ [(now', msg)]))
             | None \<Rightarrow> wait_loop deadline arrivals now' (apply_msg msg now' (st, acks)) h (received @ [(now', msg)])))"

definition wait_for_ready :: "arrival list \<Rightarrow> nat \<Rightarrow> nat \<Rightarrow> wait_result" where
  "wait_for_ready arrivals start deadline =
     wait_loop deadline arrivals start (new_progress start, []) (HealthUnknown, None) []"

section \<open>What the received messages say\<close>

definition statuses :: "(nat \<times> json) list \<Rightarrow> server_status list" where
  "statuses rs = List.map_filter (\<lambda>(t, m). parse_server_status m) rs"

definition creates :: "(nat \<times> json) list \<Rightarrow> int list" where
  "creates rs = List.map_filter (\<lambda>(t, m). server_workdone_progress_create m) rs"

definition progresses :: "(nat \<times> json) list \<Rightarrow> (string \<times> progress_kind) list" where
  "progresses rs = List.map_filter (\<lambda>(t, m). progress_kind m) rs"

definition begins :: "json \<Rightarrow> bool" where
  "begins m \<longleftrightarrow> (\<exists>token. progress_kind m = Some (token, Begin))"

text \<open>The tokens that began and did not end since.\<close>

fun open_tokens :: "(string \<times> progress_kind) list \<Rightarrow> string set \<Rightarrow> string set" where
  "open_tokens [] ts = ts"
| "open_tokens ((token, Begin) # ps) ts = open_tokens ps (insert token ts)"
| "open_tokens ((token, End) # ps) ts = open_tokens ps (ts - {token})"
| "open_tokens ((token, Report) # ps) ts = open_tokens ps ts"

definition last_health :: "server_status list \<Rightarrow> health_level \<times> string option" where
  "last_health ss = (if ss = [] then (HealthUnknown, None) else (st_health (last ss), st_message (last ss)))"

lemma map_filter_append: "List.map_filter f (xs @ ys) = List.map_filter f xs @ List.map_filter f ys"
  by (simp add: List.map_filter_def)

lemma map_filter_one: "List.map_filter f [x] = (case f x of Some y \<Rightarrow> [y] | None \<Rightarrow> [])"
  by (simp add: map_filter_simps split: option.splits)

lemma open_tokens_append: "open_tokens (ps @ qs) ts = open_tokens qs (open_tokens ps ts)"
  by (induction ps ts rule: open_tokens.induct) auto

lemmas received_simps =
  statuses_def creates_def progresses_def map_filter_append map_filter_one open_tokens_append

text \<open>One message has one method.\<close>

lemma status_method: "parse_server_status m = Some s \<Longrightarrow> field_str m ''method'' = Some ''experimental/serverStatus''"
  by (auto simp: parse_server_status_def split: if_splits)

lemma create_method: "server_workdone_progress_create m = Some i \<Longrightarrow> field_str m ''method'' = Some ''window/workDoneProgress/create''"
  by (auto simp: server_workdone_progress_create_def split: if_splits)

lemma progress_method: "progress_kind m = Some p \<Longrightarrow> field_str m ''method'' = Some ''$/progress''"
  by (auto simp: progress_kind_def split: if_splits)

lemma status_alone: "parse_server_status m = Some s \<Longrightarrow> server_workdone_progress_create m = None \<and> progress_kind m = None"
  using status_method by (simp add: server_workdone_progress_create_def progress_kind_def)

lemma create_alone: "server_workdone_progress_create m = Some i \<Longrightarrow> progress_kind m = None"
  using create_method by (simp add: progress_kind_def)

section \<open>The invariant of the wait\<close>

definition wait_ok :: "nat \<Rightarrow> nat \<Rightarrow> progress_state \<Rightarrow> int list \<Rightarrow> health_level \<times> string option \<Rightarrow> (nat \<times> json) list \<Rightarrow> bool" where
  "wait_ok start now st acks h rs \<longleftrightarrow>
     outstanding st = open_tokens (progresses rs) {} \<and> ever_began st = (\<exists>(t, m) \<in> set rs. begins m) \<and>
     server_status_seen st = (statuses rs \<noteq> []) \<and> (\<forall>s \<in> set (statuses rs). \<not> quiescent s) \<and>
     acks = creates rs \<and> h = last_health (statuses rs) \<and> onset_deadline st = start + PROGRESS_QUIET_WINDOW \<and>
     (\<forall>(t, m) \<in> set rs. t \<le> now) \<and>
     (case idle_since st of
        None \<Rightarrow> outstanding st \<noteq> {}
      | Some i \<Rightarrow> outstanding st = {} \<and> i \<le> now \<and> (\<forall>(t, m) \<in> set rs. begins m \<longrightarrow> t \<le> i))"

lemma wait_ok_later: "wait_ok start now st acks h rs \<Longrightarrow> now \<le> now' \<Longrightarrow> wait_ok start now' st acks h rs"
  unfolding wait_ok_def by (cases "idle_since st") (auto intro: order_trans)

lemma wait_ok_status:
  assumes "wait_ok start now st acks h rs" "parse_server_status m = Some s" "\<not> quiescent s"
  shows "wait_ok start now (note_server_status_activity st) acks (record_health s h) (rs @ [(now, m)])"
  using assms status_alone [OF assms(2)]
  by (auto simp: wait_ok_def received_simps note_server_status_activity_def record_health_def last_health_def begins_def
      split: option.splits)

lemma wait_ok_apply:
  assumes "wait_ok start now st acks h rs" "parse_server_status m = None" "apply_msg m now (st, acks) = (st', acks')"
  shows "wait_ok start now st' acks' h (rs @ [(now, m)])"
proof (cases "server_workdone_progress_create m")
  case (Some i)
  then show ?thesis
    using assms create_alone [OF Some]
    by (auto simp: wait_ok_def received_simps apply_msg_def begins_def split: option.splits)
next
  case None
  show ?thesis
  proof (cases "progress_kind m")
    case None': None
    then show ?thesis using assms None
      by (auto simp: wait_ok_def received_simps apply_msg_def begins_def split: option.splits)
  next
    case (Some p)
    obtain token k where p: "p = (token, k)" by fastforce
    have shared: "statuses (rs @ [(now, m)]) = statuses rs" "creates (rs @ [(now, m)]) = creates rs"
      "progresses (rs @ [(now, m)]) = progresses rs @ [(token, k)]" "begins m \<longleftrightarrow> k = Begin"
      using assms(2) None Some by (simp_all add: received_simps p begins_def)
    show ?thesis
    proof (cases k)
      case Begin
      then show ?thesis using assms(1,3) None Some shared
        by (auto simp: p wait_ok_def open_tokens_append apply_msg_def)
    next
      case Report
      then show ?thesis using assms(1,3) None Some shared
        by (auto simp: p wait_ok_def open_tokens_append apply_msg_def split: option.splits)
    next
      case End
      then show ?thesis using assms(1,3) None Some shared
        by (auto simp: p wait_ok_def open_tokens_append apply_msg_def Let_def split: option.splits if_splits)
    qed
  qed
qed

lemma wait_ok_new: "wait_ok start start (new_progress start) [] (HealthUnknown, None) []"
  by (simp add: wait_ok_def new_progress_def received_simps last_health_def map_filter_simps)

section \<open>How a wait ends\<close>

lemma checkpoint_le: "checkpoint st deadline \<le> deadline"
  by (simp add: checkpoint_def)

text \<open>At a checkpoint or at a failure of the channel the wait gives up; a quiescent server ends it before.\<close>

definition gave_up :: "nat \<Rightarrow> nat \<Rightarrow> arrival list \<Rightarrow> wait_result \<Rightarrow> bool" where
  "gave_up start deadline arrivals r \<longleftrightarrow>
     (\<exists>now st h. wait_ok start now st (wr_acks r) h (wr_received r) \<and> now \<le> max start deadline \<and>
        wr_health r = finish h (state_give_up st) \<and>
        (wr_end r = max now (checkpoint st deadline) \<or> wr_end r = now \<and> (\<exists>a \<in> set arrivals. is_fatal (snd a))))"

definition told_quiescent :: "nat \<Rightarrow> nat \<Rightarrow> wait_result \<Rightarrow> bool" where
  "told_quiescent start deadline r \<longleftrightarrow>
     (\<exists>st h rs m s. wait_ok start (wr_end r) st (wr_acks r) h rs \<and> wr_end r \<le> max start deadline \<and>
        wr_received r = rs @ [(wr_end r, m)] \<and> parse_server_status m = Some s \<and> quiescent s \<and>
        wr_health r = finish (record_health s h) ServerReportedQuiescent)"

lemma gave_up_cons: "gave_up start deadline as r \<Longrightarrow> gave_up start deadline (a # as) r"
  unfolding gave_up_def by (metis list.set_intros(2))

lemma wait_loop_ends:
  assumes "wait_ok start now st acks h rs" "now \<le> max start deadline"
  shows "gave_up start deadline arrivals (wait_loop deadline arrivals now (st, acks) h rs) \<or>
         told_quiescent start deadline (wait_loop deadline arrivals now (st, acks) h rs)"
  using assms
proof (induction arrivals arbitrary: now st acks h rs)
  case Nil
  then have "gave_up start deadline [] (wait_loop deadline [] now (st, acks) h rs)"
    unfolding gave_up_def by (auto simp del: split_paired_Ex intro!: exI [of _ now] exI [of _ st] exI [of _ h])
  then show ?case ..
next
  case (Cons a arrivals)
  obtain t frame where a: "a = (t, frame)" by fastforce
  let ?cp = "checkpoint st deadline" and ?r = "wait_loop deadline (a # arrivals) now (st, acks) h rs"
  let ?now = "max now t"
  show ?case
  proof (cases "?cp \<le> now \<or> ?cp \<le> t")
    case True
    then have "gave_up start deadline (a # arrivals) ?r"
      using Cons.prems unfolding gave_up_def by (auto simp: a simp del: split_paired_Ex intro!: exI [of _ now] exI [of _ st] exI [of _ h])
    then show ?thesis ..
  next
    case False
    have ok: "wait_ok start ?now st acks h rs" using wait_ok_later [OF Cons.prems(1)] by simp
    have le: "?now \<le> max start deadline" using False Cons.prems(2) checkpoint_le [of st deadline] by auto
    show ?thesis
    proof (cases frame)
      case (Inl e)
      show ?thesis
      proof (cases "is_fatal_error e")
        case False
        then show ?thesis using Cons.IH [OF ok le] \<open>\<not> (?cp \<le> now \<or> ?cp \<le> t)\<close> gave_up_cons by (auto simp: a Inl Let_def frame_error_kinds)
      next
        case skip: True
        have "is_fatal frame" using skip by (simp add: Inl)
        then have "gave_up start deadline (a # arrivals) ?r"
          using ok le skip False unfolding gave_up_def
          by (auto simp: a Inl Let_def frame_error_kinds simp del: split_paired_Ex intro!: exI [of _ ?now] exI [of _ st] exI [of _ h])
        then show ?thesis ..
      qed
    next
      case (Inr m)
      show ?thesis
      proof (cases "parse_server_status m")
        case None
        obtain st' acks' where ap: "apply_msg m ?now (st, acks) = (st', acks')" by fastforce
        show ?thesis using Cons.IH [OF wait_ok_apply [OF ok None ap] le] False gave_up_cons
          by (auto simp: a Inr None ap Let_def)
      next
        case (Some s)
        show ?thesis
        proof (cases "quiescent s")
          case True
          then have "told_quiescent start deadline ?r"
            using ok le False Some unfolding told_quiescent_def
            by (auto simp: a Inr Let_def simp del: split_paired_Ex intro!: exI [of _ st] exI [of _ h])
          then show ?thesis ..
        next
          case nq: False
          show ?thesis using Cons.IH [OF wait_ok_status [OF ok Some nq] le] False gave_up_cons nq
            by (auto simp: a Inr Some Let_def)
        qed
      qed
    qed
  qed
qed

lemma wait_for_ready_ends:
  "gave_up start deadline arrivals (wait_for_ready arrivals start deadline) \<or>
   told_quiescent start deadline (wait_for_ready arrivals start deadline)"
  unfolding wait_for_ready_def by (rule wait_loop_ends [OF wait_ok_new]) simp

lemma last_health_snoc: "last_health (ss @ [s]) = record_health s h"
  by (simp add: last_health_def record_health_def)

lemma told_quiescent_received:
  assumes "wait_ok start now st acks h rs" "parse_server_status m = Some s"
  shows "statuses (rs @ [(t, m)]) = statuses rs @ [s]" "creates (rs @ [(t, m)]) = creates rs"
    "progresses (rs @ [(t, m)]) = progresses rs" "\<not> begins m"
  using status_alone [OF assms(2)] assms by (simp_all add: received_simps begins_def)

text \<open>The outcome as a function of what was received.\<close>

definition spec_outcome :: "(nat \<times> json) list \<Rightarrow> readiness_outcome" where
  "spec_outcome rs =
     (if statuses rs \<noteq> [] \<and> quiescent (last (statuses rs)) then ServerReportedQuiescent
      else if \<not> (\<exists>(t, m) \<in> set rs. begins m) then NoProgressReported
      else if open_tokens (progresses rs) {} = {} then AllProgressEnded
      else DeadlineExpired)"

text \<open>
  The health that \<open>wait_for_ready\<close> returns is a function of the messages it received: level and
  message are those of the last server status, the outcome is quiescence exactly if that status was
  quiescent, and otherwise no progress if no token began, all ended if every begun token has ended, and
  an expired deadline if one is open.  Every create request received is acknowledged, in order, and
  the wait ends by the deadline.
\<close>

theorem wait_reports_what_it_received:
  "let r = wait_for_ready arrivals start deadline; rs = wr_received r in
     wr_health r = \<lparr>level = fst (last_health (statuses rs)), message = snd (last_health (statuses rs)),
                    readiness = spec_outcome rs\<rparr> \<and>
     wr_acks r = creates rs \<and> wr_end r \<le> max start deadline"
proof -
  let ?r = "wait_for_ready arrivals start deadline"
  consider "gave_up start deadline arrivals ?r" | "told_quiescent start deadline ?r"
    using wait_for_ready_ends by blast
  then show ?thesis
  proof cases
    case 1
    then obtain now st h where ok: "wait_ok start now st (wr_acks ?r) h (wr_received ?r)" and now: "now \<le> max start deadline"
      and health: "wr_health ?r = finish h (state_give_up st)"
      and "end": "wr_end ?r = max now (checkpoint st deadline) \<or> wr_end ?r = now"
      unfolding gave_up_def by blast
    have "wr_end ?r \<le> max start deadline" using "end" now checkpoint_le [of st deadline] by auto
    moreover have "state_give_up st = spec_outcome (wr_received ?r)"
      using ok by (auto simp: wait_ok_def state_give_up_def give_up_def spec_outcome_def)
    ultimately show ?thesis using ok health by (simp add: Let_def finish_def wait_ok_def)
  next
    case 2
    then obtain st h rs m s where ok: "wait_ok start (wr_end ?r) st (wr_acks ?r) h rs"
      and rest: "wr_end ?r \<le> max start deadline" "wr_received ?r = rs @ [(wr_end ?r, m)]" "quiescent s"
        "wr_health ?r = finish (record_health s h) ServerReportedQuiescent" and s: "parse_server_status m = Some s"
      unfolding told_quiescent_def by blast
    show ?thesis using ok rest last_health_snoc [of "statuses rs" s h]
      by (simp add: Let_def finish_def wait_ok_def spec_outcome_def told_quiescent_received [OF ok s])
  qed
qed

text \<open>
  If the channel does not fail and the server sent no status, a wait that ends before its deadline
  has been quiet for 500 milliseconds: if no progress is reported they are the first of the wait, and
  if all progress has ended every begin was received that long before the end.
\<close>

theorem wait_ends_early_only_after_quiet:
  assumes "r = wait_for_ready arrivals start deadline" "\<forall>a \<in> set arrivals. \<not> is_fatal (snd a)" "statuses (wr_received r) = []"
    "wr_end r < deadline" "start \<le> deadline"
  shows "(\<forall>(t, m) \<in> set (wr_received r).
            begins m \<longrightarrow> t + PROGRESS_QUIET_WINDOW \<le> wr_end r) \<and>
         (readiness (wr_health r) = NoProgressReported \<longrightarrow>
            start + PROGRESS_QUIET_WINDOW \<le> wr_end r) \<and>
         readiness (wr_health r) \<noteq> DeadlineExpired"
proof -
  note ends = wait_for_ready_ends [of start deadline arrivals, folded assms(1)]
  have "\<not> told_quiescent start deadline r"
    using assms(3) told_quiescent_received(1) unfolding told_quiescent_def by fastforce
  then obtain now st h where ok: "wait_ok start now st (wr_acks r) h (wr_received r)"
    and health: "wr_health r = finish h (state_give_up st)" and "end": "wr_end r = max now (checkpoint st deadline)"
    using ends assms(2) unfolding gave_up_def by blast
  have cp: "checkpoint st deadline < deadline" "checkpoint st deadline \<le> wr_end r"
    using "end" assms(4) by simp_all
  have seen: "\<not> server_status_seen st" using ok assms(3) by (simp add: wait_ok_def)
  show ?thesis
  proof (cases "ever_began st")
    case False
    then have "checkpoint st deadline = start + PROGRESS_QUIET_WINDOW"
      using ok seen cp(1) by (auto simp: checkpoint_def wait_ok_def min_def split: if_splits)
    then show ?thesis using ok cp False health by (auto simp: wait_ok_def finish_def state_give_up_def give_up_def)
  next
    case True
    then obtain i where i: "idle_since st = Some i" "checkpoint st deadline = i + PROGRESS_QUIET_WINDOW"
      using seen cp(1) by (auto simp: checkpoint_def min_def split: option.splits if_splits)
    have "outstanding st = {}" "\<forall>(t, m) \<in> set (wr_received r). begins m \<longrightarrow> t \<le> i"
      using ok i(1) by (auto simp: wait_ok_def)
    then show ?thesis using cp(2) i(2) True health by (auto simp: finish_def state_give_up_def give_up_def)
  qed
qed

definition begin_message :: json where
  "begin_message = JObject [(''method'', JString ''$/progress''), (''params'', JObject [(''token'', JInt 7),
     (''value'', JObject [(''kind'', JString ''begin'')])])]"

definition end_message :: json where
  "end_message = JObject [(''method'', JString ''$/progress''), (''params'', JObject [(''token'', JInt 7),
     (''value'', JObject [(''kind'', JString ''end'')])])]"

definition not_yet :: json where
  "not_yet = JObject [(''method'', JString ''experimental/serverStatus''), (''params'', JObject [(''health'', JString ''ok''),
     (''quiescent'', JBool False)])]"

lemma example_wait:
  "wait_for_ready [(100, Ok begin_message), (300, Ok end_message)] 0 10000 =
     \<lparr>wr_health = \<lparr>level = HealthUnknown, message = None, readiness = AllProgressEnded\<rparr>, wr_end = 800, wr_acks = [],
      wr_received = [(100, begin_message), (300, end_message)], wr_left = []\<rparr>"
  by code_simp

lemma wait_ends_early_only_after_quiet_witness:
  "\<forall>(t, m) \<in> set [(100::nat, begin_message), (300, end_message)]. begins m \<longrightarrow> t + 500 \<le> 800"
  using wait_ends_early_only_after_quiet [OF example_wait [symmetric]]
  by (simp add: PROGRESS_QUIET_WINDOW_def)

text \<open>After a status that is not quiescent the wait lasts to its deadline, and still reports that no progress was seen.\<close>

lemma status_seen_reports_no_progress:
  "wait_for_ready [(10, Ok not_yet)] 0 10000 =
     \<lparr>wr_health = \<lparr>level = HealthOk, message = None, readiness = NoProgressReported\<rparr>, wr_end = 10000, wr_acks = [],
      wr_received = [(10, not_yet)], wr_left = []\<rparr>"
  by code_simp

end
