(* ===== verification/Lsp_Uri.thy ===== *)
theory Lsp_Uri
  imports Utf8
begin

text \<open>
  \<open>src/lsp_client/uri.rs\<close>: \<open>file:\<close> URIs.  A path is the UTF-8 text \<open>display()\<close> gives of it; the
  reader of \<open>{c:02X}\<close> and of \<open>from_str_radix(_, 16)\<close> on two hexadecimal digits are the two directions
  of \<open>hex_upper\<close> and \<open>hex_digit\<close>.
\<close>

definition hex_char :: "nat \<Rightarrow> char" where
  "hex_char n = (if n < 10 then byte (48 + n) else byte (55 + n))"

definition hex_digit :: "char \<Rightarrow> nat" where
  "hex_digit c =
     (if code c \<le> 57 then code c - 48 else if code c \<le> 70 then code c - 55 else code c - 87)"

definition uri_keep :: "char \<Rightarrow> bool" where
  "uri_keep c \<longleftrightarrow> is_alnum c \<or> c \<in> {CHR ''-'', CHR ''.'', CHR ''_'', CHR ''~'', CHR ''/''}"

definition uri_byte :: "char \<Rightarrow> string" where
  "uri_byte c = (if uri_keep c then [c] else [CHR ''%'', hex_char (code c div 16), hex_char (code c mod 16)])"

definition path_to_file_uri :: "string \<Rightarrow> string" where
  "path_to_file_uri path = ''file://'' @ concat (map uri_byte path)"

definition strip_file_scheme_and_authority :: "string \<Rightarrow> string option" where
  "strip_file_scheme_and_authority uri =
     Option.bind (strip_prefix uri ''file://'') (\<lambda>rest.
       Option.bind (find_index (\<lambda>c. c = CHR ''/'') rest) (\<lambda>path_start.
         let authority = take path_start rest in
         if authority = [] \<or> eq_ignore_case authority ''localhost'' then Some (drop path_start rest) else None))"

fun percent_decode :: "string \<Rightarrow> string" where
  "percent_decode (c # a # b # s) =
     (if c = CHR ''%'' \<and> is_hexdigit a \<and> is_hexdigit b
      then byte (hex_digit a * 16 + hex_digit b) # percent_decode s
      else c # percent_decode (a # b # s))"
| "percent_decode s = s"

definition file_uri_to_path :: "string \<Rightarrow> string option" where
  "file_uri_to_path uri =
     map_option (\<lambda>encoded. from_utf8_lossy (percent_decode encoded)) (strip_file_scheme_and_authority uri)"

section \<open>Round trip\<close>

lemma hex_char_digit: "n < 16 \<Longrightarrow> is_hexdigit (hex_char n) \<and> hex_digit (hex_char n) = n"
  by (auto simp: hex_char_def hex_digit_def ascii_simps)

lemma keep_not_percent: "uri_keep c \<Longrightarrow> c \<noteq> CHR ''%''"
  by (auto simp: uri_keep_def ascii_simps eq_char_code code_literal code_def simp del: code_inject)

lemma percent_decode_other: "c \<noteq> CHR ''%'' \<Longrightarrow> percent_decode (c # s) = c # percent_decode s"
  by (cases s rule: percent_decode.cases) auto

lemma percent_decode_byte: "percent_decode (uri_byte c @ s) = c # percent_decode s"
proof (cases "uri_keep c")
  case True
  then show ?thesis by (simp add: uri_byte_def percent_decode_other keep_not_percent)
next
  case False
  have n: "code c div 16 < 16" "code c mod 16 < 16"
    using code_less [of c] by (simp_all add: less_mult_imp_div_less)
  then show ?thesis
    using False hex_char_digit [OF n(1)] hex_char_digit [OF n(2)] by (simp add: uri_byte_def)
qed

lemma percent_decode_bytes: "percent_decode (concat (map uri_byte p)) = p"
  by (induction p) (simp_all add: percent_decode_byte)

definition absolute_path :: "string \<Rightarrow> bool" where
  "absolute_path p \<longleftrightarrow> (\<exists>cs. p = utf8 cs \<and> (\<forall>c \<in> set cs. scalar c)) \<and> p \<noteq> [] \<and> hd p = CHR ''/''"

lemma uri_round_trip: "absolute_path p \<Longrightarrow> file_uri_to_path (path_to_file_uri p) = Some p"
proof -
  assume p: "absolute_path p"
  then obtain t where t: "p = CHR ''/'' # t" by (cases p) (auto simp: absolute_path_def)
  then have "concat (map uri_byte p) = CHR ''/'' # concat (map uri_byte t)"
    by (simp add: uri_byte_def uri_keep_def)
  then have "strip_file_scheme_and_authority (path_to_file_uri p) = Some (concat (map uri_byte p))"
    by (simp add: strip_file_scheme_and_authority_def path_to_file_uri_def del: append.simps)
  then show ?thesis
    using p from_utf8_lossy_utf8 by (auto simp: file_uri_to_path_def percent_decode_bytes absolute_path_def)
qed

interpretation file_uri: codec path_to_file_uri file_uri_to_path absolute_path
  by unfold_locales (rule uri_round_trip)

section \<open>Properties\<close>

text \<open>
  A path survives the trip through a URI.  The URI of an absolute path, whatever its characters,
  reads back as that path, distinct paths have distinct URIs, and the URI holds only unreserved
  characters, slashes and percent escapes after its scheme.
\<close>

theorem file_uri_round_trip:
  assumes "absolute_path p" "absolute_path q"
  shows "file_uri_to_path (path_to_file_uri p) = Some p \<and>
    (path_to_file_uri p = path_to_file_uri q \<longleftrightarrow> p = q) \<and>
    (\<forall>c \<in> set (concat (map uri_byte p)). uri_keep c \<or> c = CHR ''%'')"
proof -
  have "uri_keep (hex_char n)" if "n < 16" for n
    using that by (auto simp: uri_keep_def hex_char_def ascii_simps)
  moreover have "code c div 16 < 16" "code c mod 16 < 16" for c
    using code_less [of c] by (simp_all add: less_mult_imp_div_less)
  ultimately have "\<forall>c \<in> set (concat (map uri_byte p)). uri_keep c \<or> c = CHR ''%''"
    by (auto simp: uri_byte_def split: if_splits)
  then show ?thesis using file_uri.dec_enc [OF assms(1)] file_uri.enc_inject [OF assms] by simp
qed

theorem file_uri_round_trip_witness:
  "file_uri_to_path (path_to_file_uri ''/a b'') = Some ''/a b''"
proof -
  have "''/a b'' = utf8 [47, 97, 32, 98]" by code_simp
  moreover have "\<forall>c \<in> set [47, 97, 32, 98]. scalar c" by (simp add: scalar_def)
  moreover have "''/a b'' \<noteq> [] \<and> hd ''/a b'' = CHR ''/''" by simp
  ultimately have "absolute_path ''/a b''" unfolding absolute_path_def by blast
  then show ?thesis using file_uri_round_trip by blast
qed

text \<open>
  Only local files are read.  A URI of another scheme, without a path, or with an authority other
  than the empty one and \<open>localhost\<close> in any case denotes no local path; with \<open>localhost\<close> it denotes the
  same path as with the empty authority.
\<close>

theorem file_uri_authority:
  assumes "CHR ''/'' \<notin> set host"
  shows "file_uri_to_path (''file://'' @ host @ ''/'' @ t) =
    (if host = [] \<or> eq_ignore_case host ''localhost'' then file_uri_to_path (''file:///'' @ t) else None)"
proof -
  have strip: "strip_file_scheme_and_authority (''file://'' @ h @ ''/'' @ t) =
      (if h = [] \<or> eq_ignore_case h ''localhost'' then Some (''/'' @ t) else None)" if "CHR ''/'' \<notin> set h" for h
  proof -
    have "find_index (\<lambda>c. c = CHR ''/'') (h @ ''/'' @ t) = Some (length h)"
      using that by (auto simp: find_index_Some nth_append in_set_conv_nth)
    then show ?thesis
      unfolding strip_file_scheme_and_authority_def strip_prefix_append by simp
  qed
  have "strip_file_scheme_and_authority (''file:///'' @ t) = Some (''/'' @ t)"
    using strip [of "[]"] by simp
  then show ?thesis unfolding file_uri_to_path_def strip [OF assms] by simp
qed

theorem file_uri_authority_witness:
  "file_uri_to_path ''file://host/x'' = None \<and> file_uri_to_path ''file://LOCALHOST/x'' = file_uri_to_path ''file:///x''"
  using file_uri_authority [of "''host''" "''x''"] file_uri_authority [of "''LOCALHOST''" "''x''"]
  by (simp add: eq_ignore_case_def) code_simp

end
