(* ===== verification/Lsp_Client.thy ===== *)
theory Lsp_Client
  imports Lsp_Readiness Lsp_Uri
begin

text \<open>
  \<open>src/lsp_client.rs\<close>, \<open>src/lsp_client/commands.rs\<close> and \<open>src/lsp_client/diagnostics.rs\<close>: a client of one
  language server.  The outcome of the n-th write to its input and the text \<open>serde_json\<close> gives of an
  error are parameters.  Starting and killing the process are not modelled.
\<close>

section \<open>Which server to run\<close>

definition detect_lsp_command :: "string \<Rightarrow> (string \<times> string list) option" where
  "detect_lsp_command language =
     (if language = ''rust'' then Some (''rust-analyzer'', [])
      else if language = ''python'' then Some (''pyright-langserver'', [''--stdio''])
      else if language = ''typescript'' then Some (''typescript-language-server'', [''--stdio''])
      else None)"

definition LSP_COMMAND_ALLOWLIST :: "string list" where
  "LSP_COMMAND_ALLOWLIST = [''rust-analyzer'', ''pyright'', ''pyright-langserver'', ''typescript-language-server'']"

datatype command_error = PathSeparators string | NotInAllowlist string

definition validate_lsp_command :: "string \<Rightarrow> (unit, command_error) result" where
  "validate_lsp_command cmd =
     (if CHR ''/'' \<in> set cmd \<or> byte 92 \<in> set cmd then Err (PathSeparators cmd)
      else if cmd \<notin> set LSP_COMMAND_ALLOWLIST then Err (NotInAllowlist cmd)
      else Ok ())"

section \<open>Diagnostics\<close>

definition UNLINKED_FILE_CODE :: string where
  "UNLINKED_FILE_CODE = ''unlinked-file''"

record pulled_diagnostic =
  pd_code :: "string option"
  pd_message :: string

fun pointer :: "json \<Rightarrow> string list \<Rightarrow> json option" where
  "pointer v [] = Some v"
| "pointer v (k # ks) = Option.bind (json_get v k) (\<lambda>w. pointer w ks)"

definition advertises_pull_diagnostics :: "json \<Rightarrow> bool" where
  "advertises_pull_diagnostics init_response \<longleftrightarrow>
     (case pointer init_response [''result'', ''capabilities'', ''diagnosticProvider''] of
        None \<Rightarrow> False | Some v \<Rightarrow> v \<noteq> JNull \<and> v \<noteq> JBool False)"

definition unlinked_file_message :: "pulled_diagnostic list \<Rightarrow> string option" where
  "unlinked_file_message diagnostics =
     map_option pd_message (List.find (\<lambda>d. pd_code d = Some UNLINKED_FILE_CODE) diagnostics)"

fun number_text :: "json option \<Rightarrow> string option" where
  "number_text (Some (JString s)) = Some s"
| "number_text (Some (JInt n)) = Some (integer_text n)"
| "number_text (Some (JFloat s)) = Some s"
| "number_text _ = None"

definition to_pulled_diagnostic :: "json \<Rightarrow> pulled_diagnostic" where
  "to_pulled_diagnostic item =
     \<lparr>pd_code = number_text (json_get item ''code''),
      pd_message = (case field_str item ''message'' of Some m \<Rightarrow> m | None \<Rightarrow> [])\<rparr>"

definition parse_document_diagnostic_report :: "json \<Rightarrow> (pulled_diagnostic list, json) result" where
  "parse_document_diagnostic_report resp =
     (case json_get resp ''error'' of
        Some err \<Rightarrow> Err err
      | None \<Rightarrow>
          (case pointer resp [''result'', ''items''] of
             Some (JArray items) \<Rightarrow> Ok (map to_pulled_diagnostic items)
           | _ \<Rightarrow> Ok []))"

section \<open>Requests\<close>

definition path_file_name :: "string \<Rightarrow> string option" where
  "path_file_name path =
     (case rev (filter (\<lambda>p. p \<noteq> [] \<and> p \<noteq> ''.'') (split_on (\<lambda>c. c = CHR ''/'') path)) of
        [] \<Rightarrow> None
      | name # _ \<Rightarrow> if name = ''..'' then None else Some name)"

definition client_capabilities :: json where
  "client_capabilities =
     JObject
      [(''textDocument'',
          JObject
           [(''definition'', JObject [(''dynamicRegistration'', JBool False), (''linkSupport'', JBool True)]),
            (''diagnostic'', JObject [(''dynamicRegistration'', JBool False)])]),
       (''window'', JObject [(''workDoneProgress'', JBool True)]),
       (''experimental'', JObject [(''serverStatusNotification'', JBool True)])]"

definition request :: "int \<Rightarrow> string \<Rightarrow> json \<Rightarrow> json" where
  "request i meth params =
     JObject [(''jsonrpc'', JString ''2.0''), (''id'', JInt i), (''method'', JString meth), (''params'', params)]"

definition notification :: "string \<Rightarrow> json \<Rightarrow> json" where
  "notification meth params =
     JObject [(''jsonrpc'', JString ''2.0''), (''method'', JString meth), (''params'', params)]"

definition build_initialize_request :: "int \<Rightarrow> int \<Rightarrow> string \<Rightarrow> json" where
  "build_initialize_request pid i workspace_root =
     (let root_uri = path_to_file_uri workspace_root in
      request i ''initialize''
        (JObject
          [(''processId'', JInt pid), (''rootUri'', JString root_uri), (''capabilities'', client_capabilities),
           (''workspaceFolders'',
              JArray [JObject
                [(''uri'', JString root_uri),
                 (''name'', JString (case path_file_name workspace_root of Some name \<Rightarrow> name | None \<Rightarrow> []))]])]))"

definition did_open_message :: "string \<Rightarrow> string \<Rightarrow> string \<Rightarrow> json" where
  "did_open_message file_uri language_id contents =
     notification ''textDocument/didOpen''
       (JObject [(''textDocument'',
          JObject [(''uri'', JString file_uri), (''languageId'', JString language_id), (''version'', JInt 1),
                   (''text'', JString contents)])])"

definition definition_request :: "int \<Rightarrow> string \<Rightarrow> nat \<Rightarrow> nat \<Rightarrow> json" where
  "definition_request i file_uri line col =
     request i ''textDocument/definition''
       (JObject [(''textDocument'', JObject [(''uri'', JString file_uri)]),
                 (''position'', JObject [(''line'', JInt (int line)), (''character'', JInt (int col))])])"

definition diagnostic_request :: "int \<Rightarrow> string \<Rightarrow> json" where
  "diagnostic_request i file_uri =
     request i ''textDocument/diagnostic'' (JObject [(''textDocument'', JObject [(''uri'', JString file_uri)])])"

section \<open>The answer to a request\<close>

datatype unparseable_frame = Skip | FailFast

datatype read_failure = Expired | Frame string

definition is_response_to :: "json \<Rightarrow> int \<Rightarrow> bool" where
  "is_response_to msg target_id \<longleftrightarrow>
     json_get msg ''method'' = None \<and> Option.bind (json_get msg ''id'') as_i64 = Some target_id"

text \<open>\<open>Duration\<close> as \<open>{:?}\<close> writes it, in whole milliseconds.\<close>

definition debug_millis :: "nat \<Rightarrow> string" where
  "debug_millis n =
     (if n = 0 then ''0ns'' else if n < 1000 then decimal n @ ''ms''
      else decimal (n div 1000) @
           (if n mod 1000 = 0 then []
            else CHR ''.'' # rev (dropWhile (\<lambda>c. c = CHR ''0'')
                   (rev (tl (decimal (1000 + n mod 1000)))))) @ ''s'')"

definition timeout_message :: "nat \<Rightarrow> string" where
  "timeout_message remaining = LSP_TIMEOUT_PREFIX @ '' no frame within '' @ debug_millis remaining"

fun read_response ::
  "int \<Rightarrow> nat \<Rightarrow> unparseable_frame \<Rightarrow> arrival list \<Rightarrow> nat \<Rightarrow> (json, read_failure) result \<times> nat \<times> arrival list" where
  "read_response target_id deadline policy [] now =
     (if deadline \<le> now then (Err Expired, now, [])
      else (Err (Frame (timeout_message (deadline - now))), deadline, []))"
| "read_response target_id deadline policy ((t, frame) # arrivals) now =
     (if deadline \<le> now then (Err Expired, now, (t, frame) # arrivals)
      else if deadline \<le> t then (Err (Frame (timeout_message (deadline - now))), deadline, (t, frame) # arrivals)
      else
        let now' = max now t in
        case frame of
          Inl e \<Rightarrow>
            if is_skippable e \<and> policy = Skip then read_response target_id deadline policy arrivals now'
            else (Err (Frame (frame_message e)), now', frames_after (t, frame) arrivals)
        | Inr msg \<Rightarrow>
            if is_response_to msg target_id then (Ok msg, now', arrivals)
            else read_response target_id deadline policy arrivals now')"

section \<open>The client\<close>

record lsp_client =
  cl_request_id :: int
  cl_timeout :: nat
  cl_server_health :: server_health
  cl_pull_diagnostics :: bool
  cl_frames :: "arrival list"
  cl_now :: nat
  cl_writes :: nat
  cl_written :: "json list"

type_synonym writes = "nat \<Rightarrow> (unit, string) result"

definition started :: "nat \<Rightarrow> arrival list \<Rightarrow> nat \<Rightarrow> lsp_client" where
  "started timeout arrivals now =
     \<lparr>cl_request_id = 1, cl_timeout = timeout, cl_server_health = not_probed, cl_pull_diagnostics = False,
      cl_frames = arrivals, cl_now = now, cl_writes = 0, cl_written = []\<rparr>"

definition next_id :: "lsp_client \<Rightarrow> int \<times> lsp_client" where
  "next_id c = (cl_request_id c, c\<lparr>cl_request_id := cl_request_id c + 1\<rparr>)"

definition write_message :: "writes \<Rightarrow> json \<Rightarrow> lsp_client \<Rightarrow> (unit, string) result \<times> lsp_client" where
  "write_message wr msg c =
     (case wr (cl_writes c) of
        Inl e \<Rightarrow> (Err e, c\<lparr>cl_writes := Suc (cl_writes c)\<rparr>)
      | Inr u \<Rightarrow> (Ok (), c\<lparr>cl_writes := Suc (cl_writes c), cl_written := cl_written c @ [msg]\<rparr>))"

definition send_request :: "writes \<Rightarrow> json \<Rightarrow> lsp_client \<Rightarrow> (unit, string) result \<times> lsp_client" where
  "send_request wr msg c = write_message wr msg (c\<lparr>cl_frames := drain_pending (cl_now c) (cl_frames c)\<rparr>)"

definition did_open :: "writes \<Rightarrow> string \<Rightarrow> string \<Rightarrow> string \<Rightarrow> lsp_client \<Rightarrow> (unit, string) result \<times> lsp_client" where
  "did_open wr file_uri language_id contents c = send_request wr (did_open_message file_uri language_id contents) c"

definition client_read ::
  "int \<Rightarrow> nat \<Rightarrow> unparseable_frame \<Rightarrow> lsp_client \<Rightarrow> (json, read_failure) result \<times> lsp_client" where
  "client_read target_id budget policy c =
     (case read_response target_id (cl_now c + budget) policy (cl_frames c) (cl_now c) of
        (r, now, left) \<Rightarrow> (r, c\<lparr>cl_now := now, cl_frames := left\<rparr>))"

definition read_response_for_id :: "int \<Rightarrow> lsp_client \<Rightarrow> (json, string) result \<times> lsp_client" where
  "read_response_for_id target_id c =
     (case client_read target_id (cl_timeout c) Skip c of
        (Inr msg, c') \<Rightarrow> (Ok msg, c')
      | (Inl Expired, c') \<Rightarrow> (Err (LSP_TIMEOUT_PREFIX @ '' waiting for response id='' @ integer_text target_id), c')
      | (Inl (Frame m), c') \<Rightarrow> (Err m, c'))"

definition read_initialize_response :: "int \<Rightarrow> nat \<Rightarrow> lsp_client \<Rightarrow> (json, string) result \<times> lsp_client" where
  "read_initialize_response i probe_timeout c =
     (case client_read i probe_timeout FailFast c of
        (Inr msg, c') \<Rightarrow> (Ok msg, c')
      | (Inl Expired, c') \<Rightarrow>
          (Err (''lsp_probe_failed: no response within probe timeout ('' @ decimal probe_timeout @ ''ms)''), c')
      | (Inl (Frame m), c') \<Rightarrow> (Err (classify_probe_err m), c'))"

definition exchange :: "writes \<Rightarrow> (int \<Rightarrow> json) \<Rightarrow> lsp_client \<Rightarrow> (json, string) result \<times> lsp_client" where
  "exchange wr req c =
     (case next_id c of (i, c1) \<Rightarrow>
      (case send_request wr (req i) c1 of
         (Inl e, c2) \<Rightarrow> (Err e, c2)
       | (Inr u, c2) \<Rightarrow> read_response_for_id i c2))"

datatype request_error = Transport string | Definition definition_error | Diagnostic json

definition get_definition ::
  "writes \<Rightarrow> string \<Rightarrow> nat \<Rightarrow> nat \<Rightarrow> lsp_client \<Rightarrow> (definition_result option, request_error) result \<times> lsp_client" where
  "get_definition wr file_uri line col c =
     (case exchange wr (\<lambda>i. definition_request i file_uri line col) c of
        (Inl e, c') \<Rightarrow> (Err (Transport e), c')
      | (Inr resp, c') \<Rightarrow> (map_sum Definition id (parse_definition_response resp), c'))"

definition pull_diagnostics ::
  "writes \<Rightarrow> string \<Rightarrow> lsp_client \<Rightarrow> (pulled_diagnostic list, request_error) result \<times> lsp_client" where
  "pull_diagnostics wr file_uri c =
     (case exchange wr (\<lambda>i. diagnostic_request i file_uri) c of
        (Inl e, c') \<Rightarrow> (Err (Transport e), c')
      | (Inr resp, c') \<Rightarrow> (map_sum Diagnostic id (parse_document_diagnostic_report resp), c'))"

section \<open>The handshake\<close>

definition ack_message :: "int \<Rightarrow> json" where
  "ack_message i = JObject [(''jsonrpc'', JString ''2.0''), (''id'', JInt i), (''result'', JNull)]"

definition client_wait_for_ready :: "writes \<Rightarrow> lsp_client \<Rightarrow> lsp_client" where
  "client_wait_for_ready wr c =
     (let r = wait_for_ready (cl_frames c) (cl_now c) (cl_now c + cl_timeout c);
          c' = foldl (\<lambda>c i. snd (write_message wr (ack_message i) c)) c (wr_acks r)
      in c'\<lparr>cl_server_health := wr_health r, cl_now := wr_end r, cl_frames := wr_left r\<rparr>)"

definition probe_error_text :: "(json \<Rightarrow> string) \<Rightarrow> json \<Rightarrow> probe_error \<Rightarrow> string" where
  "probe_error_text debug resp e =
     (case e of
        MissingJsonrpc \<Rightarrow> ''lsp_probe_failed: first response missing jsonrpc='' @ [byte 34] @ ''2.0'' @ [byte 34] @
                            '' field (got '' @ debug resp @ '')''
      | NeitherResultNorError \<Rightarrow> ''lsp_probe_failed: first response has neither `result` nor `error`'')"

definition initialize_with_probe ::
  "writes \<Rightarrow> (json \<Rightarrow> string) \<Rightarrow> int \<Rightarrow> string \<Rightarrow> nat \<Rightarrow> lsp_client \<Rightarrow> (unit, string) result \<times> lsp_client" where
  "initialize_with_probe wr debug pid workspace_root probe_timeout c =
     (case next_id c of (i, c1) \<Rightarrow>
      (case send_request wr (build_initialize_request pid i workspace_root) c1 of
         (Inl e, c2) \<Rightarrow> (Err (classify_probe_err e), c2)
       | (Inr u, c2) \<Rightarrow>
          (case read_initialize_response i probe_timeout c2 of
             (Inl e, c3) \<Rightarrow> (Err e, c3)
           | (Inr resp, c3) \<Rightarrow>
              (case validate_probe_response resp of
                 Inl e \<Rightarrow> (Err (probe_error_text debug resp e), c3)
               | Inr u \<Rightarrow>
                  (case send_request wr (notification ''initialized'' (JObject []))
                          (c3\<lparr>cl_pull_diagnostics := advertises_pull_diagnostics resp\<rparr>) of
                     (Inl e, c4) \<Rightarrow> (Err (classify_probe_err e), c4)
                   | (Inr u, c4) \<Rightarrow> (Ok (), client_wait_for_ready wr c4))))))"

definition initialize :: "writes \<Rightarrow> (json \<Rightarrow> string) \<Rightarrow> int \<Rightarrow> string \<Rightarrow> lsp_client \<Rightarrow> (unit, string) result \<times> lsp_client" where
  "initialize wr debug pid workspace_root c = initialize_with_probe wr debug pid workspace_root 2000 c"

section \<open>Which frame answers a request\<close>

definition passed_over :: "int \<Rightarrow> unparseable_frame \<Rightarrow> arrival \<Rightarrow> bool" where
  "passed_over target_id policy a \<longleftrightarrow>
     (case snd a of Inl e \<Rightarrow> is_skippable e \<and> policy = Skip | Inr msg \<Rightarrow> \<not> is_response_to msg target_id)"

lemma read_response_Ok:
  "read_response target_id deadline policy arrivals now = (Ok msg, now', left) \<longleftrightarrow>
   now < deadline \<and>
   (\<exists>pre t. arrivals = pre @ (t, Ok msg) # left \<and> (\<forall>a \<in> set pre. passed_over target_id policy a \<and> fst a < deadline) \<and>
      is_response_to msg target_id \<and> t < deadline \<and> now' = foldl max now (map fst pre @ [t]))"
  (is "_ \<longleftrightarrow> now < deadline \<and> ?spec arrivals now")
proof (induction target_id deadline policy arrivals now rule: read_response.induct)
  case (1 target_id deadline policy now)
  then show ?case by simp
next
  case (2 target_id deadline policy t frame arrivals now)
  let ?a = "(t, frame)"
  show ?case
  proof (cases "now < deadline \<and> t < deadline")
    case False
    then show ?thesis by (auto simp: Cons_eq_append_conv)
  next
    case True
    then have live: "\<not> deadline \<le> now" "\<not> deadline \<le> t" by simp_all
    show ?thesis
    proof (cases "passed_over target_id policy ?a")
      case skip: True
      then have "read_response target_id deadline policy (?a # arrivals) now = read_response target_id deadline policy arrivals (max now t)"
        using live by (auto simp: passed_over_def Let_def split: sum.splits)
      moreover have "read_response target_id deadline policy arrivals (max now t) = (Ok msg, now', left) \<longleftrightarrow>
          max now t < deadline \<and>
          (\<exists>pre u. arrivals = pre @ (u, Ok msg) # left \<and> (\<forall>a \<in> set pre. passed_over target_id policy a \<and> fst a < deadline) \<and>
             is_response_to msg target_id \<and> u < deadline \<and> now' = foldl max (max now t) (map fst pre @ [u]))"
        using 2 live skip by (cases frame) (auto simp: passed_over_def)
      moreover have "(\<exists>pre u. ?a # arrivals = pre @ (u, Ok msg) # left \<and>
             (\<forall>a \<in> set pre. passed_over target_id policy a \<and> fst a < deadline) \<and>
             is_response_to msg target_id \<and> u < deadline \<and> now' = foldl max now (map fst pre @ [u])) \<longleftrightarrow>
          (\<exists>pre u. arrivals = pre @ (u, Ok msg) # left \<and>
             (\<forall>a \<in> set pre. passed_over target_id policy a \<and> fst a < deadline) \<and>
             is_response_to msg target_id \<and> u < deadline \<and> now' = foldl max (max now t) (map fst pre @ [u]))"
        (is "?long = ?short")
      proof
        assume ?long
        then obtain pre u where p: "?a # arrivals = pre @ (u, Ok msg) # left"
          "\<forall>a \<in> set pre. passed_over target_id policy a \<and> fst a < deadline"
          "is_response_to msg target_id" "u < deadline" "now' = foldl max now (map fst pre @ [u])" by blast
        have "pre \<noteq> []" using p(1,3) skip by (auto simp: passed_over_def)
        then obtain pre' where "pre = ?a # pre'" using p(1) by (cases pre) auto
        then show ?short using p by auto
      next
        assume ?short
        then obtain pre u where p: "arrivals = pre @ (u, Ok msg) # left"
          "\<forall>a \<in> set pre. passed_over target_id policy a \<and> fst a < deadline"
          "is_response_to msg target_id" "u < deadline" "now' = foldl max (max now t) (map fst pre @ [u])" by blast
        then show ?long using skip live by (intro exI [of _ "?a # pre"] exI [of _ u]) simp
      qed
      ultimately show ?thesis using True by simp
    next
      case stop: False
      then show ?thesis using True live
        by (auto simp: passed_over_def Let_def Cons_eq_append_conv split: sum.splits)
    qed
  qed
qed

text \<open>
  A request is answered exactly by the first frame that is a response to its id (with the id and
  without a method), if that arrives before the deadline and nothing before it stops the wait: other
  messages always pass, a body that is not JSON only when the caller skips those.  The frames after
  the answer are left for the next request, and the clock stands at the answer.
\<close>

theorem request_gets_its_first_response:
  "read_response target_id deadline policy arrivals now = (Ok msg, now', left) \<longleftrightarrow>
   now < deadline \<and>
   (\<exists>pre t. arrivals = pre @ (t, Ok msg) # left \<and> is_response_to msg target_id \<and> t < deadline \<and>
      (\<forall>(u, frame) \<in> set pre. u < deadline \<and>
         (case frame of Inl e \<Rightarrow> is_skippable e \<and> policy = Skip | Inr other \<Rightarrow> \<not> is_response_to other target_id)) \<and>
      now' = foldl max now (map fst pre @ [t]))"
  unfolding read_response_Ok by (fastforce simp: passed_over_def)

section \<open>A sequence of requests\<close>

lemma next_id_simps: "next_id c = (i, c') \<longleftrightarrow> i = cl_request_id c \<and> c' = c\<lparr>cl_request_id := cl_request_id c + 1\<rparr>"
  by (auto simp: next_id_def)

abbreviation oks :: "('a, 'e) result list \<Rightarrow> 'a list" where
  "oks rs \<equiv> List.map_filter (\<lambda>r. case r of Inr v \<Rightarrow> Some v | Inl e \<Rightarrow> None) rs"

definition pending :: "lsp_client \<Rightarrow> json list" where
  "pending c = oks (map snd (cl_frames c))"

fun exchanges :: "writes \<Rightarrow> (int \<Rightarrow> json) list \<Rightarrow> lsp_client \<Rightarrow> (json, string) result list \<times> lsp_client" where
  "exchanges wr [] c = ([], c)"
| "exchanges wr (req # reqs) c =
     (case exchange wr req c of (r, c1) \<Rightarrow> case exchanges wr reqs c1 of (rs, c2) \<Rightarrow> (r # rs, c2))"

lemma oks_append: "oks (xs @ ys) = oks xs @ oks ys"
  by (simp add: List.map_filter_def)

lemma oks_Cons: "oks (x # xs) = (case x of Inr v \<Rightarrow> v # oks xs | Inl e \<Rightarrow> oks xs)"
  by (cases x) (simp_all add: map_filter_simps)

lemma frames_after_oks: "subseq (oks (map snd (frames_after a later))) (oks (map snd later))"
  by (auto simp: frames_after_def map_filter_simps)

lemma drain_pending_oks: "subseq (oks (map snd (drain_pending now arrivals))) (oks (map snd arrivals))"
proof (induction now arrivals rule: drain_pending.induct)
  case (1 now)
  then show ?case by simp
next
  case (2 now t frame arrivals)
  have tail: "subseq (oks (map snd arrivals)) (oks (map snd ((t, frame) # arrivals)))"
    by (auto simp: oks_Cons split: sum.splits)
  show ?case
    using 2 subseq_order.trans [OF _ tail] frames_after_oks by auto
qed

lemma read_response_oks:
  "read_response target_id deadline policy arrivals now = (r, now', left) \<Longrightarrow>
   subseq ((case r of Inr m \<Rightarrow> [m] | Inl e \<Rightarrow> []) @ oks (map snd left)) (oks (map snd arrivals))"
proof (induction target_id deadline policy arrivals now rule: read_response.induct)
  case (1 target_id deadline policy now)
  then show ?case by (auto split: if_splits)
next
  case (2 target_id deadline policy t frame arrivals now)
  have tail: "subseq (oks (map snd arrivals)) (oks (map snd ((t, frame) # arrivals)))"
    by (auto simp: oks_Cons split: sum.splits)
  consider (late) "deadline \<le> now \<or> deadline \<le> t"
    | (live) "\<not> deadline \<le> now" "\<not> deadline \<le> t" "\<not> passed_over target_id policy (t, frame)"
    | (skip) "\<not> deadline \<le> now" "\<not> deadline \<le> t" "passed_over target_id policy (t, frame)" by blast
  then show ?case
  proof cases
    case late
    then show ?thesis using 2(3) by (auto split: if_splits)
  next
    case live
    then show ?thesis using 2(3) subseq_order.trans [OF frames_after_oks tail]
      by (auto simp: passed_over_def Let_def oks_Cons split: sum.splits if_splits)
  next
    case skip
    then have "read_response target_id deadline policy arrivals (max now t) = (r, now', left)"
      using 2(3) by (auto simp: passed_over_def Let_def split: sum.splits)
    then show ?thesis using 2(1,2) skip subseq_order.trans [OF _ tail]
      by (cases frame) (auto simp: passed_over_def)
  qed
qed

lemma exchange_answer:
  assumes "exchange wr req c = (r, c')"
  shows "cl_request_id c' = cl_request_id c + 1"
    and "subseq ((case r of Inr m \<Rightarrow> [m] | Inl e \<Rightarrow> []) @ pending c') (pending c)"
    and "r = Ok m \<Longrightarrow> is_response_to m (cl_request_id c)"
proof -
  let ?c1 = "c\<lparr>cl_request_id := cl_request_id c + 1, cl_frames := drain_pending (cl_now c) (cl_frames c),
               cl_writes := Suc (cl_writes c)\<rparr>"
  let ?c2 = "?c1\<lparr>cl_written := cl_written c @ [req (cl_request_id c)]\<rparr>"
  let ?read = "read_response (cl_request_id c) (cl_now c + cl_timeout c) Skip (drain_pending (cl_now c) (cl_frames c)) (cl_now c)"
  have drain: "subseq (pending ?c1) (pending c)" by (simp add: pending_def drain_pending_oks)
  have all: "cl_request_id c' = cl_request_id c + 1 \<and>
     subseq ((case r of Inr m \<Rightarrow> [m] | Inl e \<Rightarrow> []) @ pending c') (pending c) \<and>
     (\<forall>m. r = Ok m \<longrightarrow> is_response_to m (cl_request_id c))"
  proof (cases "wr (cl_writes c)")
    case (Inl e)
    then have "c' = ?c1" "r = Err e" using assms by (auto simp: exchange_def next_id_def send_request_def write_message_def)
    then show ?thesis using drain by simp
  next
    case (Inr u)
    obtain r0 now left where read: "?read = (r0, now, left)" by (cases ?read)
    have c': "c' = ?c2\<lparr>cl_now := now, cl_frames := left\<rparr>" and ok: "\<And>m. r = Ok m \<Longrightarrow> r0 = Ok m"
      and same: "(case r of Inr m \<Rightarrow> [m] | Inl e \<Rightarrow> []) = (case r0 of Inr m \<Rightarrow> [m] | Inl e \<Rightarrow> [])"
      if "read_response_for_id (cl_request_id c) ?c2 = (r, c')"
    proof -
      have "client_read (cl_request_id c) (cl_timeout ?c2) Skip ?c2 = (r0, ?c2\<lparr>cl_now := now, cl_frames := left\<rparr>)"
        using read by (simp add: client_read_def)
      then have "read_response_for_id (cl_request_id c) ?c2 =
          (case r0 of Inr msg \<Rightarrow> (Ok msg, ?c2\<lparr>cl_now := now, cl_frames := left\<rparr>)
           | Inl Expired \<Rightarrow> (Err (LSP_TIMEOUT_PREFIX @ '' waiting for response id='' @ integer_text (cl_request_id c)),
                             ?c2\<lparr>cl_now := now, cl_frames := left\<rparr>)
           | Inl (Frame m) \<Rightarrow> (Err m, ?c2\<lparr>cl_now := now, cl_frames := left\<rparr>))"
        unfolding read_response_for_id_def by (simp only: prod.case)
      with that show "c' = ?c2\<lparr>cl_now := now, cl_frames := left\<rparr>" "\<And>m. r = Ok m \<Longrightarrow> r0 = Ok m"
        "(case r of Inr m \<Rightarrow> [m] | Inl e \<Rightarrow> []) = (case r0 of Inr m \<Rightarrow> [m] | Inl e \<Rightarrow> [])"
        by (auto split: sum.splits read_failure.splits)
    qed
    have sent: "read_response_for_id (cl_request_id c) ?c2 = (r, c')"
      using assms Inr by (simp add: exchange_def next_id_def send_request_def write_message_def)
    note c' = c' [OF sent] and ok = ok [OF sent] and same = same [OF sent]
    have "subseq ((case r of Inr m \<Rightarrow> [m] | Inl e \<Rightarrow> []) @ pending c') (pending ?c1)"
      using read_response_oks [OF read] unfolding same by (simp add: c' pending_def)
    then have "subseq ((case r of Inr m \<Rightarrow> [m] | Inl e \<Rightarrow> []) @ pending c') (pending c)"
      using drain by (rule subseq_order.trans)
    moreover have "is_response_to m (cl_request_id c)" if "r = Ok m" for m
      using ok [OF that] read read_response_Ok [of "cl_request_id c"] by blast
    ultimately show ?thesis by (simp add: c')
  qed
  show "cl_request_id c' = cl_request_id c + 1" "subseq ((case r of Inr m \<Rightarrow> [m] | Inl e \<Rightarrow> []) @ pending c') (pending c)"
    using all by simp_all
  show "r = Ok m \<Longrightarrow> is_response_to m (cl_request_id c)" using all by simp
qed

text \<open>
  C19: Over any sequence of requests of one client, whatever the server sends and whichever writes fail,
  the answer to the n-th request carries the n-th id, and the answers are messages of the channel in
  the order of their arrival: none is used twice, none is taken from an earlier request that expired.
\<close>

theorem answers_belong_to_their_requests:
  "let (rs, c') = exchanges wr reqs c in
     length rs = length reqs \<and>
     (\<forall>i m. i < length rs \<and> rs ! i = Ok m \<longrightarrow> is_response_to m (cl_request_id c + int i)) \<and>
     subseq (oks rs @ pending c') (pending c)"
proof (induction wr reqs c rule: exchanges.induct)
  case (1 wr c)
  then show ?case by (simp add: map_filter_simps)
next
  case (2 wr req reqs c)
  obtain r c1 where e: "exchange wr req c = (r, c1)" by fastforce
  obtain rs c2 where es: "exchanges wr reqs c1 = (rs, c2)" by fastforce
  note first = exchange_answer [OF e]
  have ih: "length rs = length reqs" "\<And>i m. i < length rs \<Longrightarrow> rs ! i = Ok m \<Longrightarrow> is_response_to m (cl_request_id c1 + int i)"
    "subseq (oks rs @ pending c2) (pending c1)" using 2 [OF e [symmetric]] es by auto
  have "is_response_to m (cl_request_id c + int i)" if "i < length (r # rs)" "(r # rs) ! i = Ok m" for i m
    using that ih(2) first(1,3) by (cases i) (auto simp: algebra_simps)
  moreover have "subseq (oks (r # rs) @ pending c2) (pending c)"
  proof -
    have "oks (r # rs) @ pending c2 = (case r of Inr m \<Rightarrow> [m] | Inl e \<Rightarrow> []) @ (oks rs @ pending c2)"
      by (cases r) (simp_all add: map_filter_simps)
    then show ?thesis using subseq_order.trans [OF _ first(2)] ih(3) by (simp add: subseq_append')
  qed
  ultimately show ?case using e es ih(1) by (simp only: exchanges.simps prod.case Let_def list.size) auto
qed

section \<open>The handshake\<close>

lemma classify_probe_failed: "starts_with (classify_probe_err e) ''lsp_probe_failed''"
  by (auto simp: classify_probe_err_def starts_with_iff split: option.splits)

lemma wait_keeps_pull [simp]: "cl_pull_diagnostics (client_wait_for_ready wr c) = cl_pull_diagnostics c"
proof -
  have "cl_pull_diagnostics (foldl (\<lambda>c i. snd (write_message wr (ack_message i) c)) c is) = cl_pull_diagnostics c" for "is"
    by (induction "is" arbitrary: c) (simp_all add: write_message_def split: sum.splits)
  then show ?thesis by (simp add: client_wait_for_ready_def Let_def)
qed

lemma send_request_keeps_pull: "cl_pull_diagnostics (snd (send_request wr msg c)) = cl_pull_diagnostics c"
  by (simp add: send_request_def write_message_def split: sum.splits)

lemma validate_probe_Ok:
  "validate_probe_response resp = Ok () \<longleftrightarrow>
     field_str resp ''jsonrpc'' = Some ''2.0'' \<and> (json_get resp ''result'' \<noteq> None \<or> json_get resp ''error'' \<noteq> None)"
  by (simp add: validate_probe_response_def)

text \<open>
  C32: However the server behaves, the handshake fails only with an error that says the probe failed.
  It succeeds only if the first response to its id arrived within the probe window, before any frame
  that is not JSON, and is a valid JSON-RPC answer; the pull capability is then the one that answer
  advertises.
\<close>

theorem handshake_fails_as_a_probe:
  "case initialize_with_probe wr debug pid workspace_root probe_timeout c of
     (Inl e, c') \<Rightarrow> starts_with e ''lsp_probe_failed''
   | (Inr u, c') \<Rightarrow>
       (\<exists>pre t resp left. drain_pending (cl_now c) (cl_frames c) = pre @ (t, Ok resp) # left \<and>
          t < cl_now c + probe_timeout \<and> is_response_to resp (cl_request_id c) \<and>
          (\<forall>(u, frame) \<in> set pre. \<exists>other. frame = Ok other \<and> \<not> is_response_to other (cl_request_id c)) \<and>
          field_str resp ''jsonrpc'' = Some ''2.0'' \<and>
          (json_get resp ''result'' \<noteq> None \<or> json_get resp ''error'' \<noteq> None) \<and>
          cl_pull_diagnostics c' = advertises_pull_diagnostics resp)"
proof -
  let ?i = "cl_request_id c"
  let ?c1 = "c\<lparr>cl_request_id := ?i + 1, cl_frames := drain_pending (cl_now c) (cl_frames c), cl_writes := Suc (cl_writes c)\<rparr>"
  show ?thesis
  proof (cases "wr (cl_writes c)")
    case (Inl e)
    then show ?thesis
      by (simp add: initialize_with_probe_def next_id_def send_request_def write_message_def classify_probe_failed)
  next
    case (Inr u)
    let ?msg = "build_initialize_request pid ?i workspace_root"
    let ?c2 = "?c1\<lparr>cl_written := cl_written c @ [?msg]\<rparr>"
    obtain r now left where read:
      "read_response ?i (cl_now c + probe_timeout) FailFast (drain_pending (cl_now c) (cl_frames c)) (cl_now c) = (r, now, left)"
      by (cases "read_response ?i (cl_now c + probe_timeout) FailFast (drain_pending (cl_now c) (cl_frames c)) (cl_now c)")
    let ?c3 = "?c2\<lparr>cl_now := now, cl_frames := left\<rparr>"
    have sent: "send_request wr ?msg (c\<lparr>cl_request_id := ?i + 1\<rparr>) = (Ok (), ?c2)"
      using Inr by (simp add: send_request_def write_message_def)
    have answer: "client_read ?i probe_timeout FailFast ?c2 = (r, ?c3)" using read by (simp add: client_read_def)
    show ?thesis
    proof (cases r)
      case (Inl e)
      then show ?thesis using sent answer
        by (cases e) (simp_all add: initialize_with_probe_def next_id_def read_initialize_response_def
            classify_probe_failed)
    next
      case (Inr resp)
      show ?thesis
      proof (cases "validate_probe_response resp")
        case (Inl e)
        then show ?thesis using sent answer Inr
          by (cases e) (simp_all add: initialize_with_probe_def next_id_def read_initialize_response_def probe_error_text_def)
      next
        case valid: (Inr u)
        let ?c3' = "?c3\<lparr>cl_pull_diagnostics := advertises_pull_diagnostics resp\<rparr>"
        obtain w c4 where w: "send_request wr (notification ''initialized'' (JObject [])) ?c3' = (w, c4)" by fastforce
        have pull: "cl_pull_diagnostics c4 = advertises_pull_diagnostics resp"
          using send_request_keeps_pull [of wr "notification ''initialized'' (JObject [])" ?c3'] w by simp
        have run: "initialize_with_probe wr debug pid workspace_root probe_timeout c =
            (case w of Inl e \<Rightarrow> (Err (classify_probe_err e), c4) | Inr u \<Rightarrow> (Ok (), client_wait_for_ready wr c4))"
          using sent answer Inr valid w by (simp add: initialize_with_probe_def next_id_def read_initialize_response_def)
        have "read_response ?i (cl_now c + probe_timeout) FailFast (drain_pending (cl_now c) (cl_frames c)) (cl_now c) =
            (Ok resp, now, left)" using read Inr by simp
        then obtain pre t where "drain_pending (cl_now c) (cl_frames c) = pre @ (t, Ok resp) # left"
            "t < cl_now c + probe_timeout" "is_response_to resp ?i" "\<forall>a \<in> set pre. passed_over ?i FailFast a"
          unfolding read_response_Ok by blast
        moreover from this have "\<forall>(u, frame) \<in> set pre. \<exists>other. frame = Ok other \<and> \<not> is_response_to other ?i"
          by (fastforce simp: passed_over_def split: sum.splits)
        ultimately show ?thesis
          using valid validate_probe_Ok pull by (simp add: run classify_probe_failed split: sum.splits) blast
      qed
    qed
  qed
qed

section \<open>Examples\<close>

definition answer_message :: json where
  "answer_message = JObject [(''jsonrpc'', JString ''2.0''), (''id'', JInt 1), (''result'',
     JObject [(''capabilities'', JObject [(''diagnosticProvider'', JObject [])])])]"

lemma request_gets_its_first_response_witness:
  "read_response 1 1000 Skip [(10, Ok begin_message), (20, Err (Payload ''?'')), (30, Ok answer_message)] 0 =
     (Ok answer_message, 30, [])"
proof (rule request_gets_its_first_response [THEN iffD2], intro conjI exI)
  show "[(10, Ok begin_message), (20, Err (Payload ''?'')), (30, Ok answer_message)] =
      [(10, Ok begin_message), (20, Err (Payload ''?''))] @ (30, Ok answer_message) # []" by simp
qed (simp_all add: is_response_to_def begin_message_def answer_message_def)

definition example_client :: lsp_client where
  "example_client = started 1000 [(10, Ok begin_message), (30, Ok answer_message)] 0"

lemma example_exchange:
  "exchanges (\<lambda>n. Ok ()) [\<lambda>i. definition_request i ''file:///a'' 3 4] example_client =
     ([Ok answer_message], example_client\<lparr>cl_request_id := 2, cl_frames := [], cl_now := 30, cl_writes := 1,
        cl_written := [definition_request 1 ''file:///a'' 3 4]\<rparr>)"
  by code_simp

lemma answers_belong_to_their_requests_witness:
  "is_response_to answer_message 1 \<and> subseq ([answer_message] @ []) [begin_message, answer_message]"
  using answers_belong_to_their_requests
    [of "\<lambda>n. Ok ()" "[\<lambda>i. definition_request i ''file:///a'' 3 4]" example_client, unfolded example_exchange]
  by (simp add: pending_def example_client_def started_def map_filter_simps)

lemma example_handshake:
  "fst (initialize (\<lambda>n. Ok ()) (\<lambda>v. ''None'') 42 ''/w/app'' example_client) = Ok ()"
  by code_simp

lemma handshake_fails_as_a_probe_witness:
  "\<exists>c'. initialize (\<lambda>n. Ok ()) (\<lambda>v. ''None'') 42 ''/w/app'' example_client = (Ok (), c') \<and> cl_pull_diagnostics c'"
proof -
  obtain c' where run: "initialize (\<lambda>n. Ok ()) (\<lambda>v. ''None'') 42 ''/w/app'' example_client = (Ok (), c')"
    using example_handshake by (metis prod.collapse)
  have "drain_pending (cl_now example_client) (cl_frames example_client) =
      [(10, Ok begin_message), (30, Ok answer_message)]" by code_simp
  moreover have "advertises_pull_diagnostics answer_message" "\<not> is_response_to begin_message 1" by code_simp+
  ultimately have "cl_pull_diagnostics c'"
    using handshake_fails_as_a_probe
      [where wr = "\<lambda>n. Ok ()" and debug = "\<lambda>v. ''None''" and pid = 42 and workspace_root = "''/w/app''"
        and probe_timeout = 2000 and c = example_client, folded initialize_def, unfolded run]
    by (auto simp: Cons_eq_append_conv example_client_def started_def)
  then show ?thesis using run by blast
qed

end
