(* ===== verification/Louvain.thy ===== *)
theory Louvain
  imports Rust_Base Complex_Main "HOL-Library.Multiset"
begin

text \<open>
  \<open>src/clustering/community_adjacency.rs\<close> and \<open>src/clustering/community_louvain.rs\<close>: the weighted graph
  of the symbols and the Louvain method on it.  Weights and gains, \<open>f64\<close> in the source, are exact real
  numbers; the answers of the graph store are a parameter from the text of a query to its rows.
\<close>

section \<open>The graph\<close>

type_synonym links = "(nat \<times> real) list list"
type_synonym store = "string \<Rightarrow> (string list list, string) result"

record adjacency =
  node_ids :: "string list"
  node_labels :: "string list"
  id_to_idx :: "string \<Rightarrow> nat option"
  neighbors :: links
  total_weight :: real

definition CLUSTER_NODE_LABELS :: "string list" where
  "CLUSTER_NODE_LABELS =
     [''File'', ''Function'', ''Method'', ''Struct'', ''Enum'', ''Trait'', ''Constant'', ''TypeAlias'', ''Module'']"

type_synonym symbols = "string list \<times> string list \<times> (string \<Rightarrow> nat option)"

definition add_symbol :: "string \<Rightarrow> string list \<Rightarrow> symbols \<Rightarrow> symbols" where
  "add_symbol label row acc =
     (case (row, acc) of
        ([], _) \<Rightarrow> acc
      | (i # _, (ids, labels, m)) \<Rightarrow>
          (if m i \<noteq> None then acc else (ids @ [i], labels @ [label], m(i \<mapsto> length ids))))"

definition collect_symbol_nodes :: "store \<Rightarrow> symbols" where
  "collect_symbol_nodes exec =
     fold (\<lambda>label acc.
             (case exec (''MATCH (n:'' @ label @ '') RETURN n.id ORDER BY n.id'') of
                Inl e \<Rightarrow> acc
              | Inr rows \<Rightarrow> fold (add_symbol label) rows acc))
       CLUSTER_NODE_LABELS ([], [], Map.empty)"

definition edge_rel_tables :: "(string \<times> string \<times> string) list" where
  "edge_rel_tables =
    [(''Defines_File_Function'', ''File'', ''Function''),
     (''Defines_File_Struct'', ''File'', ''Struct''),
     (''Defines_File_Enum'', ''File'', ''Enum''),
     (''Defines_File_Trait'', ''File'', ''Trait''),
     (''Defines_File_Constant'', ''File'', ''Constant''),
     (''Defines_File_TypeAlias'', ''File'', ''TypeAlias''),
     (''Defines_Module_Function'', ''Module'', ''Function''),
     (''Defines_Module_Struct'', ''Module'', ''Struct''),
     (''Defines_Module_Enum'', ''Module'', ''Enum''),
     (''Defines_Module_Trait'', ''Module'', ''Trait''),
     (''Defines_Module_Constant'', ''Module'', ''Constant''),
     (''Defines_Module_TypeAlias'', ''Module'', ''TypeAlias''),
     (''Contains_File_Module'', ''File'', ''Module''),
     (''Imports_File_File'', ''File'', ''File''),
     (''Imports_File_Module'', ''File'', ''Module''),
     (''Calls_Function_Function'', ''Function'', ''Function''),
     (''Calls_Function_Method'', ''Function'', ''Method''),
     (''Calls_Method_Function'', ''Method'', ''Function''),
     (''Calls_Method_Method'', ''Method'', ''Method''),
     (''Imports_File_Function'', ''File'', ''Function''),
     (''Imports_File_Struct'', ''File'', ''Struct''),
     (''Imports_File_Enum'', ''File'', ''Enum''),
     (''Imports_File_Trait'', ''File'', ''Trait''),
     (''Implements_Struct_Trait'', ''Struct'', ''Trait''),
     (''Implements_Enum_Trait'', ''Enum'', ''Trait''),
     (''Extends_Trait_Trait'', ''Trait'', ''Trait''),
     (''Uses_Function_Struct'', ''Function'', ''Struct''),
     (''Uses_Function_Enum'', ''Function'', ''Enum''),
     (''Uses_Function_Trait'', ''Function'', ''Trait''),
     (''Uses_Method_Struct'', ''Method'', ''Struct''),
     (''Uses_Method_Enum'', ''Method'', ''Enum''),
     (''Uses_Method_Trait'', ''Method'', ''Trait''),
     (''HasMethod_Struct_Method'', ''Struct'', ''Method''),
     (''HasMethod_Enum_Method'', ''Enum'', ''Method''),
     (''HasMethod_Trait_Method'', ''Trait'', ''Method''),
     (''HasField_Struct_Field'', ''Struct'', ''Field''),
     (''HasField_Enum_Field'', ''Enum'', ''Field''),
     (''HasVariant_Enum_Variant'', ''Enum'', ''Variant'')]"

definition edge_weight :: "string \<Rightarrow> real" where
  "edge_weight rel_name =
     (if starts_with rel_name ''Calls_'' then 3
      else if starts_with rel_name ''Implements_'' \<or> starts_with rel_name ''Extends_'' then 2
      else if starts_with rel_name ''Imports_'' \<or> starts_with rel_name ''Uses_'' then 1
      else if starts_with rel_name ''HasMethod_'' \<or> starts_with rel_name ''HasField_'' \<or>
        starts_with rel_name ''HasVariant_'' \<or> starts_with rel_name ''Defines_'' \<or> starts_with rel_name ''Contains_'' then 5
      else 0)"

definition push_link :: "nat \<Rightarrow> nat \<times> real \<Rightarrow> links \<Rightarrow> links" where
  "push_link a l nbrs = nbrs[a := nbrs ! a @ [l]]"

definition add_row :: "(string \<Rightarrow> nat option) \<Rightarrow> real \<Rightarrow> string list \<Rightarrow> links \<times> real \<Rightarrow> links \<times> real" where
  "add_row idx w row acc =
     (case (row, acc) of
        (x # y # _, (nbrs, weight)) \<Rightarrow>
          (case (idx x, idx y) of
             (Some a, Some b) \<Rightarrow> (push_link b (a, w) (push_link a (b, w) nbrs), weight + w)
           | _ \<Rightarrow> acc)
      | _ \<Rightarrow> acc)"

definition collect_weighted_edges :: "store \<Rightarrow> (string \<Rightarrow> nat option) \<Rightarrow> nat \<Rightarrow> links \<times> real" where
  "collect_weighted_edges exec idx n =
     fold (\<lambda>(rel, from_label, to_label) acc.
             let w = edge_weight rel in
             if w = 0 then acc
             else
               (case exec (''MATCH (a:'' @ from_label @ '')-[:'' @ rel @ '']->(b:'' @ to_label @
                           '') RETURN a.id, b.id ORDER BY a.id, b.id'') of
                  Inl e \<Rightarrow> acc
                | Inr rows \<Rightarrow> fold (add_row idx w) rows acc))
       edge_rel_tables (replicate n [], 0)"

definition extract_adjacency :: "store \<Rightarrow> adjacency" where
  "extract_adjacency exec =
     (case collect_symbol_nodes exec of (ids, labels, m) \<Rightarrow>
      (case collect_weighted_edges exec m (length ids) of (nbrs, weight) \<Rightarrow>
       \<lparr>node_ids = ids, node_labels = labels, id_to_idx = m, neighbors = nbrs, total_weight = weight\<rparr>))"

section \<open>One level\<close>

definition degree :: "(nat \<times> real) list \<Rightarrow> real" where
  "degree nbrs = sum_list (map snd nbrs)"

text \<open>\<open>*map.entry(c).or_insert(0.0) += w\<close>.\<close>

fun entry_add :: "nat \<Rightarrow> real \<Rightarrow> (nat \<times> real) list \<Rightarrow> (nat \<times> real) list" where
  "entry_add c w [] = [(c, w)]"
| "entry_add c w ((d, v) # es) = (if c = d then (d, v + w) # es else (d, v) # entry_add c w es)"

text \<open>The entries of such a map in the order of their keys, from the entries that are added to it.\<close>

definition grouped :: "(nat \<times> real) list \<Rightarrow> (nat \<times> real) list" where
  "grouped ws = sort_key fst (fold (\<lambda>(c, w). entry_add c w) ws [])"

definition ki_in :: "links \<Rightarrow> nat list \<Rightarrow> nat \<Rightarrow> (nat \<times> real) list" where
  "ki_in nbrs comm i = grouped (map (\<lambda>(nbr, w). (comm ! nbr, w)) (filter (\<lambda>(nbr, w). nbr \<noteq> i) (nbrs ! i)))"

definition best_move :: "(nat \<Rightarrow> real \<Rightarrow> real) \<Rightarrow> nat \<Rightarrow> real \<Rightarrow> (nat \<times> real) list \<Rightarrow> nat" where
  "best_move gain old_c old_gain candidates =
     fst (foldl (\<lambda>(best_c, best_gain) (c, w). if best_gain < gain c w then (c, gain c w) else (best_c, best_gain))
            (old_c, old_gain) candidates)"

type_synonym level_state = "nat list \<times> real list"

definition move_node :: "real \<Rightarrow> real \<Rightarrow> links \<Rightarrow> nat \<Rightarrow> level_state \<times> bool \<Rightarrow> level_state \<times> bool" where
  "move_node two_m gamma nbrs i acc = (case acc of ((comm, sigma_tot), improved) \<Rightarrow>
     let old_c = comm ! i;
         ki = degree (nbrs ! i);
         candidates = ki_in nbrs comm i;
         sigma = sigma_tot[old_c := sigma_tot ! old_c - ki];
         gain = (\<lambda>c w. w - gamma * (sigma ! c) * ki / two_m);
         ki_in_old = (case map_of candidates old_c of Some w \<Rightarrow> w | None \<Rightarrow> 0);
         best_c = best_move gain old_c (gain old_c ki_in_old) candidates
     in ((comm[i := best_c], sigma[best_c := sigma ! best_c + ki]), improved \<or> best_c \<noteq> old_c))"

definition one_pass :: "real \<Rightarrow> real \<Rightarrow> links \<Rightarrow> level_state \<Rightarrow> level_state \<times> bool" where
  "one_pass two_m gamma nbrs st = fold (move_node two_m gamma nbrs) [0..<length nbrs] (st, False)"

fun passes :: "nat \<Rightarrow> real \<Rightarrow> real \<Rightarrow> links \<Rightarrow> level_state \<Rightarrow> level_state" where
  "passes 0 two_m gamma nbrs st = st"
| "passes (Suc k) two_m gamma nbrs st =
     (case one_pass two_m gamma nbrs st of (st', improved) \<Rightarrow>
        if improved then passes k two_m gamma nbrs st' else st')"

definition max_passes :: nat where
  "max_passes = 100"

fun renumber :: "(nat \<Rightarrow> nat option) \<Rightarrow> nat \<Rightarrow> nat list \<Rightarrow> nat list" where
  "renumber m nxt [] = []"
| "renumber m nxt (c # cs) =
     (case m c of
        Some d \<Rightarrow> d # renumber m nxt cs
      | None \<Rightarrow> nxt # renumber (m(c \<mapsto> nxt)) (Suc nxt) cs)"

definition renumber_communities :: "nat list \<Rightarrow> nat list" where
  "renumber_communities comm = renumber Map.empty 0 comm"

definition one_level :: "links \<Rightarrow> real \<Rightarrow> real \<Rightarrow> nat list" where
  "one_level nbrs m gamma =
     renumber_communities
       (fst (passes max_passes (2 * m) gamma nbrs ([0..<length nbrs], map degree nbrs)))"

section \<open>The levels\<close>

definition num_comms :: "nat list \<Rightarrow> nat" where
  "num_comms comm = (if comm = [] then 0 else Suc (Max (set comm)))"

definition aggregate_graph :: "links \<Rightarrow> nat list \<Rightarrow> nat \<Rightarrow> links" where
  "aggregate_graph nbrs comm k =
     map (\<lambda>ci. grouped (concat (map (\<lambda>i. if comm ! i = ci then map (\<lambda>(j, w). (comm ! j, w)) (nbrs ! i) else [])
                                  [0..<length nbrs])))
       [0..<k]"

lemma renumber_length [simp]: "length (renumber m nxt cs) = length cs"
  by (induction m nxt cs rule: renumber.induct) (auto simp del: fun_upd_apply split: option.splits)

lemma renumber_bound:
  "(\<forall>c d. m c = Some d \<longrightarrow> d < nxt) \<Longrightarrow> d \<in> set (renumber m nxt cs) \<Longrightarrow> d < nxt + length cs"
proof (induction m nxt cs rule: renumber.induct)
  case (1 m nxt)
  then show ?case by simp
next
  case (2 m nxt c cs)
  then show ?case by (fastforce split: option.splits if_splits)
qed

lemma move_node_length:
  "length (fst (fst (move_node two_m gamma nbrs i acc))) = length (fst (fst acc))"
  by (auto simp: move_node_def Let_def split: prod.splits)

lemma one_pass_length: "length (fst (fst (one_pass two_m gamma nbrs st))) = length (fst st)"
proof -
  have "length (fst (fst (fold (move_node two_m gamma nbrs) is acc))) = length (fst (fst acc))" for "is" acc
    by (induction "is" arbitrary: acc) (simp_all add: move_node_length)
  then show ?thesis by (simp add: one_pass_def)
qed

lemma passes_length: "length (fst (passes k two_m gamma nbrs st)) = length (fst st)"
proof (induction k arbitrary: st)
  case 0
  then show ?case by simp
next
  case (Suc k)
  obtain st' b where p: "one_pass two_m gamma nbrs st = (st', b)" by fastforce
  then show ?case using one_pass_length [of two_m gamma nbrs st] Suc by simp
qed

lemma one_level_length [simp]: "length (one_level nbrs m gamma) = length nbrs"
  by (simp add: one_level_def renumber_communities_def passes_length)

lemma one_level_bound: "c \<in> set (one_level nbrs m gamma) \<Longrightarrow> c < length nbrs"
  using renumber_bound [of Map.empty 0 c "fst (passes max_passes (2 * m) gamma nbrs ([0..<length nbrs], map degree nbrs))"]
  by (simp add: one_level_def renumber_communities_def passes_length)

lemma num_comms_one_level: "num_comms (one_level nbrs m gamma) \<le> length nbrs"
proof (cases "one_level nbrs m gamma = []")
  case False
  then have "Max (set (one_level nbrs m gamma)) \<in> set (one_level nbrs m gamma)" by simp
  then have "Max (set (one_level nbrs m gamma)) < length nbrs" by (rule one_level_bound)
  then show ?thesis unfolding num_comms_def using False by (simp only: if_False Suc_le_eq)
qed (simp add: num_comms_def)

text \<open>A level that merges something has fewer nodes after it.\<close>

function louvain_levels :: "links \<Rightarrow> real \<Rightarrow> real \<Rightarrow> nat list \<Rightarrow> nat list" where
  "louvain_levels nbrs m gamma node_to_comm =
     (let comm = one_level nbrs m gamma; k = num_comms comm;
          node_to_comm' = map (\<lambda>c. comm ! c) node_to_comm
      in if k = length nbrs then node_to_comm'
         else louvain_levels (aggregate_graph nbrs comm k) m gamma node_to_comm')"
  by pat_completeness auto

termination louvain_levels
  using num_comms_one_level
  by (relation "measure (\<lambda>(nbrs, _, _, _). length nbrs)") (auto simp: aggregate_graph_def le_less)

declare louvain_levels.simps [simp del]

definition compute_modularity :: "links \<Rightarrow> nat list \<Rightarrow> real list \<Rightarrow> real \<Rightarrow> real" where
  "compute_modularity nbrs comm k m =
     (if m = 0 then 0
      else sum_list (concat (map (\<lambda>i. map (\<lambda>(j, w). if comm ! i = comm ! j then w - k ! i * k ! j / (2 * m) else 0)
                                    (nbrs ! i)) [0..<length nbrs])) / (2 * m))"

definition louvain :: "adjacency \<Rightarrow> real \<Rightarrow> nat list \<times> real" where
  "louvain adj gamma =
     (let n = length (node_ids adj); m = total_weight adj in
      if n = 0 then ([], 0)
      else if m = 0 then ([0..<n], 0)
      else
        let node_to_comm = louvain_levels (neighbors adj) m gamma [0..<n];
            k = map degree (neighbors adj)
        in (node_to_comm, compute_modularity (neighbors adj) node_to_comm k m))"

section \<open>Quality of a partition\<close>

text \<open>
  The weight of the entries of one node for another, and the quality of a partition for weights \<open>B\<close>
  of pairs: the sum over the ordered pairs in one class.
\<close>

definition link :: "links \<Rightarrow> nat \<Rightarrow> nat \<Rightarrow> real" where
  "link nbrs i j = sum_list (map snd (filter (\<lambda>l. fst l = j) (nbrs ! i)))"

definition quality :: "nat \<Rightarrow> (nat \<Rightarrow> nat \<Rightarrow> real) \<Rightarrow> (nat \<Rightarrow> nat) \<Rightarrow> real" where
  "quality n B f = (\<Sum>i<n. \<Sum>j<n. if f i = f j then B i j else 0)"

definition pull :: "nat \<Rightarrow> (nat \<Rightarrow> nat \<Rightarrow> real) \<Rightarrow> (nat \<Rightarrow> nat) \<Rightarrow> nat \<Rightarrow> nat \<Rightarrow> real" where
  "pull n B f i c = (\<Sum>j \<in> {..<n} - {i}. if f j = c then B i j else 0)"

lemma quality_cong:
  assumes "\<And>i j. i < n \<Longrightarrow> j < n \<Longrightarrow> f i = f j \<longleftrightarrow> g i = g j"
  shows "quality n B f = quality n B g"
  unfolding quality_def by (intro sum.cong refl) (simp add: assms)

lemma quality_split:
  assumes i: "i < n" and sym: "\<And>x y. x < n \<Longrightarrow> y < n \<Longrightarrow> B x y = B y x"
  shows "quality n B f = (\<Sum>x \<in> {..<n} - {i}. \<Sum>y \<in> {..<n} - {i}. if f x = f y then B x y else 0) + 2 * pull n B f i (f i) + B i i"
proof -
  let ?A = "{..<n} - {i}"
  have split: "(\<Sum>y<n. g y) = g i + (\<Sum>y \<in> ?A. g y)" for g :: "nat \<Rightarrow> real"
    using i by (simp add: sum.remove)
  have "(\<Sum>x \<in> ?A. if f x = f i then B x i else 0) = pull n B f i (f i)"
    unfolding pull_def using i by (intro sum.cong refl) (simp add: sym)
  moreover have "(\<Sum>y \<in> ?A. if f i = f y then B i y else 0) = pull n B f i (f i)"
    unfolding pull_def by (intro sum.cong refl) auto
  ultimately show ?thesis
    unfolding quality_def by (simp add: split sum.distrib)
qed

text \<open>Moving one node changes the quality by twice the difference of the pulls of the two classes.\<close>

lemma quality_move:
  assumes i: "i < n" and sym: "\<And>x y. x < n \<Longrightarrow> y < n \<Longrightarrow> B x y = B y x"
  shows "quality n B (f(i := c)) = quality n B f + 2 * (pull n B f i c - pull n B f i (f i))"
proof -
  let ?A = "{..<n} - {i}"
  have "(\<Sum>x \<in> ?A. \<Sum>y \<in> ?A. if (f(i := c)) x = (f(i := c)) y then B x y else 0) =
        (\<Sum>x \<in> ?A. \<Sum>y \<in> ?A. if f x = f y then B x y else 0)"
    by (intro sum.cong refl) auto
  moreover have "pull n B (f(i := c)) i c = pull n B f i c"
    unfolding pull_def by (intro sum.cong refl) auto
  ultimately show ?thesis
    using quality_split [OF i sym, where f = f] quality_split [OF i sym, where f = "f(i := c)"] by simp
qed

section \<open>Sums over entries\<close>

lemma entries_sum:
  fixes es :: "(nat \<times> real) list"
  assumes "\<forall>l \<in> set es. fst l < n"
  shows "sum_list (map (\<lambda>l. g (fst l) * snd l) es) = (\<Sum>j<n. g j * sum_list (map snd (filter (\<lambda>l. fst l = j) es)))"
  using assms
proof (induction es)
  case Nil
  then show ?case by simp
next
  case (Cons l es)
  have "(\<Sum>j<n. g j * sum_list (map snd (filter (\<lambda>k. fst k = j) (l # es)))) =
        (\<Sum>j<n. (if j = fst l then g j * snd l else 0) + g j * sum_list (map snd (filter (\<lambda>k. fst k = j) es)))"
    by (intro sum.cong refl) (auto simp: algebra_simps)
  also have "\<dots> = g (fst l) * snd l + (\<Sum>j<n. g j * sum_list (map snd (filter (\<lambda>k. fst k = j) es)))"
    using Cons.prems by (simp add: sum.distrib)
  finally show ?case using Cons by simp
qed

definition links_ok :: "links \<Rightarrow> bool" where
  "links_ok nbrs \<longleftrightarrow> (\<forall>nb \<in> set nbrs. \<forall>l \<in> set nb. fst l < length nbrs)"

lemma links_okD: "links_ok nbrs \<Longrightarrow> i < length nbrs \<Longrightarrow> \<forall>l \<in> set (nbrs ! i). fst l < length nbrs"
  unfolding links_ok_def by (metis nth_mem)

lemma degree_link: "links_ok nbrs \<Longrightarrow> i < length nbrs \<Longrightarrow> degree (nbrs ! i) = (\<Sum>j<length nbrs. link nbrs i j)"
  using entries_sum [OF links_okD, where g = "\<lambda>_. 1"] by (simp add: degree_def link_def)

lemma weight_to:
  "links_ok nbrs \<Longrightarrow> i < length nbrs \<Longrightarrow>
   sum_list (map snd (filter (\<lambda>l. P (fst l)) (nbrs ! i))) = (\<Sum>j<length nbrs. if P j then link nbrs i j else 0)"
proof -
  assume ok: "links_ok nbrs" "i < length nbrs"
  have "sum_list (map snd (filter (\<lambda>l. P (fst l)) es)) = sum_list (map (\<lambda>l. (if P (fst l) then 1 else 0) * snd l) es)"
    for es :: "(nat \<times> real) list" by (induction es) auto
  then show ?thesis
    using entries_sum [OF links_okD [OF ok], where g = "\<lambda>j. if P j then 1 else 0"]
    by (simp add: link_def if_distrib [where f = "\<lambda>x. x * _"] cong: if_cong)
qed

text \<open>What a map of weights holds after entries were added to it.\<close>

definition weight_of :: "nat \<Rightarrow> (nat \<times> real) list \<Rightarrow> real" where
  "weight_of c ws = sum_list (map snd (filter (\<lambda>l. fst l = c) ws))"

lemma entry_add_keys: "fst ` set (entry_add c w es) = insert c (fst ` set es)"
  by (induction c w es rule: entry_add.induct) auto

lemma entry_add_distinct: "distinct (map fst es) \<Longrightarrow> distinct (map fst (entry_add c w es))"
  by (induction c w es rule: entry_add.induct) (auto simp: entry_add_keys)

lemma entry_add_weight: "weight_of d (entry_add c w es) = weight_of d es + (if d = c then w else 0)"
  by (induction c w es rule: entry_add.induct) (auto simp: weight_of_def)

lemma fold_entry_add:
  "distinct (map fst es) \<Longrightarrow>
   fst ` set (fold (\<lambda>(c, w). entry_add c w) ws es) = fst ` set ws \<union> fst ` set es \<and>
   distinct (map fst (fold (\<lambda>(c, w). entry_add c w) ws es)) \<and>
   weight_of d (fold (\<lambda>(c, w). entry_add c w) ws es) = weight_of d es + weight_of d ws"
proof (induction ws arbitrary: es)
  case Nil
  then show ?case by (simp add: weight_of_def)
next
  case (Cons l ws)
  obtain c w where l: "l = (c, w)" by fastforce
  have "weight_of d ((c, w) # ws) = (if d = c then w else 0) + weight_of d ws" by (simp add: weight_of_def)
  then show ?case using Cons.IH [OF entry_add_distinct [OF Cons.prems, of c w]]
    by (simp add: l entry_add_keys entry_add_weight)
qed

lemma weight_of_sort: "weight_of c (sort_key fst es) = weight_of c es"
proof -
  have "mset (filter (\<lambda>l. fst l = c) (sort_key fst es)) = mset (filter (\<lambda>l. fst l = c) es)" by simp
  then have "mset (map snd (filter (\<lambda>l. fst l = c) (sort_key fst es))) = mset (map snd (filter (\<lambda>l. fst l = c) es))"
    by (metis mset_map)
  then show ?thesis unfolding weight_of_def by (metis sum_mset_sum_list)
qed

lemma grouped_simps:
  "fst ` set (grouped ws) = fst ` set ws" "distinct (map fst (grouped ws))" "weight_of c (grouped ws) = weight_of c ws"
proof -
  let ?f = "fold (\<lambda>(c, w). entry_add c w) ws []"
  have f: "fst ` set ?f = fst ` set ws" "distinct (map fst ?f)" "weight_of c ?f = weight_of c ws"
    using fold_entry_add [of "[]" ws] by (simp_all add: weight_of_def)
  show "fst ` set (grouped ws) = fst ` set ws" "weight_of c (grouped ws) = weight_of c ws"
    using f by (simp_all add: grouped_def weight_of_sort)
  have "mset (map fst (grouped ws)) = mset (map fst ?f)" by (simp add: grouped_def)
  then show "distinct (map fst (grouped ws))" using f(2) by (metis mset_eq_imp_distinct_iff)
qed

lemma distinct_weight: "distinct (map fst es) \<Longrightarrow> (c, w) \<in> set es \<Longrightarrow> weight_of c es = w"
proof (induction es)
  case Nil
  then show ?case by simp
next
  case (Cons e es)
  have "weight_of c es = 0" if "c \<notin> fst ` set es" for c
  proof -
    have "filter (\<lambda>l. fst l = c) es = []" using that by (auto simp: filter_empty_conv)
    then show ?thesis by (simp add: weight_of_def)
  qed
  then show ?case using Cons by (cases e) (auto simp: weight_of_def, force)
qed

lemma weight_absent: "c \<notin> fst ` set es \<Longrightarrow> weight_of c es = 0"
proof -
  assume "c \<notin> fst ` set es"
  then have "filter (\<lambda>l. fst l = c) es = []" by (auto simp: filter_empty_conv)
  then show ?thesis by (simp add: weight_of_def)
qed

section \<open>One node moves\<close>

text \<open>The pair weights of modularity with resolution \<open>gamma\<close>.\<close>

definition mod_weight :: "links \<Rightarrow> real \<Rightarrow> real \<Rightarrow> nat \<Rightarrow> nat \<Rightarrow> real" where
  "mod_weight nbrs m gamma i j = link nbrs i j - gamma * degree (nbrs ! i) * degree (nbrs ! j) / (2 * m)"

definition graph_ok :: "links \<Rightarrow> real \<Rightarrow> bool" where
  "graph_ok nbrs m \<longleftrightarrow>
     links_ok nbrs \<and> (\<forall>i<length nbrs. \<forall>j<length nbrs. link nbrs i j = link nbrs j i) \<and>
     (\<Sum>i<length nbrs. degree (nbrs ! i)) = 2 * m"

lemma mod_weight_sym:
  "graph_ok nbrs m \<Longrightarrow> x < length nbrs \<Longrightarrow> y < length nbrs \<Longrightarrow> mod_weight nbrs m gamma x y = mod_weight nbrs m gamma y x"
  by (simp add: graph_ok_def mod_weight_def)

definition class_degree :: "links \<Rightarrow> (nat \<Rightarrow> nat) \<Rightarrow> nat \<Rightarrow> real" where
  "class_degree nbrs f c = (\<Sum>j<length nbrs. if f j = c then degree (nbrs ! j) else 0)"

definition level_ok :: "links \<Rightarrow> level_state \<Rightarrow> bool" where
  "level_ok nbrs st \<longleftrightarrow> (case st of (comm, sigma) \<Rightarrow>
     length comm = length nbrs \<and> length sigma = length nbrs \<and> (\<forall>i<length nbrs. comm ! i < length nbrs) \<and>
     (\<forall>c<length nbrs. sigma ! c = class_degree nbrs (\<lambda>i. comm ! i) c))"

lemma best_move_gain:
  fixes gain :: "nat \<Rightarrow> real \<Rightarrow> real"
  shows "best_move gain old_c g0 cands = old_c \<or> (\<exists>w. (best_move gain old_c g0 cands, w) \<in> set cands \<and>
     g0 < gain (best_move gain old_c g0 cands) w)"
proof -
  let ?step = "\<lambda>(best_c, best_gain) (c, w). if best_gain < gain c w then (c, gain c w) else (best_c, best_gain)"
  have "foldl ?step (b, g) cands = (b', g') \<Longrightarrow>
      g \<le> g' \<and> (b' = b \<and> g' = g \<or> (\<exists>w. (b', w) \<in> set cands \<and> g' = gain b' w \<and> g < g'))" for b g b' g'
  proof (induction cands arbitrary: b g)
    case Nil
    then show ?case by simp
  next
    case (Cons e cands)
    obtain c w where e: "e = (c, w)" by fastforce
    show ?case
    proof (cases "g < gain c w")
      case True
      then have "foldl ?step (c, gain c w) cands = (b', g')" using Cons.prems by (simp add: e)
      from Cons.IH [OF this] show ?thesis using True by (auto simp: e)
    next
      case False
      then have "foldl ?step (b, g) cands = (b', g')" using Cons.prems by (simp add: e)
      from Cons.IH [OF this] show ?thesis by (auto simp: e)
    qed
  qed
  note step = this
  obtain b g where f: "foldl ?step (old_c, g0) cands = (b, g)" by fastforce
  from step [OF f] show ?thesis unfolding best_move_def f by auto
qed

lemma ki_in_weight:
  assumes "links_ok nbrs" "i < length nbrs"
  shows "weight_of c (ki_in nbrs comm i) = (\<Sum>j \<in> {..<length nbrs} - {i}. if comm ! j = c then link nbrs i j else 0)"
proof -
  have "weight_of c (ki_in nbrs comm i) =
      sum_list (map snd (filter (\<lambda>l. fst l \<noteq> i \<and> comm ! fst l = c) (nbrs ! i)))"
    unfolding ki_in_def grouped_simps(3)
    by (simp add: weight_of_def filter_map comp_def split_def conj_commute)
  also have "\<dots> = (\<Sum>j<length nbrs. if j \<noteq> i \<and> comm ! j = c then link nbrs i j else 0)"
    by (rule weight_to [OF assms])
  also have "\<dots> = (\<Sum>j \<in> {..<length nbrs} - {i}. if comm ! j = c then link nbrs i j else 0)"
    by (rule sum.mono_neutral_cong_right) auto
  finally show ?thesis .
qed

lemma ki_in_keys:
  assumes "links_ok nbrs" "i < length nbrs" "\<forall>j<length nbrs. comm ! j < length nbrs" "c \<in> fst ` set (ki_in nbrs comm i)"
  shows "c < length nbrs"
  using assms links_okD [OF assms(1,2)] unfolding ki_in_def grouped_simps(1) by fastforce

lemma map_of_weight: "distinct (map fst es) \<Longrightarrow> (case map_of es c of Some w \<Rightarrow> w | None \<Rightarrow> 0) = weight_of c es"
proof (cases "map_of es c")
  case None
  then show ?thesis using weight_absent [of c es] by (simp add: map_of_eq_None_iff [symmetric])
next
  case (Some w)
  assume "distinct (map fst es)"
  then have "weight_of c es = w" using Some by (intro distinct_weight map_of_SomeD)
  then show ?thesis using Some by simp
qed

text \<open>The gain of the source is the pull of a class.\<close>

lemma gain_is_pull:
  assumes "links_ok nbrs" "i < length nbrs" "weight = weight_of c (ki_in nbrs comm i)"
    and "sigma_c = class_degree nbrs (\<lambda>j. comm ! j) c - (if comm ! i = c then degree (nbrs ! i) else 0)"
  shows "weight - gamma * sigma_c * degree (nbrs ! i) / (2 * m) = pull (length nbrs) (mod_weight nbrs m gamma) (\<lambda>j. comm ! j) i c"
proof -
  let ?A = "{..<length nbrs} - {i}"
  have sigma: "sigma_c = (\<Sum>j \<in> ?A. if comm ! j = c then degree (nbrs ! j) else 0)"
    using assms(2) unfolding assms(4) class_degree_def by (subst sum.remove [of _ i]) auto
  have "pull (length nbrs) (mod_weight nbrs m gamma) (\<lambda>j. comm ! j) i c =
      (\<Sum>j \<in> ?A. (if comm ! j = c then link nbrs i j else 0) -
         gamma * degree (nbrs ! i) / (2 * m) * (if comm ! j = c then degree (nbrs ! j) else 0))"
    unfolding pull_def mod_weight_def by (intro sum.cong refl) simp
  also have "\<dots> = weight - gamma * degree (nbrs ! i) / (2 * m) * sigma_c"
    unfolding sum_subtractf sum_distrib_left [symmetric] sigma [symmetric] assms(3) ki_in_weight [OF assms(1,2)] ..
  finally show ?thesis by (simp add: algebra_simps)
qed

lemma class_degree_move:
  assumes "i < length nbrs"
  shows "class_degree nbrs (f(i := b)) c =
     class_degree nbrs f c - (if f i = c then degree (nbrs ! i) else 0) + (if b = c then degree (nbrs ! i) else 0)"
proof -
  have split: "(\<Sum>j<length nbrs. g j) = g i + (\<Sum>j \<in> {..<length nbrs} - {i}. g j)" for g :: "nat \<Rightarrow> real"
    using assms by (simp add: sum.remove)
  have "(\<Sum>j \<in> {..<length nbrs} - {i}. if (f(i := b)) j = c then degree (nbrs ! j) else 0) =
        (\<Sum>j \<in> {..<length nbrs} - {i}. if f j = c then degree (nbrs ! j) else 0)"
    by (intro sum.cong refl) auto
  then show ?thesis unfolding class_degree_def by (simp add: split)
qed

lemma nth_update_fun: "i < length xs \<Longrightarrow> (\<lambda>j. xs[i := b] ! j) = (\<lambda>j. xs ! j)(i := b)"
  by (auto simp: nth_list_update)

definition level_quality :: "links \<Rightarrow> real \<Rightarrow> real \<Rightarrow> nat list \<Rightarrow> real" where
  "level_quality nbrs m gamma comm = quality (length nbrs) (mod_weight nbrs m gamma) (\<lambda>i. comm ! i)"

lemma move_node_improves:
  assumes "graph_ok nbrs m" "level_ok nbrs (comm, sigma)" "i < length nbrs"
    and "move_node (2 * m) gamma nbrs i ((comm, sigma), b) = ((comm', sigma'), b')"
  shows "level_ok nbrs (comm', sigma')" "level_quality nbrs m gamma comm \<le> level_quality nbrs m gamma comm'"
proof -
  let ?n = "length nbrs" and ?old = "comm ! i" and ?ki = "degree (nbrs ! i)"
  let ?cands = "ki_in nbrs comm i"
  let ?sigma = "sigma[?old := sigma ! ?old - ?ki]"
  let ?gain = "\<lambda>c w. w - gamma * (?sigma ! c) * ?ki / (2 * m)"
  let ?w = "case map_of ?cands ?old of Some w \<Rightarrow> w | None \<Rightarrow> 0"
  let ?best = "best_move ?gain ?old (?gain ?old ?w) ?cands"
  let ?pull = "pull ?n (mod_weight nbrs m gamma) (\<lambda>j. comm ! j) i"
  have links: "links_ok nbrs" and sym: "\<And>x y. x < ?n \<Longrightarrow> y < ?n \<Longrightarrow> mod_weight nbrs m gamma x y = mod_weight nbrs m gamma y x"
    using assms(1) mod_weight_sym by (auto simp: graph_ok_def)
  have len: "length comm = ?n" "length sigma = ?n" "\<forall>i<?n. comm ! i < ?n" "\<forall>c<?n. sigma ! c = class_degree nbrs (\<lambda>i. comm ! i) c"
    using assms(2) by (simp_all add: level_ok_def)
  have old: "?old < ?n" using len assms(3) by simp
  have res: "comm' = comm[i := ?best]" "sigma' = ?sigma[?best := ?sigma ! ?best + ?ki]"
    using assms(4) by (simp_all add: move_node_def Let_def)
  have distinct: "distinct (map fst ?cands)" by (simp add: ki_in_def grouped_simps)
  have sig: "?sigma ! c = class_degree nbrs (\<lambda>j. comm ! j) c - (if ?old = c then ?ki else 0)" if "c < ?n" for c
    using that len old by (auto simp: nth_list_update)
  have gain: "?gain c (weight_of c ?cands) = ?pull c" if "c < ?n" for c
    by (rule gain_is_pull [OF links assms(3) refl sig [OF that]])
  have key: "c < ?n" if "(c, w) \<in> set ?cands" for c w
    using ki_in_keys [OF links assms(3) len(3)] that by (metis fst_conv image_eqI)
  have better: "?best < ?n \<and> ?pull ?old \<le> ?pull ?best"
    using best_move_gain [of ?gain ?old "?gain ?old ?w" ?cands]
  proof
    assume "?best = ?old"
    then show ?thesis using old by simp
  next
    assume "\<exists>w. (?best, w) \<in> set ?cands \<and> ?gain ?old ?w < ?gain ?best w"
    then obtain w where w: "(?best, w) \<in> set ?cands" "?gain ?old ?w < ?gain ?best w" by blast
    have "w = weight_of ?best ?cands" using distinct_weight [OF distinct w(1)] by simp
    then show ?thesis using w(2) key [OF w(1)] gain [OF key [OF w(1)]] gain [OF old] map_of_weight [OF distinct, of ?old] by simp
  qed
  have upd: "(\<lambda>j. comm' ! j) = (\<lambda>j. comm ! j)(i := ?best)" unfolding res(1) by (rule nth_update_fun) (simp add: len(1) assms(3))
  show "level_quality nbrs m gamma comm \<le> level_quality nbrs m gamma comm'"
    unfolding level_quality_def upd using quality_move [OF assms(3) sym, where f = "\<lambda>j. comm ! j" and c = ?best] better by simp
  have moved: "class_degree nbrs (\<lambda>j. comm' ! j) c =
      class_degree nbrs (\<lambda>j. comm ! j) c - (if ?old = c then ?ki else 0) + (if ?best = c then ?ki else 0)" for c
    unfolding upd by (rule class_degree_move [OF assms(3)])
  have "sigma' ! c = class_degree nbrs (\<lambda>j. comm' ! j) c" if "c < ?n" for c
    unfolding moved using sig [OF that] that len(2) by (cases "?best = c") (simp_all add: res(2))
  moreover have "comm' ! x < ?n" if "x < ?n" for x
    using that len better by (cases "x = i") (simp_all add: res(1))
  ultimately show "level_ok nbrs (comm', sigma')" using len by (simp add: level_ok_def res)
qed

section \<open>One level\<close>

lemma moves_improve:
  assumes "graph_ok nbrs m" "level_ok nbrs st" "set is \<subseteq> {..<length nbrs}"
    and "fold (move_node (2 * m) gamma nbrs) is (st, b) = (st', b')"
  shows "level_ok nbrs st' \<and> level_quality nbrs m gamma (fst st) \<le> level_quality nbrs m gamma (fst st')"
  using assms(2-)
proof (induction "is" arbitrary: st b)
  case Nil
  then show ?case by simp
next
  case (Cons i "is")
  obtain comm sigma comm1 sigma1 b1 where st: "st = (comm, sigma)"
    and step: "move_node (2 * m) gamma nbrs i ((comm, sigma), b) = ((comm1, sigma1), b1)"
    by (metis prod.collapse)
  have i: "i < length nbrs" using Cons.prems(2) by simp
  note first = move_node_improves [OF assms(1) Cons.prems(1) [unfolded st] i step]
  have "fold (move_node (2 * m) gamma nbrs) is ((comm1, sigma1), b1) = (st', b')"
    using Cons.prems(3) by (simp add: st step)
  from Cons.IH [OF first(1) _ this] show ?case using Cons.prems(2) first(2) by (simp add: st)
qed

lemma passes_improve:
  assumes "graph_ok nbrs m" "level_ok nbrs st"
  shows "level_ok nbrs (passes k (2 * m) gamma nbrs st) \<and>
     level_quality nbrs m gamma (fst st) \<le> level_quality nbrs m gamma (fst (passes k (2 * m) gamma nbrs st))"
  using assms(2)
proof (induction k arbitrary: st)
  case 0
  then show ?case by simp
next
  case (Suc k)
  obtain st' b where p: "one_pass (2 * m) gamma nbrs st = (st', b)" by fastforce
  then have "level_ok nbrs st' \<and> level_quality nbrs m gamma (fst st) \<le> level_quality nbrs m gamma (fst st')"
    using moves_improve [OF assms(1) Suc.prems, of "[0..<length nbrs]"] by (simp add: one_pass_def atLeast0LessThan)
  then show ?case using Suc.IH [of st'] by (auto simp: p)
qed

lemma level_ok_start: "level_ok nbrs ([0..<length nbrs], map degree nbrs)"
proof -
  have "class_degree nbrs (\<lambda>i. [0..<length nbrs] ! i) c = degree (nbrs ! c)" if "c < length nbrs" for c
  proof -
    have "class_degree nbrs (\<lambda>i. [0..<length nbrs] ! i) c = (\<Sum>j<length nbrs. if j = c then degree (nbrs ! j) else 0)"
      unfolding class_degree_def by (intro sum.cong refl) simp
    then show ?thesis using that by simp
  qed
  then show ?thesis by (simp add: level_ok_def)
qed

text \<open>Renumbering keeps the classes and numbers them from zero without a gap.\<close>

lemma renumber_map:
  "inj_on m (dom m) \<Longrightarrow> ran m = {..<nxt} \<Longrightarrow>
   \<exists>m' nxt'. m \<subseteq>\<^sub>m m' \<and> inj_on m' (dom m') \<and> dom m' = dom m \<union> set cs \<and> ran m' = {..<nxt'} \<and>
     renumber m nxt cs = map (\<lambda>c. the (m' c)) cs"
proof (induction m nxt cs rule: renumber.induct)
  case (1 m nxt)
  then show ?case by (intro exI [of _ m] exI [of _ nxt]) simp
next
  case (2 m nxt c cs)
  show ?case
  proof (cases "m c")
    case (Some d)
    then obtain m' nxt' where m': "m \<subseteq>\<^sub>m m'" "inj_on m' (dom m')" "dom m' = dom m \<union> set cs" "ran m' = {..<nxt'}"
      "renumber m nxt cs = map (\<lambda>c. the (m' c)) cs" using 2(2) [OF Some 2(3,4)] by (elim exE conjE)
    have "m' c = Some d" using m'(1) Some by (metis domI map_le_def)
    moreover have "dom m \<union> set (c # cs) = dom m \<union> set cs" using Some by auto
    ultimately show ?thesis using m' Some by (intro exI [of _ m'] exI [of _ nxt']) simp
  next
    case None
    let ?m = "m(c \<mapsto> nxt)"
    have "nxt \<notin> ran m" using 2(4) by simp
    then have "inj_on ?m (dom ?m)" using 2(3) None by (auto simp: inj_on_def ran_def dom_def)
    moreover have "ran ?m = {..<Suc nxt}" using None 2(4) by (simp add: lessThan_Suc)
    ultimately obtain m' nxt' where m': "?m \<subseteq>\<^sub>m m'" "inj_on m' (dom m')" "dom m' = dom ?m \<union> set cs" "ran m' = {..<nxt'}"
      "renumber ?m (Suc nxt) cs = map (\<lambda>c. the (m' c)) cs" using 2(1) [OF None] by (elim meta_impE exE conjE)
    have "m' c = Some nxt" using m'(1) by (metis domI fun_upd_same map_le_def)
    moreover have "m \<subseteq>\<^sub>m ?m" using None by (auto simp: map_le_def)
    then have "m \<subseteq>\<^sub>m m'" using m'(1) by (rule map_le_trans)
    moreover have "dom m \<union> set (c # cs) = dom ?m \<union> set cs" by auto
    ultimately show ?thesis using m' None by (intro exI [of _ m'] exI [of _ nxt']) simp
  qed
qed

lemma renumber_communities_classes:
  "length (renumber_communities cs) = length cs"
  "i < length cs \<Longrightarrow> j < length cs \<Longrightarrow> renumber_communities cs ! i = renumber_communities cs ! j \<longleftrightarrow> cs ! i = cs ! j"
  "\<exists>k. set (renumber_communities cs) = {..<k}"
proof -
  obtain m k where m: "inj_on m (dom m)" "dom m = set cs" "ran m = {..<k}" "renumber_communities cs = map (\<lambda>c. the (m c)) cs"
    using renumber_map [of Map.empty 0 cs] unfolding renumber_communities_def by auto
  show "length (renumber_communities cs) = length cs" by (simp add: m(4))
  have inj: "the (m c) = the (m d) \<longleftrightarrow> c = d" if "c \<in> set cs" "d \<in> set cs" for c d
    using that m(1,2) by (metis domIff inj_on_eq_iff option.expand)
  then show "i < length cs \<Longrightarrow> j < length cs \<Longrightarrow> renumber_communities cs ! i = renumber_communities cs ! j \<longleftrightarrow> cs ! i = cs ! j"
    by (simp add: m(4))
  have "(\<lambda>c. the (m c)) ` set cs = ran m" unfolding m(2) [symmetric] by (auto simp: ran_def dom_def image_def)
  then show "\<exists>k. set (renumber_communities cs) = {..<k}" using m(3) by (auto simp: m(4))
qed

lemma dense_num_comms: "set cs = {..<k} \<Longrightarrow> num_comms cs = k"
proof (cases "cs = []")
  case False
  assume "set cs = {..<k}"
  note k = this
  then have "k \<noteq> 0" using False by (metis lessThan_0 set_empty)
  moreover from this have "Max {..<k} = k - 1" by (intro Max_eqI) auto
  ultimately show ?thesis using k False by (simp add: num_comms_def)
qed (auto simp: num_comms_def)

lemma renumber_dense: "set (renumber_communities cs) = {..<num_comms (renumber_communities cs)}"
  using renumber_communities_classes(3) dense_num_comms by metis

lemma one_level_improves:
  assumes "graph_ok nbrs m"
  shows "level_quality nbrs m gamma [0..<length nbrs] \<le> level_quality nbrs m gamma (one_level nbrs m gamma)"
    and "set (one_level nbrs m gamma) = {..<num_comms (one_level nbrs m gamma)}"
proof -
  let ?st = "passes max_passes (2 * m) gamma nbrs ([0..<length nbrs], map degree nbrs)"
  have p: "level_ok nbrs ?st" "level_quality nbrs m gamma [0..<length nbrs] \<le> level_quality nbrs m gamma (fst ?st)"
    using passes_improve [OF assms level_ok_start, of max_passes gamma] by simp_all
  have "length (fst ?st) = length nbrs" using p(1) by (auto simp: level_ok_def split: prod.splits)
  then have "level_quality nbrs m gamma (fst ?st) = level_quality nbrs m gamma (one_level nbrs m gamma)"
    unfolding level_quality_def one_level_def by (intro quality_cong) (simp add: renumber_communities_classes(2))
  then show "level_quality nbrs m gamma [0..<length nbrs] \<le> level_quality nbrs m gamma (one_level nbrs m gamma)"
    using p(2) by simp
  show "set (one_level nbrs m gamma) = {..<num_comms (one_level nbrs m gamma)}"
    unfolding one_level_def by (rule renumber_dense)
qed

section \<open>Aggregation\<close>

lemma weight_of_append: "weight_of c (xs @ ys) = weight_of c xs + weight_of c ys"
  by (simp add: weight_of_def)

lemma weight_of_concat: "weight_of c (concat (map f is)) = sum_list (map (\<lambda>i. weight_of c (f i)) is)"
  by (induction "is") (simp_all add: weight_of_append, simp add: weight_of_def)

lemma link_weight: "link nbrs i j = weight_of j (nbrs ! i)"
  by (simp add: link_def weight_of_def)

lemma sum_list_upt: "sum_list (map f [0..<n]) = (\<Sum>i<n. f i)" for f :: "nat \<Rightarrow> real"
  by (simp add: interv_sum_list_conv_sum_set_nat atLeast0LessThan)

lemma aggregate_link:
  assumes "links_ok nbrs" "a < k"
  shows "link (aggregate_graph nbrs comm k) a b =
    (\<Sum>i<length nbrs. \<Sum>j<length nbrs. if comm ! i = a \<and> comm ! j = b then link nbrs i j else 0)"
proof -
  let ?n = "length nbrs"
  have "link (aggregate_graph nbrs comm k) a b =
      (\<Sum>i<?n. weight_of b (if comm ! i = a then map (\<lambda>(j, w). (comm ! j, w)) (nbrs ! i) else []))"
    using assms(2) by (simp add: link_weight aggregate_graph_def grouped_simps(3) weight_of_concat sum_list_upt)
  also have "\<dots> = (\<Sum>i<?n. \<Sum>j<?n. if comm ! i = a \<and> comm ! j = b then link nbrs i j else 0)"
  proof (intro sum.cong refl)
    fix i assume "i \<in> {..<?n}"
    then have "weight_of b (map (\<lambda>(j, w). (comm ! j, w)) (nbrs ! i)) = (\<Sum>j<?n. if comm ! j = b then link nbrs i j else 0)"
      using weight_to [OF assms(1), of i "\<lambda>j. comm ! j = b"]
      by (simp add: weight_of_def filter_map comp_def split_def)
    then show "weight_of b (if comm ! i = a then map (\<lambda>(j, w). (comm ! j, w)) (nbrs ! i) else []) =
        (\<Sum>j<?n. if comm ! i = a \<and> comm ! j = b then link nbrs i j else 0)"
      by (simp add: weight_of_def)
  qed
  finally show ?thesis .
qed

lemma sum_by_class:
  fixes g :: "nat \<Rightarrow> real" and k :: nat
  assumes "\<forall>i<n. h i < k"
  shows "(\<Sum>a<k. \<Sum>i<n. if h i = a then g i else 0) = (\<Sum>i<n. g i)"
proof -
  have "(\<Sum>a<k. \<Sum>i<n. if h i = a then g i else 0) = (\<Sum>i<n. \<Sum>a<k. if h i = a then g i else 0)"
    by (rule sum.swap)
  also have "\<dots> = (\<Sum>i<n. g i)" using assms by (intro sum.cong refl) (subst sum.delta', auto)
  finally show ?thesis .
qed

lemma aggregate_links_ok:
  assumes "links_ok nbrs" "\<forall>i<length nbrs. comm ! i < k"
  shows "links_ok (aggregate_graph nbrs comm k)"
proof -
  have "fst l < k" if nb: "nb \<in> set (aggregate_graph nbrs comm k)" and l: "l \<in> set nb" for nb l
  proof -
    obtain a where a: "nb = grouped (concat (map (\<lambda>i. if comm ! i = a then map (\<lambda>(j, w). (comm ! j, w)) (nbrs ! i) else []) [0..<length nbrs]))"
      using nb by (auto simp: aggregate_graph_def)
    have "fst l \<in> fst ` set nb" using l by (rule imageI)
    then have "fst l \<in> fst ` set (concat (map (\<lambda>i. if comm ! i = a then map (\<lambda>(j, w). (comm ! j, w)) (nbrs ! i) else []) [0..<length nbrs]))"
      unfolding a grouped_simps(1) .
    then obtain i j w where "i < length nbrs" "(j, w) \<in> set (nbrs ! i)" "fst l = comm ! j"
      by (auto split: if_splits)
    then show ?thesis using links_okD [OF assms(1)] assms(2) by fastforce
  qed
  then show ?thesis by (simp add: links_ok_def aggregate_graph_def)
qed

text \<open>A sum over pairs, class by class.\<close>

definition class_pairs :: "nat \<Rightarrow> (nat \<Rightarrow> nat) \<Rightarrow> (nat \<Rightarrow> nat \<Rightarrow> real) \<Rightarrow> nat \<Rightarrow> nat \<Rightarrow> real" where
  "class_pairs n h G a b = (\<Sum>i<n. \<Sum>j<n. if h i = a \<and> h j = b then G i j else 0)"

lemma class_pairs_row:
  assumes "\<forall>i<n. h i < k"
  shows "(\<Sum>b<k. class_pairs n h G a b) = (\<Sum>i<n. if h i = a then \<Sum>j<n. G i j else 0)"
proof -
  have "(\<Sum>b<k. class_pairs n h G a b) = (\<Sum>i<n. \<Sum>b<k. \<Sum>j<n. if h i = a \<and> h j = b then G i j else 0)"
    unfolding class_pairs_def by (rule sum.swap)
  also have "\<dots> = (\<Sum>i<n. if h i = a then \<Sum>j<n. G i j else 0)"
  proof (intro sum.cong refl)
    fix i
    show "(\<Sum>b<k. \<Sum>j<n. if h i = a \<and> h j = b then G i j else 0) = (if h i = a then \<Sum>j<n. G i j else 0)"
      using sum_by_class [OF assms, where g = "G i"] by simp
  qed
  finally show ?thesis .
qed

lemma class_pairs_sum:
  assumes "\<forall>i<n. h i < k"
  shows "(\<Sum>a<k. \<Sum>b<k. class_pairs n h G a b) = (\<Sum>i<n. \<Sum>j<n. G i j)"
  unfolding class_pairs_row [OF assms] by (rule sum_by_class [OF assms])

lemma quality_aggregate:
  assumes "\<forall>i<n. h i < k"
  shows "quality k (class_pairs n h B) f = quality n B (\<lambda>i. f (h i))"
proof -
  have "quality k (class_pairs n h B) f = (\<Sum>a<k. \<Sum>b<k. class_pairs n h (\<lambda>i j. if f (h i) = f (h j) then B i j else 0) a b)"
    unfolding quality_def class_pairs_def
    by (intro sum.cong refl) (auto intro!: sum.cong sum.neutral)
  also have "\<dots> = quality n B (\<lambda>i. f (h i))"
    unfolding class_pairs_sum [OF assms] quality_def ..
  finally show ?thesis .
qed

lemma aggregate_length [simp]: "length (aggregate_graph nbrs comm k) = k"
  by (simp add: aggregate_graph_def)

lemma aggregate_degree:
  assumes "links_ok nbrs" "\<forall>i<length nbrs. comm ! i < k" "a < k"
  shows "degree (aggregate_graph nbrs comm k ! a) = (\<Sum>i<length nbrs. if comm ! i = a then degree (nbrs ! i) else 0)"
proof -
  have "degree (aggregate_graph nbrs comm k ! a) = (\<Sum>b<k. class_pairs (length nbrs) (\<lambda>i. comm ! i) (link nbrs) a b)"
    using degree_link [OF aggregate_links_ok [OF assms(1,2)]] assms(3)
    by (simp add: aggregate_link [OF assms(1)] class_pairs_def)
  also have "\<dots> = (\<Sum>i<length nbrs. if comm ! i = a then degree (nbrs ! i) else 0)"
    unfolding class_pairs_row [OF assms(2)] by (intro sum.cong refl) (simp add: degree_link [OF assms(1)])
  finally show ?thesis .
qed

lemma aggregate_mod_weight:
  assumes "links_ok nbrs" "\<forall>i<length nbrs. comm ! i < k" "a < k" "b < k"
  shows "mod_weight (aggregate_graph nbrs comm k) m gamma a b =
     class_pairs (length nbrs) (\<lambda>i. comm ! i) (mod_weight nbrs m gamma) a b"
proof -
  let ?n = "length nbrs" and ?d = "\<lambda>i. degree (nbrs ! i)"
  have "gamma * (\<Sum>i<?n. if comm ! i = a then ?d i else 0) * (\<Sum>j<?n. if comm ! j = b then ?d j else 0) / (2 * m) =
      gamma / (2 * m) * (\<Sum>i<?n. \<Sum>j<?n. (if comm ! i = a then ?d i else 0) * (if comm ! j = b then ?d j else 0))"
    by (simp add: sum_product)
  also have "\<dots> = (\<Sum>i<?n. \<Sum>j<?n. gamma / (2 * m) * ((if comm ! i = a then ?d i else 0) * (if comm ! j = b then ?d j else 0)))"
    by (simp only: sum_distrib_left)
  also have "\<dots> = (\<Sum>i<?n. \<Sum>j<?n. if comm ! i = a \<and> comm ! j = b then gamma * ?d i * ?d j / (2 * m) else 0)"
    by (intro sum.cong refl) simp
  finally have "mod_weight (aggregate_graph nbrs comm k) m gamma a b =
      (\<Sum>i<?n. \<Sum>j<?n. if comm ! i = a \<and> comm ! j = b then link nbrs i j else 0) -
      (\<Sum>i<?n. \<Sum>j<?n. if comm ! i = a \<and> comm ! j = b then gamma * ?d i * ?d j / (2 * m) else 0)"
    by (simp only: mod_weight_def aggregate_degree [OF assms(1,2,3)] aggregate_degree [OF assms(1,2,4)]
      aggregate_link [OF assms(1,3)])
  then show ?thesis
    unfolding class_pairs_def mod_weight_def sum_subtractf [symmetric] by (auto intro!: sum.cong)
qed

lemma aggregate_graph_ok:
  assumes "graph_ok nbrs m" "\<forall>i<length nbrs. comm ! i < k"
  shows "graph_ok (aggregate_graph nbrs comm k) m"
proof -
  have links: "links_ok nbrs" and sym: "\<And>i j. i < length nbrs \<Longrightarrow> j < length nbrs \<Longrightarrow> link nbrs i j = link nbrs j i"
    and total: "(\<Sum>i<length nbrs. degree (nbrs ! i)) = 2 * m"
    using assms(1) by (simp_all add: graph_ok_def)
  have "link (aggregate_graph nbrs comm k) a b = link (aggregate_graph nbrs comm k) b a" if "a < k" "b < k" for a b
  proof -
    have "link (aggregate_graph nbrs comm k) a b =
        (\<Sum>j<length nbrs. \<Sum>i<length nbrs. if comm ! i = a \<and> comm ! j = b then link nbrs i j else 0)"
      unfolding aggregate_link [OF links that(1)] by (rule sum.swap)
    also have "\<dots> = link (aggregate_graph nbrs comm k) b a"
      unfolding aggregate_link [OF links that(2)] by (intro sum.cong refl) (simp add: sym conj_commute)
    finally show ?thesis .
  qed
  moreover have "(\<Sum>a<k. degree (aggregate_graph nbrs comm k ! a)) = 2 * m"
    using sum_by_class [where h = "\<lambda>i. comm ! i", OF assms(2)] total by (simp add: aggregate_degree [OF links assms(2)])
  ultimately show ?thesis
    using aggregate_links_ok [OF links assms(2)] by (simp add: graph_ok_def)
qed

section \<open>All levels\<close>

lemma levels_improve:
  assumes "graph_ok nbrs m" "set ntc \<subseteq> {..<length nbrs}"
  shows "\<exists>h. louvain_levels nbrs m gamma ntc = map (\<lambda>c. h ! c) ntc \<and> length h = length nbrs \<and> set h = {..<num_comms h} \<and>
     level_quality nbrs m gamma [0..<length nbrs] \<le> level_quality nbrs m gamma h"
  using assms
proof (induction nbrs m gamma ntc rule: louvain_levels.induct)
  case (1 nbrs m gamma ntc)
  let ?comm = "one_level nbrs m gamma"
  let ?k = "num_comms ?comm"
  note level = one_level_improves [OF 1(2), of gamma]
  show ?case
  proof (cases "?k = length nbrs")
    case True
    then show ?thesis using level by (intro exI [of _ ?comm]) (simp add: louvain_levels.simps [of nbrs] Let_def)
  next
    case False
    have into: "\<forall>i<length nbrs. ?comm ! i < ?k"
      using level(2) by (metis lessThan_iff nth_mem one_level_length)
    have "set (map (\<lambda>c. ?comm ! c) ntc) \<subseteq> {..<?k}" using 1(3) into by auto
    then obtain h where h: "louvain_levels (aggregate_graph nbrs ?comm ?k) m gamma (map (\<lambda>c. ?comm ! c) ntc) =
          map (\<lambda>c. h ! c) (map (\<lambda>c. ?comm ! c) ntc)" "length h = ?k" "set h = {..<num_comms h}"
        "level_quality (aggregate_graph nbrs ?comm ?k) m gamma [0..<?k] \<le> level_quality (aggregate_graph nbrs ?comm ?k) m gamma h"
      using 1(1) [OF refl refl refl False aggregate_graph_ok [OF 1(2) into]] by auto
    let ?h = "map (\<lambda>c. h ! c) ?comm"
    have up: "level_quality (aggregate_graph nbrs ?comm ?k) m gamma f = level_quality nbrs m gamma (map (\<lambda>c. f ! c) ?comm)"
      if "length f = ?k" for f
    proof -
      have "level_quality (aggregate_graph nbrs ?comm ?k) m gamma f =
          quality ?k (class_pairs (length nbrs) (\<lambda>i. ?comm ! i) (mod_weight nbrs m gamma)) (\<lambda>i. f ! i)"
        unfolding level_quality_def aggregate_length quality_def
        using 1(2) into by (intro sum.cong refl) (simp add: aggregate_mod_weight graph_ok_def)
      also have "\<dots> = quality (length nbrs) (mod_weight nbrs m gamma) (\<lambda>i. f ! (?comm ! i))"
        by (rule quality_aggregate [OF into])
      also have "\<dots> = level_quality nbrs m gamma (map (\<lambda>c. f ! c) ?comm)"
        unfolding level_quality_def by (rule quality_cong) simp
      finally show ?thesis .
    qed
    have "map (\<lambda>c. [0..<?k] ! c) ?comm = ?comm"
      using level(2) by (intro map_idI) (metis add_0 lessThan_iff nth_upt)
    then have "level_quality nbrs m gamma [0..<length nbrs] \<le> level_quality nbrs m gamma ?h"
      using level(1) h(4) up [of h] up [of "[0..<?k]"] h(2) by simp
    moreover have "set ?h = set h"
    proof -
      have "set ?h = (\<lambda>c. h ! c) ` {..<length h}" using level(2) h(2) by simp
      then show ?thesis by (auto simp: set_conv_nth)
    qed
    then have "set ?h = {..<num_comms ?h}" using h(3) dense_num_comms by metis
    ultimately show ?thesis
      using h(1) False 1(3) by (intro exI [of _ ?h]) (auto simp: louvain_levels.simps [of nbrs] Let_def subset_iff)
  qed
qed

section \<open>The extracted graph\<close>

definition symbols_ok :: "symbols \<Rightarrow> bool" where
  "symbols_ok acc \<longleftrightarrow> (case acc of (ids, labels, m) \<Rightarrow>
     length labels = length ids \<and> distinct ids \<and> (\<forall>x a. m x = Some a \<longleftrightarrow> a < length ids \<and> ids ! a = x))"

lemma add_symbol_ok: "symbols_ok acc \<Longrightarrow> symbols_ok (add_symbol label row acc)"
proof (cases row)
  case (Cons i rest)
  assume ok: "symbols_ok acc"
  obtain ids labels m where acc: "acc = (ids, labels, m)" by (cases acc)
  show ?thesis
  proof (cases "m i")
    case None
    have m: "\<forall>x a. m x = Some a \<longleftrightarrow> a < length ids \<and> ids ! a = x" using ok by (simp add: acc symbols_ok_def)
    have "i \<notin> set ids" using m None by (metis in_set_conv_nth option.distinct(1))
    then show ?thesis using ok None
      by (auto simp: acc symbols_ok_def add_symbol_def Cons nth_append less_Suc_eq)
  qed (use ok in \<open>simp add: acc add_symbol_def Cons\<close>)
qed (simp add: add_symbol_def)

lemma fold_keeps: "(\<And>x a. P a \<Longrightarrow> P (f x a)) \<Longrightarrow> P a \<Longrightarrow> P (fold f xs a)"
  by (induction xs arbitrary: a) auto

lemma collect_symbol_nodes_ok: "symbols_ok (collect_symbol_nodes exec)"
  unfolding collect_symbol_nodes_def
proof (rule fold_keeps)
  show "symbols_ok ([], [], Map.empty)" by (simp add: symbols_ok_def)
qed (auto intro: fold_keeps add_symbol_ok split: sum.splits)

lemma push_link_simps:
  assumes "a < length nbrs" "i < length nbrs"
  shows "link (push_link a (b, w) nbrs) i j = link nbrs i j + (if i = a \<and> j = b then w else 0)"
    and "degree (push_link a (b, w) nbrs ! i) = degree (nbrs ! i) + (if i = a then w else 0)"
  using assms by (auto simp: push_link_def link_def degree_def nth_list_update)

lemma push_link_length [simp]: "length (push_link a l nbrs) = length nbrs"
  by (simp add: push_link_def)

lemma push_link_ok: "links_ok nbrs \<Longrightarrow> a < length nbrs \<Longrightarrow> b < length nbrs \<Longrightarrow> links_ok (push_link a (b, w) nbrs)"
  unfolding links_ok_def push_link_def by (auto dest!: set_update_subset_insert [THEN subsetD]) (metis fst_conv nth_mem)

lemma push_pair_ok:
  assumes "graph_ok nbrs m" "a < length nbrs" "b < length nbrs"
  shows "graph_ok (push_link b (a, w) (push_link a (b, w) nbrs)) (m + w)"
proof -
  let ?n = "length nbrs" and ?new = "push_link b (a, w) (push_link a (b, w) nbrs)"
  have old: "links_ok nbrs" "\<And>i j. i < ?n \<Longrightarrow> j < ?n \<Longrightarrow> link nbrs i j = link nbrs j i"
    "(\<Sum>i<?n. degree (nbrs ! i)) = 2 * m" using assms(1) by (simp_all add: graph_ok_def)
  have "link ?new i j = link ?new j i" if "i < ?n" "j < ?n" for i j
    using that assms(2,3) old(2) [OF that] by (simp add: push_link_simps conj_commute)
  moreover have "(\<Sum>i<?n. degree (?new ! i)) = 2 * (m + w)"
  proof -
    have "(\<Sum>i<?n. degree (?new ! i)) = (\<Sum>i<?n. degree (nbrs ! i) + (if i = a then w else 0) + (if i = b then w else 0))"
      using assms(2,3) by (intro sum.cong refl) (simp add: push_link_simps)
    then show ?thesis using assms(2,3) old(3) by (simp add: sum.distrib)
  qed
  ultimately show ?thesis using old(1) assms(2,3) by (simp add: graph_ok_def push_link_ok)
qed

definition edges_ok :: "nat \<Rightarrow> links \<times> real \<Rightarrow> bool" where
  "edges_ok n acc \<longleftrightarrow> length (fst acc) = n \<and> graph_ok (fst acc) (snd acc)"

lemma add_row_ok:
  assumes "edges_ok n acc" "\<And>x a. idx x = Some a \<Longrightarrow> a < n"
  shows "edges_ok n (add_row idx w row acc)"
  using assms push_pair_ok [of "fst acc" "snd acc"]
  by (auto simp: add_row_def edges_ok_def split: list.splits option.splits prod.splits)

lemma empty_graph_ok: "edges_ok n (replicate n [], 0)"
  by (auto simp: edges_ok_def graph_ok_def links_ok_def link_def degree_def)

lemma collect_weighted_edges_ok:
  assumes "\<And>x a. idx x = Some a \<Longrightarrow> a < n"
  shows "edges_ok n (collect_weighted_edges exec idx n)"
  unfolding collect_weighted_edges_def
proof (rule fold_keeps)
  show "edges_ok n (replicate n [], 0)" by (rule empty_graph_ok)
next
  fix x acc
  assume "edges_ok n acc"
  then show "edges_ok n ((\<lambda>(rel, from_label, to_label) acc.
      let w = edge_weight rel in
      if w = 0 then acc
      else (case exec (''MATCH (a:'' @ from_label @ '')-[:'' @ rel @ '']->(b:'' @ to_label @
                  '') RETURN a.id, b.id ORDER BY a.id, b.id'') of
              Inl e \<Rightarrow> acc | Inr rows \<Rightarrow> fold (add_row idx w) rows acc)) x acc)"
    by (auto simp: Let_def intro!: fold_keeps [where P = "edges_ok n"] add_row_ok assms split: prod.splits sum.splits)
qed

lemma extract_adjacency_ok:
  "length (neighbors (extract_adjacency exec)) = length (node_ids (extract_adjacency exec))"
  "graph_ok (neighbors (extract_adjacency exec)) (total_weight (extract_adjacency exec))"
  "length (node_labels (extract_adjacency exec)) = length (node_ids (extract_adjacency exec))"
  "distinct (node_ids (extract_adjacency exec))"
proof -
  obtain ids labels m where s: "collect_symbol_nodes exec = (ids, labels, m)" by (cases "collect_symbol_nodes exec")
  have ok: "symbols_ok (ids, labels, m)" using collect_symbol_nodes_ok [of exec] s by simp
  obtain nbrs w where e: "collect_weighted_edges exec m (length ids) = (nbrs, w)" by fastforce
  have "edges_ok (length ids) (nbrs, w)"
    using collect_weighted_edges_ok [of m "length ids" exec] ok e by (simp add: symbols_ok_def)
  then show "length (neighbors (extract_adjacency exec)) = length (node_ids (extract_adjacency exec))"
    "graph_ok (neighbors (extract_adjacency exec)) (total_weight (extract_adjacency exec))"
    "length (node_labels (extract_adjacency exec)) = length (node_ids (extract_adjacency exec))"
    "distinct (node_ids (extract_adjacency exec))"
    using ok by (simp_all add: extract_adjacency_def s e edges_ok_def symbols_ok_def)
qed

section \<open>The result\<close>

text \<open>Newman's modularity with resolution \<open>gamma\<close>, over all pairs of nodes.\<close>

definition modularity_spec :: "adjacency \<Rightarrow> real \<Rightarrow> (nat \<Rightarrow> nat) \<Rightarrow> real" where
  "modularity_spec adj gamma f =
     (let nbrs = neighbors adj; m = total_weight adj in
      (\<Sum>i<length nbrs. \<Sum>j<length nbrs.
         if f i = f j then link nbrs i j - gamma * degree (nbrs ! i) * degree (nbrs ! j) / (2 * m) else 0) / (2 * m))"

lemma total_weight_nonneg: "0 \<le> total_weight (extract_adjacency exec)"
proof -
  obtain ids labels m where s: "collect_symbol_nodes exec = (ids, labels, m)" by (cases "collect_symbol_nodes exec")
  have row: "0 \<le> snd (add_row idx w row acc)" if "0 \<le> snd acc" "0 \<le> w" for idx w row acc
    using that by (auto simp: add_row_def split: list.splits option.splits prod.splits)
  have "0 \<le> edge_weight rel" for rel by (simp add: edge_weight_def)
  then have "0 \<le> snd (collect_weighted_edges exec m (length ids))"
    unfolding collect_weighted_edges_def
    by (intro fold_keeps [where P = "\<lambda>acc. 0 \<le> snd acc"])
       (auto simp: Let_def intro!: fold_keeps [where P = "\<lambda>acc. 0 \<le> snd acc"] row split: sum.splits)
  then show ?thesis by (simp add: extract_adjacency_def s case_prod_beta)
qed

text \<open>
  C9: On every graph the store holds, the Louvain method ends, numbers the communities of all symbols
  from zero without a gap, and never does worse than leaving every symbol alone: its modularity, for
  the resolution it was run with, is at least that of the singletons.
\<close>

theorem louvain_improves_on_singletons:
  "let adj = extract_adjacency exec; comm = fst (louvain adj gamma) in
     length comm = length (node_ids adj) \<and> set comm = {..<num_comms comm} \<and>
     modularity_spec adj gamma (\<lambda>i. i) \<le> modularity_spec adj gamma (\<lambda>i. comm ! i)"
proof -
  let ?adj = "extract_adjacency exec"
  let ?nbrs = "neighbors ?adj" and ?m = "total_weight ?adj" and ?n = "length (node_ids ?adj)"
  let ?comm = "fst (louvain ?adj gamma)"
  note ok = extract_adjacency_ok [of exec]
  have spec: "modularity_spec ?adj gamma f = quality ?n (mod_weight ?nbrs ?m gamma) f / (2 * ?m)" for f
    unfolding modularity_spec_def quality_def mod_weight_def Let_def ok(1) ..
  have trivial: "set [0..<n] = {..<num_comms [0..<n]}" for n
    by (metis atLeastLessThan_upt dense_num_comms lessThan_atLeast0)
  have same: "quality ?n (mod_weight ?nbrs ?m gamma) (\<lambda>i. [0..<?n] ! i) = quality ?n (mod_weight ?nbrs ?m gamma) (\<lambda>i. i)"
    by (rule quality_cong) simp
  show ?thesis
  proof (cases "?n = 0 \<or> ?m = 0")
    case True
    then have "?comm = [0..<?n]" by (auto simp: louvain_def Let_def)
    then show ?thesis using same trivial [of ?n] unfolding Let_def spec by simp
  next
    case False
    then have comm: "?comm = louvain_levels ?nbrs ?m gamma [0..<?n]" by (simp add: louvain_def Let_def)
    have "set [0..<?n] \<subseteq> {..<length ?nbrs}" by (simp add: ok(1) atLeast0LessThan)
    from levels_improve [OF ok(2) this, of gamma] obtain h where h: "?comm = map (\<lambda>c. h ! c) [0..<?n]" "length h = ?n"
      "set h = {..<num_comms h}" "level_quality ?nbrs ?m gamma [0..<?n] \<le> level_quality ?nbrs ?m gamma h"
      unfolding comm ok(1) by blast
    have "?comm = h" unfolding h(1) using h(2) by (metis map_nth)
    moreover have "0 < 2 * ?m" using False total_weight_nonneg [of exec] by simp
    ultimately show ?thesis
      using h(2-) same unfolding Let_def spec level_quality_def ok(1) by (simp add: divide_right_mono)
  qed
qed

text \<open>
  The modularity that is reported sums over the entries of the adjacency only: a pair of one community
  that no edge joins is left out.  For a path of three nodes in one community, Newman's value is zero.
\<close>

definition path_graph :: adjacency where
  "path_graph = \<lparr>node_ids = [''a'', ''b'', ''c''], node_labels = [], id_to_idx = Map.empty,
     neighbors = [[(1, 1)], [(0, 1), (2, 1)], [(1, 1)]], total_weight = 2\<rparr>"

lemma reported_modularity_of_path:
  "compute_modularity (neighbors path_graph) [0, 0, 0] (map degree (neighbors path_graph)) 2 = 1 / 2"
  "modularity_spec path_graph 1 (\<lambda>i. 0) = 0"
  by (simp_all add: compute_modularity_def path_graph_def degree_def upt_rec modularity_spec_def link_def
      lessThan_nat_numeral lessThan_Suc numeral_2_eq_2 numeral_3_eq_3)

end
