(* ===== verification/Community_Repair.thy ===== *)
theory Community_Repair
  imports Louvain
begin

text \<open>
  \<open>src/clustering/community_repair.rs\<close>: communities that are not connected are split into their
  connected components, found by a breadth-first search inside each community.  The hash sets of the
  source are sets; the queue is a list.
\<close>

section \<open>Components\<close>

definition visit_neighbor :: "nat set \<Rightarrow> nat list \<Rightarrow> nat \<Rightarrow> nat \<times> real \<Rightarrow> nat list \<times> nat set \<Rightarrow> nat list \<times> nat set" where
  "visit_neighbor member_set comm community l acc =
     (case acc of (queue, visited) \<Rightarrow>
        if fst l \<in> member_set \<and> comm ! fst l = community \<and> fst l \<notin> visited
        then (queue @ [fst l], insert (fst l) visited) else (queue, visited))"

lemma visit_neighbor_measure:
  assumes "finite M" "fold (visit_neighbor M comm c) ls (queue, visited) = (queue', visited')"
  shows "card (M - visited') + length queue' = card (M - visited) + length queue"
  using assms(2)
proof (induction ls arbitrary: queue visited)
  case Nil
  then show ?case by simp
next
  case (Cons l ls)
  show ?case
  proof (cases "fst l \<in> M \<and> comm ! fst l = c \<and> fst l \<notin> visited")
    case True
    have "M - visited = insert (fst l) (M - insert (fst l) visited)" using True by auto
    then have "card (M - visited) = Suc (card (M - insert (fst l) visited))"
      using assms(1) by (metis DiffD2 card_insert_disjoint finite_Diff insertI1)
    then show ?thesis
      using Cons.IH [of "queue @ [fst l]" "insert (fst l) visited"] Cons.prems True by (simp add: visit_neighbor_def)
  next
    case False
    then show ?thesis using Cons.IH [of queue visited] Cons.prems by (auto simp: visit_neighbor_def)
  qed
qed

text \<open>Every round of the search takes one node off the queue and marks what it adds as visited.\<close>

function bfs ::
  "nat list \<Rightarrow> links \<Rightarrow> nat list \<Rightarrow> nat \<Rightarrow> nat list \<Rightarrow> nat set \<Rightarrow> nat list \<Rightarrow> nat list \<times> nat set" where
  "bfs members nbrs comm community [] visited component = (component, visited)"
| "bfs members nbrs comm community (node # queue) visited component =
     (case fold (visit_neighbor (set members) comm community) (nbrs ! node) (queue, visited) of
        (queue', visited') \<Rightarrow> bfs members nbrs comm community queue' visited' (component @ [node]))"
  by pat_completeness auto

termination bfs
  by (relation "measure (\<lambda>(members, nbrs, comm, c, queue, visited, component). card (set members - visited) + length queue)")
     (use visit_neighbor_measure in \<open>fastforce dest: sym\<close>)+

fun components_from ::
  "nat list \<Rightarrow> links \<Rightarrow> nat list \<Rightarrow> nat \<Rightarrow> nat list \<Rightarrow> nat set \<Rightarrow> nat list list" where
  "components_from members nbrs comm community [] visited = []"
| "components_from members nbrs comm community (start # rest) visited =
     (if start \<in> visited then components_from members nbrs comm community rest visited
      else
        (case bfs members nbrs comm community [start] (insert start visited) [] of
           (component, visited') \<Rightarrow> component # components_from members nbrs comm community rest visited'))"

definition connected_components_within :: "nat list \<Rightarrow> links \<Rightarrow> nat list \<Rightarrow> nat \<Rightarrow> nat list list" where
  "connected_components_within members nbrs comm community = components_from members nbrs comm community members {}"

section \<open>Repair\<close>

definition assign :: "nat list \<Rightarrow> nat \<Rightarrow> nat list \<Rightarrow> nat list" where
  "assign component c comm = fold (\<lambda>node comm. comm[node := c]) component comm"

definition repair_community :: "links \<Rightarrow> nat \<Rightarrow> nat list \<times> nat \<Rightarrow> nat list \<times> nat" where
  "repair_community nbrs c st = (case st of (comm, next_comm) \<Rightarrow>
     let members = filter (\<lambda>i. comm ! i = c) [0..<length comm] in
     if length members \<le> 1 then st
     else
       let components = connected_components_within members nbrs comm c in
       if length components \<le> 1 then st
       else fold (\<lambda>component (comm, next_comm). (assign component next_comm comm, Suc next_comm))
              (tl components) (comm, next_comm))"

definition repair_c2 :: "adjacency \<Rightarrow> nat list \<Rightarrow> nat list" where
  "repair_c2 adj comm =
     renumber_communities (fst (fold (repair_community (neighbors adj)) [0..<num_comms comm] (comm, num_comms comm)))"

section \<open>The search finds a component\<close>

definition inside :: "links \<Rightarrow> nat set \<Rightarrow> (nat \<times> nat) set" where
  "inside nbrs M = {(a, b). a \<in> M \<and> b \<in> M \<and> b \<in> fst ` set (nbrs ! a)}"

lemma visit_fold:
  assumes "\<forall>x \<in> M. comm ! x = c"
  shows "\<exists>new. fold (visit_neighbor M comm c) ls (queue, visited) = (queue @ new, visited \<union> set new) \<and>
     set new = (fst ` set ls \<inter> M) - visited"
proof (induction ls arbitrary: queue visited)
  case Nil
  then show ?case by (intro exI [of _ "[]"]) simp
next
  case (Cons l ls)
  show ?case
  proof (cases "fst l \<in> M \<and> fst l \<notin> visited")
    case True
    obtain new where new: "fold (visit_neighbor M comm c) ls (queue @ [fst l], insert (fst l) visited) =
        ((queue @ [fst l]) @ new, insert (fst l) visited \<union> set new)" "set new = (fst ` set ls \<inter> M) - insert (fst l) visited"
      using Cons by blast
    have "visit_neighbor M comm c l (queue, visited) = (queue @ [fst l], insert (fst l) visited)"
      using True assms by (simp add: visit_neighbor_def)
    then show ?thesis using new True by (intro exI [of _ "fst l # new"]) auto
  next
    case False
    obtain new where new: "fold (visit_neighbor M comm c) ls (queue, visited) = (queue @ new, visited \<union> set new)"
        "set new = (fst ` set ls \<inter> M) - visited"
      using Cons by blast
    have "visit_neighbor M comm c l (queue, visited) = (queue, visited)"
      using False by (auto simp: visit_neighbor_def)
    then show ?thesis using new False by (intro exI [of _ new]) auto
  qed
qed

lemma closed_reach: "R `` V \<subseteq> V \<Longrightarrow> S \<subseteq> V \<Longrightarrow> R\<^sup>* `` S \<subseteq> V"
  using Image_closed_trancl [of R V] by blast

lemma bfs_reaches:
  assumes "\<forall>x \<in> set members. comm ! x = c" "set queue \<subseteq> visited" "set queue \<subseteq> set members"
    and "inside nbrs (set members) `` (visited - set queue) \<subseteq> visited"
    and "bfs members nbrs comm c queue visited component = (component', visited')"
  shows "visited' = visited \<union> (inside nbrs (set members))\<^sup>* `` set queue \<and>
     inside nbrs (set members) `` visited' \<subseteq> visited' \<and>
     set component' = set component \<union> set queue \<union> (visited' - visited)"
  using assms
proof (induction members nbrs comm c queue visited component rule: bfs.induct)
  case (1 members nbrs comm community visited component)
  then show ?case by simp
next
  case (2 members nbrs comm community node queue visited component)
  let ?R = "inside nbrs (set members)"
  obtain new where new: "fold (visit_neighbor (set members) comm community) (nbrs ! node) (queue, visited) =
      (queue @ new, visited \<union> set new)" "set new = (fst ` set (nbrs ! node) \<inter> set members) - visited"
    using visit_fold [OF 2(2)] by blast
  have step: "?R `` {node} = fst ` set (nbrs ! node) \<inter> set members" using 2(4) by (auto simp: inside_def)
  have closed: "?R `` (visited \<union> set new - set (queue @ new)) \<subseteq> visited \<union> set new"
  proof
    fix y assume "y \<in> ?R `` (visited \<union> set new - set (queue @ new))"
    then obtain x where x: "(x, y) \<in> ?R" "x \<in> visited" "x \<notin> set queue" by auto
    show "y \<in> visited \<union> set new"
    proof (cases "x = node")
      case True
      then have "y \<in> ?R `` {node}" using x(1) by blast
      then show ?thesis using step new(2) by blast
    next
      case False
      then show ?thesis using 2(5) x by auto
    qed
  qed
  have run: "bfs members nbrs comm community (queue @ new) (visited \<union> set new) (component @ [node]) = (component', visited')"
    using 2(6) new(1) by simp
  have subs: "set (queue @ new) \<subseteq> visited \<union> set new" "set (queue @ new) \<subseteq> set members"
    using 2(3,4) new(2) by auto
  from 2(1) [OF new(1) [symmetric] 2(2) subs closed run]
  have ih: "visited' = visited \<union> set new \<union> ?R\<^sup>* `` set (queue @ new)" "?R `` visited' \<subseteq> visited'"
    "set component' = set (component @ [node]) \<union> set (queue @ new) \<union> (visited' - (visited \<union> set new))" by blast+
  have new_reach: "set new \<subseteq> ?R\<^sup>* `` {node}" using new(2) step by blast
  have "visited \<union> set new \<union> ?R\<^sup>* `` set (queue @ new) = visited \<union> ?R\<^sup>* `` set (node # queue)"
  proof
    have "?R\<^sup>* `` set new \<subseteq> ?R\<^sup>* `` {node}" using new_reach by (auto intro: rtrancl_trans)
    then show "visited \<union> set new \<union> ?R\<^sup>* `` set (queue @ new) \<subseteq> visited \<union> ?R\<^sup>* `` set (node # queue)"
      using new_reach by auto
    have "node \<in> visited'" using 2(3) ih(1) by auto
    then have "?R\<^sup>* `` {node} \<subseteq> visited'" using closed_reach [OF ih(2)] by blast
    then show "visited \<union> ?R\<^sup>* `` set (node # queue) \<subseteq> visited \<union> set new \<union> ?R\<^sup>* `` set (queue @ new)"
      using ih(1) by auto
  qed
  then show ?case using ih new(2) subs by auto
qed

text \<open>The classes of mutual reachability of a symmetric relation.\<close>

lemma sym_class:
  assumes "sym R" "(a, b) \<in> R\<^sup>*"
  shows "R\<^sup>* `` {a} = R\<^sup>* `` {b}"
  using assms sym_rtrancl [OF assms(1)] by (auto dest: symD intro: rtrancl_trans)

lemma bfs_component:
  assumes "\<forall>x \<in> set members. comm ! x = c" "sym (inside nbrs (set members))" "start \<in> set members" "start \<notin> visited"
    and "inside nbrs (set members) `` visited \<subseteq> visited"
    and "bfs members nbrs comm c [start] (insert start visited) [] = (component, visited')"
  shows "set component = (inside nbrs (set members))\<^sup>* `` {start}" "visited' = visited \<union> set component"
    "inside nbrs (set members) `` visited' \<subseteq> visited'"
proof -
  let ?R = "inside nbrs (set members)"
  have closed: "?R `` (insert start visited - set [start]) \<subseteq> insert start visited" using assms(5) by auto
  have run: "visited' = insert start visited \<union> ?R\<^sup>* `` set [start]" "?R `` visited' \<subseteq> visited'"
    "set component = set [] \<union> set [start] \<union> (visited' - insert start visited)"
    using bfs_reaches [OF assms(1) _ _ closed assms(6)] assms(3) by auto
  have "x \<notin> visited" if "(start, x) \<in> ?R\<^sup>*" for x
  proof
    assume "x \<in> visited"
    then have "?R\<^sup>* `` {x} \<subseteq> visited" using closed_reach [OF assms(5)] by blast
    moreover have "start \<in> ?R\<^sup>* `` {x}" using sym_class [OF assms(2) that] by blast
    ultimately show False using assms(4) by blast
  qed
  then show "set component = ?R\<^sup>* `` {start}" using run by auto
  then show "visited' = visited \<union> set component" using run by auto
  show "?R `` visited' \<subseteq> visited'" by (rule run(2))
qed

lemma components_from_classes:
  assumes "\<forall>x \<in> set members. comm ! x = c" "sym (inside nbrs (set members))" "set rest \<subseteq> set members"
    and "inside nbrs (set members) `` visited \<subseteq> visited"
  shows "set ` set (components_from members nbrs comm c rest visited) =
       (\<lambda>s. (inside nbrs (set members))\<^sup>* `` {s}) ` (set rest - visited) \<and>
     distinct (map set (components_from members nbrs comm c rest visited)) \<and>
     (\<forall>C \<in> set (components_from members nbrs comm c rest visited). C \<noteq> [] \<and> set C \<inter> visited = {})"
  using assms
proof (induction members nbrs comm c rest visited rule: components_from.induct)
  case (1 members nbrs comm community visited)
  then show ?case by simp
next
  case (2 members nbrs comm community start rest visited)
  let ?R = "inside nbrs (set members)"
  show ?case
  proof (cases "start \<in> visited")
    case True
    then have "set (start # rest) - visited = set rest - visited" by auto
    then show ?thesis using 2(1) [OF True 2(3,4)] 2(5,6) True by simp
  next
    case False
    obtain component visited' where b: "bfs members nbrs comm community [start] (insert start visited) [] = (component, visited')"
      by fastforce
    have start: "start \<in> set members" using 2(5) by simp
    note comp = bfs_component [OF 2(3,4) start False 2(6) b]
    let ?cs = "components_from members nbrs comm community rest visited'"
    have "set rest \<subseteq> set members" using 2(5) by simp
    from 2(2) [OF False b [symmetric] 2(3,4) this comp(3)]
    have ih: "set ` set ?cs = (\<lambda>s. ?R\<^sup>* `` {s}) ` (set rest - visited')" "distinct (map set ?cs)"
      "\<forall>C \<in> set ?cs. C \<noteq> [] \<and> set C \<inter> visited' = {}" by blast+
    have "start \<in> set component" using comp(1) by blast
    then have "set component \<noteq> set C" if "C \<in> set ?cs" for C using ih(3) that comp(2) by blast
    then have dist: "distinct (map set (component # ?cs))" using ih(2) by auto
    have "component \<noteq> [] \<and> set component \<inter> visited = {}"
    proof -
      have "x \<notin> visited" if "x \<in> set component" for x
      proof
        assume "x \<in> visited"
        then have "?R\<^sup>* `` {x} \<subseteq> visited" using closed_reach [OF 2(6)] by blast
        moreover have "start \<in> ?R\<^sup>* `` {x}" using sym_class [OF 2(4), of start x] that comp(1) by blast
        ultimately show False using False by blast
      qed
      then show ?thesis using \<open>start \<in> set component\<close> by auto
    qed
    moreover have "(\<lambda>s. ?R\<^sup>* `` {s}) ` (set (start # rest) - visited) = insert (set component) ((\<lambda>s. ?R\<^sup>* `` {s}) ` (set rest - visited'))"
    proof -
      have "?R\<^sup>* `` {s} = set component" if "s \<in> visited'" "s \<notin> visited" for s
        using that comp(1,2) sym_class [OF 2(4), of start s] by auto
      then have "(\<lambda>s. ?R\<^sup>* `` {s}) ` (set rest \<inter> visited' - visited) \<subseteq> {set component}" by blast
      moreover have "set (start # rest) - visited = insert start ((set rest - visited') \<union> (set rest \<inter> visited' - visited))"
        using comp(2) False by auto
      moreover have "?R\<^sup>* `` {start} = set component" by (simp add: comp(1))
      ultimately show ?thesis by (simp only: image_insert image_Un) blast
    qed
    ultimately show ?thesis using ih dist comp(2) False b by auto
  qed
qed

section \<open>Repairing one community\<close>

lemma assign_nth:
  "set component \<subseteq> {..<length comm} \<Longrightarrow> i < length comm \<Longrightarrow> assign component v comm ! i = (if i \<in> set component then v else comm ! i)"
proof (induction component arbitrary: comm)
  case Nil
  then show ?case by (simp add: assign_def)
next
  case (Cons x component)
  have "assign (x # component) v comm = assign component v (comm[x := v])" by (simp add: assign_def)
  then show ?case using Cons by (auto simp: nth_list_update)
qed

lemma assign_length [simp]: "length (assign component v comm) = length comm"
  unfolding assign_def by (rule fold_keeps [where P = "\<lambda>xs. length xs = length comm"]) simp_all

definition number_components :: "nat list list \<Rightarrow> nat list \<times> nat \<Rightarrow> nat list \<times> nat" where
  "number_components cs st = fold (\<lambda>component (comm, nxt). (assign component nxt comm, Suc nxt)) cs st"

lemma number_components:
  assumes "\<forall>C \<in> set cs. set C \<subseteq> {..<length comm}" "distinct (map set cs)"
    and "\<forall>C \<in> set cs. \<forall>D \<in> set cs. set C \<noteq> set D \<longrightarrow> set C \<inter> set D = {}"
    and "number_components cs (comm, nxt) = (comm', nxt')"
  shows "length comm' = length comm \<and> nxt' = nxt + length cs \<and>
    (\<forall>k<length cs. \<forall>i \<in> set (cs ! k). comm' ! i = nxt + k) \<and>
    (\<forall>i<length comm. i \<notin> \<Union> (set ` set cs) \<longrightarrow> comm' ! i = comm ! i)"
  using assms
proof (induction cs arbitrary: comm nxt)
  case Nil
  then show ?case by (simp add: number_components_def)
next
  case (Cons C cs)
  let ?comm = "assign C nxt comm"
  have run: "number_components cs (?comm, Suc nxt) = (comm', nxt')" using Cons.prems(4) by (simp add: number_components_def)
  have ih: "length comm' = length comm" "nxt' = Suc nxt + length cs"
    "\<And>k i. k < length cs \<Longrightarrow> i \<in> set (cs ! k) \<Longrightarrow> comm' ! i = Suc nxt + k"
    "\<And>i. i < length comm \<Longrightarrow> i \<notin> \<Union> (set ` set cs) \<Longrightarrow> comm' ! i = ?comm ! i"
    using Cons.IH [OF _ _ _ run] Cons.prems(1-3) by auto
  have C: "set C \<subseteq> {..<length comm}" using Cons.prems(1) by simp
  have "set C \<inter> \<Union> (set ` set cs) = {}"
  proof -
    have "set C \<inter> set D = {}" if D: "D \<in> set cs" for D
    proof -
      have "set C \<noteq> set D" using Cons.prems(2) D by auto
      then show ?thesis using Cons.prems(3) D by simp
    qed
    then show ?thesis by blast
  qed
  then have head: "comm' ! i = nxt" if "i \<in> set C" for i
    using that ih(4) [of i] C assign_nth [OF C, of i nxt] by auto
  have "comm' ! i = nxt + k" if "k < length (C # cs)" "i \<in> set ((C # cs) ! k)" for k i
    using that head ih(3) by (cases k) auto
  moreover have "comm' ! i = comm ! i" if "i < length comm" "i \<notin> \<Union> (set ` set (C # cs))" for i
    using that ih(4) [of i] assign_nth [OF C, of i nxt] by auto
  ultimately show ?case using ih(1,2) by auto
qed

lemma repair_community_def':
  "repair_community nbrs c (comm, nxt) =
     (let members = filter (\<lambda>i. comm ! i = c) [0..<length comm];
          components = connected_components_within members nbrs comm c in
      if length members \<le> 1 \<or> length components \<le> 1 then (comm, nxt)
      else number_components (tl components) (comm, nxt))"
  by (simp add: repair_community_def number_components_def Let_def)

definition members_of :: "nat list \<Rightarrow> nat \<Rightarrow> nat set" where
  "members_of comm c = {i. i < length comm \<and> comm ! i = c}"

lemma repair_community_step:
  assumes sym: "sym (inside nbrs (members_of comm c))" and less: "\<forall>i<length comm. comm ! i < nxt" "c < nxt"
    and run: "repair_community nbrs c (comm, nxt) = (comm', nxt')"
  shows "length comm' = length comm" "nxt \<le> nxt'"
    "\<And>i. i < length comm \<Longrightarrow> comm ! i \<noteq> c \<Longrightarrow> comm' ! i = comm ! i"
    "\<And>i. i \<in> members_of comm c \<Longrightarrow> comm' ! i = c \<or> nxt \<le> comm' ! i \<and> comm' ! i < nxt'"
    "\<And>i j. i \<in> members_of comm c \<Longrightarrow> j \<in> members_of comm c \<Longrightarrow>
       comm' ! i = comm' ! j \<longleftrightarrow> (i, j) \<in> (inside nbrs (members_of comm c))\<^sup>*"
proof -
  let ?ms = "filter (\<lambda>i. comm ! i = c) [0..<length comm]"
  let ?M = "members_of comm c"
  define cs where "cs = connected_components_within ?ms nbrs comm c"
  define R where "R = inside nbrs ?M"
  have M: "set ?ms = ?M" by (auto simp: members_of_def)
  have symR: "sym R" unfolding R_def by (rule sym)
  have classes: "set ` set cs = (\<lambda>s. R\<^sup>* `` {s}) ` ?M" "distinct (map set cs)"
  proof -
    have m: "\<forall>x \<in> set ?ms. comm ! x = c" by simp
    have s: "sym (inside nbrs (set ?ms))" using sym by (simp only: M)
    have e: "inside nbrs (set ?ms) `` {} \<subseteq> {}" by simp
    note found = components_from_classes [OF m s subset_refl e, folded connected_components_within_def, folded cs_def,
        unfolded M Diff_empty, folded R_def]
    show "set ` set cs = (\<lambda>s. R\<^sup>* `` {s}) ` ?M" by (rule found [THEN conjunct1])
    show "distinct (map set cs)" by (rule found [THEN conjunct2, THEN conjunct1])
  qed
  have cover: "\<exists>C \<in> set cs. set C = R\<^sup>* `` {i}" if "i \<in> ?M" for i
  proof -
    have "R\<^sup>* `` {i} \<in> set ` set cs" unfolding classes(1) using that by (rule imageI)
    then show ?thesis by (metis imageE)
  qed
  have from_class: "\<exists>s \<in> ?M. set C = R\<^sup>* `` {s}" if "C \<in> set cs" for C
  proof -
    have "set C \<in> set ` set cs" using that by (rule imageI)
    then have "set C \<in> (\<lambda>s. R\<^sup>* `` {s}) ` ?M" by (simp only: classes(1))
    then obtain s where "set C = R\<^sup>* `` {s}" "s \<in> ?M" by (rule imageE)
    then show ?thesis by (intro bexI)
  qed
  have sub: "set C \<subseteq> ?M" if C: "C \<in> set cs" for C
  proof -
    obtain s where s: "s \<in> ?M" "set C = R\<^sup>* `` {s}" using from_class [OF C] by blast
    have "R `` ?M \<subseteq> ?M" by (auto simp: R_def inside_def)
    then show ?thesis using closed_reach [of R ?M "{s}"] s by auto
  qed
  have class_eq: "R\<^sup>* `` {i} = R\<^sup>* `` {j} \<longleftrightarrow> (i, j) \<in> R\<^sup>*" for i j
    using sym_class [OF symR] by blast
  have class_of: "set C = R\<^sup>* `` {i}" if C: "C \<in> set cs" "i \<in> set C" for C i
  proof -
    obtain s where s: "set C = R\<^sup>* `` {s}" using from_class [OF C(1)] by blast
    then have "(s, i) \<in> R\<^sup>*" using C(2) by simp
    then show ?thesis unfolding s by (rule sym_class [OF symR])
  qed
  have disjoint: "set C \<noteq> set D \<longrightarrow> set C \<inter> set D = {}" if "C \<in> set cs" "D \<in> set cs" for C D
    using class_of [OF that(1)] class_of [OF that(2)] by blast
  have all: "length comm' = length comm \<and> nxt \<le> nxt' \<and> (\<forall>i<length comm. comm ! i \<noteq> c \<longrightarrow> comm' ! i = comm ! i) \<and>
      (\<forall>i \<in> ?M. comm' ! i = c \<or> nxt \<le> comm' ! i \<and> comm' ! i < nxt') \<and>
      (\<forall>i \<in> ?M. \<forall>j \<in> ?M. comm' ! i = comm' ! j \<longleftrightarrow> (i, j) \<in> R\<^sup>*)"
  proof (cases "length ?ms \<le> 1 \<or> length cs \<le> 1")
    case True
    then have keep: "comm' = comm" "nxt' = nxt" using run unfolding repair_community_def' Let_def cs_def [symmetric] by (auto split: if_splits)
    have "(i, j) \<in> R\<^sup>*" if ij: "i \<in> ?M" "j \<in> ?M" for i j
    proof (cases "length ?ms \<le> 1")
      case True
      then have "i = j" using ij unfolding M [symmetric] by (cases ?ms) auto
      then show ?thesis by simp
    next
      case False
      then have one: "length cs \<le> 1" using \<open>length ?ms \<le> 1 \<or> length cs \<le> 1\<close> by simp
      obtain C where C: "C \<in> set cs" "set C = R\<^sup>* `` {i}" using cover [OF ij(1)] by blast
      obtain D where D: "D \<in> set cs" "set D = R\<^sup>* `` {j}" using cover [OF ij(2)] by blast
      have "C = D" using one C(1) D(1) by (cases cs) auto
      then show ?thesis using class_eq [of i j] C(2) D(2) by metis
    qed
    then show ?thesis using keep less by (auto simp: members_of_def)
  next
    case False
    then obtain C0 rest where split: "cs = C0 # rest" by (cases cs) auto
    have num: "number_components rest (comm, nxt) = (comm', nxt')"
      using run False unfolding repair_community_def' Let_def cs_def [symmetric] by (auto simp: split)
    have "\<forall>C \<in> set rest. set C \<subseteq> {..<length comm}" using sub split by (fastforce simp: members_of_def)
    moreover have "distinct (map set rest)" using classes(2) split by simp
    moreover have "\<forall>C \<in> set rest. \<forall>D \<in> set rest. set C \<noteq> set D \<longrightarrow> set C \<inter> set D = {}" using disjoint split by simp
    ultimately have n: "length comm' = length comm" "nxt' = nxt + length rest"
      "\<And>k i. k < length rest \<Longrightarrow> i \<in> set (rest ! k) \<Longrightarrow> comm' ! i = nxt + k"
      "\<And>i. i < length comm \<Longrightarrow> i \<notin> \<Union> (set ` set rest) \<Longrightarrow> comm' ! i = comm ! i"
      using number_components [OF _ _ _ num] by blast+
    define v where "v k = (if k = 0 then c else nxt + (k - 1))" for k
    have numbered: "comm' ! i = v k" if k: "k < length cs" "i \<in> set (cs ! k)" for i k
    proof (cases k)
      case 0
      have "i \<notin> set D" if D: "D \<in> set rest" for D
      proof -
        have "set C0 \<noteq> set D" using classes(2) D split by auto
        then show ?thesis using disjoint [of C0 D] D split k 0 by auto
      qed
      moreover have "i \<in> ?M" using sub [of C0] k 0 split by auto
      ultimately show ?thesis using n(4) [of i] 0 by (auto simp: v_def members_of_def)
    next
      case (Suc k')
      then show ?thesis using n(3) [of k' i] k split by (simp add: v_def)
    qed
    have v_inj: "v k = v l \<longleftrightarrow> k = l" for k l using less(2) by (auto simp: v_def)
    have where_is: "\<exists>k<length cs. set (cs ! k) = R\<^sup>* `` {i}" if "i \<in> ?M" for i
      using cover [OF that] by (metis in_set_conv_nth)
    have "comm' ! i = comm' ! j \<longleftrightarrow> (i, j) \<in> R\<^sup>*" if ij: "i \<in> ?M" "j \<in> ?M" for i j
    proof -
      obtain k l where k: "k < length cs" "set (cs ! k) = R\<^sup>* `` {i}" and l: "l < length cs" "set (cs ! l) = R\<^sup>* `` {j}"
        using where_is ij by metis
      have "comm' ! i = v k" "comm' ! j = v l" using numbered k l by auto
      moreover have "k = l \<longleftrightarrow> set (cs ! k) = set (cs ! l)"
        using classes(2) k(1) l(1) by (auto simp: distinct_conv_nth)
      ultimately show ?thesis using v_inj class_eq [of i j] k(2) l(2) by metis
    qed
    moreover have "comm' ! i = c \<or> nxt \<le> comm' ! i \<and> comm' ! i < nxt'" if i: "i \<in> ?M" for i
    proof -
      obtain k where k: "k < length cs" "set (cs ! k) = R\<^sup>* `` {i}" using where_is i by blast
      then have "comm' ! i = v k" using numbered by auto
      then show ?thesis using k(1) n(2) split by (auto simp: v_def)
    qed
    moreover have "comm' ! i = comm ! i" if i: "i < length comm" "comm ! i \<noteq> c" for i
    proof -
      have "i \<notin> \<Union> (set ` set rest)" using sub split i(2) by (fastforce simp: members_of_def)
      then show ?thesis using n(4) i by blast
    qed
    ultimately show ?thesis using n(1,2) by simp
  qed
  then show "length comm' = length comm" "nxt \<le> nxt'" by simp_all
  show "i < length comm \<Longrightarrow> comm ! i \<noteq> c \<Longrightarrow> comm' ! i = comm ! i" for i using all by blast
  show "i \<in> ?M \<Longrightarrow> comm' ! i = c \<or> nxt \<le> comm' ! i \<and> comm' ! i < nxt'" for i using all by blast
  show "i \<in> ?M \<Longrightarrow> j \<in> ?M \<Longrightarrow> comm' ! i = comm' ! j \<longleftrightarrow> (i, j) \<in> (inside nbrs ?M)\<^sup>*" for i j using all unfolding R_def by blast
qed

section \<open>Repairing all communities\<close>

definition joined :: "links \<Rightarrow> nat list \<Rightarrow> (nat \<times> nat) set" where
  "joined nbrs comm =
     {(a, b). a < length comm \<and> b < length comm \<and> b \<in> fst ` set (nbrs ! a) \<and> comm ! a = comm ! b}"

definition adjacent_sym :: "links \<Rightarrow> bool" where
  "adjacent_sym nbrs \<longleftrightarrow>
     (\<forall>i<length nbrs. \<forall>j<length nbrs. j \<in> fst ` set (nbrs ! i) \<longrightarrow> i \<in> fst ` set (nbrs ! j))"

lemma sym_inside: "adjacent_sym nbrs \<Longrightarrow> M \<subseteq> {..<length nbrs} \<Longrightarrow> sym (inside nbrs M)"
  unfolding adjacent_sym_def by (intro symI) (auto simp: inside_def subset_iff simp del: image_iff)

lemma joined_same: "(i, j) \<in> (joined nbrs comm)\<^sup>* \<Longrightarrow> comm ! i = comm ! j"
  by (induction rule: rtrancl_induct) (auto simp: joined_def)

lemma joined_inside:
  assumes "i \<in> members_of comm c"
  shows "(i, j) \<in> (joined nbrs comm)\<^sup>* \<longleftrightarrow> (i, j) \<in> (inside nbrs (members_of comm c))\<^sup>*"
proof
  assume "(i, j) \<in> (joined nbrs comm)\<^sup>*"
  then have "j \<in> members_of comm c \<and> (i, j) \<in> (inside nbrs (members_of comm c))\<^sup>*"
  proof (induction rule: rtrancl_induct)
    case base
    then show ?case using assms by simp
  next
    case (step y z)
    then have "z \<in> members_of comm c" "(y, z) \<in> inside nbrs (members_of comm c)"
      by (auto simp: joined_def members_of_def inside_def)
    then show ?case using step.IH by (meson rtrancl.rtrancl_into_rtrancl)
  qed
  then show "(i, j) \<in> (inside nbrs (members_of comm c))\<^sup>*" by simp
next
  have "inside nbrs (members_of comm c) \<subseteq> joined nbrs comm" by (auto simp: inside_def joined_def members_of_def)
  then show "(i, j) \<in> (inside nbrs (members_of comm c))\<^sup>* \<Longrightarrow> (i, j) \<in> (joined nbrs comm)\<^sup>*"
    using rtrancl_mono by blast
qed

definition repaired_below :: "links \<Rightarrow> nat list \<Rightarrow> nat \<Rightarrow> nat \<Rightarrow> nat list \<times> nat \<Rightarrow> bool" where
  "repaired_below nbrs comm k c st \<longleftrightarrow> (case st of (cm, nxt) \<Rightarrow>
     length cm = length comm \<and> k \<le> nxt \<and>
     (\<forall>i<length comm. cm ! i = comm ! i \<or> k \<le> cm ! i \<and> cm ! i < nxt) \<and>
     (\<forall>i<length comm. c \<le> comm ! i \<longrightarrow> cm ! i = comm ! i) \<and>
     (\<forall>i<length comm. \<forall>j<length comm. comm ! i < c \<longrightarrow> comm ! j < c \<longrightarrow>
        (cm ! i = cm ! j \<longleftrightarrow> (i, j) \<in> (joined nbrs comm)\<^sup>*)))"

lemma repair_next:
  assumes "adjacent_sym nbrs" "length comm = length nbrs" "\<forall>i<length comm. comm ! i < k" "c < k"
    and inv: "repaired_below nbrs comm k c (cm, nxt)"
    and step: "repair_community nbrs c (cm, nxt) = (cm', nxt')"
  shows "repaired_below nbrs comm k (Suc c) (cm', nxt')"
proof -
  have len: "length cm = length comm" and k: "k \<le> nxt"
    and old: "\<And>i. i < length comm \<Longrightarrow> cm ! i = comm ! i \<or> k \<le> cm ! i \<and> cm ! i < nxt"
    and later: "\<And>i. i < length comm \<Longrightarrow> c \<le> comm ! i \<Longrightarrow> cm ! i = comm ! i"
    and done_before: "\<And>i j. i < length comm \<Longrightarrow> j < length comm \<Longrightarrow> comm ! i < c \<Longrightarrow> comm ! j < c \<Longrightarrow>
        cm ! i = cm ! j \<longleftrightarrow> (i, j) \<in> (joined nbrs comm)\<^sup>*"
    using inv by (simp_all add: repaired_below_def)
  have small: "cm ! i < nxt" if "i < length comm" for i using old [OF that] assms(3) k that by force
  have same: "members_of cm c = members_of comm c"
    using old later assms(4) len by (force simp: members_of_def)
  have "members_of cm c \<subseteq> {..<length nbrs}" using len assms(2) by (auto simp: members_of_def)
  note sym = sym_inside [OF assms(1) this]
  have "\<forall>i<length cm. cm ! i < nxt" "c < nxt" using small len assms(4) k by auto
  note s = repair_community_step [OF sym this step, unfolded same len]
  have before: "cm' ! i = cm ! i" if "i < length comm" "comm ! i < c" for i
    using s(3) [OF that(1)] old [OF that(1)] that assms(4) by force
  have after: "cm' ! i = comm ! i" if "i < length comm" "c < comm ! i" for i
    using s(3) [OF that(1)] later [OF that(1)] that by force
  have here: "cm' ! i = c \<or> nxt \<le> cm' ! i \<and> cm' ! i < nxt'" if "i < length comm" "comm ! i = c" for i
    using s(4) [of i] that by (simp add: members_of_def)
  have "cm' ! i = comm ! i \<or> k \<le> cm' ! i \<and> cm' ! i < nxt'" if i: "i < length comm" for i
  proof -
    consider "comm ! i < c" | "comm ! i = c" | "c < comm ! i" by linarith
    then show ?thesis
    proof cases
      case 1
      then show ?thesis using before [OF i] old [OF i] s(2) by fastforce
    next
      case 2
      then show ?thesis using here [OF i] k by auto
    next
      case 3
      then show ?thesis using after [OF i] by simp
    qed
  qed
  moreover have "cm' ! i = cm' ! j \<longleftrightarrow> (i, j) \<in> (joined nbrs comm)\<^sup>*"
    if ij: "i < length comm" "j < length comm" "comm ! i < Suc c" "comm ! j < Suc c" for i j
  proof -
    have apart: "cm' ! i \<noteq> cm' ! j \<and> (i, j) \<notin> (joined nbrs comm)\<^sup>* \<and> (j, i) \<notin> (joined nbrs comm)\<^sup>*"
      if "i < length comm" "j < length comm" "comm ! i = c" "comm ! j < c" for i j
      using here [OF that(1,3)] before [OF that(2,4)] small [OF that(2)] old [OF that(2)] that(3,4) assms(4) joined_same
      by fastforce
    consider "comm ! i < c" "comm ! j < c" | "comm ! i = c" "comm ! j = c" | "comm ! i = c" "comm ! j < c"
      | "comm ! i < c" "comm ! j = c" using ij(3,4) by linarith
    then show ?thesis
    proof cases
      case 1
      then show ?thesis using before ij done_before by simp
    next
      case 2
      then have "i \<in> members_of comm c" "j \<in> members_of comm c" using ij by (simp_all add: members_of_def)
      then show ?thesis using s(5) joined_inside by simp
    next
      case 3
      then show ?thesis using apart [of i j] ij by blast
    next
      case 4
      then show ?thesis using apart [of j i] ij by metis
    qed
  qed
  ultimately show ?thesis
    using s(1,2) k after by (simp add: repaired_below_def Suc_le_eq)
qed

lemma repair_all:
  assumes "adjacent_sym nbrs" "length comm = length nbrs" "\<forall>i<length comm. comm ! i < k"
  shows "c \<le> k \<Longrightarrow> repaired_below nbrs comm k c (fold (repair_community nbrs) [0..<c] (comm, k))"
proof (induction c)
  case 0
  then show ?case using assms(3) by (simp add: repaired_below_def)
next
  case (Suc c)
  obtain cm nxt where st: "fold (repair_community nbrs) [0..<c] (comm, k) = (cm, nxt)" by fastforce
  obtain cm' nxt' where step: "repair_community nbrs c (cm, nxt) = (cm', nxt')" by fastforce
  show ?case using repair_next [OF assms _ _ step] Suc st by (simp add: step)
qed

text \<open>Two nodes share a community after the repair exactly if a path inside their community joins them.\<close>

lemma repair_c2_classes:
  assumes "adjacent_sym (neighbors adj)" "length comm = length (neighbors adj)" "i < length comm" "j < length comm"
  shows "repair_c2 adj comm ! i = repair_c2 adj comm ! j \<longleftrightarrow> (i, j) \<in> (joined (neighbors adj) comm)\<^sup>*"
proof -
  let ?k = "num_comms comm"
  let ?st = "fold (repair_community (neighbors adj)) [0..<?k] (comm, ?k)"
  have k: "\<forall>i<length comm. comm ! i < ?k" by (auto simp: num_comms_def less_Suc_eq_le)
  obtain cm nxt where st: "?st = (cm, nxt)" by fastforce
  have "repaired_below (neighbors adj) comm ?k ?k (cm, nxt)" using repair_all [OF assms(1,2) k, of ?k] st by simp
  then have "length cm = length comm" "cm ! i = cm ! j \<longleftrightarrow> (i, j) \<in> (joined (neighbors adj) comm)\<^sup>*"
    using k assms(3,4) by (simp_all add: repaired_below_def)
  then show ?thesis using assms(3,4) renumber_communities_classes(2) [of i cm j] by (simp add: repair_c2_def st)
qed

lemma repair_c2_length:
  assumes "adjacent_sym (neighbors adj)" "length comm = length (neighbors adj)"
  shows "length (repair_c2 adj comm) = length comm"
proof -
  let ?k = "num_comms comm"
  let ?st = "fold (repair_community (neighbors adj)) [0..<?k] (comm, ?k)"
  have k: "\<forall>i<length comm. comm ! i < ?k" by (auto simp: num_comms_def less_Suc_eq_le)
  obtain cm nxt where st: "?st = (cm, nxt)" by fastforce
  have "repaired_below (neighbors adj) comm ?k ?k (cm, nxt)" using repair_all [OF assms k, of ?k] st by simp
  then show ?thesis by (simp add: repair_c2_def st repaired_below_def renumber_communities_classes(1))
qed

section \<open>On the extracted graph\<close>

definition adjacent_ok :: "nat \<Rightarrow> links \<times> real \<Rightarrow> bool" where
  "adjacent_ok n acc \<longleftrightarrow> length (fst acc) = n \<and> adjacent_sym (fst acc)"

lemma push_link_keys:
  "a < length nbrs \<Longrightarrow> i < length nbrs \<Longrightarrow>
   fst ` set (push_link a (b, w) nbrs ! i) = fst ` set (nbrs ! i) \<union> (if i = a then {b} else {})"
  by (auto simp: push_link_def nth_list_update)

lemma push_pair_adjacent:
  assumes "adjacent_sym nbrs" "a < length nbrs" "b < length nbrs"
  shows "adjacent_sym (push_link b (a, w) (push_link a (b, w) nbrs))"
proof -
  have keys: "j \<in> fst ` set (push_link b (a, w) (push_link a (b, w) nbrs) ! i) \<longleftrightarrow>
      j \<in> fst ` set (nbrs ! i) \<or> i = a \<and> j = b \<or> i = b \<and> j = a" if "i < length nbrs" for i j
    using that assms(2,3) by (simp add: push_link_keys del: image_iff)
  show ?thesis using assms(1) unfolding adjacent_sym_def push_link_length by (auto simp: keys simp del: image_iff)
qed

lemma add_row_adjacent:
  assumes "adjacent_ok n acc" "\<And>x a. idx x = Some a \<Longrightarrow> a < n"
  shows "adjacent_ok n (add_row idx w row acc)"
  using assms push_pair_adjacent [of "fst acc"]
  by (auto simp: add_row_def adjacent_ok_def split: list.splits option.splits prod.splits)

lemma extract_adjacent_sym: "adjacent_sym (neighbors (extract_adjacency exec))"
proof -
  obtain ids labels m where s: "collect_symbol_nodes exec = (ids, labels, m)" by (cases "collect_symbol_nodes exec")
  have idx: "\<And>x a. m x = Some a \<Longrightarrow> a < length ids"
    using collect_symbol_nodes_ok [of exec] by (simp add: s symbols_ok_def)
  have "adjacent_ok (length ids) (collect_weighted_edges exec m (length ids))"
    unfolding collect_weighted_edges_def
  proof (rule fold_keeps)
    show "adjacent_ok (length ids) (replicate (length ids) [], 0)" by (simp add: adjacent_ok_def adjacent_sym_def)
  qed (auto simp: Let_def intro!: fold_keeps [where P = "adjacent_ok (length ids)"] add_row_adjacent idx split: sum.splits)
  then show ?thesis by (simp add: extract_adjacency_def s adjacent_ok_def case_prod_beta)
qed

lemma louvain_levels_length: "length (louvain_levels nbrs m gamma ntc) = length ntc"
proof (induction nbrs m gamma ntc rule: louvain_levels.induct)
  case (1 nbrs m gamma ntc)
  then show ?case by (simp add: louvain_levels.simps [of nbrs] Let_def)
qed

definition partition_graph :: "adjacency \<Rightarrow> real \<Rightarrow> nat list \<times> real" where
  "partition_graph adj gamma = (case louvain adj gamma of (comm, modularity) \<Rightarrow> (repair_c2 adj comm, modularity))"

text \<open>
  C8: The communities that are stored are exactly the connected pieces of the Louvain communities: two
  symbols share one if and only if a path of the graph that stays inside their Louvain community joins
  them.  They cover all symbols and are numbered from zero without a gap.
\<close>

theorem communities_are_connected_pieces:
  "let adj = extract_adjacency exec; n = length (node_ids adj); old = fst (louvain adj gamma);
       new = fst (partition_graph adj gamma) in
     length new = n \<and> set new = {..<num_comms new} \<and>
     {(i, j). i < n \<and> j < n \<and> new ! i = new ! j} = {(i, j). i < n \<and> j < n \<and> (i, j) \<in> (joined (neighbors adj) old)\<^sup>*}"
proof -
  let ?adj = "extract_adjacency exec"
  let ?old = "fst (louvain ?adj gamma)"
  have new: "fst (partition_graph ?adj gamma) = repair_c2 ?adj ?old" by (simp add: partition_graph_def case_prod_beta)
  have len: "length ?old = length (node_ids ?adj)"
    by (simp add: louvain_def Let_def louvain_levels_length)
  have n: "length ?old = length (neighbors ?adj)" using extract_adjacency_ok(1) [of exec] len by simp
  have "set (repair_c2 ?adj ?old) = {..<num_comms (repair_c2 ?adj ?old)}"
    unfolding repair_c2_def by (rule renumber_dense)
  then show ?thesis
    using repair_c2_classes [OF extract_adjacent_sym n] repair_c2_length [OF extract_adjacent_sym n]
    unfolding Let_def new len by blast
qed

end
