(* ===== verification/Cluster_Graph.thy ===== *)
theory Cluster_Graph
  imports Process_Trace Community_Repair "HOL-Library.Product_Lexorder"
begin

text \<open>
  The tool \<open>cluster_graph\<close> as a whole: \<open>src/clustering/community.rs\<close> with the storing of a partition
  (\<open>community_persist.rs\<close>) and the listing of its members (\<open>community_membership.rs\<close>).  The two ways
  in which a float is written are parameters; reading queries leave the database as it is.
\<close>

record number_format =
  shortest :: "real \<Rightarrow> string"
  six_decimals :: "real \<Rightarrow> string"

definition MEMBEROF_LABELS :: "string list" where
  "MEMBEROF_LABELS = [''Function'', ''Method'', ''Struct'', ''Enum'', ''Trait'', ''Constant'', ''TypeAlias'', ''Module'']"

fun purge_labels :: "('s, 'd) engine \<Rightarrow> string list \<Rightarrow> ('s, 'd, unit) action" where
  "purge_labels eng [] st = act_return () st"
| "purge_labels eng (label # labels) st =
     (case execute_query eng (''MATCH (n:'' @ label @ '') DETACH DELETE n'') st of
        (Inl (StoreMessage e), st') \<Rightarrow> (Err (StoreMessage (''purge '' @ label @ '': '' @ e)), st')
      | (Inl e, st') \<Rightarrow> (Err e, st')
      | (Inr _, st') \<Rightarrow> purge_labels eng labels st')"

definition purge_prior_clustering :: "('s, 'd) engine \<Rightarrow> ('s, 'd, unit) action" where
  "purge_prior_clustering eng = purge_labels eng [''Community'', ''Process'']"

definition community_id_text :: "string \<Rightarrow> nat \<Rightarrow> string" where
  "community_id_text gamma c = ''community::louvain::'' @ gamma @ ''::'' @ decimal c"

definition community_row :: "number_format \<Rightarrow> nat list \<Rightarrow> real \<Rightarrow> real \<Rightarrow> nat \<Rightarrow> props" where
  "community_row fmt comm modularity gamma c =
     [(''id'', cypher_str (community_id_text (shortest fmt gamma) c)), (''name'', quoted (''community_'' @ decimal c)),
      (''algorithm'', quoted ''louvain+c2''), (''resolution_param'', shortest fmt gamma),
      (''member_count'', decimal (count_list comm c)), (''modularity_contribution'', six_decimals fmt modularity)]"

definition membership_edge :: "string \<Rightarrow> adjacency \<Rightarrow> nat \<times> nat \<Rightarrow> (string \<times> prop_edge) option" where
  "membership_edge gamma adj ic = (case ic of (i, c) \<Rightarrow>
     let label = node_labels adj ! i in
     if label \<in> set MEMBEROF_LABELS
     then Some (''MemberOf_'' @ label @ ''_Community'', (node_ids adj ! i, community_id_text gamma c, [])) else None)"

definition membership_groups :: "string \<Rightarrow> adjacency \<Rightarrow> nat list \<Rightarrow> (string \<times> prop_edge list) list" where
  "membership_groups gamma adj comm =
     fold (\<lambda>ic groups. case membership_edge gamma adj ic of None \<Rightarrow> groups | Some (rel, e) \<Rightarrow> group_edge rel e groups)
       (zip [0..<length comm] comm) []"

definition persist_communities ::
  "number_format \<Rightarrow> ('s, 'd) engine \<Rightarrow> adjacency \<Rightarrow> nat list \<Rightarrow> real \<Rightarrow> real \<Rightarrow> ('s, 'd, nat) action" where
  "persist_communities fmt eng adj comm modularity gamma =
     act_bind (bulk_insert_nodes eng ''Community'' (map (community_row fmt comm modularity gamma) [0..<num_comms comm])) (\<lambda>_.
     act_bind (insert_groups eng (membership_groups (shortest fmt gamma) adj comm)) (\<lambda>_.
     act_return (num_comms comm)))"

definition reads :: "('s, 'd) engine \<Rightarrow> ('s, 'd) graph_store \<Rightarrow> store" where
  "reads eng st cypher = fst (query eng cypher (db st))"

record clustering_result =
  communities :: nat
  modularity :: real
  processes :: nat

definition cluster_graph :: "number_format \<Rightarrow> ('s, 'd) engine \<Rightarrow> real \<Rightarrow> ('s, 'd, clustering_result) action" where
  "cluster_graph fmt eng gamma =
     act_bind (require_entry_metadata eng) (\<lambda>_.
     act_bind (purge_prior_clustering eng) (\<lambda>_ st.
       let adj = extract_adjacency (reads eng st) in
       (case partition_graph adj gamma of (comm, q) \<Rightarrow>
          act_bind (persist_communities fmt eng adj comm q gamma) (\<lambda>k.
          act_bind (trace_processes eng) (\<lambda>p.
          act_return \<lparr>communities = k, modularity = q, processes = p\<rparr>)) st)))"

section \<open>Members\<close>

record cluster_membership =
  member_name :: string
  community_id :: string
  cluster_id :: int

record cluster_memberships =
  entries :: "cluster_membership list"
  truncated_at :: "nat option"
  total_entries :: nat

definition CLUSTERS_RESPONSE_CAP :: nat where
  "CLUSTERS_RESPONSE_CAP = 10000"

fun until_colons :: "string \<Rightarrow> string" where
  "until_colons (a # b # s) = (if a = CHR '':'' \<and> b = CHR '':'' then [] else a # until_colons (b # s))"
| "until_colons s = s"

definition cluster_id_from_community_id :: "string \<Rightarrow> int" where
  "cluster_id_from_community_id cid =
     (case parse_i64 (rev (until_colons (rev cid))) of Inl _ \<Rightarrow> -1 | Inr n \<Rightarrow> n)"

definition membership_of_row :: "string list \<Rightarrow> cluster_membership list" where
  "membership_of_row row =
     (case row of
        qn # cid # _ \<Rightarrow>
          if cid = [] then []
          else [\<lparr>member_name = qn, community_id = cid, cluster_id = cluster_id_from_community_id cid\<rparr>]
      | _ \<Rightarrow> [])"

definition sort_and_cap_memberships :: "cluster_membership list \<Rightarrow> cluster_memberships" where
  "sort_and_cap_memberships ms =
     (let sorted_ms = sort_key (\<lambda>m. (member_name m, community_id m)) ms; total_ms = length sorted_ms in
      if CLUSTERS_RESPONSE_CAP < total_ms
      then \<lparr>entries = take CLUSTERS_RESPONSE_CAP sorted_ms, truncated_at = Some CLUSTERS_RESPONSE_CAP, total_entries = total_ms\<rparr>
      else \<lparr>entries = sorted_ms, truncated_at = None, total_entries = total_ms\<rparr>)"

fun scan_memberships :: "('s, 'd) engine \<Rightarrow> string list \<Rightarrow> cluster_membership list \<Rightarrow> ('s, 'd, cluster_membership list) action" where
  "scan_memberships eng [] ms = act_return ms"
| "scan_memberships eng (label # labels) ms =
     act_bind
       (query_or_skip eng (''MATCH (n:'' @ label @ '')-[:MemberOf_'' @ label @
          ''_Community]->(c:Community) RETURN n.qualified_name, c.id''))
       (\<lambda>rows. scan_memberships eng labels (ms @ concat (map membership_of_row rows)))"

definition collect_cluster_memberships :: "('s, 'd) engine \<Rightarrow> ('s, 'd, cluster_memberships) action" where
  "collect_cluster_memberships eng =
     act_bind (scan_memberships eng MEMBEROF_LABELS []) (\<lambda>ms. act_return (sort_and_cap_memberships ms))"

section \<open>Numbers and ids of communities\<close>

lemma until_colons_digits:
  "\<forall>c \<in> set ds. c \<noteq> CHR '':'' \<Longrightarrow> until_colons (ds @ CHR '':'' # CHR '':'' # s) = ds"
proof (induction ds)
  case (Cons d ds)
  then show ?case by (cases ds) auto
qed simp

lemma i64_digits_value:
  assumes "\<forall>c \<in> set ds. is_digit c" "0 \<le> acc" "foldl (\<lambda>n d. 10 * n + (int (code d) - 48)) acc ds < 2 ^ 63"
  shows "i64_digits False acc ds = Ok (foldl (\<lambda>n d. 10 * n + (int (code d) - 48)) acc ds)"
  using assms
proof (induction ds arbitrary: acc)
  case (Cons d ds)
  let ?n = "10 * acc + (int (code d) - 48)"
  have d: "is_digit d" "48 \<le> code d" using Cons.prems(1) by (auto simp: is_digit_def)
  have mono: "acc \<le> foldl (\<lambda>n d. 10 * n + (int (code d) - 48)) acc es" if "\<forall>c \<in> set es. is_digit c" "0 \<le> acc" for acc es
    using that
  proof (induction es arbitrary: acc)
    case (Cons e es)
    have "acc \<le> 10 * acc + (int (code e) - 48)" using Cons.prems by (auto simp: is_digit_def)
    also have "\<dots> \<le> foldl (\<lambda>n d. 10 * n + (int (code d) - 48)) (10 * acc + (int (code e) - 48)) es"
      using Cons by (intro Cons.IH) (auto simp: is_digit_def)
    finally show ?case by simp
  qed simp
  have "?n \<le> foldl (\<lambda>n d. 10 * n + (int (code d) - 48)) ?n ds"
    using mono [of ds ?n] Cons.prems d(2) by simp
  then have "?n < 2 ^ 63" "0 \<le> ?n" using Cons.prems d(2) by simp_all
  then show ?case using Cons.IH [of ?n] Cons.prems d(1) by (simp add: Let_def)
qed simp

lemma parse_i64_decimal:
  assumes "n < 2 ^ 63"
  shows "parse_i64 (decimal n) = Ok (int n)"
proof -
  have digits: "\<forall>c \<in> set (decimal n). is_digit c" using decimal_digits by blast
  have val: "foldl (\<lambda>n d. 10 * n + (int (code d) - 48)) (int a) ds = int (foldl (\<lambda>n d. 10 * n + (code d - 48)) a ds)"
    if "\<forall>c \<in> set ds. is_digit c" for a ds
    using that
  proof (induction ds arbitrary: a)
    case (Cons d ds)
    have "10 * int a + (int (code d) - 48) = int (10 * a + (code d - 48))"
      using Cons.prems by (auto simp: is_digit_def of_nat_diff)
    moreover have "\<forall>c \<in> set ds. is_digit c" using Cons.prems by simp
    ultimately show ?case using Cons.IH [of "10 * a + (code d - 48)"] by (simp only: foldl_Cons)
  qed simp
  have v: "foldl (\<lambda>n d. 10 * n + (int (code d) - 48)) 0 (decimal n) = int n"
    using val [OF digits, of 0] digits_value_decimal [of n] by (simp add: digits_value_def)
  have "i64_digits False 0 (decimal n) = Ok (int n)"
    using i64_digits_value [OF digits, of 0] assms unfolding v by simp
  moreover obtain c cs where c: "decimal n = c # cs" by (cases "decimal n") auto
  moreover have "is_digit c" using digits c by simp
  then have "c \<noteq> CHR ''+''" "c \<noteq> CHR ''-''" by (auto simp: is_digit_def code_def)
  ultimately show ?thesis by (simp add: parse_i64_def)
qed

text \<open>The number of a community is read back from its id, whatever the resolution is written like.\<close>

lemma cluster_id_round_trip:
  assumes "c < 2 ^ 63"
  shows "cluster_id_from_community_id (community_id_text gamma c) = int c"
proof -
  have "\<forall>d \<in> set (rev (decimal c)). d \<noteq> CHR '':''"
    using decimal_digits [of "CHR '':''" c] by (auto simp: is_digit_def code_def)
  then have "until_colons (rev (community_id_text gamma c)) = rev (decimal c)"
    by (simp add: community_id_text_def until_colons_digits)
  then show ?thesis using parse_i64_decimal [OF assms] by (simp add: cluster_id_from_community_id_def)
qed

end
