(* ===== verification/Cfg_Twins.thy ===== *)
theory Cfg_Twins
  imports Module_Walks
begin

text \<open>
  Items of one name under exclusive \<open>#[cfg]\<close> gates: the shape of their ids (\<open>src/graph_store/cfg_twins.rs\<close>,
  \<open>cfg_active.rs\<close>, \<open>src/language_provider/file_prefix.rs\<close>), whether a build compiles one
  (\<open>src/indexer/cfg_active.rs\<close>, \<open>src/resolver/cfg_verdict.rs\<close>) and which one a call reaches
  (\<open>src/resolver/cfg_twins.rs\<close>, \<open>cfg_select.rs\<close>).  The hash maps of the view are only looked up, so they
  are functions to options.
\<close>

section \<open>The gates in an id\<close>

definition TWIN_MARK :: string where
  "TWIN_MARK = ''#cfg(''"

definition has_cfg_gate :: "string \<Rightarrow> bool" where
  "has_cfg_gate qn = contains qn TWIN_MARK"

text \<open>The loop of \<open>closing_paren\<close>, with its \<open>depth\<close>; the index is counted on the way back.\<close>

fun closing_at :: "nat \<Rightarrow> string \<Rightarrow> nat option" where
  "closing_at depth [] = None"
| "closing_at depth (b # bs) =
     (if b = CHR ''('' then map_option Suc (closing_at (depth + 1) bs)
      else if b = CHR '')'' then
        (if depth - 1 = 0 then Some 0 else map_option Suc (closing_at (depth - 1) bs))
      else map_option Suc (closing_at depth bs))"

definition closing_paren :: "string \<Rightarrow> nat option" where
  "closing_paren t = closing_at 1 t"

text \<open>The part before the first closed mark, the gate of the mark and the rest; \<open>None\<close> where the loops break.\<close>

definition next_gate :: "string \<Rightarrow> (string \<times> string \<times> string) option" where
  "next_gate rest =
     (case find_sub TWIN_MARK rest of
        None \<Rightarrow> None
      | Some start \<Rightarrow>
          let after = drop (start + length TWIN_MARK) rest in
          (case closing_paren after of
             None \<Rightarrow> None
           | Some close \<Rightarrow> Some (take start rest, take close after, drop (close + 1) after)))"

lemma next_gate_shorter [termination_simp]: "next_gate rest = Some (pre, g, r) \<Longrightarrow> length r < length rest"
proof -
  assume "next_gate rest = Some (pre, g, r)"
  then obtain start where start: "find_sub TWIN_MARK rest = Some start" and r: "length r \<le> length rest - (start + length TWIN_MARK)"
    by (auto simp: next_gate_def Let_def split: option.splits)
  from find_sub_bound[OF start] have "start + length TWIN_MARK \<le> length rest" .
  moreover have "0 < length TWIN_MARK" by (simp add: TWIN_MARK_def)
  ultimately show ?thesis using r by linarith
qed

fun cfg_gates_in :: "string \<Rightarrow> string list" where
  "cfg_gates_in rest =
     (case next_gate rest of None \<Rightarrow> [] | Some (pre, g, r) \<Rightarrow> g # cfg_gates_in r)"

fun strip_cfg_gates :: "string \<Rightarrow> string" where
  "strip_cfg_gates rest =
     (case next_gate rest of None \<Rightarrow> rest | Some (pre, g, r) \<Rightarrow> pre @ strip_cfg_gates r)"

declare cfg_gates_in.simps [simp del] strip_cfg_gates.simps [simp del]

definition ALL_EXTENSIONS :: "string list" where
  "ALL_EXTENSIONS =
     [''rs'', ''py'', ''ts'', ''tsx'', ''java'', ''kt'', ''kts'', ''swift'', ''m'', ''mm'', ''c'', ''h'', ''cc'', ''cpp'', ''cxx'',
      ''c++'', ''hh'', ''hpp'', ''hxx'', ''ipp'', ''go'', ''js'', ''jsx'', ''mjs'', ''cjs'', ''rb'']"

fun prefix_by_extension :: "string \<Rightarrow> string list \<Rightarrow> string option" where
  "prefix_by_extension i [] = None"
| "prefix_by_extension i (ext # exts) =
     (let marker = ''.'' @ ext @ ''::'' in
      case find_sub marker i of
        Some k \<Rightarrow> Some (take (k + length marker - 2) i)
      | None \<Rightarrow> prefix_by_extension i exts)"

definition extract_file_prefix :: "string \<Rightarrow> string option" where
  "extract_file_prefix i = prefix_by_extension i ALL_EXTENSIONS"

definition extract_file_prefix_or_self :: "string \<Rightarrow> string" where
  "extract_file_prefix_or_self i = (case extract_file_prefix i of Some f \<Rightarrow> f | None \<Rightarrow> i)"

text \<open>\<open>str::rfind\<close> with a string pattern.\<close>

definition rfind_sub :: "string \<Rightarrow> string \<Rightarrow> nat option" where
  "rfind_sub pat s = map_option (\<lambda>k. length s - k - length pat) (find_sub (rev pat) (rev s))"

definition extract_caller_from_callsite_id :: "string \<Rightarrow> string" where
  "extract_caller_from_callsite_id cs_id =
     (case rfind_sub ''::call@'' cs_id of Some k \<Rightarrow> take k cs_id | None \<Rightarrow> cs_id)"

section \<open>The verdict of the default build\<close>

definition CFG_ACTIVE :: string where
  "CFG_ACTIVE = ''active''"
definition CFG_INACTIVE :: string where
  "CFG_INACTIVE = ''inactive''"
definition CFG_UNKNOWN :: string where
  "CFG_UNKNOWN = ''unknown''"

fun parse_gates :: "string list \<Rightarrow> cfg_predicate list option" where
  "parse_gates [] = Some []"
| "parse_gates (g # gs) =
     (case parse_compact g of None \<Rightarrow> None | Some p \<Rightarrow> map_option (Cons p) (parse_gates gs))"

definition evaluate_gates :: "string \<Rightarrow> build_profile \<Rightarrow> string" where
  "evaluate_gates i profile =
     (case parse_gates (cfg_gates_in i) of
        None \<Rightarrow> CFG_UNKNOWN
      | Some conjs \<Rightarrow>
          (case eval_in profile (CfgAll conjs) of
             TrueT \<Rightarrow> CFG_ACTIVE | FalseT \<Rightarrow> CFG_INACTIVE | Unknown \<Rightarrow> CFG_UNKNOWN))"

definition decide :: "string \<Rightarrow> file_features option \<Rightarrow> string" where
  "decide i feats =
     (case feats of
        None \<Rightarrow> CFG_UNKNOWN
      | Some Disagree \<Rightarrow> CFG_UNKNOWN
      | Some CompiledOut \<Rightarrow> CFG_INACTIVE
      | Some (Enabled enabled) \<Rightarrow> evaluate_gates i (with_features enabled))"

text \<open>The value \<open>write\<close> assigns to a twin.\<close>

definition twin_verdict ::
  "(string \<rightharpoonup> file_features) \<Rightarrow> (string \<rightharpoonup> file_cfg) \<Rightarrow> string \<Rightarrow> string" where
  "twin_verdict feats cfgs i =
     (let f = extract_file_prefix i;
          compiled_out = (case Option.bind f cfgs of None \<Rightarrow> False | Some cfg \<Rightarrow> f_active cfg = CFG_INACTIVE)
      in if compiled_out then CFG_INACTIVE else decide i (Option.bind f feats))"

section \<open>The verdict for a caller\<close>

record twin_view =
  active :: "string \<rightharpoonup> string"
  cfg_files :: "string \<rightharpoonup> file_cfg"
  gated_callers :: "string set"

definition view_file :: "twin_view \<Rightarrow> string \<Rightarrow> file_cfg option" where
  "view_file view i = Option.bind (extract_file_prefix i) (cfg_files view)"

definition file_is_gated :: "twin_view \<Rightarrow> string \<Rightarrow> bool" where
  "file_is_gated view i = (case view_file view i of None \<Rightarrow> False | Some f \<Rightarrow> f_gate f \<noteq> [])"

definition logical_id :: "twin_view \<Rightarrow> string \<Rightarrow> string option" where
  "logical_id view i =
     Option.bind (extract_file_prefix i) (\<lambda>f.
     Option.bind (cfg_files view f) (\<lambda>cfg.
       if f_module_path cfg = [] then None
       else Option.bind (strip_prefix i f) (\<lambda>t.
            Option.bind (strip_prefix t ''::'') (\<lambda>rest.
              Some (f_module_path cfg @ ''::'' @ rest)))))"

datatype twin_state = Compiled | NotCompiled | Undecided

fun parts_of :: "cfg_predicate \<Rightarrow> cfg_predicate list" where
  "parts_of (CfgAll items) = items"
| "parts_of single = [single]"

definition push_new :: "cfg_predicate \<Rightarrow> cfg_predicate list \<Rightarrow> cfg_predicate list" where
  "push_new p out = (if p \<in> set out then out else out @ [p])"

fun gather :: "string list \<Rightarrow> cfg_predicate list \<Rightarrow> cfg_predicate list option" where
  "gather [] out = Some out"
| "gather (g # gs) out =
     (case parse_compact g of None \<Rightarrow> None | Some p \<Rightarrow> gather gs (fold push_new (parts_of p) out))"

definition conjuncts :: "string \<Rightarrow> cfg_predicate list option" where
  "conjuncts qn = gather (cfg_gates_in qn) []"

fun negation :: "cfg_predicate \<Rightarrow> cfg_predicate" where
  "negation (CfgNot inner) = inner"
| "negation other = CfgNot other"

definition conjuncts_in_file :: "twin_view \<Rightarrow> string \<Rightarrow> cfg_predicate list option" where
  "conjuncts_in_file view qn =
     Option.bind (conjuncts qn) (\<lambda>out.
       let file_gate = (case view_file view qn of Some f \<Rightarrow> f_gate f | None \<Rightarrow> []) in
       if file_gate \<noteq> [] then gather [file_gate] out else Some out)"

record caller_gates =
  held :: "cfg_predicate list"
  unspelled :: bool

definition caller_gates_of :: "twin_view \<Rightarrow> string \<Rightarrow> caller_gates" where
  "caller_gates_of view caller =
     \<lparr>held = (case conjuncts_in_file view caller of Some ps \<Rightarrow> ps | None \<Rightarrow> []),
      unspelled = (extract_caller_from_callsite_id caller \<in> gated_callers view)\<rparr>"

definition verdict :: "twin_view \<Rightarrow> caller_gates \<Rightarrow> string \<Rightarrow> string \<Rightarrow> twin_state" where
  "verdict view caller i qn =
     (let by_profile =
        (if unspelled caller then Undecided
         else
           let file_active = map_option f_active (view_file view i) in
           if file_active = Some CFG_INACTIVE then NotCompiled
           else if active view i = Some CFG_ACTIVE then Compiled
           else if active view i = Some CFG_INACTIVE then NotCompiled
           else if file_active = Some CFG_ACTIVE \<and> cfg_gates_in qn = [] then Compiled
           else Undecided)
      in case conjuncts_in_file view qn of
           None \<Rightarrow> by_profile
         | Some own \<Rightarrow>
             if own \<noteq> [] \<and> list_all (\<lambda>c. c \<in> set (held caller)) own then Compiled
             else if list_ex (\<lambda>c. negation c \<in> set (held caller)) own then NotCompiled
             else by_profile)"

definition is_compiled_out :: "twin_view \<Rightarrow> string \<Rightarrow> string \<Rightarrow> bool" where
  "is_compiled_out view caller i = (verdict view (caller_gates_of view caller) i i = NotCompiled)"

section \<open>Choosing among twins\<close>

record symbol_entry =
  s_id :: string
  s_label :: string
  s_qualified_name :: string

definition twin_name :: "twin_view \<Rightarrow> symbol_entry \<Rightarrow> string" where
  "twin_name view c =
     strip_cfg_gates (case logical_id view (s_qualified_name c) of Some l \<Rightarrow> l | None \<Rightarrow> s_qualified_name c)"

definition are_twins_of_one_item :: "twin_view \<Rightarrow> symbol_entry list \<Rightarrow> bool" where
  "are_twins_of_one_item view candidates =
     (case candidates of
        [] \<Rightarrow> False
      | first # _ \<Rightarrow>
          2 \<le> length candidates \<and>
          list_all (\<lambda>c. s_label c = s_label first \<and>
                       (has_cfg_gate (s_qualified_name c) \<or> file_is_gated view (s_qualified_name c)) \<and>
                       twin_name view c = twin_name view first) candidates)"

definition is_twin_member :: "symbol_entry \<Rightarrow> symbol_entry list \<Rightarrow> bool" where
  "is_twin_member target candidates =
     (has_cfg_gate (s_qualified_name target) \<and>
      list_ex (\<lambda>other. s_id other \<noteq> s_id target \<and> s_label other = s_label target \<and>
                      strip_cfg_gates (s_qualified_name other) = strip_cfg_gates (s_qualified_name target)) candidates)"

definition select_twin :: "twin_view \<Rightarrow> string \<Rightarrow> symbol_entry list \<Rightarrow> symbol_entry option" where
  "select_twin view caller_qn twins =
     (let caller = caller_gates_of view caller_qn;
          verdict_of = (\<lambda>twin. verdict view caller (s_id twin) (s_qualified_name twin))
      in case filter (\<lambda>twin. verdict_of twin \<noteq> NotCompiled) twins of
           [twin] \<Rightarrow> if verdict_of twin = Compiled then Some twin else None
         | _ \<Rightarrow> None)"

definition choose_twin :: "twin_view \<Rightarrow> string \<Rightarrow> symbol_entry list \<Rightarrow> symbol_entry option" where
  "choose_twin view caller_qn candidates =
     (if are_twins_of_one_item view candidates then select_twin view caller_qn candidates else None)"

section \<open>Gates are read back\<close>

text \<open>A text that closes as many parentheses as it opens is passed over.\<close>

definition balanced :: "string \<Rightarrow> bool" where
  "balanced s \<longleftrightarrow> (\<forall>d r. closing_at (Suc d) (s @ r) = map_option (\<lambda>i. i + length s) (closing_at (Suc d) r))"

lemma balanced_Nil: "balanced []"
  by (simp add: balanced_def option.map_ident)

lemma balanced_append: "balanced s \<Longrightarrow> balanced t \<Longrightarrow> balanced (s @ t)"
  by (simp add: balanced_def option.map_comp comp_def ac_simps)

lemma balanced_plain: "CHR ''('' \<notin> set s \<Longrightarrow> CHR '')'' \<notin> set s \<Longrightarrow> balanced s"
proof (induction s)
  case (Cons c s)
  then show ?case by (auto simp: balanced_def option.map_comp comp_def)
qed (rule balanced_Nil)

lemma balanced_wrap:
  assumes "balanced s"
  shows "balanced (CHR ''('' # s @ '')'')"
  using assms by (simp add: balanced_def option.map_comp comp_def)

lemma balanced_join: "(\<And>s. s \<in> set ss \<Longrightarrow> balanced s) \<Longrightarrow> balanced sep \<Longrightarrow> balanced (join_with sep ss)"
  by (induction sep ss rule: join_with.induct) (auto intro!: balanced_Nil balanced_append)

lemma balanced_encode: "balanced (encode s)"
proof (rule balanced_plain)
  have "\<not> kept (CHR ''('') \<and> \<not> kept (CHR '')'')" by (simp add: kept_def ascii_simps code_def)
  then show "CHR ''('' \<notin> set (encode s)" "CHR '')'' \<notin> set (encode s)"
    using id_safe_encode[of _ s] by fastforce+
qed

lemma balanced_compact: "balanced (compact p)"
proof (induction p)
  case (CfgOption k v)
  have "balanced (encode k @ ''='' @ encode w)" for w
    by (intro balanced_append balanced_encode balanced_plain) auto
  then show ?case by (cases v) (simp_all add: balanced_encode)
next
  case (Feature f)
  have "balanced (''feature='' @ encode f)" by (intro balanced_append balanced_encode balanced_plain) auto
  then show ?case by simp
next
  case (CfgAll ps)
  have "balanced (join_with '','' (map compact ps))" using CfgAll by (intro balanced_join) (auto intro: balanced_plain)
  from balanced_append[OF _ balanced_wrap[OF this], of "''all''"] show ?case by (simp add: balanced_plain)
next
  case (CfgAny ps)
  have "balanced (join_with '','' (map compact ps))" using CfgAny by (intro balanced_join) (auto intro: balanced_plain)
  from balanced_append[OF _ balanced_wrap[OF this], of "''any''"] show ?case by (simp add: balanced_plain)
next
  case (CfgNot p)
  from balanced_append[OF _ balanced_wrap[OF this], of "''not''"] show ?case by (simp add: balanced_plain)
qed

lemma find_sub_skip: "x \<notin> set pre \<Longrightarrow> find_sub (x # pat) (pre @ x # pat @ r) = Some (length pre)"
  by (induction pre) (auto simp: starts_with_iff)

lemma find_sub_absent: "x \<notin> set s \<Longrightarrow> find_sub (x # pat) s = None"
  by (induction s) auto

lemma next_gate_written:
  assumes "CHR ''#'' \<notin> set pre" and "balanced g"
  shows "next_gate (pre @ TWIN_MARK @ g @ '')'' @ r) = Some (pre, g, r)"
proof -
  have "find_sub TWIN_MARK (pre @ TWIN_MARK @ g @ '')'' @ r) = Some (length pre)"
    using find_sub_skip[OF assms(1), of "''cfg(''" "g @ '')'' @ r"] by (simp add: TWIN_MARK_def)
  moreover have "closing_paren (g @ '')'' @ r) = Some (length g)"
    using assms(2) unfolding balanced_def closing_paren_def One_nat_def by simp
  ultimately show ?thesis by (simp add: next_gate_def Let_def)
qed

lemma next_gate_none: "CHR ''#'' \<notin> set s \<Longrightarrow> next_gate s = None"
  by (simp add: next_gate_def TWIN_MARK_def find_sub_absent)

text \<open>An id as the parser writes it: the segments of a path, a twin with its gate behind its name.\<close>

type_synonym id_segment = "string \<times> cfg_predicate option"

fun segment_text :: "id_segment \<Rightarrow> string" where
  "segment_text (name, None) = name"
| "segment_text (name, Some p) = name @ TWIN_MARK @ compact p @ '')''"

definition twin_id :: "id_segment list \<Rightarrow> string" where
  "twin_id segs = join_with ''::'' (map segment_text segs)"

definition segment_ok :: "id_segment \<Rightarrow> bool" where
  "segment_ok seg \<longleftrightarrow> CHR ''#'' \<notin> set (fst seg) \<and> (case snd seg of None \<Rightarrow> True | Some p \<Rightarrow> readable p)"

definition gates_of :: "id_segment list \<Rightarrow> cfg_predicate list" where
  "gates_of segs = List.map_filter snd segs"

lemma gates_after_prefix:
  assumes "list_all segment_ok segs" and "CHR ''#'' \<notin> set pre"
  shows "cfg_gates_in (pre @ twin_id segs) = map compact (gates_of segs) \<and>
         strip_cfg_gates (pre @ twin_id segs) = pre @ join_with ''::'' (map fst segs)"
  using assms
proof (induction segs arbitrary: pre)
  case Nil
  then show ?case
    by (simp add: twin_id_def gates_of_def map_filter_simps cfg_gates_in.simps[of pre] strip_cfg_gates.simps[of pre] next_gate_none)
next
  case (Cons seg segs)
  obtain name g where seg: "seg = (name, g)" by fastforce
  have name: "CHR ''#'' \<notin> set (pre @ name)" using Cons.prems by (simp add: seg segment_ok_def)
  have ok: "list_all segment_ok segs" using Cons.prems by simp
  define more where "more = (if segs = [] then [] else ''::'')"
  have spelt: "twin_id (seg # segs) = segment_text seg @ more @ twin_id segs" by (cases segs) (simp_all add: twin_id_def more_def)
  have names: "join_with ''::'' (map fst (seg # segs)) = name @ more @ join_with ''::'' (map fst segs)"
    by (cases segs) (simp_all add: seg more_def)
  have m: "CHR ''#'' \<notin> set more" by (simp add: more_def)
  show ?case
  proof (cases g)
    case None
    have "CHR ''#'' \<notin> set (pre @ name @ more)" using name m by simp
    from Cons.IH[OF ok this] show ?thesis
      by (simp only: spelt names) (simp add: seg None gates_of_def map_filter_simps)
  next
    case (Some p)
    have ng: "next_gate (pre @ twin_id (seg # segs)) = Some (pre @ name, compact p, more @ twin_id segs)"
      using next_gate_written[OF name balanced_compact[of p], of "more @ twin_id segs"] by (simp only: spelt) (simp add: seg Some)
    show ?thesis
      using Cons.IH[OF ok m]
      by (simp only: names cfg_gates_in.simps[of "pre @ twin_id (seg # segs)"] strip_cfg_gates.simps[of "pre @ twin_id (seg # segs)"] ng)
        (simp add: seg Some gates_of_def map_filter_simps)
  qed
qed

lemma parse_gates_compact: "list_all readable ps \<Longrightarrow> parse_gates (map compact ps) = Some ps"
  by (induction ps) (simp_all add: cfg_text.dec_enc)

text \<open>
  C27: The gates of an id are read back.  From the id of an item, whose path may hold twins at any depth,
  \<open>cfg_gates_in\<close> and the reader of gates give exactly the predicates the id was written with, in path order, and
  \<open>strip_cfg_gates\<close> gives the path without them: the name that all twins of the item share.
\<close>

theorem twin_id_is_read_back:
  assumes "list_all segment_ok segs"
  shows "parse_gates (cfg_gates_in (twin_id segs)) = Some (gates_of segs) \<and>
         strip_cfg_gates (twin_id segs) = join_with ''::'' (map fst segs)"
proof -
  have "list_all readable (gates_of segs)"
    using assms by (induction segs) (auto simp: gates_of_def map_filter_simps segment_ok_def split: option.splits)
  then show ?thesis using gates_after_prefix[OF assms, of "[]"] by (simp add: parse_gates_compact)
qed

definition sample_segments :: "id_segment list" where
  "sample_segments = [(''src/lib.rs'', None), (''m'', Some (CfgOption ''unix'' None)), (''pick'', Some (CfgNot (Feature ''fast'')))]"

lemma twin_id_is_read_back_witness:
  "strip_cfg_gates ''src/lib.rs::m#cfg(unix)::pick#cfg(not(feature=fast))'' = ''src/lib.rs::m::pick'' \<and>
   parse_gates (cfg_gates_in ''src/lib.rs::m#cfg(unix)::pick#cfg(not(feature=fast))'') =
     Some [CfgOption ''unix'' None, CfgNot (Feature ''fast'')]"
proof -
  have "list_all segment_ok sample_segments"
    by (simp add: sample_segments_def segment_ok_def word_ok_def utf8_valid_ascii code_def)
  from twin_id_is_read_back[OF this] show ?thesis
    by (simp add: twin_id_def sample_segments_def gates_of_def map_filter_simps TWIN_MARK_def encode_def encode_byte_def kept_def ascii_simps code_def)
qed

section \<open>Verdicts are sound\<close>

text \<open>A gate text holds in a build, or it fails; a text that does not parse does neither.\<close>

definition gate_holds :: "string set \<Rightarrow> (string \<Rightarrow> string option \<Rightarrow> bool) \<Rightarrow> string \<Rightarrow> bool" where
  "gate_holds fs opt g \<longleftrightarrow> (\<exists>p. parse_compact g = Some p \<and> holds fs opt p)"

definition gate_fails :: "string set \<Rightarrow> (string \<Rightarrow> string option \<Rightarrow> bool) \<Rightarrow> string \<Rightarrow> bool" where
  "gate_fails fs opt g \<longleftrightarrow> (\<exists>p. parse_compact g = Some p \<and> \<not> holds fs opt p)"

text \<open>The gates of an item: those of its id and the one its file inherits.\<close>

definition item_gates :: "twin_view \<Rightarrow> string \<Rightarrow> string list" where
  "item_gates view qn =
     cfg_gates_in qn @ (case view_file view qn of None \<Rightarrow> [] | Some f \<Rightarrow> if f_gate f = [] then [] else [f_gate f])"

definition file_compiled_out :: "twin_view \<Rightarrow> string \<Rightarrow> bool" where
  "file_compiled_out view i \<longleftrightarrow> map_option f_active (view_file view i) = Some CFG_INACTIVE"

lemma holds_negation: "holds fs opt (negation p) \<longleftrightarrow> \<not> holds fs opt p"
  by (cases p) auto

lemma holds_parts: "(\<forall>q \<in> set (parts_of p). holds fs opt q) \<longleftrightarrow> holds fs opt p"
  by (cases p) auto

lemma set_push_all: "set (fold push_new ps out) = set out \<union> set ps"
  by (induction ps arbitrary: out) (auto simp: push_new_def)

lemma gather_holds:
  "gather gs out = Some ps \<Longrightarrow>
   (\<forall>p \<in> set ps. holds fs opt p) \<longleftrightarrow> (\<forall>p \<in> set out. holds fs opt p) \<and> (\<forall>g \<in> set gs. gate_holds fs opt g)"
proof (induction gs arbitrary: out)
  case (Cons g gs)
  then obtain p where p: "parse_compact g = Some p" "gather gs (fold push_new (parts_of p) out) = Some ps"
    by (auto split: option.splits)
  from Cons.IH[OF p(2)] p(1) holds_parts[of p fs opt] show ?case
    by (auto simp: set_push_all gate_holds_def)
qed simp

lemma gather_parses: "gather gs out = Some ps \<Longrightarrow> g \<in> set gs \<Longrightarrow> parse_compact g \<noteq> None"
  by (induction gs arbitrary: out) (auto split: option.splits)

lemma gather_append: "gather (gs @ hs) out = Option.bind (gather gs out) (gather hs)"
  by (induction gs arbitrary: out) (auto split: option.splits)

lemma conjuncts_in_file_gather: "conjuncts_in_file view qn = gather (item_gates view qn) []"
  by (cases "conjuncts qn")
    (auto simp: conjuncts_in_file_def conjuncts_def item_gates_def gather_append Let_def split: option.splits)

lemma parse_gates_Some: "parse_gates gs = Some ps \<Longrightarrow> map parse_compact gs = map Some ps"
  by (induction gs arbitrary: ps) (auto split: option.splits)

lemma parse_gates_holds:
  assumes "parse_gates gs = Some ps"
  shows "holds fs opt (CfgAll ps) \<longleftrightarrow> (\<forall>g \<in> set gs. gate_holds fs opt g)"
    and "\<not> holds fs opt (CfgAll ps) \<longleftrightarrow> (\<exists>g \<in> set gs. gate_fails fs opt g)"
proof -
  have "(\<forall>p \<in> set ps. holds fs opt p) \<longleftrightarrow> (\<forall>g \<in> set gs. gate_holds fs opt g)"
    and "(\<exists>p \<in> set ps. \<not> holds fs opt p) \<longleftrightarrow> (\<exists>g \<in> set gs. gate_fails fs opt g)"
    using assms by (induction gs arbitrary: ps) (auto simp: gate_holds_def gate_fails_def split: option.splits)
  then show "holds fs opt (CfgAll ps) \<longleftrightarrow> (\<forall>g \<in> set gs. gate_holds fs opt g)"
    and "\<not> holds fs opt (CfgAll ps) \<longleftrightarrow> (\<exists>g \<in> set gs. gate_fails fs opt g)" by auto
qed

lemma evaluate_gates_sound:
  assumes "\<forall>key \<in> set NEVER_SET_BY_A_PLAIN_BUILD. \<not> opt key None"
  shows "evaluate_gates i (with_features fs) = CFG_ACTIVE \<Longrightarrow> \<forall>g \<in> set (cfg_gates_in i). gate_holds fs opt g"
    and "evaluate_gates i (with_features fs) = CFG_INACTIVE \<Longrightarrow> \<exists>g \<in> set (cfg_gates_in i). gate_fails fs opt g"
proof -
  let ?v = "evaluate_gates i (with_features fs)"
  have "\<forall>k b. options (with_features fs) k = Some b \<longrightarrow> opt k None = b"
    using assms by (auto simp: with_features_def NEVER_SET_BY_A_PLAIN_BUILD_def split: if_splits)
  note sound = eval_sound[where opt = opt and fs = fs, OF this]
  have distinct: "CFG_UNKNOWN \<noteq> CFG_ACTIVE" "CFG_UNKNOWN \<noteq> CFG_INACTIVE" "CFG_ACTIVE \<noteq> CFG_INACTIVE"
    by (simp_all add: CFG_UNKNOWN_def CFG_ACTIVE_def CFG_INACTIVE_def)
  have feats: "features (with_features fs) = fs" by (simp add: with_features_def)
  show "\<forall>g \<in> set (cfg_gates_in i). gate_holds fs opt g" if v: "?v = CFG_ACTIVE"
  proof -
    from v distinct obtain ps where ps: "parse_gates (cfg_gates_in i) = Some ps" "eval_in (with_features fs) (CfgAll ps) = TrueT"
      by (auto simp: evaluate_gates_def simp del: eval_with.simps split: option.splits truth.splits)
    with sound[of "CfgAll ps"] show ?thesis unfolding parse_gates_holds(1)[OF ps(1), symmetric] by (simp only: eval_in_def feats)
  qed
  show "\<exists>g \<in> set (cfg_gates_in i). gate_fails fs opt g" if v: "?v = CFG_INACTIVE"
  proof -
    from v distinct obtain ps where ps: "parse_gates (cfg_gates_in i) = Some ps" "eval_in (with_features fs) (CfgAll ps) = FalseT"
      by (auto simp: evaluate_gates_def simp del: eval_with.simps split: option.splits truth.splits)
    with sound[of "CfgAll ps"] have "\<not> holds fs opt (CfgAll ps)" unfolding eval_in_def feats by blast
    then show ?thesis by (simp only: parse_gates_holds(2)[OF ps(1)])
  qed
qed

text \<open>
  What the profile column may hold about an item in a build with features \<open>fs\<close>: nothing, or what the indexer
  evaluates for it.
\<close>

definition profile_of_build :: "twin_view \<Rightarrow> string set \<Rightarrow> string \<Rightarrow> bool" where
  "profile_of_build view fs i \<longleftrightarrow>
     active view i \<in> {None, Some CFG_UNKNOWN, Some (evaluate_gates i (with_features fs))}"

lemma verdict_sound:
  assumes "\<forall>p \<in> set (held caller). holds fs opt p"
    and "\<forall>key \<in> set NEVER_SET_BY_A_PLAIN_BUILD. \<not> opt key None"
    and "profile_of_build view fs i"
  shows "verdict view caller i i = Compiled \<Longrightarrow> \<forall>g \<in> set (cfg_gates_in i). gate_holds fs opt g"
    and "verdict view caller i i = NotCompiled \<Longrightarrow> file_compiled_out view i \<or> (\<exists>g \<in> set (item_gates view i). gate_fails fs opt g)"
proof -
  have states: "CFG_UNKNOWN \<noteq> CFG_ACTIVE" "CFG_UNKNOWN \<noteq> CFG_INACTIVE" by (simp_all add: CFG_UNKNOWN_def CFG_ACTIVE_def CFG_INACTIVE_def)
  have on: "\<forall>g \<in> set (cfg_gates_in i). gate_holds fs opt g" if "active view i = Some CFG_ACTIVE"
    using that assms(3) states evaluate_gates_sound(1)[where opt = opt and i = i and fs = fs, OF assms(2)] by (auto simp: profile_of_build_def)
  have off: "\<exists>g \<in> set (cfg_gates_in i). gate_fails fs opt g" if "active view i = Some CFG_INACTIVE"
    using that assms(3) states evaluate_gates_sound(2)[where opt = opt and i = i and fs = fs, OF assms(2)] by (auto simp: profile_of_build_def)
  have below: "set (cfg_gates_in i) \<subseteq> set (item_gates view i)" by (simp add: item_gates_def)
  have implied: "\<forall>g \<in> set (cfg_gates_in i). gate_holds fs opt g"
    if "conjuncts_in_file view i = Some own" "list_all (\<lambda>c. c \<in> set (held caller)) own" for own
    using that assms(1) below gather_holds[of "item_gates view i" "[]" own fs opt]
    by (auto simp: conjuncts_in_file_gather list_all_iff)
  have refuted: "\<exists>g \<in> set (item_gates view i). gate_fails fs opt g"
    if own: "conjuncts_in_file view i = Some own" and neg: "list_ex (\<lambda>c. negation c \<in> set (held caller)) own" for own
  proof -
    from neg assms(1) obtain c where "c \<in> set own" "\<not> holds fs opt c" by (auto simp: list_ex_iff holds_negation[symmetric])
    with own obtain g where g: "g \<in> set (item_gates view i)" "\<not> gate_holds fs opt g"
      using gather_holds[of "item_gates view i" "[]" own fs opt] by (auto simp: conjuncts_in_file_gather)
    moreover have "parse_compact g \<noteq> None"
      using own g(1) gather_parses by (auto simp: conjuncts_in_file_gather)
    ultimately show ?thesis by (auto simp: gate_holds_def gate_fails_def)
  qed
  show "\<forall>g \<in> set (cfg_gates_in i). gate_holds fs opt g" if "verdict view caller i i = Compiled"
    using that on implied by (auto simp: verdict_def Let_def split: option.splits if_splits)
  show "file_compiled_out view i \<or> (\<exists>g \<in> set (item_gates view i). gate_fails fs opt g)"
    if "verdict view caller i i = NotCompiled"
    using that off refuted below by (auto simp: verdict_def file_compiled_out_def Let_def split: option.splits if_splits)
qed

lemma select_twin_Some:
  assumes "select_twin view caller_qn twins = Some t"
  shows "t \<in> set twins" and "verdict view (caller_gates_of view caller_qn) (s_id t) (s_qualified_name t) = Compiled"
    and "u \<in> set twins \<Longrightarrow> u \<noteq> t \<Longrightarrow>
      verdict view (caller_gates_of view caller_qn) (s_id u) (s_qualified_name u) = NotCompiled"
proof -
  let ?v = "\<lambda>twin. verdict view (caller_gates_of view caller_qn) (s_id twin) (s_qualified_name twin)"
  have only: "filter (\<lambda>twin. ?v twin \<noteq> NotCompiled) twins = [t]" and "?v t = Compiled"
    using assms by (auto simp: select_twin_def Let_def split: list.splits if_splits)
  then show "?v t = Compiled" by simp
  have "set (filter (\<lambda>twin. ?v twin \<noteq> NotCompiled) twins) = {t}" by (simp only: only) simp
  then show "t \<in> set twins" and "u \<in> set twins \<Longrightarrow> u \<noteq> t \<Longrightarrow> ?v u = NotCompiled" by auto
qed


definition sample_twins :: "symbol_entry list" where
  "sample_twins = map (\<lambda>i. \<lparr>s_id = i, s_label = ''Function'', s_qualified_name = i\<rparr>)
     [''src/lib.rs::pick#cfg(feature=fast)'', ''src/lib.rs::pick#cfg(not(feature=fast))'']"

definition sample_twin_view :: twin_view where
  "sample_twin_view =
     \<lparr>active = map_of (map (\<lambda>u. (s_id u, evaluate_gates (s_id u) (with_features {''fast''}))) sample_twins),
      cfg_files = Map.empty, gated_callers = {}\<rparr>"


end
