(* ===== verification/Ambiguity_Policy.thy ===== *)
theory Ambiguity_Policy
  imports Process_Trace Complex_Main
begin

text \<open>
  Which of several symbols of one name a call or an import means: \<open>src/ambiguity_policy.rs\<close> (the tiers of
  evidence and the decision) and \<open>src/call_evidence.rs\<close> (the two representations a candidate is tried under).
  A confidence is the exact value of its literal.  A candidate is any value with the name it is matched by.
\<close>

section \<open>Evidence\<close>

datatype evidence =
    UniqueGlobal
  | ReceiverBound
  | ImportMatch
  | ReceiverLocalBinding
  | ReceiverReturnType
  | SameFileUnique
  | PackageProximity
  | MacroExpansion
  | MacroReceiverType
  | CfgSelected

fun confidence_for :: "evidence \<Rightarrow> rat" where
  "confidence_for UniqueGlobal = 95 / 100"
| "confidence_for ReceiverBound = 93 / 100"
| "confidence_for ImportMatch = 9 / 10"
| "confidence_for ReceiverLocalBinding = 87 / 100"
| "confidence_for ReceiverReturnType = 85 / 100"
| "confidence_for SameFileUnique = 85 / 100"
| "confidence_for PackageProximity = 7 / 10"
| "confidence_for MacroExpansion = 85 / 100"
| "confidence_for MacroReceiverType = 8 / 10"
| "confidence_for CfgSelected = 85 / 100"

fun resolution_label :: "evidence \<Rightarrow> string" where
  "resolution_label UniqueGlobal = ''unique-match''"
| "resolution_label ReceiverBound = ''receiver-type''"
| "resolution_label ImportMatch = ''import-scope-lookup''"
| "resolution_label ReceiverLocalBinding = ''receiver-local-binding''"
| "resolution_label ReceiverReturnType = ''receiver-return-type''"
| "resolution_label SameFileUnique = ''same-file-unique''"
| "resolution_label PackageProximity = ''package-proximity''"
| "resolution_label MacroExpansion = ''macro-expansion''"
| "resolution_label MacroReceiverType = ''macro-expansion-receiver-type''"
| "resolution_label CfgSelected = ''cfg-selected''"

datatype 'a resolution = Resolved 'a evidence rat | Ambiguous "'a list" | NotFound

record policy_context =
  imports_in_scope :: "string list"
  caller_file :: string
  caller_package :: "string option"

section \<open>The decision\<close>

definition resolved :: "'a \<Rightarrow> evidence \<Rightarrow> 'a resolution" where
  "resolved target e = Resolved target e (confidence_for e)"

text \<open>The loop of \<open>unique_match\<close>, with \<open>found\<close> as its state.\<close>

fun unique_from :: "('a \<Rightarrow> bool) \<Rightarrow> 'a option \<Rightarrow> 'a list \<Rightarrow> 'a option" where
  "unique_from P found [] = found"
| "unique_from P found (c # cs) =
     (if P c then (if found \<noteq> None then None else unique_from P (Some c) cs) else unique_from P found cs)"

definition unique_match :: "('a \<Rightarrow> bool) \<Rightarrow> 'a list \<Rightarrow> 'a option" where
  "unique_match P cs = unique_from P None cs"

text \<open>\<open>replace("::", "/")\<close> and \<open>replace('.', "/")\<close>.\<close>

definition slash_colons :: "string \<Rightarrow> string" where
  "slash_colons s = join_with ''/'' (split_colons s)"

definition slash_dots :: "string \<Rightarrow> string" where
  "slash_dots s = map (\<lambda>c. if c = CHR ''.'' then CHR ''/'' else c) s"

definition import_matches :: "string \<Rightarrow> string list \<Rightarrow> bool" where
  "import_matches qn imports =
     (let c_segs = slash_colons qn in
      list_ex (\<lambda>imp. let imp_segs = slash_dots (slash_colons imp) in
                 ends_with c_segs imp_segs \<or> ends_with imp_segs c_segs) imports)"

definition resolve :: "('a \<Rightarrow> string) \<Rightarrow> 'a list \<Rightarrow> policy_context \<Rightarrow> 'a resolution" where
  "resolve qn candidates ctx =
     (case candidates of
        [] \<Rightarrow> NotFound
      | [c] \<Rightarrow> resolved c UniqueGlobal
      | _ \<Rightarrow>
          (case unique_match (\<lambda>c. import_matches (qn c) (imports_in_scope ctx)) candidates of
             Some target \<Rightarrow> resolved target ImportMatch
           | None \<Rightarrow>
               (case unique_match (\<lambda>c. starts_with (qn c) (caller_file ctx)) candidates of
                  Some target \<Rightarrow> resolved target SameFileUnique
                | None \<Rightarrow>
                    (case Option.bind (caller_package ctx) (\<lambda>pkg. unique_match (\<lambda>c. starts_with (qn c) pkg) candidates) of
                       Some target \<Rightarrow> resolved target PackageProximity
                     | None \<Rightarrow> Ambiguous candidates))))"

section \<open>Two representations\<close>

definition strip_seq_suffix :: "string \<Rightarrow> string" where
  "strip_seq_suffix qn =
     (case rsplit_once (CHR ''#'') qn of
        Some (before, digits) \<Rightarrow> if digits \<noteq> [] \<and> list_all is_digit digits then before else qn
      | None \<Rightarrow> qn)"

definition bare_name :: "string \<Rightarrow> string" where
  "bare_name qn = strip_seq_suffix (last (split_colons qn))"

record call_evidence =
  imports_hint :: "string list"
  evidence_file :: string

text \<open>A candidate with its key; \<open>map_resolution\<close> forgets the key again.\<close>

definition try_package_pass ::
  "(string \<rightharpoonup> string) \<Rightarrow> ('a \<Rightarrow> string) \<Rightarrow> ('a \<Rightarrow> string) \<Rightarrow> 'a list \<Rightarrow> call_evidence \<Rightarrow> 'a resolution option" where
  "try_package_pass package_of qn_of file_of candidates ev =
     (let keyed = map (\<lambda>c.
            let nm = bare_name (qn_of c) in
            (c, case package_of (file_of c) of Some pkg \<Rightarrow> pkg @ ''::'' @ nm | None \<Rightarrow> nm)) candidates;
          ctx = \<lparr>imports_in_scope = imports_hint ev, caller_file = [], caller_package = None\<rparr>
      in case resolve snd keyed ctx of
           Resolved target e score \<Rightarrow> Some (Resolved (fst target) e score)
         | _ \<Rightarrow> None)"

definition file_pass :: "(string \<rightharpoonup> string) \<Rightarrow> ('a \<Rightarrow> string) \<Rightarrow> 'a list \<Rightarrow> call_evidence \<Rightarrow> 'a resolution" where
  "file_pass package_of qn_of candidates ev =
     (let keyed = map (\<lambda>c. (c, strip_seq_suffix (qn_of c))) candidates;
          ctx = \<lparr>imports_in_scope = imports_hint ev, caller_file = evidence_file ev,
                 caller_package = package_of (evidence_file ev)\<rparr>
      in case resolve snd keyed ctx of
           Resolved target e score \<Rightarrow> Resolved (fst target) e score
         | Ambiguous cs \<Rightarrow> Ambiguous (map fst cs)
         | NotFound \<Rightarrow> NotFound)"

definition resolve_two_pass ::
  "(string \<rightharpoonup> string) \<Rightarrow> ('a \<Rightarrow> string) \<Rightarrow> ('a \<Rightarrow> string) \<Rightarrow> 'a list \<Rightarrow> call_evidence \<Rightarrow> 'a resolution" where
  "resolve_two_pass package_of qn_of file_of candidates ev =
     (case try_package_pass package_of qn_of file_of candidates ev of
        Some r \<Rightarrow> r
      | None \<Rightarrow> file_pass package_of qn_of candidates ev)"

text \<open>\<open>split('<').next()\<close> is the part before the first \<open><\<close>.\<close>

definition callee_path_segments :: "string \<Rightarrow> string list option" where
  "callee_path_segments callee =
     (if \<not> contains callee ''::'' \<or> list_ex (\<lambda>c. c \<in> {CHR ''.'', CHR ''('', CHR ''[''}) callee then None
      else
        let segments = filter (\<lambda>s. s \<noteq> []) (map (takeWhile (\<lambda>c. c \<noteq> CHR ''<'')) (split_colons callee)) in
        if 2 \<le> length segments then Some segments else None)"

definition callee_names_type :: "string \<Rightarrow> string option" where
  "callee_names_type callee = map_option (\<lambda>segments. segments ! (length segments - 2)) (callee_path_segments callee)"

section \<open>What the decision depends on\<close>

lemma unique_from_filter:
  "unique_from P found cs =
     (case (found, filter P cs) of (None, [c]) \<Rightarrow> Some c | (Some c, []) \<Rightarrow> Some c | _ \<Rightarrow> None)"
  by (induction P found cs rule: unique_from.induct) (auto split: option.splits list.splits)

lemma unique_match_filter: "unique_match P cs = (case filter P cs of [c] \<Rightarrow> Some c | _ \<Rightarrow> None)"
  by (simp add: unique_match_def unique_from_filter)

lemma unique_match_Some: "unique_match P cs = Some c \<longleftrightarrow> filter P cs = [c]"
  by (auto simp: unique_match_filter split: list.splits)

lemma unique_match_mset:
  assumes "mset xs = mset ys"
  shows "unique_match P xs = unique_match P ys"
proof -
  have "mset (filter P xs) = mset (filter P ys)" using assms by simp
  then show ?thesis
    unfolding unique_match_filter
    by (cases "filter P xs" rule: remdups_adj.cases; cases "filter P ys" rule: remdups_adj.cases) auto
qed

text \<open>Two decisions that differ at most in the order in which an ambiguity lists its candidates.\<close>

fun same_resolution :: "'a resolution \<Rightarrow> 'a resolution \<Rightarrow> bool" where
  "same_resolution (Ambiguous xs) (Ambiguous ys) \<longleftrightarrow> mset xs = mset ys"
| "same_resolution r s \<longleftrightarrow> r = s"

text \<open>The tiers of \<open>resolve\<close> for two or more candidates, from the strongest down.\<close>

definition tiers :: "('a \<Rightarrow> string) \<Rightarrow> policy_context \<Rightarrow> (evidence \<times> ('a \<Rightarrow> bool)) list" where
  "tiers qn ctx =
     [(ImportMatch, \<lambda>c. import_matches (qn c) (imports_in_scope ctx)),
      (SameFileUnique, \<lambda>c. starts_with (qn c) (caller_file ctx))] @
     (case caller_package ctx of None \<Rightarrow> [] | Some pkg \<Rightarrow> [(PackageProximity, \<lambda>c. starts_with (qn c) pkg)])"

fun first_tier :: "(evidence \<times> ('a \<Rightarrow> bool)) list \<Rightarrow> 'a list \<Rightarrow> 'a resolution" where
  "first_tier [] cs = Ambiguous cs"
| "first_tier ((e, P) # ts) cs = (case filter P cs of [c] \<Rightarrow> resolved c e | _ \<Rightarrow> first_tier ts cs)"

lemma resolve_by_tiers:
  "resolve qn cs ctx =
     (if cs = [] then NotFound else if length cs = 1 then resolved (hd cs) UniqueGlobal else first_tier (tiers qn ctx) cs)"
proof (cases cs rule: remdups_adj.cases)
  case (3 x y xs)
  have single: "(case xs of [c] \<Rightarrow> f c | _ \<Rightarrow> d) = (case (case xs of [c] \<Rightarrow> Some c | _ \<Rightarrow> None) of Some c \<Rightarrow> f c | None \<Rightarrow> d)"
    for xs :: "'a list" and f and d :: "'a resolution" by (cases xs rule: remdups_adj.cases) simp_all
  show ?thesis
    unfolding resolve_def tiers_def 3
    by (simp add: unique_match_filter single del: filter.simps split: option.splits)
qed (simp_all add: resolve_def)

lemma first_tier_mset:
  assumes "mset xs = mset ys"
  shows "same_resolution (first_tier ts xs) (first_tier ts ys)"
proof (induction ts)
  case Nil
  then show ?case using assms by simp
next
  case (Cons t ts)
  obtain e P where t: "t = (e, P)" by fastforce
  have "mset (filter P xs) = mset (filter P ys)" using assms by simp
  then show ?case using Cons
    by (cases "filter P xs" rule: remdups_adj.cases; cases "filter P ys" rule: remdups_adj.cases) (auto simp: t resolved_def)
qed

text \<open>
  C16: The decision depends on the candidates and the evidence only.  However the candidates are ordered, the same
  one is resolved with the same evidence and confidence, or the same ones are reported as ambiguous.
\<close>

theorem resolve_ignores_the_order:
  assumes "mset xs = mset ys"
  shows "same_resolution (resolve qn xs ctx) (resolve qn ys ctx)"
proof -
  have len: "length xs = length ys" using assms by (rule mset_eq_length)
  show ?thesis
  proof (cases xs rule: remdups_adj.cases)
    case 1
    with assms show ?thesis by (simp add: resolve_by_tiers)
  next
    case (2 x)
    with assms have "ys = [x]" by simp
    with 2 show ?thesis by (simp add: resolve_by_tiers resolved_def)
  next
    case (3 x x' xs')
    with len have "xs \<noteq> []" "ys \<noteq> []" "length xs \<noteq> 1" "length ys \<noteq> 1" by auto
    then show ?thesis using first_tier_mset[OF assms] by (simp add: resolve_by_tiers)
  qed
qed

definition sample_context :: policy_context where
  "sample_context = \<lparr>imports_in_scope = [''b::f''], caller_file = ''src/main.rs'', caller_package = Some ''src''\<rparr>"

lemma resolve_ignores_the_order_witness:
  "same_resolution (resolve id [''src/a.rs::f'', ''src/b::f''] sample_context) (resolve id [''src/b::f'', ''src/a.rs::f''] sample_context) \<and>
   resolve id [''src/a.rs::f'', ''src/b::f''] sample_context = Resolved ''src/b::f'' ImportMatch (9 / 10)"
proof -
  have "resolve id [''src/a.rs::f'', ''src/b::f''] sample_context = Resolved ''src/b::f'' ImportMatch (9 / 10)" by code_simp
  moreover have "mset [''src/a.rs::f'', ''src/b::f''] = mset [''src/b::f'', ''src/a.rs::f'']" by simp
  ultimately show ?thesis using resolve_ignores_the_order[of _ _ id sample_context] by blast
qed

text \<open>Every resolved target is a candidate, alone in its tier, and no stronger tier singles one out.\<close>

lemma first_tier_Resolved:
  "first_tier ts cs = Resolved t e c \<Longrightarrow>
   \<exists>stronger P weaker. ts = stronger @ (e, P) # weaker \<and> filter P cs = [t] \<and> c = confidence_for e \<and>
     list_all (\<lambda>(_, Q). length (filter Q cs) \<noteq> 1) stronger"
proof (induction ts)
  case (Cons tier ts)
  obtain e' P where tier: "tier = (e', P)" by fastforce
  show ?case
  proof (cases "\<exists>c'. filter P cs = [c']")
    case True
    then obtain c' where "filter P cs = [c']" ..
    with Cons.prems have "filter P cs = [t] \<and> c = confidence_for e \<and> e' = e" by (auto simp: tier resolved_def)
    then show ?thesis by (intro exI[of _ "[]"] exI[of _ P] exI[of _ ts]) (simp add: tier)
  next
    case False
    then have "first_tier ts cs = Resolved t e c" and "length (filter P cs) \<noteq> 1"
      using Cons.prems by (cases "filter P cs" rule: remdups_adj.cases; auto simp: tier)+
    with Cons.IH obtain stronger Q weaker where "ts = stronger @ (e, Q) # weaker" "filter Q cs = [t]" "c = confidence_for e"
      "list_all (\<lambda>(_, Q). length (filter Q cs) \<noteq> 1) stronger" by blast
    with \<open>length (filter P cs) \<noteq> 1\<close> show ?thesis
      by (intro exI[of _ "tier # stronger"] exI[of _ Q] exI[of _ weaker]) (simp add: tier)
  qed
qed simp

text \<open>
  C17: The decision uses the strongest evidence there is.  Of two or more candidates a resolved one is the only one
  its tier admits, no stronger tier admits exactly one, the confidence is that of the tier, and every weaker tier
  has a lower confidence.
\<close>

theorem resolve_takes_the_strongest_evidence:
  assumes "resolve qn cs ctx = Resolved t e c" and "2 \<le> length cs"
  shows "\<exists>stronger P weaker. tiers qn ctx = stronger @ (e, P) # weaker \<and> filter P cs = [t] \<and>
    c = confidence_for e \<and> (\<forall>w \<in> set weaker. confidence_for (fst w) < c) \<and>
    (\<forall>s \<in> set stronger. c < confidence_for (fst s) \<and> length (filter (snd s) cs) \<noteq> 1)"
proof -
  have "cs \<noteq> []" "length cs \<noteq> 1" using assms(2) by auto
  with assms(1) have "first_tier (tiers qn ctx) cs = Resolved t e c" by (simp add: resolve_by_tiers)
  from first_tier_Resolved[OF this] obtain stronger P weaker where split: "tiers qn ctx = stronger @ (e, P) # weaker"
    and rest: "filter P cs = [t]" "c = confidence_for e" "list_all (\<lambda>(_, Q). length (filter Q cs) \<noteq> 1) stronger" by blast
  have "sorted_wrt (\<lambda>x y. confidence_for (fst y) < confidence_for (fst x)) (tiers qn ctx)"
    by (auto simp: tiers_def split: option.splits)
  then have "(\<forall>w \<in> set weaker. confidence_for (fst w) < c) \<and> (\<forall>s \<in> set stronger. c < confidence_for (fst s))"
    by (auto simp: split sorted_wrt_append rest(2))
  with split rest show ?thesis by (fastforce simp: list_all_iff)
qed

lemma resolve_takes_the_strongest_evidence_witness:
  "\<exists>stronger P weaker. tiers id sample_context = stronger @ (ImportMatch, P) # weaker \<and>
     filter P [''src/a.rs::f'', ''src/b::f''] = [''src/b::f'']"
proof -
  have two: "2 \<le> length [''src/a.rs::f'', ''src/b::f'']" by simp
  have "resolve id [''src/a.rs::f'', ''src/b::f''] sample_context = Resolved ''src/b::f'' ImportMatch (9 / 10)" by code_simp
  from resolve_takes_the_strongest_evidence[OF this two] show ?thesis by blast
qed

section \<open>The package pass\<close>

lemma filter_same:
  assumes "\<forall>x \<in> set xs. \<forall>y \<in> set xs. P x = P y" and "2 \<le> length xs"
  shows "length (filter P xs) \<noteq> 1"
proof (cases "\<exists>x \<in> set xs. P x")
  case True
  with assms(1) have "\<forall>x \<in> set xs. P x" by blast
  then have "filter P xs = xs" by simp
  with assms(2) show ?thesis by simp
next
  case False
  then have "filter P xs = []" by (simp add: filter_empty_conv)
  then show ?thesis by simp
qed

lemma first_tier_undecided:
  "\<forall>tier \<in> set ts. length (filter (snd tier) cs) \<noteq> 1 \<Longrightarrow> first_tier ts cs = Ambiguous cs"
proof (induction ts)
  case (Cons t ts)
  then show ?case by (cases t; cases "filter (snd t) cs" rule: remdups_adj.cases) auto
qed simp

text \<open>
  Where no file of a candidate has a package, the package pass decides nothing.  Two or more candidates of one
  bare name get the same key there, so the two passes give exactly what the pass over the files gives alone.
\<close>

theorem package_pass_is_inert_without_packages:
  assumes "\<forall>c \<in> set cs. package_of (file_of c) = None \<and> bare_name (qn_of c) = nm" and "2 \<le> length cs"
  shows "resolve_two_pass package_of qn_of file_of cs ev = file_pass package_of qn_of cs ev"
proof -
  define keyed where "keyed = map (\<lambda>c. let nm = bare_name (qn_of c) in
      (c, case package_of (file_of c) of Some pkg \<Rightarrow> pkg @ ''::'' @ nm | None \<Rightarrow> nm)) cs"
  let ?ctx = "\<lparr>imports_in_scope = imports_hint ev, caller_file = [], caller_package = None\<rparr>"
  have keys: "\<forall>k \<in> set keyed. snd k = nm" and len: "2 \<le> length keyed"
    using assms by (simp_all add: keyed_def Let_def)
  have same: "length (filter (\<lambda>k. Q (snd k)) keyed) \<noteq> 1" for Q
    by (rule filter_same) (use keys len in simp_all)
  have "\<forall>tier \<in> set (tiers snd ?ctx). length (filter (snd tier) keyed) \<noteq> 1"
    using same[of "\<lambda>q. import_matches q (imports_hint ev)"] same[of "\<lambda>q. starts_with q []"]
    by (simp add: tiers_def del: One_nat_def starts_with.simps)
  then have "first_tier (tiers snd ?ctx) keyed = Ambiguous keyed" by (rule first_tier_undecided)
  moreover have "keyed \<noteq> []" "length keyed \<noteq> 1" using len by auto
  ultimately have "resolve snd keyed ?ctx = Ambiguous keyed" by (simp only: resolve_by_tiers) simp
  then have "try_package_pass package_of qn_of file_of cs ev = None"
    by (simp add: try_package_pass_def keyed_def[symmetric])
  then show ?thesis by (simp add: resolve_two_pass_def)
qed

definition sample_evidence :: call_evidence where
  "sample_evidence = \<lparr>imports_hint = [], evidence_file = ''src/a.rs''\<rparr>"

lemma package_pass_is_inert_without_packages_witness:
  "resolve_two_pass Map.empty id (\<lambda>q. ''src/a.rs'') [''src/a.rs::f'', ''src/b.rs::f#2''] sample_evidence =
   Resolved ''src/a.rs::f'' SameFileUnique (85 / 100)"
proof -
  have names: "\<forall>c \<in> set [''src/a.rs::f'', ''src/b.rs::f#2'']. (Map.empty :: string \<rightharpoonup> string) ''src/a.rs'' = None \<and> bare_name (id c) = ''f''"
    by code_simp
  have "file_pass Map.empty id [''src/a.rs::f'', ''src/b.rs::f#2''] sample_evidence = Resolved ''src/a.rs::f'' SameFileUnique (85 / 100)"
    by code_simp
  then show ?thesis
    using package_pass_is_inert_without_packages[where ev = sample_evidence and qn_of = id and file_of = "\<lambda>q. ''src/a.rs''" and package_of = Map.empty, OF names] by simp
qed

text \<open>
  The comment on \<open>import_matches\<close> speaks of a suffix of path segments; the comparison is of texts, so an import
  that ends in the middle of a segment singles a candidate out.
\<close>

lemma import_matches_inside_a_segment:
  "resolve id [''src/a.rs::catalog'', ''src/b.rs::f''] \<lparr>imports_in_scope = [''log''], caller_file = ''src/m.rs'', caller_package = None\<rparr> =
   Resolved ''src/a.rs::catalog'' ImportMatch (9 / 10)"
  by code_simp

end
