(* ===== verification/Spec2Isabelle.thy ===== *)
theory Spec2Isabelle
  imports Index_Coverage Mod_Decls Incremental_Graph Cfg_Compact Query_Paging Search_Ranking Finding_Index Session_Run Semantic_Diff Git_Diff Zera Lsp_Client Cluster_Graph Cfg_Twins Ambiguity_Policy
begin

text \<open>
  A verification development for \<open>ai-architect-mcp-codebase\<close>, an MCP server that indexes a repository
  into a graph of symbols and answers questions about it.  Paths below are under \<open>src/\<close> of the crate.

  \<^bold>\<open>The program and its parts.\<close>  A tool call reaches a handler; the handler validates identifiers and
  paths, opens the graph of a repository and runs one of the subsystems.  Indexing walks the files,
  compares them with the manifest of the last run, purges and parses what changed and reports what it could
  not cover; for Rust it follows the module trees of Cargo to tell which files the default features compile
  out, reading \<open>#[cfg]\<close> predicates on the way.  The graph is written through typed rows and read through
  Cypher, the queries of a client behind a lexical read-only gate, a row limit and a budget for the size of
  the answer.  On the graph work the clustering into communities, the tracing of processes from entry
  points, the semantic comparison of two snapshots, the mapping of a diff to symbols and the ranking of search
  hits.  A language server can be asked for definitions.  Findings pass through stages, the last of which is a
  verification dialogue kept in session files.  The crate \<open>zera\<close> compresses graphs.

  \<^bold>\<open>Theories and code.\<close>
  \<^item> \<open>Rust_Base\<close>, \<open>Utf8\<close>: the prelude.  Strings as lists of bytes, the string functions of the standard
    library, results as sums, UTF-8, and the interfaces \<open>codec\<close> (a text that is read back) and \<open>stream_codec\<close>
    (a self-delimiting text), of which every encoder of the development is an interpretation.
  \<^item> \<open>Cfg_Lex\<close>, \<open>Cfg_Expr\<close>, \<open>Cfg_Compact\<close>: \<open>parser/cfg_lex.rs\<close>, \<open>cfg_expr.rs\<close>, \<open>cfg_compact.rs\<close>.  Lexer,
    recursive-descent parser, three-valued evaluation, canonical form and its text.  The lemmas show that
    evaluation is sound for every build a profile describes, that canonical text reads back (interpretation
    \<open>cfg_text\<close>) and that equal texts mean equal gates.
  \<^item> \<open>Read_Gate\<close>, \<open>Query_Limits\<close>, \<open>Response_Budget\<close>, \<open>Query_Paging\<close>: \<open>query_handlers/read_only_gate.rs\<close>,
    \<open>query_handlers.rs\<close>, \<open>response_budget.rs\<close>.  The mask of comments and literals is described by an inductive
    shape of the query, unique for each query; the gate is characterised over it, the rewriting of \<open>LIMIT\<close> keeps
    a query admitted, and the pages a client follows (locale \<open>pager\<close>, interpretation \<open>vals\<close>) give every row once.
  \<^item> \<open>Civil_Time\<close>, \<open>Stage_Util\<close>, \<open>Finding_Index\<close>: \<open>handler_util.rs\<close>, \<open>atomic_file.rs\<close>, \<open>finding_index.rs\<close>.  Time
    stamps against stepping through the calendar, identifiers and confined paths, the merge of the stages.
  \<^item> \<open>Session_Core\<close>, \<open>Session_Ops\<close>, \<open>Session_Effects\<close>, \<open>Session_Invariant\<close>, \<open>Session_Run\<close>:
    \<open>verification_core.rs\<close>, \<open>verification_ops.rs\<close>.  The four handlers with each write in order, over a world that
    may refuse any write; restarts are steps.  The invariant of the files, the refinement of an abstract state
    machine, the receipt behind every finalized session, and a complete dialogue.
  \<^item> \<open>Tarjan_Scc\<close>, \<open>Semantic_Diff\<close>: \<open>semantic_diff.rs\<close>.  The iterative strongly-connected-components algorithm
    over an explicit work stack (\<open>while_option\<close>, with a proof that it returns), snapshots, differences and verdict.
  \<^item> \<open>Git_Diff\<close>: \<open>git_diff.rs\<close>.  The parser of unified diffs against a writer, quoting of values, risk.
  \<^item> \<open>Zera\<close>: \<open>crates/zera\<close>.  The hashed content as a stream of self-delimiting fields, the codebook, the grammar
    that folds paired edges.
  \<^item> \<open>Lsp_Uri\<close>, \<open>Lsp_Protocol\<close>, \<open>Lsp_Readiness\<close>, \<open>Lsp_Client\<close>: \<open>lsp_client.rs\<close> and \<open>lsp_client/\<close>.  Framing
    (interpretation \<open>frames\<close>), the waiting for a server on frames with times, requests and their answers.
  \<^item> \<open>Graph_Schema\<close>, \<open>Graph_Store\<close>: \<open>graph_store/schema.rs\<close>, \<open>columns.rs\<close>, \<open>ddl.rs\<close>, \<open>serialize.rs\<close>, \<open>writes.rs\<close>
    and the statement cache of \<open>graph_store/mod.rs\<close>.  The tables of the schema as data, rows typed by them, and
    the writes as actions on an engine that may fail.
  \<^item> \<open>Louvain\<close>, \<open>Community_Repair\<close>, \<open>Process_Trace\<close>, \<open>Cluster_Graph\<close>: \<open>clustering/\<close>.  Louvain's local moves
    with their gain, the repair into connected pieces, entry points and breadth-first call chains, and the tool
    that runs them and stores what they find.
  \<^item> \<open>Change_Plan\<close>, \<open>Incremental_Graph\<close>, \<open>Index_Coverage\<close>: \<open>indexer/manifest.rs\<close>, \<open>indexer/incremental/\<close>,
    \<open>indexer/coverage.rs\<close>, \<open>indexer/cargo_attribution.rs\<close>.  The classification of the files by the manifest or by
    git, the purge and the order of the passes over the graph, and the coverage report, full and merged.
  \<^item> \<open>Worklist\<close>, \<open>Cargo_Modules\<close>, \<open>Module_Walks\<close>, \<open>Mod_Decls\<close>: \<open>indexer/cargo_features.rs\<close>,
    \<open>cargo_targets.rs\<close>, \<open>feature_gated.rs\<close>, \<open>target_context.rs\<close>, \<open>file_scope.rs\<close>, \<open>rust_mod_decls.rs\<close>.  The walks are
    instances of one loop with a stack of pending items.
  \<^item> \<open>Cfg_Twins\<close>: \<open>graph_store/cfg_twins.rs\<close>, \<open>cfg_active.rs\<close>, \<open>language_provider/file_prefix.rs\<close>,
    \<open>indexer/cfg_active.rs\<close>, \<open>resolver/cfg_verdict.rs\<close>, \<open>cfg_twins.rs\<close>, \<open>cfg_select.rs\<close>.  Items of one name under
    exclusive gates: ids that carry gates are read back, and the twin chosen for a call is the one that every build
    of the caller compiles.
  \<^item> \<open>Ambiguity_Policy\<close>: \<open>ambiguity_policy.rs\<close>, \<open>call_evidence.rs\<close>.  The tiers of evidence between candidates of
    one name, independent of their order.

  \<^bold>\<open>Conventions.\<close>  A struct is a \<open>record\<close>, an enum a \<open>datatype\<close>, a fallible function returns an option or a
  sum with the error on the left of \<open>result\<close>.  Machine integers that can wrap are words (\<open>Stage_Util\<close>,
  \<open>Query_Limits\<close>, \<open>Zera\<close>, \<open>Graph_Store\<close>); counters bounded by the size of the input are naturals or integers.
  Floating-point scores are exact rationals or reals, so rounding is outside the development.  A hash map that is
  only looked up is a function to options; where its order reaches a result, the order is a parameter.

  \<^bold>\<open>Parameters.\<close>  What is not in the repository is an argument: the graph database, git, the file system and the
  writes it may refuse, \<open>serde_json\<close>, SHA-256, BLAKE3, the clock and random seeds, tree-sitter, the language server,
  Unicode's table of alphanumerics.  The hypotheses about them (a parser reads back what its writer wrote, a digest
  has its length, the statements of the purge delete the rows they match) are named predicates, and each property
  that rests on one has a witness with a concrete function in its place.

  \<^bold>\<open>Loops, bounds and fuel.\<close>  Structural loops are \<open>fun\<close>; the parsers carry the nesting bound of the source; Tarjan
  is a \<open>while_option\<close> with a measure over the unvisited nodes and the work stacks; the module walks are
  \<open>partial_function (option)\<close>, so that a walk without end is \<open>None\<close>, and returning is proved: the feature walk on
  every input, the module-path walk on acyclic declarations, with an example on which it does not return.
  Louvain's passes are bounded by the constant of the source; a breadth-first search by the depth constant.

  \<^bold>\<open>Not modelled.\<close>  Code whose content is the tree of a third-party parser or the index of a third-party crate
  (symbol extraction, macro expansion, BM25 and vectors, YAML), the life of database files and processes, JSON
  schemas, prompts, command-line and host configuration, the assembly of JSON responses, heuristics over prose
  (requirements, documentation claims), and the rules of the resolver that gather candidates for each language.  Elapsed times, lines on standard error and the texts of messages are left out
  of results.
\<close>

end
